(* ===== verification/Sim_Prelude.thy ===== *)
theory Sim_Prelude
  imports Complex_Main "HOL-Library.Word" "HOL-Library.Multiset"
begin

text \<open>
  Shared vocabulary of the development: the machine integers of the code, its
  errors as values, vector accesses that can leave the vector, and the few facts
  on lists, words and results that every component uses.

  \<^item> \<open>u64\<close> is \<open>uint64_t\<close>, \<open>std::size_t\<close> and \<open>node_id_t\<close>: arithmetic wraps.
  \<^item> \<open>'a res\<close> is the outcome of code that may fail: \<open>Inl\<close> carries a thrown
    exception (\<open>Runtime_Error\<close> with its text, \<open>Out_Of_Range\<close> for \<open>map::at\<close>) or
    a point where the C++ has no defined behaviour (\<open>UB\<close>), \<open>Inr\<close> the value. \<open>No_Return\<close> is
    no outcome of the C++: it says that the fuel given to a loop ran out. \<open>Exit\<close> is the end of
    the program with a status.
  \<^item> a \<open>std::vector\<close> is a list; its positions and lengths are natural numbers.
\<close>

named_theorems res_simps \<open>rewriting of sequenced results\<close>
named_theorems frame_simps \<open>fields an operation leaves alone\<close>
named_theorems inv_intros \<open>operations preserve the component's invariant\<close>

type_synonym u64 = "64 word"
type_synonym node_id = u64

datatype exn = Runtime_Error string | Out_Of_Range | UB string | No_Return | Exit int

type_synonym 'a res = "exn + 'a"

subsection \<open>Sequencing results\<close>

definition bind_res :: "'a res \<Rightarrow> ('a \<Rightarrow> 'b res) \<Rightarrow> 'b res" where
  "bind_res m f = (case m of Inl e \<Rightarrow> Inl e | Inr x \<Rightarrow> f x)"

lemma bind_res_Inl [simp, res_simps]: "bind_res (Inl e) f = Inl e"
  by (simp add: bind_res_def)

lemma bind_res_Inr [simp, res_simps]: "bind_res (Inr x) f = f x"
  by (simp add: bind_res_def)

lemma bind_res_Inr_right [simp]: "bind_res m Inr = m"
  by (simp add: bind_res_def split: sum.split)

lemma bind_res_assoc [res_simps]:
  "bind_res (bind_res m f) g = bind_res m (\<lambda>x. bind_res (f x) g)"
  by (simp add: bind_res_def split: sum.split)

lemma bind_res_eq_Inr [res_simps]:
  "bind_res m f = Inr y \<longleftrightarrow> (\<exists>x. m = Inr x \<and> f x = Inr y)"
  by (cases m) auto

lemma bind_res_cong [fundef_cong]:
  "m = m' \<Longrightarrow> (\<And>x. m' = Inr x \<Longrightarrow> f x = g x) \<Longrightarrow> bind_res m f = bind_res m' g"
  by (cases m') auto

text \<open>Statements executed for each element of a list, left to right, stopping at an error.\<close>

primrec fold_res :: "('x \<Rightarrow> 's \<Rightarrow> 's res) \<Rightarrow> 'x list \<Rightarrow> 's \<Rightarrow> 's res" where
  "fold_res f [] s = Inr s"
| "fold_res f (x # xs) s = bind_res (f x s) (fold_res f xs)"

lemma fold_res_Nil [simp]: "fold_res f [] = Inr"
  by (rule ext) simp

lemma fold_res_append:
  "fold_res f (xs @ ys) s = bind_res (fold_res f xs s) (fold_res f ys)"
  by (induction xs arbitrary: s) (simp_all add: bind_res_def split: sum.split)

lemma fold_res_invariant:
  assumes "\<And>x s s'. x \<in> set xs \<Longrightarrow> P s \<Longrightarrow> f x s = Inr s' \<Longrightarrow> P s'"
    and "P s" and "fold_res f xs s = Inr s'"
  shows "P s'"
  using assms
proof (induction xs arbitrary: s)
  case (Cons x xs)
  then obtain t where "f x s = Inr t" "fold_res f xs t = Inr s'"
    by (auto simp: res_simps)
  with Cons show ?case by (metis list.set_intros)
qed simp

subsection \<open>Actions on a world\<close>

text \<open>
  Code whose effects outlive an exception: an action turns a world into the world it leaves
  and the exception it ended with, if any. \<open>catch_std\<close> is \<open>catch (std::exception& e)\<close>, which
  neither undefined behaviour nor a loop that does not end can reach.
\<close>

type_synonym 'w act = "'w \<Rightarrow> 'w \<times> exn option"

definition ok_act :: "('w \<Rightarrow> 'w) \<Rightarrow> 'w act" where
  "ok_act f w = (f w, None)"

definition throw_act :: "exn \<Rightarrow> 'w act" where
  "throw_act e w = (w, Some e)"

definition seq_act :: "'w act \<Rightarrow> 'w act \<Rightarrow> 'w act" where
  "seq_act a b w = (case a w of (w', None) \<Rightarrow> b w' | (w', Some e) \<Rightarrow> (w', Some e))"

primrec each_act :: "('x \<Rightarrow> 'w act) \<Rightarrow> 'x list \<Rightarrow> 'w act" where
  "each_act f [] = ok_act id"
| "each_act f (x # xs) = seq_act (f x) (each_act f xs)"

definition catchable :: "exn \<Rightarrow> bool" where
  "catchable e \<longleftrightarrow> (case e of Runtime_Error _ \<Rightarrow> True | Out_Of_Range \<Rightarrow> True | _ \<Rightarrow> False)"

definition catch_std :: "'w act \<Rightarrow> 'w act" where
  "catch_std a w =
     (case a w of (w', None) \<Rightarrow> (w', None) | (w', Some e) \<Rightarrow> (w', if catchable e then None else Some e))"

lemma seq_act_inv:
  assumes "\<And>w. P w \<Longrightarrow> P (fst (a w))" "\<And>w. P w \<Longrightarrow> P (fst (b w))" "P w"
  shows "P (fst (seq_act a b w))"
  using assms by (auto simp: seq_act_def split: prod.split option.split) (metis fst_conv)+

lemma each_act_inv:
  assumes "\<And>x w. x \<in> set xs \<Longrightarrow> P w \<Longrightarrow> P (fst (f x w))" "P w"
  shows "P (fst (each_act f xs w))"
  using assms
proof (induction xs arbitrary: w)
  case (Cons x xs)
  then show ?case unfolding each_act.simps by (intro seq_act_inv [where P = P]) auto
qed (simp add: ok_act_def)

lemma catch_std_fst [simp]: "fst (catch_std a w) = fst (a w)"
  by (simp add: catch_std_def split: prod.split option.split)

subsection \<open>Effects with a result\<close>

text \<open>
  Code that changes a state and returns a value or fails; what it changed before it failed
  stays. An action is an effect without a value.
\<close>

type_synonym ('w, 'a) eff = "'w \<Rightarrow> 'w \<times> 'a res"

definition ret_eff :: "'a \<Rightarrow> ('w, 'a) eff" where
  "ret_eff x w = (w, Inr x)"

definition bind_eff :: "('w, 'a) eff \<Rightarrow> ('a \<Rightarrow> ('w, 'b) eff) \<Rightarrow> ('w, 'b) eff" where
  "bind_eff m f w = (case m w of (w', Inl e) \<Rightarrow> (w', Inl e) | (w', Inr x) \<Rightarrow> f x w')"

definition res_eff :: "'a res \<Rightarrow> ('w, 'a) eff" where
  "res_eff r w = (w, r)"

definition get_eff :: "('w \<Rightarrow> 'a) \<Rightarrow> ('w, 'a) eff" where
  "get_eff f w = (w, Inr (f w))"

definition mod_eff :: "('w \<Rightarrow> 'w) \<Rightarrow> ('w, unit) eff" where
  "mod_eff f w = (f w, Inr ())"

definition act_eff :: "'w act \<Rightarrow> ('w, unit) eff" where
  "act_eff a w = (case a w of (w', None) \<Rightarrow> (w', Inr ()) | (w', Some e) \<Rightarrow> (w', Inl e))"

definition eff_act :: "('w, 'a) eff \<Rightarrow> 'w act" where
  "eff_act m w = (case m w of (w', Inr x) \<Rightarrow> (w', None) | (w', Inl e) \<Rightarrow> (w', Some e))"

primrec each_eff :: "('x \<Rightarrow> ('w, 'a) eff) \<Rightarrow> 'x list \<Rightarrow> ('w, unit) eff" where
  "each_eff f [] = ret_eff ()"
| "each_eff f (x # xs) = bind_eff (f x) (\<lambda>_. each_eff f xs)"

lemma bind_eff_Inr: "m w = (w', Inr x) \<Longrightarrow> bind_eff m f w = f x w'"
  by (simp add: bind_eff_def)

lemma bind_ret_eff [simp, res_simps]: "bind_eff (ret_eff x) f = f x"
  by (rule ext) (simp add: bind_eff_def ret_eff_def)

lemma bind_get_eff [simp, res_simps]: "bind_eff (get_eff g) f w = f (g w) w"
  by (simp add: bind_eff_def get_eff_def)

lemma bind_mod_eff [simp, res_simps]: "bind_eff (mod_eff g) f w = f () (g w)"
  by (simp add: bind_eff_def mod_eff_def)

lemma bind_res_eff [simp, res_simps]: "bind_eff (res_eff (Inr x)) f = f x" "bind_eff (res_eff (Inl e)) f w = (w, Inl e)"
  by (auto simp: bind_eff_def res_eff_def)

lemma ret_eff_apply [simp, res_simps]: "ret_eff x w = (w, Inr x)"
  by (simp add: ret_eff_def)

lemma bind_eff_assoc [res_simps]: "bind_eff (bind_eff m f) g = bind_eff m (\<lambda>x. bind_eff (f x) g)"
  by (rule ext) (simp add: bind_eff_def split: prod.split sum.split)

text \<open>An invariant of the parts is an invariant of the whole, however it ends.\<close>

lemma bind_eff_inv:
  assumes "\<And>w. P w \<Longrightarrow> P (fst (m w))" "\<And>x w. P w \<Longrightarrow> P (fst (f x w))" "P w"
  shows "P (fst (bind_eff m f w))"
  using assms(1) [OF assms(3)] assms(2)
  by (cases "m w"; cases "snd (m w)") (simp_all add: bind_eff_def)

lemma each_eff_inv:
  assumes "\<And>x w. x \<in> set xs \<Longrightarrow> P w \<Longrightarrow> P (fst (f x w))" "P w"
  shows "P (fst (each_eff f xs w))"
  using assms
proof (induction xs arbitrary: w)
  case (Cons x xs)
  then show ?case unfolding each_eff.simps by (intro bind_eff_inv [where P = P]) auto
qed simp

lemma eff_act_fst [simp]: "fst (eff_act m w) = fst (m w)"
  by (simp add: eff_act_def split: prod.split sum.split)

lemma act_eff_fst [simp]: "fst (act_eff a w) = fst (a w)"
  by (simp add: act_eff_def split: prod.split option.split)

subsection \<open>Vector accesses\<close>

text \<open>\<open>v[i]\<close>: out of range, the C++ has no defined behaviour.\<close>

definition vec_get :: "'a list \<Rightarrow> nat \<Rightarrow> 'a res" where
  "vec_get xs i = (if i < length xs then Inr (xs ! i) else Inl (UB ''vector index''))"

lemma vec_get_ok [simp]: "i < length xs \<Longrightarrow> vec_get xs i = Inr (xs ! i)"
  by (simp add: vec_get_def)

lemma vec_get_Inr [res_simps]: "vec_get xs i = Inr x \<longleftrightarrow> i < length xs \<and> xs ! i = x"
  by (auto simp: vec_get_def)

subsection \<open>Facts on words\<close>

lemma unat_add_no_wrap:
  fixes a b :: u64
  assumes "unat a + unat b < 2 ^ 64"
  shows "unat (a + b) = unat a + unat b"
  using assms by (simp add: unat_word_ariths)

lemma unat_sub_le:
  fixes a b :: u64
  assumes "b \<le> a"
  shows "unat (a - b) = unat a - unat b"
  using assms by (simp add: unat_sub)

lemma unat_of_nat_u64: "n < 2 ^ 64 \<Longrightarrow> unat (of_nat n :: u64) = n"
  by (simp add: unat_of_nat take_bit_nat_eq_self)

lemma unat_of_int_u64:
  assumes "0 \<le> z" "z < 2 ^ 64"
  shows "unat (of_int z :: u64) = nat z"
proof -
  have "(of_int z :: u64) = of_nat (nat z)" using assms(1) by simp
  moreover have "nat z < 2 ^ 64" using assms by (simp add: nat_less_iff)
  ultimately show ?thesis by (simp only: unat_of_nat_u64)
qed

lemma unat_2p:
  assumes "n < 64"
  shows "unat (2 ^ n :: u64) = 2 ^ n"
proof -
  have "unat (of_nat (2 ^ n) :: u64) = 2 ^ n"
    using assms by (intro unat_of_nat_u64 power_strict_increasing) simp_all
  then show ?thesis by simp
qed

lemma unat_inc:
  fixes i u :: u64
  assumes "i < u"
  shows "unat (i + 1) = Suc (unat i)"
proof -
  have "unat i < unat u" "unat u < 2 ^ 64"
    using assms unsigned_less [where w = u and ?'a = nat] by (simp_all add: word_less_nat_alt)
  then have "unat i + unat (1 :: u64) < 2 ^ 64" by simp
  then show ?thesis by (subst unat_add_no_wrap) simp_all
qed

lemma unat_u64_less_power: "unat (x :: u64) < 2 ^ 64"
  using unsigned_less [where w = x and ?'a = nat] by simp

lemma unat_u64_less [simp]: "unat (x :: u64) < 18446744073709551616"
  using unsigned_less [where w = x and ?'a = nat] by simp

subsection \<open>Counting the elements of a list\<close>

lemma length_filter_update:
  assumes "t < length xs"
  shows "length (filter P (xs[t := x])) + of_bool (P (xs ! t)) = length (filter P xs) + of_bool (P x)"
  using assms
proof (induction xs arbitrary: t)
  case (Cons y xs)
  then show ?case by (cases t) auto
qed simp

subsection \<open>Sorting and removing repetitions\<close>

lemma sorted_remdups_adj_strict:
  "sorted (xs :: 'a :: linorder list) \<Longrightarrow> sorted_wrt (<) (remdups_adj xs)"
proof (induction xs rule: remdups_adj.induct)
  case (3 x y xs)
  then show ?case by (cases "x = y") (auto intro: le_neq_trans less_le_trans)
qed simp_all

lemma distinct_unique_sort: "distinct (remdups_adj (sort (xs :: 'a :: linorder list)))"
  using sorted_remdups_adj_strict [of "sort xs"] by (simp add: strict_sorted_iff)

text \<open>Distinct numbers below a bound are no more than the bound.\<close>

lemma length_distinct_below:
  assumes "distinct xs" "\<forall>x \<in> set xs. unat (x :: u64) < n"
  shows "length xs \<le> n"
proof -
  have "inj_on (unat :: u64 \<Rightarrow> nat) (set xs)" by (rule inj_onI) (rule unsigned_word_eqI)
  then have "length xs = card (unat ` set xs)"
    using assms(1) by (simp add: card_image distinct_card)
  also have "\<dots> \<le> card {..<n}" using assms(2) by (intro card_mono) auto
  finally show ?thesis by simp
qed

end
