(* ===== verification/Rng.thy ===== *)
theory Rng
  imports Sim_Prelude
begin

unbundle bit_operations_syntax

text \<open>
  The random number generator of \<open>include/rng.hpp\<close>: the xoroshiro128+ step on its
  two 64-bit words, the ranges drawn from it, \<open>get_distinct\<close> with its two branches
  and \<open>choose_weighted\<close>. The operators return the drawn value and the new state.
\<close>

section \<open>The generator\<close>

record xoroshiro =
  s_0 :: u64
  s_1 :: u64

definition rotl :: "u64 \<Rightarrow> nat \<Rightarrow> u64" where
  "rotl x k = push_bit k x OR drop_bit (64 - k) x"

definition rng_max :: u64 where "rng_max = - 1"
definition rng_min :: u64 where "rng_min = 1"

definition xoroshiro_default :: xoroshiro where
  "xoroshiro_default = \<lparr>s_0 = 1, s_1 = 0\<rparr>"

definition rng_next :: "xoroshiro \<Rightarrow> u64 \<times> xoroshiro" where
  "rng_next g =
     (let result = s_0 g + s_1 g;
          t1 = s_1 g XOR s_0 g;
          t0 = rotl (s_0 g) 55 XOR t1 XOR push_bit 14 t1;
          t1' = rotl t1 36
      in (result, \<lparr>s_0 = t0, s_1 = t1'\<rparr>))"

definition rng_range :: "xoroshiro \<Rightarrow> u64 \<Rightarrow> u64 \<Rightarrow> (u64 \<times> xoroshiro) res" where
  "rng_range g lower upper =
     (if upper - lower = 0 then Inl (UB ''division by zero'')
      else let (r, g') = rng_next g in Inr (r mod (upper - lower) + lower, g'))"

definition rng_upto :: "xoroshiro \<Rightarrow> u64 \<Rightarrow> (u64 \<times> xoroshiro) res" where
  "rng_upto g upper = rng_range g 0 upper"

lemma rotl_bit:
  assumes "0 < k" "k < 64" "n < 64"
  shows "bit (rotl x k) n = (if k \<le> n then bit x (n - k) else bit x (n + (64 - k)))"
  using assms by (auto simp: rotl_def bit_simps ac_simps dest: bit_imp_le_length)

lemma rotl_inj:
  assumes k: "0 < k" "k < 64" and eq: "rotl x k = rotl y k"
  shows "x = y"
proof (rule bit_word_eqI)
  fix n assume n: "n < LENGTH(64)"
  show "bit x n = bit y n"
  proof (cases "n + k < 64")
    case True
    then show ?thesis using k n eq rotl_bit [of k "n + k" x] rotl_bit [of k "n + k" y] by simp
  next
    case False
    then have m: "n + k - 64 < 64" "\<not> k \<le> n + k - 64" "n + k - 64 + (64 - k) = n"
      using k n by auto
    then show ?thesis using eq rotl_bit [OF k m(1), of x] rotl_bit [OF k m(1), of y] by simp
  qed
qed

lemma xor_cancel_right: "a XOR c = b XOR c \<longleftrightarrow> a = (b :: u64)"
proof
  assume "a XOR c = b XOR c"
  then have "(a XOR c) XOR c = (b XOR c) XOR c" by simp
  then show "a = b" by (simp only: xor.assoc xor_self_eq xor.right_neutral)
qed simp

lemma rng_next_inj:
  assumes "snd (rng_next g) = snd (rng_next h)"
  shows "g = h"
proof -
  from assms have e1: "rotl (s_1 g XOR s_0 g) 36 = rotl (s_1 h XOR s_0 h) 36"
    and e0: "rotl (s_0 g) 55 XOR (s_1 g XOR s_0 g) XOR push_bit 14 (s_1 g XOR s_0 g)
           = rotl (s_0 h) 55 XOR (s_1 h XOR s_0 h) XOR push_bit 14 (s_1 h XOR s_0 h)"
    by (simp_all add: rng_next_def Let_def)
  from e1 have x: "s_1 g XOR s_0 g = s_1 h XOR s_0 h" by (rule rotl_inj [rotated 2]) simp_all
  with e0 have "rotl (s_0 g) 55 = rotl (s_0 h) 55" by (simp only: xor_cancel_right)
  then have s0: "s_0 g = s_0 h" by (rule rotl_inj [rotated 2]) simp_all
  with x have "s_1 g = s_1 h" by (simp only: xor_cancel_right)
  with s0 show ?thesis by simp
qed

lemma rng_next_zero: "snd (rng_next \<lparr>s_0 = 0, s_1 = 0\<rparr>) = \<lparr>s_0 = 0, s_1 = 0\<rparr>"
  by (simp add: rng_next_def rotl_def)

section \<open>Distinct numbers\<close>

text \<open>
  The two inner loops of \<open>get_distinct\<close> move \<open>pos\<close> over the excluded numbers. In the
  first branch the bound they compare with is fixed, in the second it grows with \<open>pos\<close>.
\<close>

function skip_upto :: "u64 list \<Rightarrow> u64 \<Rightarrow> nat \<Rightarrow> nat" where
  "skip_upto excluded i pos =
     (if pos < length excluded \<and> excluded ! pos \<le> i then skip_upto excluded i (pos + 1) else pos)"
  by pat_completeness auto
termination
  by (relation "measure (\<lambda>(excluded, i, pos). length excluded - pos)") auto

function skip_shifted :: "u64 list \<Rightarrow> u64 \<Rightarrow> nat \<Rightarrow> nat" where
  "skip_shifted excluded a pos =
     (if pos < length excluded \<and> excluded ! pos \<le> a + of_nat pos
      then skip_shifted excluded a (pos + 1) else pos)"
  by pat_completeness auto
termination
  by (relation "measure (\<lambda>(excluded, a, pos). length excluded - pos)") auto

declare skip_upto.simps [simp del] skip_shifted.simps [simp del]

text \<open>First branch: \<open>for (i = lower; i < upper; i++)\<close>.\<close>

function distinct_fill :: "u64 list \<Rightarrow> u64 \<Rightarrow> u64 \<Rightarrow> nat \<Rightarrow> u64 list" where
  "distinct_fill excluded i upper pos =
     (if i < upper then
        let pos' = skip_upto excluded i pos
        in if pos' < length excluded \<and> excluded ! pos' = i
           then distinct_fill excluded (i + 1) upper pos'
           else i # distinct_fill excluded (i + 1) upper pos'
      else [])"
  by pat_completeness auto
termination
  by (relation "measure (\<lambda>(excluded, i, upper, pos). unat upper - unat i)")
     (auto simp: unat_inc word_less_nat_alt)

declare distinct_fill.simps [simp del]

text \<open>Second branch: the draws, then the shift of the sorted draws.\<close>

primrec rng_draws :: "nat \<Rightarrow> u64 \<Rightarrow> u64 \<Rightarrow> xoroshiro \<Rightarrow> (u64 list \<times> xoroshiro) res" where
  "rng_draws 0 lower upper g = Inr ([], g)"
| "rng_draws (Suc n) lower upper g =
     bind_res (rng_range g lower upper) (\<lambda>(r, g1).
     bind_res (rng_draws n lower upper g1) (\<lambda>(rs, g2). Inr (r # rs, g2)))"

fun distinct_shift :: "u64 list \<Rightarrow> nat \<Rightarrow> nat \<Rightarrow> u64 list \<Rightarrow> u64 list" where
  "distinct_shift excluded i pos [] = []"
| "distinct_shift excluded i pos (a # as) =
     (let pos' = skip_shifted excluded (a + of_nat i) pos
      in (a + (of_nat i + of_nat pos')) # distinct_shift excluded (i + 1) pos' as)"

definition get_distinct ::
    "xoroshiro \<Rightarrow> u64 \<Rightarrow> u64 \<Rightarrow> u64 \<Rightarrow> u64 list \<Rightarrow> (u64 list \<times> xoroshiro) res" where
  "get_distinct g amount lower upper excluded =
     (if amount + lower + of_nat (length excluded) \<ge> upper
      then Inr (distinct_fill excluded lower upper 0, g)
      else bind_res (rng_draws (unat amount) lower
                       (upper - amount - of_nat (length excluded)) g) (\<lambda>(ans, g').
           Inr (distinct_shift excluded 0 0 (sort ans), g')))"

definition get_distinct_upto ::
    "xoroshiro \<Rightarrow> u64 \<Rightarrow> u64 \<Rightarrow> u64 list \<Rightarrow> (u64 list \<times> xoroshiro) res" where
  "get_distinct_upto g amount upper excluded = get_distinct g amount 0 upper excluded"

text \<open>
  \<open>std::lower_bound\<close> on a vector partitioned by the bound returns the position of the
  first element that is not below it.
\<close>

definition lower_bound :: "u64 list \<Rightarrow> u64 \<Rightarrow> nat" where
  "lower_bound ws r = length (takeWhile (\<lambda>w. w < r) ws)"

definition choose_weighted :: "xoroshiro \<Rightarrow> u64 list \<Rightarrow> (nat \<times> xoroshiro) res" where
  "choose_weighted g weight_ps =
     (if weight_ps = [] then Inl (UB ''back of an empty vector'')
      else bind_res (rng_upto g (last weight_ps + 1)) (\<lambda>(rand, g').
           Inr (lower_bound weight_ps rand, g')))"

section \<open>What the loops compute\<close>

lemma skip_shifted_spec:
  assumes "unat v + length excluded < 2 ^ 64" and "pos \<le> length excluded"
  defines "q \<equiv> skip_shifted excluded v pos"
  shows "pos \<le> q" and "q \<le> length excluded"
    and "\<And>p. pos \<le> p \<Longrightarrow> p < q \<Longrightarrow> unat (excluded ! p) \<le> unat v + p"
    and "q < length excluded \<Longrightarrow> unat v + q < unat (excluded ! q)"
proof -
  have *: "pos \<le> skip_shifted excluded v pos \<and> skip_shifted excluded v pos \<le> length excluded \<and>
      (\<forall>p. pos \<le> p \<longrightarrow> p < skip_shifted excluded v pos \<longrightarrow> unat (excluded ! p) \<le> unat v + p) \<and>
      (skip_shifted excluded v pos < length excluded \<longrightarrow>
         unat v + skip_shifted excluded v pos < unat (excluded ! skip_shifted excluded v pos))"
    using assms(1,2)
  proof (induction excluded v pos rule: skip_shifted.induct)
    case (1 excluded v pos)
    have no_wrap: "unat (v + of_nat pos) = unat v + pos"
      using 1(2,3) by (subst unat_add_no_wrap) (simp_all add: unat_of_nat_u64)
    show ?case
    proof (cases "pos < length excluded \<and> excluded ! pos \<le> v + of_nat pos")
      case True
      then have eq: "skip_shifted excluded v pos = skip_shifted excluded v (pos + 1)"
        by (subst skip_shifted.simps) simp
      from True have "unat (excluded ! pos) \<le> unat v + pos"
        using no_wrap by (simp add: word_le_nat_alt)
      moreover have "pos = p \<or> pos + 1 \<le> p" if "pos \<le> p" for p using that by linarith
      ultimately show ?thesis
        using 1(1) [OF True] 1(2) True unfolding eq by fastforce
    next
      case False
      then have eq: "skip_shifted excluded v pos = pos" by (subst skip_shifted.simps) auto
      from False 1 no_wrap show ?thesis unfolding eq by (auto simp: word_le_nat_alt)
    qed
  qed
  then show "pos \<le> q" "q \<le> length excluded"
    "\<And>p. pos \<le> p \<Longrightarrow> p < q \<Longrightarrow> unat (excluded ! p) \<le> unat v + p"
    "q < length excluded \<Longrightarrow> unat v + q < unat (excluded ! q)"
    unfolding q_def by auto
qed

lemma length_distinct_shift [simp]: "length (distinct_shift ex i pos as) = length as"
  by (induction as arbitrary: i pos) (simp_all add: Let_def)

text \<open>
  The shift keeps this between iterations: every excluded number before \<open>pos\<close> lies
  below every value still to be produced, and no sum can wrap.
\<close>

definition shift_inv :: "u64 list \<Rightarrow> nat \<Rightarrow> nat \<Rightarrow> nat \<Rightarrow> u64 list \<Rightarrow> bool" where
  "shift_inv ex bound i pos as \<longleftrightarrow>
     sorted ex \<and> sorted as \<and> pos \<le> length ex \<and> bound < 2 ^ 64 \<and>
     (\<forall>a \<in> set as. unat a + i + length as + length ex \<le> bound) \<and>
     (\<forall>p < pos. \<forall>a \<in> set as. unat (ex ! p) < unat a + i + pos)"

lemma shift_step:
  assumes inv: "shift_inv ex bound i pos (a # as)"
  defines "q \<equiv> skip_shifted ex (a + of_nat i) pos"
  defines "r \<equiv> a + (of_nat i + of_nat q)"
  shows "unat r = unat a + i + q" and "r \<notin> set ex" and "pos \<le> q"
    and "unat r < bound" and "shift_inv ex bound (i + 1) q as"
proof -
  have b: "unat a + i + Suc (length as) + length ex \<le> bound" "bound < 2 ^ 64"
    and se: "sorted ex" and sa: "sorted as" and ple: "pos \<le> length ex"
    and old: "\<forall>p < pos. unat (ex ! p) < unat a + i + pos"
    using inv by (auto simp: shift_inv_def)
  have v: "unat (a + of_nat i) = unat a + i"
    using b by (subst unat_add_no_wrap) (simp_all add: unat_of_nat_u64)
  have len: "unat (a + of_nat i) + length ex < 2 ^ 64" using b v by simp
  note sk = skip_shifted_spec [OF len ple, folded q_def, unfolded v]
  show pq: "pos \<le> q" by (rule sk(1))
  have iq: "unat (of_nat i + of_nat q :: u64) = i + q"
    using b sk(2) by (subst unat_add_no_wrap) (simp_all add: unat_of_nat_u64)
  show r: "unat r = unat a + i + q"
    unfolding r_def using b sk(2) by (subst unat_add_no_wrap) (simp_all add: iq)
  show rb: "unat r < bound" using r b sk(2) by linarith
  have below: "unat (ex ! p) < unat r" if "p < q" for p
  proof (cases "p < pos")
    case True with old pq r show ?thesis by fastforce
  next
    case False
    then have "unat (ex ! p) \<le> unat a + i + p" using sk(3) that by simp
    with that r show ?thesis by simp
  qed
  have above: "unat r < unat (ex ! p)" if "q \<le> p" "p < length ex" for p
  proof -
    have "ex ! q \<le> ex ! p" using se that by (simp add: sorted_nth_mono)
    with sk(4) that r show ?thesis by (simp add: word_le_nat_alt)
  qed
  show "r \<notin> set ex"
    using below above by (metis in_set_conv_nth less_irrefl not_le)
  have "unat a \<le> unat a'" if "a' \<in> set as" for a'
    using inv that by (auto simp: shift_inv_def word_le_nat_alt)
  then show "shift_inv ex bound (i + 1) q as"
    using inv below r sk(2) unfolding shift_inv_def by (fastforce simp: word_le_nat_alt)
qed

lemma distinct_shift_spec:
  assumes "shift_inv ex bound i pos as"
  shows "sorted_wrt (<) (distinct_shift ex i pos as)
    \<and> set (distinct_shift ex i pos as) \<inter> set ex = {}
    \<and> (\<forall>r \<in> set (distinct_shift ex i pos as).
         unat r < bound \<and> (\<exists>a \<in> set as. unat a + i + pos \<le> unat r))"
  using assms
proof (induction as arbitrary: i pos)
  case (Cons a as)
  let ?q = "skip_shifted ex (a + of_nat i) pos"
  let ?r = "a + (of_nat i + of_nat ?q)"
  note st = shift_step [OF Cons.prems]
  note IH = Cons.IH [OF st(5)]
  let ?rs = "distinct_shift ex (i + 1) ?q as"
  have eq: "distinct_shift ex i pos (a # as) = ?r # ?rs" by (simp add: Let_def)
  have lower: "unat a' + i + pos \<le> unat x" if "unat a' + (i + 1) + ?q \<le> unat x" for a' x
    using that st(3) by linarith
  have "?r < x" if x: "x \<in> set ?rs" for x
  proof -
    obtain a' where a': "a' \<in> set as" "unat a' + (i + 1) + ?q \<le> unat x" using IH x by blast
    moreover have "unat a \<le> unat a'"
      using Cons.prems a'(1) by (auto simp: shift_inv_def word_le_nat_alt)
    ultimately have "unat ?r < unat x" unfolding st(1) by linarith
    then show ?thesis by (simp only: word_less_nat_alt)
  qed
  then have A: "sorted_wrt (<) (?r # ?rs)" using IH by auto
  have B: "set (?r # ?rs) \<inter> set ex = {}" using IH st(2) by auto
  have C1: "\<exists>a' \<in> set (a # as). unat a' + i + pos \<le> unat ?r"
    unfolding st(1) using st(3) by auto
  have C2: "unat x < bound \<and> (\<exists>a' \<in> set (a # as). unat a' + i + pos \<le> unat x)"
    if "x \<in> set ?rs" for x
    using IH that lower by (meson list.set_intros(2))
  show ?case unfolding eq using A B C1 C2 st(4) by (metis set_ConsD)
qed simp

lemma rng_range_bounds:
  assumes "lower < upper"
  shows "\<exists>r g'. rng_range g lower upper = Inr (r, g') \<and> lower \<le> r \<and> r < upper"
proof -
  let ?d = "upper - lower"
  let ?r = "fst (rng_next g) mod ?d"
  have d: "unat ?d = unat upper - unat lower" "?d \<noteq> 0"
    using assms by (simp_all add: unat_sub_le)
  have "unat ?r < unat ?d"
    using d(2) assms by (simp add: unat_mod word_less_nat_alt d(1))
  then have "unat ?r + unat lower < unat upper" using d(1) by linarith
  moreover have "unat upper < 2 ^ 64" by simp
  ultimately have "unat (?r + lower) = unat ?r + unat lower"
    by (intro unat_add_no_wrap) linarith
  with \<open>unat ?r + unat lower < unat upper\<close> have "lower \<le> ?r + lower" "?r + lower < upper"
    by (simp_all add: word_le_nat_alt word_less_nat_alt)
  then show ?thesis using d(2) by (simp add: rng_range_def split_beta)
qed

lemma rng_draws_bounds:
  assumes "lower < upper"
  shows "\<exists>rs g'. rng_draws n lower upper g = Inr (rs, g') \<and> length rs = n
           \<and> (\<forall>r \<in> set rs. lower \<le> r \<and> r < upper)"
proof (induction n arbitrary: g)
  case (Suc n)
  obtain r g1 where r: "rng_range g lower upper = Inr (r, g1)" "lower \<le> r" "r < upper"
    using rng_range_bounds [OF assms] by blast
  obtain rs g2 where "rng_draws n lower upper g1 = Inr (rs, g2)" "length rs = n"
    "\<forall>r \<in> set rs. lower \<le> r \<and> r < upper" using Suc by blast
  with r show ?case by auto
qed simp

lemma skip_upto_stops:
  "skip_upto excluded i pos < length excluded \<Longrightarrow> i < excluded ! skip_upto excluded i pos"
proof (induction excluded i pos rule: skip_upto.induct)
  case (1 excluded i pos)
  then show ?case
    by (cases "pos < length excluded \<and> excluded ! pos \<le> i")
       (auto simp: skip_upto.simps [of excluded i pos] not_le)
qed

lemma distinct_fill_all:
  "distinct_fill excluded i upper pos = map of_nat [unat i..<unat upper]"
proof (induction excluded i upper pos rule: distinct_fill.induct)
  case (1 excluded i upper pos)
  let ?q = "skip_upto excluded i pos"
  show ?case
  proof (cases "i < upper")
    case True
    have never: "\<not> (?q < length excluded \<and> excluded ! ?q = i)"
      using skip_upto_stops [of excluded i pos] by auto
    have "distinct_fill excluded i upper pos = i # distinct_fill excluded (i + 1) upper ?q"
      using True never by (subst distinct_fill.simps) (simp add: Let_def)
    also have "\<dots> = i # map of_nat [Suc (unat i)..<unat upper]"
      using 1(2) [OF True refl never] unat_inc [OF True] by simp
    also have "\<dots> = map of_nat [unat i..<unat upper]"
      using True by (subst (2) upt_conv_Cons) (simp_all add: word_less_nat_alt)
    finally show ?thesis .
  next
    case False
    then show ?thesis by (subst distinct_fill.simps) (simp add: word_less_nat_alt)
  qed
qed

section \<open>Properties of the generator\<close>

lemma get_distinct_returns:
  assumes "sorted excluded"
    and "unat amount + unat lower + length excluded < unat upper"
  shows "\<exists>ans g'. get_distinct g amount lower upper excluded = Inr (ans, g')
           \<and> length ans = unat amount \<and> sorted_wrt (<) ans
           \<and> set ans \<inter> set excluded = {} \<and> (\<forall>x \<in> set ans. lower \<le> x \<and> x < upper)"
proof -
  let ?n = "of_nat (length excluded) :: u64"
  have "length excluded < 2 ^ 64" using assms(2) unat_u64_less_power [of upper] by linarith
  then have len: "unat ?n = length excluded" by (rule unat_of_nat_u64)
  have al: "unat (amount + lower) = unat amount + unat lower"
    using assms(2) unat_u64_less_power [of upper] by (intro unat_add_no_wrap) linarith
  have aln: "unat (amount + lower + ?n) = unat amount + unat lower + length excluded"
    using assms(2) unat_u64_less_power [of upper] al len by (subst unat_add_no_wrap) linarith+
  have top: "unat (upper - amount - ?n) = unat upper - unat amount - length excluded"
    using assms(2) len by (subst unat_sub_le | simp add: word_le_nat_alt)+
  have "lower < upper - amount - ?n" using assms(2) top by (simp add: word_less_nat_alt)
  then obtain rs g' where rs: "rng_draws (unat amount) lower (upper - amount - ?n) g = Inr (rs, g')"
    "length rs = unat amount" "\<forall>r \<in> set rs. lower \<le> r \<and> r < upper - amount - ?n"
    using rng_draws_bounds by blast
  let ?ans = "distinct_shift excluded 0 0 (sort rs)"
  have res: "get_distinct g amount lower upper excluded = Inr (?ans, g')"
    using assms(2) aln rs(1) by (simp add: get_distinct_def word_le_nat_alt)
  have "shift_inv excluded (unat upper) 0 0 (sort rs)"
    unfolding shift_inv_def using assms rs top by (fastforce simp: word_less_nat_alt)
  from distinct_shift_spec [OF this] have "sorted_wrt (<) ?ans" "set ?ans \<inter> set excluded = {}"
    and *: "\<forall>x \<in> set ?ans. unat x < unat upper \<and> (\<exists>a \<in> set rs. unat a \<le> unat x)" by simp_all
  moreover have "lower \<le> x \<and> x < upper" if "x \<in> set ?ans" for x
    using * that rs(3) by (fastforce simp: word_less_nat_alt word_le_nat_alt)
  ultimately show ?thesis using res rs(2) by auto
qed

lemma choose_weighted_returns:
  assumes "sorted ps" and "ps \<noteq> []" and "last ps \<noteq> - 1"
  shows "\<exists>k g' r. choose_weighted g ps = Inr (k, g') \<and> k < length ps \<and> r \<le> last ps
           \<and> r = fst (rng_next g) mod (last ps + 1)
           \<and> r \<le> ps ! k \<and> (\<forall>j < k. ps ! j < r)"
proof -
  have nz: "last ps + 1 \<noteq> 0" using assms(3) by (metis add.inverse_unique add.commute)
  then have "0 < last ps + 1" by (simp add: word_neq_0_conv)
  then obtain r g' where r: "rng_range g 0 (last ps + 1) = Inr (r, g')" "r < last ps + 1"
    using rng_range_bounds by blast
  from r(2) nz have rl: "r \<le> last ps"
    by (metis inc_le not_less word_le_less_eq)
  let ?k = "length (takeWhile (\<lambda>w. w < r) ps)"
  have "last ps \<in> set ps" "\<not> last ps < r" using assms(2) rl by auto
  then have k: "?k < length ps"
    by (metis length_takeWhile_le nat_less_le takeWhile_eq_all_conv takeWhile_eq_take take_all)
  then have "r \<le> ps ! ?k" using nth_length_takeWhile by force
  moreover have "\<forall>j < ?k. ps ! j < r" by (metis nth_mem set_takeWhileD takeWhile_nth)
  moreover have "r = fst (rng_next g) mod (last ps + 1)"
    using r(1) nz by (auto simp: rng_range_def split_beta)
  moreover have "choose_weighted g ps = Inr (?k, g')"
    using assms(2) r(1) by (simp add: choose_weighted_def rng_upto_def lower_bound_def)
  ultimately show ?thesis using k rl by blast
qed

lemma get_distinct_full:
  assumes "upper \<le> amount + lower + of_nat (length excluded)"
  shows "get_distinct g amount lower upper excluded
         = Inr (map of_nat [unat lower..<unat upper], g)"
  using assms by (simp add: get_distinct_def distinct_fill_all)

text \<open>C15: with room for them, and when the excluded numbers are given in increasing order, \<open>get_distinct\<close> returns exactly \<open>amount\<close> numbers, strictly
  increasing (so distinct), all between \<open>lower\<close> and \<open>upper\<close> (exclusive) and none of them
  excluded, whatever the generator's state. (In another order, excluded numbers may be returned.)\<close>

theorem get_distinct_correct:
  assumes "sorted excluded"
    and "unat amount + unat lower + length excluded < unat upper"
  shows "\<exists>ans g'. get_distinct g amount lower upper excluded = Inr (ans, g')
           \<and> length ans = unat amount \<and> sorted_wrt (<) ans
           \<and> set ans \<inter> set excluded = {} \<and> (\<forall>x \<in> set ans. lower \<le> x \<and> x < upper)"
  by (rule get_distinct_returns [OF assms])

theorem get_distinct_correct_witness:
  "\<exists>ans g'. get_distinct \<lparr>s_0 = 7, s_1 = 9\<rparr> 3 0 10 [2, 5] = Inr (ans, g')
     \<and> length ans = 3 \<and> sorted_wrt (<) ans
     \<and> set ans \<inter> {2, 5} = {} \<and> (\<forall>x \<in> set ans. 0 \<le> x \<and> x < 10)"
  using get_distinct_correct [of "[2, 5]" 3 0 10 "\<lparr>s_0 = 7, s_1 = 9\<rparr>"] by simp

text \<open>When amount, lower bound and excluded numbers together reach \<open>upper\<close>, the
  branch meant to return every number that is not excluded returns every number, the excluded
  ones too: after the \<open>while\<close> the test \<open>excluded[pos] == i\<close> never succeeds.\<close>

theorem get_distinct_saturated:
  assumes "upper \<le> amount + lower + of_nat (length excluded)"
  shows "get_distinct g amount lower upper excluded
         = Inr (map of_nat [unat lower..<unat upper], g)"
  by (rule get_distinct_full [OF assms])

theorem get_distinct_saturated_witness:
  "get_distinct xoroshiro_default 3 0 4 [1, 2] = Inr ([0, 1, 2, 3], xoroshiro_default)"
  using get_distinct_saturated [of 4 3 0 "[1, 2]" xoroshiro_default] by (simp add: upt_rec)

text \<open>The step of the generator is one-to-one on its 128-bit state, so that it only
  permutes the states, and the state is zero after a step only if it was before: a generator
  seeded with anything but two zeros never reaches the state that produces only zeros.\<close>

theorem rng_next_permutes:
  "inj (\<lambda>g :: xoroshiro. snd (rng_next g))
   \<and> (snd (rng_next g) = \<lparr>s_0 = 0, s_1 = 0\<rparr> \<longleftrightarrow> g = \<lparr>s_0 = 0, s_1 = 0\<rparr>)"
proof (rule conjI)
  show "inj (\<lambda>g :: xoroshiro. snd (rng_next g))" by (rule injI) (rule rng_next_inj)
  show "snd (rng_next g) = \<lparr>s_0 = 0, s_1 = 0\<rparr> \<longleftrightarrow> g = \<lparr>s_0 = 0, s_1 = 0\<rparr>"
    using rng_next_inj [of g "\<lparr>s_0 = 0, s_1 = 0\<rparr>"] rng_next_zero by auto
qed

text \<open>\<open>choose_weighted\<close> on non-decreasing prefix sums returns a position of the vector,
  the first whose prefix sum reaches the number drawn, which lies between 0 and the total.\<close>

theorem choose_weighted_correct:
  assumes "sorted ps" and "ps \<noteq> []" and "last ps \<noteq> - 1"
  shows "\<exists>k g' r. choose_weighted g ps = Inr (k, g') \<and> k < length ps \<and> r \<le> last ps
           \<and> r = fst (rng_next g) mod (last ps + 1)
           \<and> r \<le> ps ! k \<and> (\<forall>j < k. ps ! j < r)"
  by (rule choose_weighted_returns [OF assms])

theorem choose_weighted_correct_witness:
  "\<exists>k g' r. choose_weighted xoroshiro_default [4, 4, 9] = Inr (k, g') \<and> k < length [4, 4, 9 :: u64]
     \<and> r \<le> last [4, 4, 9] \<and> r = fst (rng_next xoroshiro_default) mod (last [4, 4, 9] + 1)
     \<and> r \<le> [4, 4, 9] ! k \<and> (\<forall>j < k. [4, 4, 9] ! j < r)"
  using choose_weighted_correct [of "[4, 4, 9]" xoroshiro_default] by simp

text \<open>The number drawn ranges over one value too many, and 0 always falls on the first
  element: an element of weight zero in front is chosen whenever the draw is a multiple of
  the total plus one, so the choice is not proportional to the weights.\<close>

theorem choose_weighted_first:
  assumes "ps \<noteq> []" and "last ps \<noteq> - 1" and "fst (rng_next g) mod (last ps + 1) = 0"
  shows "choose_weighted g ps = Inr (0, snd (rng_next g))"
proof -
  have nz: "last ps + 1 \<noteq> 0" using assms(2) by (metis add.inverse_unique add.commute)
  have "takeWhile (\<lambda>w. w < (0 :: u64)) ps = []" by (cases ps) auto
  with nz assms show ?thesis
    by (simp add: choose_weighted_def rng_upto_def rng_range_def lower_bound_def split_beta)
qed

theorem choose_weighted_first_witness:
  "choose_weighted \<lparr>s_0 = 3, s_1 = 3\<rparr> [0, 2] = Inr (0, snd (rng_next \<lparr>s_0 = 3, s_1 = 3\<rparr>))"
  by (rule choose_weighted_first) (simp_all add: rng_next_def Let_def)

text \<open>The interface of a uniform random bit generator that \<open>std::shuffle\<close> relies on
  says that no number is below \<open>min() = 1\<close>; the generator produces 0 from every state whose
  two words are opposite.\<close>

theorem rng_below_min: "fst (rng_next \<lparr>s_0 = a, s_1 = - a\<rparr>) < rng_min"
  by (simp add: rng_next_def rng_min_def Let_def)

end
