(* ===== verification/Node_Queue.thy ===== *)
theory Node_Queue
  imports Sim_Prelude
begin

text \<open>
  Messages (\<open>include/message.hpp\<close>) and the message queues of a node
  (\<open>include/node.hpp\<close>): a FIFO queue of messages without delay and a heap of delayed ones,
  ordered by the time they may be delivered. Times are nanoseconds, as integers.

  The heap compares messages of equal time by their addresses, so nothing in the program
  determines which of them is on top: the model takes that choice as an argument \<open>tie\<close>.
  The virtual methods \<open>handle_message\<close>, \<open>check_enqueue\<close> and \<open>init\<close> are arguments of the
  operations that call them.
\<close>

section \<open>Messages\<close>

record 'd message =
  hops :: u64
  msg_delay :: int
  msg_data :: 'd

definition message_new :: "'d \<Rightarrow> 'd message" where
  "message_new d = \<lparr>hops = 0, msg_delay = 0, msg_data = d\<rparr>"

definition get_hops :: "'d message \<Rightarrow> u64" where "get_hops m = hops m"

definition set_delay :: "int \<Rightarrow> 'd message \<Rightarrow> 'd message" where
  "set_delay new_delay m = m\<lparr>msg_delay := new_delay\<rparr>"

definition set_msg_data :: "'d \<Rightarrow> 'd message \<Rightarrow> 'd message" where
  "set_msg_data d m = m\<lparr>msg_data := d\<rparr>"

section \<open>The heap of delayed messages\<close>

type_synonym 'd heap = "(int \<times> 'd message) list"

definition heap_push :: "int \<times> 'd message \<Rightarrow> 'd heap \<Rightarrow> 'd heap" where
  "heap_push x h = h @ [x]"

fun min_time :: "'d heap \<Rightarrow> int" where
  "min_time [] = 0"
| "min_time [x] = fst x"
| "min_time (x # y # h) = min (fst x) (min_time (y # h))"

definition heap_tops :: "'d heap \<Rightarrow> 'd heap" where
  "heap_tops h = filter (\<lambda>x. fst x = min_time h) h"

definition heap_top :: "nat \<Rightarrow> 'd heap \<Rightarrow> int \<times> 'd message" where
  "heap_top tie h = heap_tops h ! (tie mod length (heap_tops h))"

definition heap_pop :: "nat \<Rightarrow> 'd heap \<Rightarrow> 'd heap" where
  "heap_pop tie h = remove1 (heap_top tie h) h"

section \<open>Nodes\<close>

text \<open>The counters \<open>queued_messages\<close> and \<open>all_messages\<close> are shared by all nodes.\<close>

record counters =
  queued_messages :: int
  all_messages :: int

record ('d, 's) node =
  nid :: node_id
  messages :: "'d message list"
  delayed_messages :: "'d heap"
  user :: 's

definition node_new :: "node_id \<Rightarrow> 's \<Rightarrow> ('d, 's) node" where
  "node_new i s = \<lparr>nid = i, messages = [], delayed_messages = [], user = s\<rparr>"

definition check_enqueue :: "('d, 's) node \<Rightarrow> bool" where "check_enqueue nd = True"

definition enqueue ::
    "(('d, 's) node \<Rightarrow> bool) \<Rightarrow> int \<Rightarrow> 'd message \<Rightarrow> ('d, 's) node \<times> counters \<Rightarrow> ('d, 's) node \<times> counters" where
  "enqueue check now msg = (\<lambda>(nd, cnt).
     if check nd then
       if msg_delay msg = 0 then
         (nd\<lparr>messages := messages nd @ [msg]\<rparr>,
          cnt\<lparr>queued_messages := queued_messages cnt + 1, all_messages := all_messages cnt + 1\<rparr>)
       else
         (nd\<lparr>delayed_messages := heap_push (now + msg_delay msg, msg) (delayed_messages nd)\<rparr>,
          cnt\<lparr>queued_messages := queued_messages cnt + 1, all_messages := all_messages cnt + 1\<rparr>)
     else (nd, cnt))"

text \<open>
  The part of \<open>handle_one_message\<close> under the lock: the value to return (or that a message is
  to be handled first, when it is 1), that message, and the queues left.
\<close>

definition take_message ::
    "int \<Rightarrow> nat \<Rightarrow> ('d, 's) node \<times> counters \<Rightarrow> int \<times> 'd message option \<times> ('d, 's) node \<times> counters" where
  "take_message now tie = (\<lambda>(nd, cnt).
     if messages nd \<noteq> [] then
       (1, Some (hd (messages nd)), nd\<lparr>messages := tl (messages nd)\<rparr>,
        cnt\<lparr>queued_messages := queued_messages cnt - 1\<rparr>)
     else if delayed_messages nd \<noteq> [] then
       if fst (heap_top tie (delayed_messages nd)) > now then (-1, None, nd, cnt)
       else (1, Some (snd (heap_top tie (delayed_messages nd))),
             nd\<lparr>delayed_messages := heap_pop tie (delayed_messages nd)\<rparr>,
             cnt\<lparr>queued_messages := queued_messages cnt - 1\<rparr>)
     else (0, None, nd, cnt))"

section \<open>The contract of a queue by time\<close>

lemma min_time_le: "x \<in> set h \<Longrightarrow> min_time h \<le> fst x"
  by (induction h rule: min_time.induct) auto

lemma min_time_in: "h \<noteq> [] \<Longrightarrow> \<exists>x \<in> set h. fst x = min_time h"
  by (induction h rule: min_time.induct) (auto simp: min_def)

lemma heap_top_spec:
  assumes "h \<noteq> []"
  shows "heap_top tie h \<in> set h" "\<forall>x \<in> set h. fst (heap_top tie h) \<le> fst x"
proof -
  have "heap_tops h \<noteq> []" using min_time_in [OF assms] by (auto simp: heap_tops_def filter_empty_conv)
  then have "heap_top tie h \<in> set (heap_tops h)" by (simp add: heap_top_def)
  then show "heap_top tie h \<in> set h" "\<forall>x \<in> set h. fst (heap_top tie h) \<le> fst x"
    using min_time_le by (auto simp: heap_tops_def)
qed

text \<open>Removing the top again and again, with the ties decided by the list of choices.\<close>

primrec drain :: "(nat \<Rightarrow> 'q \<Rightarrow> 'e) \<Rightarrow> (nat \<Rightarrow> 'q \<Rightarrow> 'q) \<Rightarrow> nat list \<Rightarrow> 'q \<Rightarrow> 'e list" where
  "drain peek pop [] q = []"
| "drain peek pop (t # ts) q = peek t q # drain peek pop ts (pop t q)"

locale time_queue =
  fixes push :: "'e \<Rightarrow> 'q \<Rightarrow> 'q"
    and peek :: "nat \<Rightarrow> 'q \<Rightarrow> 'e"
    and pop :: "nat \<Rightarrow> 'q \<Rightarrow> 'q"
    and contents :: "'q \<Rightarrow> 'e multiset"
    and time :: "'e \<Rightarrow> int"
  assumes push_contents: "contents (push x q) = add_mset x (contents q)"
    and top_in: "contents q \<noteq> {#} \<Longrightarrow> peek t q \<in># contents q"
    and top_min: "contents q \<noteq> {#} \<Longrightarrow> x \<in># contents q \<Longrightarrow> time (peek t q) \<le> time x"
    and pop_contents: "contents q \<noteq> {#} \<Longrightarrow> contents (pop t q) = contents q - {#peek t q#}"
begin

lemma pop_size: "contents q \<noteq> {#} \<Longrightarrow> Suc (size (contents (pop t q))) = size (contents q)"
  using top_in [of q t] pop_contents [of q t] by (simp add: size_Diff_singleton Suc_pred' nonempty_has_size)

lemma drain_sorted_perm:
  assumes "length ts = size (contents q)"
  shows "sorted (map time (drain peek pop ts q)) \<and> mset (drain peek pop ts q) = contents q"
  using assms
proof (induction ts arbitrary: q)
  case (Cons t ts)
  then have ne: "contents q \<noteq> {#}" by auto
  have pc: "contents q = add_mset (peek t q) (contents (pop t q))"
    using pop_contents [OF ne] top_in [OF ne] by simp
  have IH: "sorted (map time (drain peek pop ts (pop t q)))" "mset (drain peek pop ts (pop t q)) = contents (pop t q)"
    using Cons pop_size [OF ne, of t] by auto
  have "time (peek t q) \<le> time x" if "x \<in> set (drain peek pop ts (pop t q))" for x
    using that top_min [OF ne] pc IH(2) by (metis set_mset_mset union_single_eq_member
        insert_iff set_mset_add_mset_insert)
  with IH pc show ?case by simp
qed simp

end

interpretation heap: time_queue heap_push heap_top heap_pop mset fst
proof (unfold_locales, goal_cases)
  case (1 x q) show ?case by (simp add: heap_push_def)
next
  case (2 q t) then show ?case using heap_top_spec(1) [of q t] by auto
next
  case (3 q x t) then show ?case using heap_top_spec(2) [of q t] by auto
next
  case (4 q t) show ?case by (simp add: heap_pop_def)
qed

section \<open>Properties of the queues\<close>

text \<open>Every message waiting at a node.\<close>

definition waiting :: "('d, 's) node \<Rightarrow> 'd message multiset" where
  "waiting nd = mset (messages nd) + mset (map snd (delayed_messages nd))"

lemma waiting_enqueue:
  assumes "enqueue check now msg (nd, cnt) = (nd', cnt')"
  shows "waiting nd' = (if check nd then add_mset msg (waiting nd) else waiting nd)"
    and "queued_messages cnt' - queued_messages cnt = int (size (waiting nd')) - int (size (waiting nd))"
    and "nid nd' = nid nd" "user nd' = user nd"
  using assms by (auto simp: enqueue_def waiting_def heap_push_def split: if_splits)

lemma heap_pop_snd:
  assumes "h \<noteq> []"
  shows "mset (map snd h) = add_mset (snd (heap_top tie h)) (mset (map snd (heap_pop tie h)))"
proof -
  have "mset h = add_mset (heap_top tie h) (mset (heap_pop tie h))"
    using heap_top_spec(1) [OF assms] by (simp add: heap_pop_def)
  then show ?thesis by (metis image_mset_add_mset mset_map)
qed

lemma take_message_cases:
  assumes "take_message now tie (nd, cnt) = (ret, msg, nd', cnt')"
  obtains (none) "ret = 0" "msg = None" "nd' = nd" "cnt' = cnt" "waiting nd = {#}"
  | (later) "ret = -1" "msg = None" "nd' = nd" "cnt' = cnt" "messages nd = []"
      "delayed_messages nd \<noteq> []" "\<forall>x \<in> set (delayed_messages nd). now < fst x"
  | (taken) m where "ret = 1" "msg = Some m" "waiting nd = add_mset m (waiting nd')"
      "queued_messages cnt' = queued_messages cnt - 1" "nid nd' = nid nd" "user nd' = user nd"
proof (cases "messages nd")
  case (Cons m ms)
  show thesis
  proof (rule taken [of m])
    show "waiting nd = add_mset m (waiting nd')"
      using assms Cons by (auto simp: take_message_def waiting_def)
  qed (use assms Cons in \<open>auto simp: take_message_def\<close>)
next
  case Nil
  note h = heap_top_spec [of "delayed_messages nd" tie]
  show thesis
  proof (cases "delayed_messages nd = [] \<or> now < fst (heap_top tie (delayed_messages nd))")
    case True
    show thesis
    proof (cases "delayed_messages nd = []")
      case True
      then show thesis using assms Nil by (intro none) (auto simp: take_message_def waiting_def)
    next
      case False
      with True have "now < fst (heap_top tie (delayed_messages nd))" by simp
      then show thesis using assms Nil False h
        by (intro later) (auto simp: take_message_def split: if_splits)
    qed
  next
    case False
    show thesis
    proof (rule taken [of "snd (heap_top tie (delayed_messages nd))"])
      show "waiting nd = add_mset (snd (heap_top tie (delayed_messages nd))) (waiting nd')"
        using assms Nil False heap_pop_snd [of "delayed_messages nd" tie]
        by (auto simp: take_message_def waiting_def)
    qed (use assms Nil False in \<open>auto simp: take_message_def\<close>)
  qed
qed

text \<open>C34: \<open>handle_one_message\<close> returns 0 exactly if no message waits, -1 exactly if all those
  that wait are delayed into the future, and 1 with one of the waiting messages otherwise; only
  in the last case does anything change, that one message leaving the queues and the shared
  counter going down by one. A message without delay is taken first in, first out, and before
  any delayed one; a delayed message is taken only once its time has come, and only if no other
  was due earlier.\<close>

theorem take_message_correct:
  assumes "take_message now tie (nd, cnt) = (ret, msg, nd', cnt')"
  shows "(ret = 0 \<longleftrightarrow> waiting nd = {#})
    \<and> (ret = -1 \<longleftrightarrow> messages nd = [] \<and> delayed_messages nd \<noteq> [] \<and> (\<forall>x \<in> set (delayed_messages nd). now < fst x))
    \<and> (ret \<noteq> 1 \<longrightarrow> nd' = nd \<and> cnt' = cnt \<and> msg = None)
    \<and> (ret = 1 \<longrightarrow> (\<exists>m. msg = Some m \<and> waiting nd = add_mset m (waiting nd')
         \<and> queued_messages cnt' = queued_messages cnt - 1))
    \<and> (messages nd \<noteq> [] \<longrightarrow> msg = Some (hd (messages nd)) \<and> messages nd' = tl (messages nd)
         \<and> delayed_messages nd' = delayed_messages nd)
    \<and> (messages nd = [] \<longrightarrow> ret = 1 \<longrightarrow> (\<exists>t m. msg = Some m \<and> (t, m) \<in> set (delayed_messages nd)
         \<and> t \<le> now \<and> (\<forall>x \<in> set (delayed_messages nd). t \<le> fst x)))"
proof -
  have due: "\<exists>t m. msg = Some m \<and> (t, m) \<in> set (delayed_messages nd) \<and> t \<le> now
      \<and> (\<forall>x \<in> set (delayed_messages nd). t \<le> fst x)" if "messages nd = []" "ret = 1"
    using that assms heap_top_spec [of "delayed_messages nd" tie]
    by (intro exI [of _ "fst (heap_top tie (delayed_messages nd))"]
        exI [of _ "snd (heap_top tie (delayed_messages nd))"])
       (auto simp: take_message_def split: if_splits)
  have fifo: "msg = Some (hd (messages nd)) \<and> messages nd' = tl (messages nd)
      \<and> delayed_messages nd' = delayed_messages nd" if "messages nd \<noteq> []"
    using that assms by (auto simp: take_message_def)
  from assms show ?thesis
  proof (cases rule: take_message_cases)
    case none
    then show ?thesis using due fifo by (auto simp: waiting_def)
  next
    case later
    then show ?thesis using due fifo by (auto simp: waiting_def)
  next
    case (taken m)
    have "\<not> (messages nd = [] \<and> (\<forall>x \<in> set (delayed_messages nd). now < fst x))"
      using due taken(1) by fastforce
    with taken show ?thesis using due fifo by auto
  qed
qed

definition two_delayed :: "(nat, unit) node" where
  "two_delayed = (node_new 4 ())\<lparr>delayed_messages := [(9, message_new 1), (5, message_new 2)]\<rparr>"

definition no_counts :: counters where
  "no_counts = \<lparr>queued_messages = 0, all_messages = 0\<rparr>"

theorem take_message_correct_witness:
  "fst (take_message 7 0 (two_delayed, no_counts)) = 1
   \<and> fst (snd (take_message 7 0 (two_delayed, no_counts))) = Some (message_new 2)
   \<and> waiting two_delayed = add_mset (message_new 2) (waiting (fst (snd (snd (take_message 7 0 (two_delayed, no_counts))))))"
proof -
  let ?r = "take_message 7 0 (two_delayed, no_counts)"
  have eq: "?r = (1, Some (message_new 2),
      two_delayed\<lparr>delayed_messages := [(9, message_new 1)]\<rparr>, no_counts\<lparr>queued_messages := -1\<rparr>)"
    by (simp add: take_message_def two_delayed_def node_new_def heap_top_def heap_pop_def heap_tops_def
        no_counts_def message_new_def)
  from take_message_correct [OF eq] show ?thesis by (simp add: eq)
qed

text \<open>Whatever way ties are decided, taking all delayed messages out of the heap yields
  each of them once, in the order of their delivery times.\<close>

theorem delayed_in_order:
  assumes "length ties = length h"
  shows "sorted (map fst (drain heap_top heap_pop ties h)) \<and> mset (drain heap_top heap_pop ties h) = mset h"
  using heap.drain_sorted_perm [of ties h] assms by simp

theorem delayed_in_order_witness:
  "sorted (map fst (drain heap_top heap_pop [0, 5] (delayed_messages two_delayed)))
   \<and> mset (drain heap_top heap_pop [0, 5] (delayed_messages two_delayed)) = mset (delayed_messages two_delayed)"
  by (rule delayed_in_order) (simp add: two_delayed_def node_new_def)

end
