(* ===== verification/Ordered_Map.thy ===== *)
theory Ordered_Map
  imports Sim_Prelude
begin

text \<open>
  \<open>std::map<node_id_t, V>\<close> as the hardware manager uses it: entries in increasing order of
  their keys. \<open>ordered_map\<close> is the contract that the manager's lemmas rest on.
\<close>

type_synonym 'v omap = "(u64 \<times> 'v) list"

definition omap_at :: "'v omap \<Rightarrow> u64 \<Rightarrow> 'v option" where
  "omap_at m k = map_of m k"

definition omap_count :: "'v omap \<Rightarrow> u64 \<Rightarrow> bool" where
  "omap_count m k \<longleftrightarrow> map_of m k \<noteq> None"

text \<open>\<open>emplace\<close> does nothing when the key is present.\<close>

fun omap_emplace :: "u64 \<Rightarrow> 'v \<Rightarrow> 'v omap \<Rightarrow> 'v omap" where
  "omap_emplace k v [] = [(k, v)]"
| "omap_emplace k v ((k', v') # m) =
     (if k < k' then (k, v) # (k', v') # m
      else if k = k' then (k', v') # m
      else (k', v') # omap_emplace k v m)"

definition omap_erase :: "u64 \<Rightarrow> 'v omap \<Rightarrow> 'v omap" where
  "omap_erase k m = filter (\<lambda>p. fst p \<noteq> k) m"

text \<open>Assignment through a reference to a stored value.\<close>

definition omap_update :: "u64 \<Rightarrow> 'v \<Rightarrow> 'v omap \<Rightarrow> 'v omap" where
  "omap_update k v m = map (\<lambda>p. if fst p = k then (k, v) else p) m"

text \<open>The first entry whose key is not below the bound; \<open>None\<close> is \<open>end()\<close>.\<close>

definition omap_lower_bound :: "u64 \<Rightarrow> 'v omap \<Rightarrow> (u64 \<times> 'v) option" where
  "omap_lower_bound k m = List.find (\<lambda>p. k \<le> fst p) m"

definition omap_ok :: "'v omap \<Rightarrow> bool" where
  "omap_ok m \<longleftrightarrow> sorted_wrt (<) (map fst m)"

lemma keys_omap_emplace: "fst ` set (omap_emplace k v m) = insert k (fst ` set m)"
  by (induction k v m rule: omap_emplace.induct) auto

lemma omap_emplace_ok: "omap_ok m \<Longrightarrow> omap_ok (omap_emplace k v m)"
proof (induction k v m rule: omap_emplace.induct)
  case (2 k v k' v' m)
  have "\<forall>x \<in> set (map fst (omap_emplace k v m)). k' < x" if "k' < k"
    using 2(2) that keys_omap_emplace [of k v m] by (auto simp: omap_ok_def)
  with 2 show ?case by (auto simp: omap_ok_def)
qed (simp add: omap_ok_def)

lemma omap_emplace_at:
  "omap_ok m \<Longrightarrow> map_of (omap_emplace k v m) x = (if x = k \<and> map_of m k = None then Some v else map_of m x)"
proof (induction k v m rule: omap_emplace.induct)
  case (2 k v k' v' m)
  have "map_of m k = None" if "k < k'"
    using 2(2) that by (auto simp: omap_ok_def map_of_eq_None_iff)
  with 2 show ?case by (auto simp: omap_ok_def)
qed simp

lemma omap_erase_ok: "omap_ok m \<Longrightarrow> omap_ok (omap_erase k m)"
  by (induction m) (auto simp: omap_ok_def omap_erase_def)

lemma omap_erase_at: "map_of (omap_erase k m) x = (if x = k then None else map_of m x)"
  by (induction m) (auto simp: omap_erase_def)

lemma omap_update_keys [simp]: "map fst (omap_update k v m) = map fst m"
  by (induction m) (auto simp: omap_update_def)

lemma omap_count_update [simp]: "omap_count (omap_update k v (m :: 'v omap)) x = omap_count m x"
proof -
  have keys: "omap_count n x \<longleftrightarrow> x \<in> set (map fst n)" for n :: "'v omap"
    by (simp add: omap_count_def map_of_eq_None_iff)
  show ?thesis by (simp only: keys omap_update_keys)
qed

lemma omap_update_ok: "omap_ok m \<Longrightarrow> omap_ok (omap_update k v m)"
  by (simp add: omap_ok_def)

lemma omap_update_at: "map_of (omap_update k v m) x = (if x = k \<and> map_of m k \<noteq> None then Some v else map_of m x)"
  by (induction m) (auto simp: omap_update_def)

lemma omap_lower_bound_Some:
  assumes "omap_ok m" "omap_lower_bound k m = Some (j, v)"
  shows "map_of m j = Some v" "k \<le> j" "\<And>x. map_of m x \<noteq> None \<Longrightarrow> k \<le> x \<Longrightarrow> j \<le> x"
proof -
  have *: "map_of m j = Some v \<and> k \<le> j \<and> (\<forall>x. map_of m x \<noteq> None \<longrightarrow> k \<le> x \<longrightarrow> j \<le> x)"
    using assms
  proof (induction m)
    case (Cons p m)
    obtain a b where p: "p = (a, b)" by (cases p)
    show ?case
    proof (cases "k \<le> a")
      case True
      with Cons.prems p have "a = j" "b = v" by (auto simp: omap_lower_bound_def)
      then show ?thesis
        using True p Cons.prems(1) by (auto simp: omap_ok_def dest!: map_of_SomeD intro!: less_imp_le)
    next
      case False
      with Cons.prems p have "omap_lower_bound k m = Some (j, v)" by (simp add: omap_lower_bound_def)
      with Cons False p show ?thesis by (auto simp: omap_ok_def)
    qed
  qed (simp add: omap_lower_bound_def)
  then show "map_of m j = Some v" "k \<le> j" "\<And>x. map_of m x \<noteq> None \<Longrightarrow> k \<le> x \<Longrightarrow> j \<le> x" by auto
qed

lemma omap_lower_bound_None:
  "omap_lower_bound k m = None \<longleftrightarrow> (\<forall>x. map_of m x \<noteq> None \<longrightarrow> x < k)"
proof -
  have "omap_lower_bound k m = None \<longleftrightarrow> (\<forall>x \<in> fst ` set m. x < k)"
    by (auto simp: omap_lower_bound_def find_None_iff not_le)
  also have "\<dots> \<longleftrightarrow> (\<forall>x. map_of m x \<noteq> None \<longrightarrow> x < k)"
    by (simp add: map_of_eq_None_iff) blast
  finally show ?thesis .
qed

section \<open>The contract of an ordered map\<close>

locale ordered_map =
  fixes lookup :: "'m \<Rightarrow> u64 \<Rightarrow> 'v option"
    and emplace :: "u64 \<Rightarrow> 'v \<Rightarrow> 'm \<Rightarrow> 'm"
    and erase :: "u64 \<Rightarrow> 'm \<Rightarrow> 'm"
    and update :: "u64 \<Rightarrow> 'v \<Rightarrow> 'm \<Rightarrow> 'm"
    and lower_bound :: "u64 \<Rightarrow> 'm \<Rightarrow> (u64 \<times> 'v) option"
    and ok :: "'m \<Rightarrow> bool"
  assumes emplace_ok: "ok m \<Longrightarrow> ok (emplace k v m)"
    and emplace_at: "ok m \<Longrightarrow> lookup (emplace k v m) x = (if x = k \<and> lookup m k = None then Some v else lookup m x)"
    and erase_ok: "ok m \<Longrightarrow> ok (erase k m)"
    and erase_at: "ok m \<Longrightarrow> lookup (erase k m) x = (if x = k then None else lookup m x)"
    and update_ok: "ok m \<Longrightarrow> ok (update k v m)"
    and update_at: "ok m \<Longrightarrow> lookup (update k v m) x = (if x = k \<and> lookup m k \<noteq> None then Some v else lookup m x)"
    and lower_bound_None: "ok m \<Longrightarrow> lower_bound k m = None \<longleftrightarrow> (\<forall>x. lookup m x \<noteq> None \<longrightarrow> x < k)"
    and lower_bound_Some: "ok m \<Longrightarrow> lower_bound k m = Some (j, v) \<Longrightarrow>
      lookup m j = Some v \<and> k \<le> j \<and> (\<forall>x. lookup m x \<noteq> None \<longrightarrow> k \<le> x \<longrightarrow> j \<le> x)"
begin

text \<open>The least key that is not below the argument.\<close>

lemma lower_bound_least:
  assumes "ok m" "lookup m x \<noteq> None" "k \<le> x"
  shows "\<exists>j v. lower_bound k m = Some (j, v) \<and> lookup m j = Some v \<and> k \<le> j \<and> j \<le> x
           \<and> (\<forall>y. lookup m y \<noteq> None \<longrightarrow> k \<le> y \<longrightarrow> j \<le> y)"
proof (cases "lower_bound k m")
  case None
  then have "x < k" using assms(2) lower_bound_None [OF assms(1)] by blast
  then show ?thesis using assms(3) by simp
next
  case (Some p)
  obtain j v where "p = (j, v)" by (cases p)
  then show ?thesis using Some assms lower_bound_Some [of m k j v] by auto
qed

lemma lower_bound_of_key:
  assumes "ok m" "lookup m k = Some v"
  shows "lower_bound k m = Some (k, v)"
proof -
  have "lookup m k \<noteq> None" using assms(2) by simp
  from lower_bound_least [OF assms(1) this order_refl] obtain j w
    where "lower_bound k m = Some (j, w)" "lookup m j = Some w" "k \<le> j" "j \<le> k" by blast
  with assms(2) show ?thesis by simp
qed

end

interpretation nodes_map: ordered_map omap_at omap_emplace omap_erase omap_update omap_lower_bound omap_ok
proof (unfold_locales, goal_cases)
  case (8 m k j v) then show ?case using omap_lower_bound_Some [of m k j v] by (auto simp: omap_at_def)
next
  case (7 m k) show ?case by (simp add: omap_at_def omap_lower_bound_None)
qed (simp_all add: omap_at_def omap_emplace_ok omap_emplace_at omap_erase_ok omap_erase_at
    omap_update_ok omap_update_at)

end
