(* ===== verification/Hardware_Manager.thy ===== *)
theory Hardware_Manager
  imports Rng Node_Queue Ordered_Map
begin

text \<open>
  \<open>include/hardware_manager.hpp\<close>: the network's nodes, the queue of nodes that may have
  messages, and the operations on them. The record is the manager together with what its
  methods read from around it: the generator of the calling thread (\<open>rng\<close>), the clock, and
  the counters that all nodes share. Virtual methods and node handlers are arguments.

  Methods that can throw after having changed something are actions; the others return a
  result. \<open>nodes_queue\<close> holds the ids enqueued and not yet dequeued. \<open>worker_burst\<close> is the
  body of the worker's loop for one id; the interleaving of several workers is in theory
  \<open>Scheduler\<close>.
\<close>

section \<open>The manager\<close>

record ('d, 's) hwm =
  max_id :: u64
  nthreads :: int
  fail_thres :: u64
  nodes :: "('d, 's) node omap"
  nodes_queue :: "node_id list"
  stopping :: bool
  pausing :: bool
  running_threads :: int
  seed :: u64
  cnts :: counters
  clock :: int
  gen :: xoroshiro

definition compute_nthreads :: "int \<Rightarrow> int \<Rightarrow> int" where
  "compute_nthreads hardware_concurrency nt =
     (let n = nt; n = (if n = -1 then hardware_concurrency else n)
      in if n = 0 then 1 else n)"

definition hwm_new :: "int \<Rightarrow> u64 \<Rightarrow> int \<Rightarrow> u64 \<Rightarrow> u64 \<Rightarrow> ('d, 's) hwm" where
  "hwm_new hardware_concurrency maxid nt sd thres =
     \<lparr>max_id = maxid, nthreads = compute_nthreads hardware_concurrency nt, fail_thres = thres,
      nodes = [], nodes_queue = [], stopping = False, pausing = False, running_threads = 0,
      seed = sd, cnts = \<lparr>queued_messages = 0, all_messages = 0\<rparr>, clock = 0,
      gen = xoroshiro_default\<rparr>"

subsection \<open>Pausing\<close>

text \<open>
  \<open>pause\<close> raises the flag and waits for the running workers; called with workers running and
  nobody else to move, it does not return. \<open>run_lock\<close> pauses in its constructor and resumes
  in its destructor.
\<close>

definition pause_act :: "('d, 's, 'z) hwm_scheme act" where
  "pause_act w = (w\<lparr>pausing := True\<rparr>, if running_threads w = 0 then None else Some No_Return)"

definition resume :: "('d, 's, 'z) hwm_scheme \<Rightarrow> ('d, 's, 'z) hwm_scheme" where
  "resume w = w\<lparr>pausing := False\<rparr>"

definition run_lock :: "('d, 's, 'z) hwm_scheme act \<Rightarrow> ('d, 's, 'z) hwm_scheme act" where
  "run_lock body = seq_act pause_act (\<lambda>w. case body w of (w', e) \<Rightarrow> (resume w', e))"

subsection \<open>Nodes\<close>

definition add_node ::
    "(node_id \<Rightarrow> ('d, 's, 'z) hwm_scheme act) \<Rightarrow> ('d, 's) node \<Rightarrow> ('d, 's, 'z) hwm_scheme act" where
  "add_node init nd =
     seq_act pause_act
     (seq_act (run_lock (ok_act (\<lambda>w. w\<lparr>nodes := omap_emplace (nid nd) nd (nodes w)\<rparr>)))
       (catch_std (init (nid nd))))"

definition fail :: "node_id \<Rightarrow> ('d, 's, 'z) hwm_scheme act" where
  "fail node w =
     (if \<not> omap_count (nodes w) node then throw_act (Runtime_Error ''Invalid node'') w
      else run_lock (ok_act (\<lambda>w. w\<lparr>nodes := omap_erase node (nodes w)\<rparr>)) w)"

definition get_node :: "('d, 's, 'z) hwm_scheme \<Rightarrow> node_id \<Rightarrow> ('d, 's) node res" where
  "get_node w node = (case omap_at (nodes w) node of
      None \<Rightarrow> Inl (Runtime_Error ''Invalid node'') | Some nd \<Rightarrow> Inr nd)"

definition has_bigger_id :: "('d, 's, 'z) hwm_scheme \<Rightarrow> node_id \<Rightarrow> bool" where
  "has_bigger_id w i \<longleftrightarrow> omap_lower_bound i (nodes w) \<noteq> None"

definition next_id :: "('d, 's, 'z) hwm_scheme \<Rightarrow> node_id \<Rightarrow> node_id res" where
  "next_id w i =
     (if \<not> has_bigger_id w i then Inl (Runtime_Error ''Invalid argument'')
      else case omap_lower_bound i (nodes w) of
             Some (j, nd) \<Rightarrow> Inr j | None \<Rightarrow> Inl (UB ''dereference of end()''))"

subsection \<open>Neighbours\<close>

definition can_send :: "('d, 's, 'z) hwm_scheme \<Rightarrow> node_id \<Rightarrow> node_id \<Rightarrow> bool res" where
  "can_send w a b = Inr (a \<noteq> b)"

text \<open>The callback returns the state it leaves, and whether to go on or the exception it ended with.\<close>

fun iter_neighbours_in ::
    "(node_id \<Rightarrow> node_id \<Rightarrow> bool res) \<Rightarrow> node_id \<Rightarrow> (node_id \<Rightarrow> 'x \<Rightarrow> 'x \<times> bool res)
      \<Rightarrow> (u64 \<times> ('d, 's) node) list \<Rightarrow> 'x act" where
  "iter_neighbours_in cansend n callback [] x = (x, None)"
| "iter_neighbours_in cansend n callback (node # rest) x =
     (case cansend n (nid (snd node)) of
        Inl e \<Rightarrow> (x, Some e)
      | Inr False \<Rightarrow> iter_neighbours_in cansend n callback rest x
      | Inr True \<Rightarrow>
          (case callback (nid (snd node)) x of
             (x', Inl e) \<Rightarrow> (x', Some e)
           | (x', Inr True) \<Rightarrow> iter_neighbours_in cansend n callback rest x'
           | (x', Inr False) \<Rightarrow> (x', None)))"

definition iter_neighbours ::
    "(('d, 's, 'z) hwm_scheme \<Rightarrow> node_id \<Rightarrow> node_id \<Rightarrow> bool res) \<Rightarrow> ('d, 's, 'z) hwm_scheme \<Rightarrow> node_id
      \<Rightarrow> (node_id \<Rightarrow> 'x \<Rightarrow> 'x \<times> bool res) \<Rightarrow> 'x act" where
  "iter_neighbours cansend w n callback x = iter_neighbours_in (cansend w) n callback (nodes w) x"

text \<open>Both take the (virtual) iteration over the neighbours of their argument.\<close>

definition get_neighbours ::
    "((node_id \<Rightarrow> node_id list \<Rightarrow> node_id list \<times> bool res) \<Rightarrow> node_id list act) \<Rightarrow> node_id list res" where
  "get_neighbours iter =
     (case iter (\<lambda>neigh ans. (ans @ [neigh], Inr True)) [] of (ans, None) \<Rightarrow> Inr ans | (ans, Some e) \<Rightarrow> Inl e)"

text \<open>The counter of \<open>count_neighbours\<close> is not initialised: it starts with any value.\<close>

definition count_neighbours ::
    "((node_id \<Rightarrow> u64 \<Rightarrow> u64 \<times> bool res) \<Rightarrow> u64 act) \<Rightarrow> u64 \<Rightarrow> u64 res" where
  "count_neighbours iter uninitialised =
     (case iter (\<lambda>neigh ans. (ans + 1, Inr True)) uninitialised of (ans, None) \<Rightarrow> Inr ans | (ans, Some e) \<Rightarrow> Inl e)"

subsection \<open>Random nodes\<close>

definition random_id :: "('d, 's, 'z) hwm_scheme \<Rightarrow> node_id res \<times> ('d, 's, 'z) hwm_scheme" where
  "random_id w =
     (let (r, g) = rng_next (gen w)
      in (if max_id w = 0 then Inl (UB ''division by zero'') else Inr (r mod max_id w), w\<lparr>gen := g\<rparr>))"

text \<open>\<open>while (again(id)) id = random_id()\<close>, with the number of draws allowed.\<close>

primrec draw_id ::
    "nat \<Rightarrow> (('d, 's, 'z) hwm_scheme \<Rightarrow> node_id \<Rightarrow> bool) \<Rightarrow> ('d, 's, 'z) hwm_scheme
      \<Rightarrow> node_id res \<times> ('d, 's, 'z) hwm_scheme" where
  "draw_id 0 again w = (Inl No_Return, w)"
| "draw_id (Suc fuel) again w =
     (case random_id w of
        (Inl e, w') \<Rightarrow> (Inl e, w')
      | (Inr i, w') \<Rightarrow> if again w' i then draw_id fuel again w' else (Inr i, w'))"

definition gen_id :: "nat \<Rightarrow> ('d, 's, 'z) hwm_scheme \<Rightarrow> node_id res \<times> ('d, 's, 'z) hwm_scheme" where
  "gen_id fuel w =
     (if 4 * of_nat (length (nodes w)) div 3 \<ge> max_id w
      then (Inl (Runtime_Error ''Too many ids generated''), w)
      else draw_id fuel (\<lambda>w i. omap_count (nodes w) i) w)"

definition get_random_node :: "nat \<Rightarrow> ('d, 's, 'z) hwm_scheme \<Rightarrow> node_id res \<times> ('d, 's, 'z) hwm_scheme" where
  "get_random_node fuel w =
     (if nodes w = [] then (Inl (Runtime_Error ''Empty node list''), w)
      else case draw_id fuel (\<lambda>w i. \<not> has_bigger_id w i) w of
        (Inl e, w') \<Rightarrow> (Inl e, w') | (Inr i, w') \<Rightarrow> (next_id w' i, w'))"

subsection \<open>Messages\<close>

definition push_token :: "node_id \<Rightarrow> ('d, 's, 'z) hwm_scheme \<Rightarrow> ('d, 's, 'z) hwm_scheme" where
  "push_token i w = w\<lparr>nodes_queue := nodes_queue w @ [i]\<rparr>"

definition deliver :: "node_id \<Rightarrow> ('d, 's) node \<Rightarrow> 'd message \<Rightarrow> ('d, 's, 'z) hwm_scheme \<Rightarrow> ('d, 's, 'z) hwm_scheme" where
  "deliver receiver nd msg w =
     (let (nd', c) = enqueue check_enqueue (clock w) msg (nd, cnts w)
      in w\<lparr>nodes := omap_update receiver nd' (nodes w), cnts := c\<rparr>)"

definition send_message ::
    "(('d, 's, 'z) hwm_scheme \<Rightarrow> node_id \<Rightarrow> node_id \<Rightarrow> bool res)
      \<Rightarrow> node_id \<Rightarrow> node_id \<Rightarrow> 'd message \<Rightarrow> ('d, 's, 'z) hwm_scheme act" where
  "send_message cansend sender receiver msg w0 =
     (let (r, g) = rng_next (gen w0); w = w0\<lparr>gen := g\<rparr> in
      if r < fail_thres w then (w, None)
      else if \<not> omap_count (nodes w) sender then (w, Some (Runtime_Error ''Invalid sender''))
      else case omap_at (nodes w) receiver of
        None \<Rightarrow> (w, Some (Runtime_Error ''Invalid receiver''))
      | Some nd \<Rightarrow>
        (case cansend w sender receiver of
           Inl e \<Rightarrow> (w, Some e)
         | Inr ok \<Rightarrow>
             if \<not> ok then (w, Some (Runtime_Error ''The sender cannot send to the receiver!''))
             else (push_token receiver (deliver receiver nd (msg\<lparr>hops := hops msg + 1\<rparr>) w), None)))"

definition gen_message ::
    "(node_id \<Rightarrow> 'd message \<Rightarrow> ('d, 's, 'z) hwm_scheme act) \<Rightarrow> node_id \<Rightarrow> 'd
      \<Rightarrow> ('d, 's, 'z) hwm_scheme act" where
  "gen_message start_message sender d w =
     (if \<not> omap_count (nodes w) sender then (w, Some (Runtime_Error ''Invalid sender''))
      else catch_std (start_message sender (message_new d)) w)"

section \<open>One round of a worker\<close>

definition handle_one_message ::
    "(node_id \<Rightarrow> 'd message \<Rightarrow> ('d, 's, 'z) hwm_scheme act) \<Rightarrow> nat \<Rightarrow> node_id
      \<Rightarrow> ('d, 's, 'z) hwm_scheme \<Rightarrow> int \<times> ('d, 's, 'z) hwm_scheme \<times> exn option" where
  "handle_one_message handler tie i w =
     (case omap_at (nodes w) i of
        None \<Rightarrow> (0, w, Some (UB ''node destroyed''))
      | Some nd \<Rightarrow>
        (let (ret, msg, nd', c) = take_message (clock w) tie (nd, cnts w);
             w' = w\<lparr>nodes := omap_update i nd' (nodes w), cnts := c\<rparr>
         in case msg of None \<Rightarrow> (ret, w', None)
            | Some m \<Rightarrow> (case handler i m w' of (w'', e) \<Rightarrow> (1, w'', e))))"

text \<open>
  The inner loop, \<open>num\<close> counting the messages handled, and the exception handler around it
  (which also prints the error the loop throws itself for a value that is none of the three).
\<close>

function worker_burst ::
    "(node_id \<Rightarrow> 'd message \<Rightarrow> ('d, 's, 'z) hwm_scheme act) \<Rightarrow> (nat \<Rightarrow> nat) \<Rightarrow> node_id \<Rightarrow> nat
      \<Rightarrow> ('d, 's, 'z) hwm_scheme act" where
  "worker_burst handler tie i num w =
     (if num > 128 then (push_token i w, None)
      else case handle_one_message handler (tie num) i w of
        (ret, w', Some e) \<Rightarrow> (w', if catchable e then None else Some e)
      | (ret, w', None) \<Rightarrow>
          if ret = 0 then (w', None)
          else if ret = 1 then worker_burst handler tie i (num + 1) w'
          else if ret = -1 then (push_token i w', None)
          else (w', None))"
  by pat_completeness auto
termination
  by (relation "measure (\<lambda>(handler, tie, i, num, w). 129 - num)") auto

declare worker_burst.simps [simp del]

text \<open>A round: an id taken out of the queue (at position \<open>pos\<close>), and the node's burst.\<close>

definition worker_round ::
    "(node_id \<Rightarrow> 'd message \<Rightarrow> ('d, 's, 'z) hwm_scheme act) \<Rightarrow> (nat \<Rightarrow> nat) \<Rightarrow> nat
      \<Rightarrow> ('d, 's, 'z) hwm_scheme act" where
  "worker_round handler tie pos w =
     (if pos < length (nodes_queue w) then
        let i = nodes_queue w ! pos;
            w' = w\<lparr>nodes_queue := take pos (nodes_queue w) @ drop (pos + 1) (nodes_queue w)\<rparr>
        in if omap_count (nodes w') i then worker_burst handler tie i 0 w'
           else (w', Some Out_Of_Range)
      else (w, None))"

section \<open>Invariants of the network\<close>

definition waiting_at :: "('d, 's, 'z) hwm_scheme \<Rightarrow> node_id \<Rightarrow> 'd message multiset" where
  "waiting_at w i = (case omap_at (nodes w) i of None \<Rightarrow> {#} | Some nd \<Rightarrow> waiting nd)"

definition tokens :: "('d, 's, 'z) hwm_scheme \<Rightarrow> node_id \<Rightarrow> nat" where
  "tokens w i = count (mset (nodes_queue w)) i"

definition total_waiting :: "('d, 's) node omap \<Rightarrow> nat" where
  "total_waiting m = sum_list (map (\<lambda>p. size (waiting (snd p))) m)"

definition wf_nodes :: "('d, 's) node omap \<Rightarrow> bool" where
  "wf_nodes m \<longleftrightarrow> omap_ok m \<and> (\<forall>i nd. omap_at m i = Some nd \<longrightarrow> nid nd = i)"

text \<open>
  The nodes are filed under their own ids, the shared counter is the number of waiting
  messages, and every waiting message has an id in the queue (for \<open>slack\<close> of them per node a
  worker is already on its way).
\<close>

definition net_inv :: "(node_id \<Rightarrow> nat) \<Rightarrow> ('d, 's, 'z) hwm_scheme \<Rightarrow> bool" where
  "net_inv slack w \<longleftrightarrow> wf_nodes (nodes w)
     \<and> queued_messages (cnts w) = int (total_waiting (nodes w))
     \<and> (\<forall>i. size (waiting_at w i) \<le> tokens w i + slack i)"

lemma total_waiting_update:
  assumes "omap_ok m" "omap_at m i = Some nd"
  shows "total_waiting (omap_update i nd' m) + size (waiting nd) = total_waiting m + size (waiting nd')"
  using assms
proof (induction m)
  case (Cons p m)
  obtain k v where p: "p = (k, v)" by (cases p)
  show ?case
  proof (cases "k = i")
    case True
    have "omap_update i nd' m = m"
      unfolding omap_update_def using Cons.prems(1) True
      by (intro map_idI) (auto simp: omap_ok_def p)
    then show ?thesis
      using Cons.prems True p by (simp add: total_waiting_def omap_at_def omap_update_def)
  next
    case False
    with Cons p show ?thesis
      by (simp add: total_waiting_def omap_at_def omap_update_def omap_ok_def)
  qed
qed (simp add: omap_at_def)

lemma total_waiting_emplace:
  assumes "omap_at m k = None"
  shows "total_waiting (omap_emplace k nd m) = total_waiting m + size (waiting nd)"
  using assms
  by (induction k nd m rule: omap_emplace.induct)
    (auto simp: total_waiting_def omap_at_def split: if_splits)

lemma total_waiting_erase:
  assumes "omap_ok m" "omap_at m k = Some nd"
  shows "total_waiting (omap_erase k m) + size (waiting nd) = total_waiting m"
  using assms
proof (induction m)
  case (Cons p m)
  obtain j v where p: "p = (j, v)" by (cases p)
  show ?case
  proof (cases "j = k")
    case True
    have "omap_erase k m = m"
      unfolding omap_erase_def using Cons.prems(1) True
      by (intro filter_True) (auto simp: omap_ok_def p)
    then show ?thesis
      using Cons.prems True p by (simp add: total_waiting_def omap_at_def omap_erase_def)
  next
    case False
    with Cons p show ?thesis by (simp add: total_waiting_def omap_at_def omap_erase_def omap_ok_def)
  qed
qed (simp add: omap_at_def)

lemma wf_nodes_update:
  assumes "wf_nodes m" "omap_at m i = Some nd" "nid nd' = nid nd"
  shows "wf_nodes (omap_update i nd' m)"
proof -
  have ok: "omap_ok m" and ids: "\<And>j x. omap_at m j = Some x \<Longrightarrow> nid x = j"
    using assms(1) by (auto simp: wf_nodes_def)
  have "nid x = j" if "omap_at (omap_update i nd' m) j = Some x" for j x
    using that assms(2,3) ids nodes_map.update_at [OF ok] by (cases "j = i") auto
  then show ?thesis using nodes_map.update_ok [OF ok] by (simp add: wf_nodes_def)
qed

lemma waiting_at_update:
  assumes "wf_nodes (nodes w)" "omap_at (nodes w) i = Some nd" "nodes w' = omap_update i nd' (nodes w)"
  shows "waiting_at w' j = (if j = i then waiting nd' else waiting_at w j)"
  using assms nodes_map.update_at [of "nodes w"] by (simp add: waiting_at_def wf_nodes_def)

lemma net_inv_mono: "net_inv s w \<Longrightarrow> (\<And>i. s i \<le> t i) \<Longrightarrow> net_inv t w"
  unfolding net_inv_def by (meson add_left_mono order_trans)

lemma net_inv_gen [simp]: "net_inv s (w\<lparr>gen := g\<rparr>) = net_inv s w"
  by (simp add: net_inv_def waiting_at_def tokens_def)

lemma net_inv_pausing [simp]: "net_inv s (w\<lparr>pausing := b\<rparr>) = net_inv s w"
  by (simp add: net_inv_def waiting_at_def tokens_def)

text \<open>An id put into the queue makes up for one message without one.\<close>

lemma net_inv_push:
  assumes "net_inv (s(i := Suc (s i))) w"
  shows "net_inv s (push_token i w)"
  using assms by (auto simp: net_inv_def push_token_def waiting_at_def tokens_def split: if_splits)

lemma deliver_inv:
  assumes inv: "net_inv s w" and nd: "omap_at (nodes w) i = Some nd"
  shows "net_inv (s(i := Suc (s i))) (deliver i nd msg w)"
    and "waiting_at (deliver i nd msg w) j = (if j = i then add_mset msg (waiting nd) else waiting_at w j)"
    and "nodes_queue (deliver i nd msg w) = nodes_queue w"
proof -
  obtain nd' c where e: "enqueue check_enqueue (clock w) msg (nd, cnts w) = (nd', c)"
    by (cases "enqueue check_enqueue (clock w) msg (nd, cnts w)")
  note wn = waiting_enqueue [OF e]
  have ws: "waiting nd' = add_mset msg (waiting nd)" using wn(1) by (simp add: check_enqueue_def)
  have d: "deliver i nd msg w = w\<lparr>nodes := omap_update i nd' (nodes w), cnts := c\<rparr>"
    by (simp add: deliver_def e)
  have wf: "wf_nodes (nodes w)" using inv by (simp add: net_inv_def)
  have wa: "waiting_at (deliver i nd msg w) j = (if j = i then waiting nd' else waiting_at w j)" for j
    by (rule waiting_at_update [OF wf nd]) (simp add: d)
  have "int (total_waiting (omap_update i nd' (nodes w))) - int (total_waiting (nodes w)) = 1"
    using total_waiting_update [of "nodes w" i nd nd'] wf nd ws by (simp add: wf_nodes_def)
  then have "queued_messages c = int (total_waiting (omap_update i nd' (nodes w)))"
    using wn(2) inv ws by (simp add: net_inv_def)
  moreover have "size (waiting_at (deliver i nd msg w) j) \<le> tokens (deliver i nd msg w) j + (s(i := Suc (s i))) j" for j
  proof -
    have "size (waiting_at w j) \<le> tokens w j + s j" using inv by (simp add: net_inv_def)
    then show ?thesis using wa [of j] ws nd by (auto simp: tokens_def d waiting_at_def)
  qed
  ultimately show "net_inv (s(i := Suc (s i))) (deliver i nd msg w)"
    unfolding net_inv_def using wf_nodes_update [OF wf nd wn(3)] by (simp add: d)
  show "waiting_at (deliver i nd msg w) j = (if j = i then add_mset msg (waiting nd) else waiting_at w j)"
    using wa ws by simp
  show "nodes_queue (deliver i nd msg w) = nodes_queue w" by (simp add: d)
qed

lemma send_message_inv:
  assumes "net_inv s w"
  shows "net_inv s (fst (send_message cansend sender receiver msg w))"
proof -
  let ?w = "w\<lparr>gen := snd (rng_next (gen w))\<rparr>"
  have inv: "net_inv s ?w" using assms by simp
  have "net_inv s (push_token receiver (deliver receiver nd m ?w))"
    if "omap_at (nodes w) receiver = Some nd" for nd m
    using deliver_inv(1) [OF inv, of receiver nd m] that by (intro net_inv_push) simp
  with inv show ?thesis
    by (auto simp: send_message_def Let_def split: prod.split option.split sum.split)
qed

lemma take_inv:
  assumes inv: "net_inv s w" and nd: "omap_at (nodes w) i = Some nd"
    and tk: "take_message (clock w) tie (nd, cnts w) = (ret, msg, nd', c)"
  defines "w' \<equiv> w\<lparr>nodes := omap_update i nd' (nodes w), cnts := c\<rparr>"
  shows "net_inv s w'" "ret = 1 \<Longrightarrow> net_inv (s(i := s i - 1)) w'"
    "ret = 0 \<Longrightarrow> net_inv (s(i := 0)) w'" "ret = 0 \<or> ret = 1 \<or> ret = -1" "ret = 1 \<longleftrightarrow> msg \<noteq> None"
proof -
  have wf: "wf_nodes (nodes w)" using inv by (simp add: net_inv_def)
  have nid: "nid nd' = nid nd" using tk by (cases rule: take_message_cases) auto
  have wa: "waiting_at w' j = (if j = i then waiting nd' else waiting_at w j)" for j
    by (rule waiting_at_update [OF wf nd]) (simp add: w'_def)
  have qu: "tokens w' = tokens w" by (simp add: fun_eq_iff tokens_def w'_def)
  have wi: "waiting_at w i = waiting nd" using nd by (simp add: waiting_at_def)
  have tot: "total_waiting (omap_update i nd' (nodes w)) + size (waiting nd)
      = total_waiting (nodes w) + size (waiting nd')"
    using total_waiting_update [of "nodes w" i nd nd'] wf nd by (simp add: wf_nodes_def)
  have cnt: "queued_messages c = int (total_waiting (omap_update i nd' (nodes w)))"
    using tk by (cases rule: take_message_cases) (use tot inv in \<open>auto simp: net_inv_def\<close>)
  have base: "net_inv t w'"
    if "\<And>j. size (if j = i then waiting nd' else waiting_at w j) \<le> tokens w j + t j" for t
    unfolding net_inv_def qu wa using that cnt wf_nodes_update [OF wf nd nid] by (simp add: w'_def)
  have old: "size (waiting_at w j) \<le> tokens w j + s j" for j using inv by (simp add: net_inv_def)
  show "net_inv s w'"
    using tk by (cases rule: take_message_cases)
      (rule base, use old [of i] old wi in \<open>auto intro: le_trans [OF _ old]\<close>)+
  show "ret = 1 \<Longrightarrow> net_inv (s(i := s i - 1)) w'"
    using tk by (cases rule: take_message_cases)
      (simp_all, rule base, use old [of i] old wi in auto)
  show "ret = 0 \<Longrightarrow> net_inv (s(i := 0)) w'"
    using tk by (cases rule: take_message_cases)
      (simp_all, rule base, use old in auto)
  show "ret = 0 \<or> ret = 1 \<or> ret = -1" "ret = 1 \<longleftrightarrow> msg \<noteq> None"
    using tk by (cases rule: take_message_cases; simp)+
qed

text \<open>Taking an id out of the queue leaves one message of the node without.\<close>

lemma dequeue_inv:
  assumes "net_inv s w" "pos < length (nodes_queue w)"
  defines "i \<equiv> nodes_queue w ! pos"
  shows "net_inv (s(i := Suc (s i)))
    (w\<lparr>nodes_queue := take pos (nodes_queue w) @ drop (pos + 1) (nodes_queue w)\<rparr>)" (is "net_inv _ ?w")
proof -
  have "nodes_queue w = take pos (nodes_queue w) @ i # drop (pos + 1) (nodes_queue w)"
    unfolding i_def using id_take_nth_drop [OF assms(2)] by simp
  then have "mset (nodes_queue w) = add_mset i (mset (nodes_queue ?w))"
    by (metis (no_types, lifting) hwm.select_convs(5) hwm.surjective hwm.update_convs(5)
        mset.simps(2) mset_append union_mset_add_mset_right)
  then have tk: "tokens w j = tokens ?w j + (if j = i then 1 else 0)" for j by (simp add: tokens_def)
  have "size (waiting_at ?w j) \<le> tokens ?w j + (s(i := Suc (s i))) j" for j
  proof -
    have "size (waiting_at w j) \<le> tokens w j + s j" using assms(1) by (simp add: net_inv_def)
    then show ?thesis using tk [of j] by (auto simp: waiting_at_def split: if_splits)
  qed
  then show ?thesis using assms(1) by (simp add: net_inv_def)
qed

section \<open>Handlers and the worker's round\<close>

text \<open>What the manager relies on of a node's code: it keeps the network's invariant.\<close>

locale node_handler =
  fixes handler :: "node_id \<Rightarrow> 'd message \<Rightarrow> ('d, 's, 'z) hwm_scheme act"
  assumes keeps_inv: "net_inv s w \<Longrightarrow> net_inv s (fst (handler i m w))"
begin

text \<open>
  A burst starts with an id taken out of the queue (one message of the node may be without),
  and leaves every waiting message with an id in the queue, however it ends.
\<close>

lemma handle_one_inv:
  assumes "omap_at (nodes w) i = Some nd" "net_inv s w"
    and h: "handle_one_message handler tie i w = (ret, w', e)"
  shows "(ret = 1 \<and> net_inv (s(i := s i - 1)) w') \<or> (ret = 0 \<and> e = None \<and> net_inv (s(i := 0)) w')
    \<or> (ret = -1 \<and> e = None \<and> net_inv s w')"
proof -
  obtain r msg nd' c where tk: "take_message (clock w) tie (nd, cnts w) = (r, msg, nd', c)"
    by (cases "take_message (clock w) tie (nd, cnts w)")
  note ti = take_inv [OF assms(2,1) tk]
  show ?thesis
  proof (cases msg)
    case None
    then show ?thesis using h assms(1) tk ti by (auto simp: handle_one_message_def)
  next
    case (Some m)
    then have "r = 1" using ti(5) by simp
    with ti(2) keeps_inv show ?thesis using h assms(1) tk Some
      by (auto simp: handle_one_message_def split: prod.splits) (metis fst_conv)
  qed
qed

lemma burst_inv:
  assumes "if num = 0 then net_inv (s(i := Suc (s i))) w \<and> omap_count (nodes w) i else net_inv s w"
  shows "net_inv s (fst (worker_burst handler tie i num w))"
  using assms
proof (induction "129 - num" arbitrary: num w rule: less_induct)
  case less
  let ?t = "s(i := Suc (s i))"
  have more: "net_inv ?t w" using less.prems by (auto split: if_splits elim!: net_inv_mono)
  consider (full) "num > 128" | (gone) "num \<le> 128" "omap_at (nodes w) i = None"
    | (go) nd where "num \<le> 128" "omap_at (nodes w) i = Some nd" by (cases "omap_at (nodes w) i") force+
  then show ?case
  proof cases
    case full
    then show ?thesis using net_inv_push [OF more] by (simp add: worker_burst.simps [of handler tie i num w])
  next
    case gone
    then have "num \<noteq> 0" using less.prems by (auto simp: omap_count_def omap_at_def split: if_splits)
    then show ?thesis using gone less.prems
      by (simp add: worker_burst.simps [of handler tie i num w] handle_one_message_def)
  next
    case go
    obtain ret w' e where h: "handle_one_message handler (tie num) i w = (ret, w', e)"
      by (cases "handle_one_message handler (tie num) i w")
    note burst = worker_burst.simps [of handler tie i num w]
    have weaken: "net_inv s w'" if "net_inv (s(i := 0)) w'" using that by (rule net_inv_mono) auto
    from handle_one_inv [OF go(2) more h]
    consider (one) "ret = 1" "net_inv s w'" | (zero) "ret = 0" "e = None" "net_inv s w'"
      | (later) "ret = -1" "e = None" "net_inv ?t w'"
      using weaken by (auto simp: fun_upd_idem)
    then show ?thesis
    proof cases
      case one
      then show ?thesis using less.hyps [of "num + 1" w'] go(1) h burst by (cases e) auto
    next
      case zero
      then show ?thesis using go(1) h burst by simp
    next
      case later
      then show ?thesis using go(1) h burst net_inv_push by simp
    qed
  qed
qed

lemma round_inv:
  assumes "net_inv s w" "pos < length (nodes_queue w)" "omap_count (nodes w) (nodes_queue w ! pos)"
  shows "net_inv s (fst (worker_round handler tie pos w))"
proof -
  let ?w = "w\<lparr>nodes_queue := take pos (nodes_queue w) @ drop (pos + 1) (nodes_queue w)\<rparr>"
  have "net_inv s (fst (worker_burst handler tie (nodes_queue w ! pos) 0 ?w))"
    using dequeue_inv [OF assms(1,2)] assms(3) by (intro burst_inv) simp
  then show ?thesis using assms(2,3) by (simp add: worker_round_def Let_def)
qed

end

section \<open>Adding and removing nodes\<close>

lemma emplace_inv:
  assumes "net_inv s w" "waiting nd = {#}"
  shows "net_inv s (w\<lparr>nodes := omap_emplace (nid nd) nd (nodes w)\<rparr>)"
proof -
  let ?m = "omap_emplace (nid nd) nd (nodes w)"
  have wf: "omap_ok (nodes w)" "\<And>j x. omap_at (nodes w) j = Some x \<Longrightarrow> nid x = j"
    using assms(1) by (auto simp: net_inv_def wf_nodes_def)
  note at = nodes_map.emplace_at [OF wf(1)]
  have "nid x = j" if "omap_at ?m j = Some x" for j x
    using that wf(2) unfolding at by (auto split: if_splits)
  then have wf': "wf_nodes ?m"
    using nodes_map.emplace_ok [OF wf(1)] by (simp add: wf_nodes_def)
  have tot: "total_waiting ?m = total_waiting (nodes w)"
  proof (cases "omap_at (nodes w) (nid nd)")
    case None
    then show ?thesis using total_waiting_emplace [of "nodes w" "nid nd" nd] assms(2) by simp
  next
    case (Some x)
    have "omap_emplace k v m = m" if "map_of m k = Some x" "omap_ok m" for k v and m :: "('a, 'b) node omap"
      using that by (induction k v m rule: omap_emplace.induct)
        (fastforce simp: omap_ok_def dest: map_of_SomeD split: if_splits)+
    then show ?thesis using Some wf(1) by (simp add: omap_at_def)
  qed
  have "waiting_at (w\<lparr>nodes := ?m\<rparr>) j = waiting_at w j" for j
    using at assms(2) by (auto simp: waiting_at_def split: option.split)
  then show ?thesis using assms(1) wf' tot by (simp add: net_inv_def tokens_def)
qed

section \<open>Looking for ids\<close>

lemma omap_count_at: "omap_count m x \<longleftrightarrow> omap_at m x \<noteq> None"
  by (simp add: omap_count_def omap_at_def)

lemma has_bigger_id_iff:
  assumes "wf_nodes (nodes w)"
  shows "has_bigger_id w i \<longleftrightarrow> (\<exists>x. omap_count (nodes w) x \<and> i \<le> x)"
proof -
  have ok: "omap_ok (nodes w)" using assms by (simp add: wf_nodes_def)
  show ?thesis
    using nodes_map.lower_bound_None [OF ok, of i]
    by (auto simp: has_bigger_id_def omap_count_at not_less [symmetric])
qed

lemma next_id_found:
  assumes "wf_nodes (nodes w)" "has_bigger_id w i"
  shows "\<exists>j. next_id w i = Inr j \<and> omap_count (nodes w) j \<and> i \<le> j
    \<and> (\<forall>x. omap_count (nodes w) x \<longrightarrow> i \<le> x \<longrightarrow> j \<le> x)"
proof -
  have ok: "omap_ok (nodes w)" using assms(1) by (simp add: wf_nodes_def)
  from assms(2) obtain j nd where lb: "omap_lower_bound i (nodes w) = Some (j, nd)"
    by (auto simp: has_bigger_id_def)
  then have "next_id w i = Inr j" by (simp add: next_id_def has_bigger_id_def)
  moreover have "omap_count (nodes w) j \<and> i \<le> j \<and> (\<forall>x. omap_count (nodes w) x \<longrightarrow> i \<le> x \<longrightarrow> j \<le> x)"
    using nodes_map.lower_bound_Some [OF ok lb] by (simp add: omap_count_at)
  ultimately show ?thesis by blast
qed

section \<open>Drawing ids\<close>

lemma random_id_spec:
  assumes "random_id w = (Inr i, w')"
  shows "i < max_id w" "w' = w\<lparr>gen := gen w'\<rparr>"
  using assms by (auto simp: random_id_def Let_def word_mod_less_divisor word_gt_0 split: prod.splits if_splits)

lemma draw_id_spec:
  assumes "draw_id fuel again w = (Inr i, w')"
  shows "\<not> again w' i \<and> i < max_id w \<and> w' = w\<lparr>gen := gen w'\<rparr>"
  using assms
proof (induction fuel arbitrary: w)
  case (Suc fuel)
  obtain r v where rv: "random_id w = (r, v)" by (cases "random_id w")
  show ?case
  proof (cases r)
    case (Inr j)
    note v = random_id_spec [OF rv [unfolded Inr]]
    show ?thesis
    proof (cases "again v j")
      case True
      then have "draw_id fuel again v = (Inr i, w')" using Suc.prems rv Inr by simp
      from Suc.IH [OF this] show ?thesis using v(2) by (metis hwm.select_convs(1) hwm.surjective hwm.update_convs(12))
    next
      case False
      then show ?thesis using Suc.prems rv Inr v by auto
    qed
  qed (use Suc.prems rv in simp)
qed simp

lemma gen_id_spec:
  assumes "gen_id fuel w = (Inr i, w')"
  shows "\<not> omap_count (nodes w) i" "i < max_id w" "w' = w\<lparr>gen := gen w'\<rparr>"
proof -
  have "draw_id fuel (\<lambda>w i. omap_count (nodes w) i) w = (Inr i, w')"
    using assms by (simp add: gen_id_def split: if_splits)
  from draw_id_spec [OF this] have *: "\<not> omap_count (nodes w') i" "i < max_id w" "w' = w\<lparr>gen := gen w'\<rparr>"
    by simp_all
  from *(3) have "nodes w' = nodes w" by (metis hwm.simps(4) hwm.surjective hwm.update_convs(12))
  with * show "\<not> omap_count (nodes w) i" "i < max_id w" "w' = w\<lparr>gen := gen w'\<rparr>" by simp_all
qed

lemma get_random_node_spec:
  assumes "get_random_node fuel w = (Inr i, w')" "wf_nodes (nodes w)"
  shows "omap_count (nodes w) i" "w' = w\<lparr>gen := gen w'\<rparr>"
proof -
  obtain j where d: "draw_id fuel (\<lambda>w i. \<not> has_bigger_id w i) w = (Inr j, w')" and n: "next_id w' j = Inr i"
    using assms(1) by (auto simp: get_random_node_def split: if_splits prod.splits sum.splits)
  from draw_id_spec [OF d] have b: "has_bigger_id w' j" and w': "w' = w\<lparr>gen := gen w'\<rparr>" by simp_all
  from w' have nodes: "nodes w' = nodes w" by (metis hwm.simps(4) hwm.surjective hwm.update_convs(12))
  show "omap_count (nodes w) i" using next_id_found [of w', OF _ b] assms(2) n nodes by auto
  show "w' = w\<lparr>gen := gen w'\<rparr>" by (rule w')
qed

text \<open>Without running workers, \<open>add_node\<close> files the node, unless its id is taken.\<close>

lemma add_node_idle:
  assumes "running_threads w = 0"
  shows "add_node init nd w
    = catch_std (init (nid nd)) (w\<lparr>nodes := omap_emplace (nid nd) nd (nodes w), pausing := False\<rparr>)"
  using assms by (simp add: add_node_def seq_act_def pause_act_def run_lock_def ok_act_def resume_def)

section \<open>Properties of the manager\<close>

lemma send_message_unfold:
  "send_message cansend sender receiver msg w =
     (let w0 = w\<lparr>gen := snd (rng_next (gen w))\<rparr> in
      if fst (rng_next (gen w)) < fail_thres w then (w0, None)
      else if \<not> omap_count (nodes w) sender then (w0, Some (Runtime_Error ''Invalid sender''))
      else case omap_at (nodes w) receiver of
        None \<Rightarrow> (w0, Some (Runtime_Error ''Invalid receiver''))
      | Some nd \<Rightarrow> (case cansend w0 sender receiver of Inl e \<Rightarrow> (w0, Some e)
         | Inr ok \<Rightarrow> if \<not> ok then (w0, Some (Runtime_Error ''The sender cannot send to the receiver!''))
             else (push_token receiver (deliver receiver nd (msg\<lparr>hops := hops msg + 1\<rparr>) w0), None)))"
  by (cases "rng_next (gen w)") (simp add: send_message_def Let_def)

text \<open>C18: between existing nodes, over a link that is allowed and does not lose it,
  \<open>send_message\<close> adds exactly this message, its hop count one higher, to those waiting at the
  receiver; the other nodes keep theirs, the receiver's id is put at the end of the queue, and
  the network's invariant is kept.\<close>

theorem send_message_delivers:
  assumes "net_inv slack w" and "fail_thres w \<le> fst (rng_next (gen w))"
    and "omap_count (nodes w) sender" "omap_count (nodes w) receiver"
    and "cansend (w\<lparr>gen := snd (rng_next (gen w))\<rparr>) sender receiver = Inr True"
  shows "\<exists>w'. send_message cansend sender receiver msg w = (w', None) \<and> net_inv slack w'
    \<and> nodes_queue w' = nodes_queue w @ [receiver]
    \<and> (\<forall>j. waiting_at w' j = (if j = receiver then add_mset (msg\<lparr>hops := hops msg + 1\<rparr>) (waiting_at w j)
                             else waiting_at w j))"
proof -
  let ?w0 = "w\<lparr>gen := snd (rng_next (gen w))\<rparr>"
  obtain nd where nd: "omap_at (nodes w) receiver = Some nd"
    using assms(4) by (auto simp: omap_count_def omap_at_def)
  have inv0: "net_inv slack ?w0" using assms(1) by simp
  have nd0: "omap_at (nodes ?w0) receiver = Some nd" using nd by simp
  note d = deliver_inv [OF inv0 nd0, of "msg\<lparr>hops := hops msg + 1\<rparr>"]
  have eq: "send_message cansend sender receiver msg w =
      (push_token receiver (deliver receiver nd (msg\<lparr>hops := hops msg + 1\<rparr>) ?w0), None)"
    using assms(2-5) nd by (simp add: send_message_unfold Let_def not_less)
  have "net_inv slack (fst (send_message cansend sender receiver msg w))"
    using assms(1) by (rule send_message_inv)
  then show ?thesis unfolding eq using d(2,3) nd by (auto simp: push_token_def waiting_at_def)
qed

definition two_nodes :: "(nat, unit) hwm" where
  "two_nodes = (hwm_new 4 8 1 0 0)\<lparr>nodes := [(3, node_new 3 ()), (5, node_new 5 ())]\<rparr>"

lemma two_nodes_inv: "net_inv (\<lambda>_. 0) two_nodes"
  by (auto simp: net_inv_def wf_nodes_def omap_ok_def omap_at_def two_nodes_def hwm_new_def node_new_def
      total_waiting_def waiting_def waiting_at_def tokens_def split: if_splits)

theorem send_message_delivers_witness:
  "\<exists>w'. send_message can_send 3 5 (message_new (7 :: nat)) two_nodes = (w', None) \<and> net_inv (\<lambda>_. 0) w'
    \<and> nodes_queue w' = nodes_queue two_nodes @ [5]
    \<and> (\<forall>j. waiting_at w' j = (if j = 5 then add_mset ((message_new 7)\<lparr>hops := hops (message_new (7 :: nat)) + 1\<rparr>)
             (waiting_at two_nodes j) else waiting_at two_nodes j))"
  by (rule send_message_delivers [OF two_nodes_inv])
    (simp_all add: two_nodes_def hwm_new_def omap_count_def can_send_def)

text \<open>When the link does not lose the message, an unknown sender, an unknown receiver and
  a forbidden link are reported as errors, checked in this order, and then nothing but the
  generator has changed: no message and no id is queued.\<close>

theorem send_message_refuses:
  assumes "fail_thres w \<le> fst (rng_next (gen w))"
  defines "w0 \<equiv> w\<lparr>gen := snd (rng_next (gen w))\<rparr>"
  shows "(\<not> omap_count (nodes w) sender \<longrightarrow>
       send_message cansend sender receiver msg w = (w0, Some (Runtime_Error ''Invalid sender'')))
    \<and> (omap_count (nodes w) sender \<longrightarrow> \<not> omap_count (nodes w) receiver \<longrightarrow>
       send_message cansend sender receiver msg w = (w0, Some (Runtime_Error ''Invalid receiver'')))
    \<and> (omap_count (nodes w) sender \<longrightarrow> omap_count (nodes w) receiver \<longrightarrow> cansend w0 sender receiver = Inr False \<longrightarrow>
       send_message cansend sender receiver msg w
         = (w0, Some (Runtime_Error ''The sender cannot send to the receiver!'')))"
  using assms(1) unfolding w0_def
  by (auto simp: send_message_unfold Let_def not_less omap_count_def omap_at_def)

theorem send_message_refuses_witness:
  "send_message can_send 4 5 (message_new 7) two_nodes
     = (two_nodes\<lparr>gen := snd (rng_next (gen two_nodes))\<rparr>, Some (Runtime_Error ''Invalid sender''))
   \<and> send_message can_send 3 3 (message_new 7) two_nodes
     = (two_nodes\<lparr>gen := snd (rng_next (gen two_nodes))\<rparr>,
        Some (Runtime_Error ''The sender cannot send to the receiver!''))"
proof -
  have h: "fail_thres two_nodes \<le> fst (rng_next (gen two_nodes))" by (simp add: two_nodes_def hwm_new_def)
  have "\<not> omap_count (nodes two_nodes) 4" "omap_count (nodes two_nodes) 3"
    by (simp_all add: two_nodes_def omap_count_def)
  then show ?thesis
    using send_message_refuses [OF h, of 4 can_send 5 "message_new 7"]
      send_message_refuses [OF h, of 3 can_send 3 "message_new 7"] by (simp add: can_send_def)
qed

text \<open>No message is ever left without a worker that will look at it. If every waiting
  message has an id of its node in the queue and the shared counter is the number of waiting
  messages, then this still holds after a worker's round, for any node code that keeps it (as
  \<open>send_message\<close> does): whether the burst ends because the node's queues are empty, because a
  delayed message is not due, after 129 messages, or because a handler throws.\<close>

theorem worker_round_keeps_messages:
  assumes "\<And>i m s w. net_inv s w \<Longrightarrow> net_inv s (fst (handler i m w))"
    and "net_inv slack w" and "pos < length (nodes_queue w)"
    and "omap_count (nodes w) (nodes_queue w ! pos)"
  shows "net_inv slack (fst (worker_round handler tie pos w))"
proof -
  have "node_handler handler" using assms(1) by unfold_locales
  then show ?thesis using assms(2-4) by (rule node_handler.round_inv)
qed

definition one_queued :: "(nat, unit) hwm" where
  "one_queued = fst (send_message can_send 3 5 (message_new 7) two_nodes)"

lemma one_queued_eq:
  "one_queued = two_nodes\<lparr>gen := snd (rng_next (gen two_nodes)),
     nodes := [(3, node_new 3 ()), (5, (node_new 5 ())\<lparr>messages := [(message_new 7)\<lparr>hops := 1\<rparr>]\<rparr>)],
     cnts := \<lparr>queued_messages = 1, all_messages = 1\<rparr>, nodes_queue := [5]\<rparr>"
  by (simp add: one_queued_def send_message_unfold Let_def two_nodes_def hwm_new_def omap_count_def
      omap_at_def can_send_def deliver_def enqueue_def check_enqueue_def push_token_def omap_update_def
      node_new_def message_new_def)

lemma one_queued_inv: "net_inv (\<lambda>_. 0) one_queued"
  unfolding one_queued_def by (rule send_message_inv) (rule two_nodes_inv)

theorem worker_round_keeps_messages_witness:
  "net_inv (\<lambda>_. 0) (fst (worker_round (\<lambda>i m. send_message can_send i 3 m) (\<lambda>_. 0) 0 one_queued))"
  by (rule worker_round_keeps_messages [OF _ one_queued_inv])
    (auto intro: send_message_inv simp: one_queued_eq omap_count_def)

text \<open>C35: \<open>fail\<close> removes the node, but not what refers to it. If a message was waiting there,
  the counter \<open>queued_messages\<close> stays too high by the number of messages thrown away, for good,
  and the queue still holds the node's id: a worker that takes it fails in \<open>nodes.at\<close>, outside
  the \<open>try\<close> block.\<close>

theorem fail_leaves_dangling:
  assumes "net_inv (\<lambda>_. 0) w" and "waiting_at w i \<noteq> {#}" and "running_threads w = 0"
  shows "\<exists>w'. fail i w = (w', None) \<and> omap_at (nodes w') i = None
    \<and> queued_messages (cnts w') = int (total_waiting (nodes w') + size (waiting_at w i))
    \<and> (\<exists>pos < length (nodes_queue w'). snd (worker_round handler tie pos w') = Some Out_Of_Range)"
proof -
  obtain nd where nd: "omap_at (nodes w) i = Some nd"
    using assms(2) by (cases "omap_at (nodes w) i") (auto simp: waiting_at_def)
  let ?w = "w\<lparr>pausing := False, nodes := omap_erase i (nodes w)\<rparr>"
  have ok: "omap_ok (nodes w)" using assms(1) by (simp add: net_inv_def wf_nodes_def)
  have eq: "fail i w = (?w, None)"
    using assms(3) nd by (simp add: fail_def omap_count_def omap_at_def run_lock_def seq_act_def pause_act_def
        ok_act_def resume_def)
  have gone: "omap_at (nodes ?w) i = None" using nodes_map.erase_at [OF ok] by simp
  have "total_waiting (omap_erase i (nodes w)) + size (waiting_at w i) = total_waiting (nodes w)"
    using total_waiting_erase [OF ok nd] nd by (simp add: waiting_at_def)
  then have cnt: "queued_messages (cnts ?w) = int (total_waiting (nodes ?w) + size (waiting_at w i))"
    using assms(1) by (simp add: net_inv_def)
  have "0 < size (waiting_at w i)" using assms(2) by (simp add: nonempty_has_size)
  moreover have "size (waiting_at w i) \<le> tokens w i" using assms(1) by (simp add: net_inv_def)
  ultimately have "0 < tokens w i" by (rule less_le_trans)
  then have "i \<in> set (nodes_queue w)" by (simp add: tokens_def count_eq_zero_iff [symmetric])
  then obtain pos where pos: "pos < length (nodes_queue ?w)" "nodes_queue ?w ! pos = i"
    by (auto simp: in_set_conv_nth)
  moreover have "snd (worker_round handler tie pos ?w) = Some Out_Of_Range"
    using pos gone by (simp add: worker_round_def Let_def omap_count_def omap_at_def)
  ultimately show ?thesis using eq gone cnt by blast
qed

theorem fail_leaves_dangling_witness:
  "\<exists>w'. fail 5 one_queued = (w', None) \<and> omap_at (nodes w') 5 = None
    \<and> queued_messages (cnts w') = int (total_waiting (nodes w') + size (waiting_at one_queued 5))
    \<and> (\<exists>pos < length (nodes_queue w').
         snd (worker_round (\<lambda>i m w. (w, None)) (\<lambda>_. 0) pos w') = Some Out_Of_Range)"
  by (rule fail_leaves_dangling [OF one_queued_inv])
    (simp_all add: one_queued_eq waiting_at_def omap_at_def waiting_def two_nodes_def hwm_new_def)

text \<open>\<open>next_id\<close> returns the smallest id of a node that is not below its argument, and
  throws exactly if there is none.\<close>

theorem next_id_correct:
  assumes "wf_nodes (nodes w)"
  shows "(\<forall>j. next_id w i = Inr j \<longleftrightarrow> omap_count (nodes w) j \<and> i \<le> j
            \<and> (\<forall>x. omap_count (nodes w) x \<longrightarrow> i \<le> x \<longrightarrow> j \<le> x))
    \<and> (next_id w i = Inl (Runtime_Error ''Invalid argument'') \<longleftrightarrow> (\<forall>x. omap_count (nodes w) x \<longrightarrow> x < i))"
proof (cases "has_bigger_id w i")
  case False
  then show ?thesis using has_bigger_id_iff [OF assms, of i] by (auto simp: next_id_def not_le)
next
  case True
  from next_id_found [OF assms True] obtain j where n: "next_id w i = Inr j"
    and j: "omap_count (nodes w) j" "i \<le> j" "\<And>x. omap_count (nodes w) x \<Longrightarrow> i \<le> x \<Longrightarrow> j \<le> x" by blast
  have "next_id w i = Inr x \<longleftrightarrow> omap_count (nodes w) x \<and> i \<le> x
      \<and> (\<forall>y. omap_count (nodes w) y \<longrightarrow> i \<le> y \<longrightarrow> x \<le> y)" (is "_ \<longleftrightarrow> ?R x") for x
  proof
    assume "next_id w i = Inr x"
    with n have "x = j" by simp
    with j show "?R x" by blast
  next
    assume "?R x"
    then have "j = x" using j(1,2) j(3) [of x] by (intro order_antisym) blast+
    with n show "next_id w i = Inr x" by simp
  qed
  moreover have "\<not> (\<forall>x. omap_count (nodes w) x \<longrightarrow> x < i)" using j(1,2) by (auto simp: not_less)
  ultimately show ?thesis using n by simp
qed

theorem next_id_correct_witness:
  "next_id two_nodes 4 = Inr 5"
proof -
  have "wf_nodes (nodes two_nodes)" using two_nodes_inv by (simp add: net_inv_def)
  from next_id_correct [OF this, of 4] show ?thesis
    by (auto simp: two_nodes_def omap_count_def hwm_new_def split: if_splits)
qed

text \<open>An id drawn by \<open>gen_id\<close> is in range and not in use, and a node drawn by
  \<open>get_random_node\<close> exists; neither changes anything but the generator. (How many draws they
  take is up to the generator: the number allowed is an argument.)\<close>

theorem drawn_ids_correct:
  assumes "wf_nodes (nodes w)"
  shows "(\<forall>i w'. gen_id fuel w = (Inr i, w') \<longrightarrow>
            \<not> omap_count (nodes w) i \<and> i < max_id w \<and> w' = w\<lparr>gen := gen w'\<rparr>)
    \<and> (\<forall>i w'. get_random_node fuel w = (Inr i, w') \<longrightarrow> omap_count (nodes w) i \<and> w' = w\<lparr>gen := gen w'\<rparr>)"
  using gen_id_spec [of fuel w] get_random_node_spec [of fuel w, OF _ assms] by blast

theorem drawn_ids_correct_witness:
  "\<exists>w'. gen_id 1 two_nodes = (Inr 1, w') \<and> \<not> omap_count (nodes two_nodes) 1 \<and> 1 < max_id two_nodes"
proof -
  have wf: "wf_nodes (nodes two_nodes)" using two_nodes_inv by (simp add: net_inv_def)
  have one: "fst (rng_next (gen two_nodes)) = 1"
    by (simp add: two_nodes_def hwm_new_def rng_next_def xoroshiro_default_def Let_def)
  have "random_id two_nodes = (Inr 1, two_nodes\<lparr>gen := snd (rng_next (gen two_nodes))\<rparr>)"
    using one by (cases "rng_next (gen two_nodes)") (simp add: random_id_def, simp add: two_nodes_def hwm_new_def)
  moreover have "\<not> omap_count (nodes two_nodes) 1" by (simp add: two_nodes_def omap_count_def)
  moreover have "length (nodes two_nodes) = 2" "max_id two_nodes = 8"
    by (simp_all add: two_nodes_def hwm_new_def)
  ultimately have "\<exists>w'. gen_id 1 two_nodes = (Inr 1, w')" by (simp add: gen_id_def)
  with drawn_ids_correct [OF wf, of 1] show ?thesis by blast
qed

lemma iter_neighbours_push:
  "iter_neighbours_in (can_send w) n (\<lambda>neigh ans. (ans @ [neigh], Inr True)) ms acc
     = (acc @ filter (\<lambda>j. j \<noteq> n) (map (\<lambda>m. nid (snd m)) ms), None)"
  by (induction ms arbitrary: acc) (auto simp: can_send_def)

lemma iter_neighbours_count:
  "iter_neighbours_in (can_send w) n (\<lambda>neigh ans. (ans + 1, Inr True)) ms c
     = (c + of_nat (length (filter (\<lambda>j. j \<noteq> n) (map (\<lambda>m. nid (snd m)) ms))), None)"
  by (induction ms arbitrary: c) (auto simp: can_send_def add.assoc)

lemma wf_nodes_ids:
  assumes "wf_nodes m"
  shows "map (\<lambda>p. nid (snd p)) m = map fst m"
proof (rule map_cong [OF refl])
  fix p assume p: "p \<in> set m"
  have "distinct (map fst m)" using assms by (simp add: wf_nodes_def omap_ok_def strict_sorted_iff)
  then have "map_of m (fst p) = Some (snd p)" using p by (intro map_of_is_SomeI) simp_all
  then show "nid (snd p) = fst p" using assms by (simp add: wf_nodes_def omap_at_def)
qed

text \<open>The neighbours of a node are the other nodes, in increasing order; \<open>count_neighbours\<close>
  adds their number to a variable that was never initialised, so the result is right only if
  that memory happened to be zero.\<close>

theorem neighbours_correct:
  fixes n junk :: u64
  assumes "wf_nodes (nodes w)"
  defines "others \<equiv> filter (\<lambda>j. j \<noteq> n) (map fst (nodes w))"
  shows "get_neighbours (iter_neighbours can_send w n) = Inr others
    \<and> count_neighbours (iter_neighbours can_send w n) junk = Inr (junk + of_nat (length others))
    \<and> sorted_wrt (<) others \<and> (\<forall>j. j \<in> set others \<longleftrightarrow> omap_count (nodes w) j \<and> j \<noteq> n)"
proof -
  have "sorted_wrt (<) (map fst (nodes w))" using assms(1) by (simp add: wf_nodes_def omap_ok_def)
  then have "sorted_wrt (<) others" unfolding others_def by (rule sorted_wrt_filter)
  moreover have "j \<in> set others \<longleftrightarrow> omap_count (nodes w) j \<and> j \<noteq> n" for j
    by (auto simp: others_def omap_count_def map_of_eq_None_iff)
  ultimately show ?thesis
    by (simp add: get_neighbours_def count_neighbours_def iter_neighbours_def iter_neighbours_push
        iter_neighbours_count wf_nodes_ids [OF assms(1)] others_def)
qed

theorem neighbours_correct_witness:
  "get_neighbours (iter_neighbours can_send two_nodes 3) = Inr [5]
   \<and> count_neighbours (iter_neighbours can_send two_nodes 3) 41 = Inr 42"
proof -
  have wf: "wf_nodes (nodes two_nodes)" using two_nodes_inv by (simp add: net_inv_def)
  have "filter (\<lambda>j. j \<noteq> 3) (map fst (nodes two_nodes)) = [5]" by (simp add: two_nodes_def)
  with neighbours_correct [OF wf, of 3 41] show ?thesis by simp
qed

end
