(* ===== verification/Chord.thy ===== *)
theory Chord
  imports Hardware_Manager
begin

text \<open>
  Chord routing, \<open>protocols/chord.hpp\<close>, and the program that measures it,
  \<open>examples/chord_hop_distribution.cpp\<close>. Ids live on a ring of \<open>2 ^ bits\<close> points. A message
  for a key goes to the key's successor, the first node at or after it; a node that is not the
  successor sends it on to one of its fingers, the successors of the points at the distances
  \<open>2 ^ (i - 1)\<close>. The specification measures distances clockwise, as natural numbers.
\<close>

section \<open>The protocol\<close>

record chord_state =
  bits :: u64

text \<open>\<open>1ULL << n\<close>\<close>

definition shl_one :: "u64 \<Rightarrow> u64 res" where
  "shl_one n = (if unat n < 64 then Inr (push_bit (unat n) 1) else Inl (UB ''shift past the width''))"

definition chord_distance :: "node_id \<Rightarrow> u64 \<Rightarrow> node_id \<Rightarrow> u64 res" where
  "chord_distance i b other0 =
     bind_res (shl_one b) (\<lambda>ring. let other = other0 mod ring in
       if other \<ge> i then Inr (other - i) else Inr (ring + other - i))"

definition chord_successor :: "('d, 's, 'z) hwm_scheme \<Rightarrow> u64 \<Rightarrow> node_id \<Rightarrow> node_id res" where
  "chord_successor w b x0 =
     bind_res (shl_one b) (\<lambda>ring. let x = x0 mod ring in
       if has_bigger_id w x then next_id w x else next_id w 0)"

text \<open>
  The loop over the fingers, from the farthest one; the first finger not beyond the destination
  is the one the message is sent to.
\<close>

primrec find_finger ::
    "nat \<Rightarrow> ('d, 's, 'z) hwm_scheme \<Rightarrow> u64 \<Rightarrow> node_id \<Rightarrow> node_id \<Rightarrow> node_id option res" where
  "find_finger 0 w b i dst = Inr None"
| "find_finger (Suc n) w b i dst =
     bind_res (shl_one (of_nat n)) (\<lambda>step.
     bind_res (chord_successor w b (i + step)) (\<lambda>finger.
     bind_res (chord_distance i b finger) (\<lambda>df.
     bind_res (chord_distance i b dst) (\<lambda>dd.
       if df \<le> dd then Inr (Some finger) else find_finger n w b i dst))))"

definition chord_handle ::
    "(node_id \<Rightarrow> u64 message \<Rightarrow> (u64, chord_state, 'z) hwm_scheme act) \<Rightarrow> node_id \<Rightarrow> u64 message
      \<Rightarrow> (u64, chord_state, 'z) hwm_scheme act" where
  "chord_handle cb i msg w =
     (case omap_at (nodes w) i of None \<Rightarrow> (w, Some (UB ''node destroyed''))
      | Some nd \<Rightarrow> (let b = bits (user nd) in
        case chord_successor w b (msg_data msg) of Inl e \<Rightarrow> (w, Some e)
        | Inr dst \<Rightarrow>
            if i = dst then cb i msg w
            else case find_finger (unat (ucast b :: 32 word)) w b i dst of
                Inl e \<Rightarrow> (w, Some e)
              | Inr None \<Rightarrow> (w, None)
              | Inr (Some finger) \<Rightarrow> send_message can_send i finger msg w))"

text \<open>The draws of \<open>start_message\<close>, until a key that another node is responsible for.\<close>

primrec draw_key ::
    "nat \<Rightarrow> node_id \<Rightarrow> u64 \<Rightarrow> (u64, chord_state, 'z) hwm_scheme \<Rightarrow> u64 res \<times> (u64, chord_state, 'z) hwm_scheme" where
  "draw_key 0 i b w = (Inl No_Return, w)"
| "draw_key (Suc fuel) i b w =
     (let (r, g) = rng_next (gen w); w' = w\<lparr>gen := g\<rparr> in
      case shl_one b of Inl e \<Rightarrow> (Inl e, w')
      | Inr ring \<Rightarrow>
        (case chord_successor w' b (r mod ring) of Inl e \<Rightarrow> (Inl e, w')
         | Inr s \<Rightarrow> if s = i then draw_key fuel i b w' else (Inr (r mod ring), w')))"

definition chord_start ::
    "nat \<Rightarrow> (node_id \<Rightarrow> u64 message \<Rightarrow> (u64, chord_state, 'z) hwm_scheme act) \<Rightarrow> node_id \<Rightarrow> u64 message
      \<Rightarrow> (u64, chord_state, 'z) hwm_scheme act" where
  "chord_start fuel cb i msg w =
     (case omap_at (nodes w) i of None \<Rightarrow> (w, Some (UB ''node destroyed''))
      | Some nd \<Rightarrow>
        (case draw_key fuel i (bits (user nd)) w of
           (Inl e, w') \<Rightarrow> (w', Some e)
         | (Inr k, w') \<Rightarrow> chord_handle cb i (set_msg_data k msg) w'))"

definition chord_node :: "node_id \<Rightarrow> u64 \<Rightarrow> (u64, chord_state) node" where
  "chord_node i b = node_new i \<lparr>bits = b\<rparr>"

section \<open>Distances on the ring\<close>

text \<open>How far it is from \<open>a\<close> clockwise to \<open>b\<close> on a ring of \<open>m\<close> points.\<close>

definition cw :: "nat \<Rightarrow> nat \<Rightarrow> nat \<Rightarrow> nat" where
  "cw m a b = (b + m - a) mod m"

lemma cw_cases:
  assumes "a < m" "b < m"
  shows "cw m a b = (if a \<le> b then b - a else m + b - a)"
proof (cases "a \<le> b")
  case True
  then have "b + m - a = (b - a) + m" by simp
  then have "cw m a b = (b - a) mod m" by (simp only: cw_def mod_add_self2)
  then show ?thesis using True assms by simp
next
  case False
  then have "b + m - a < m" using assms by linarith
  then show ?thesis using False by (simp add: cw_def add.commute)
qed

lemma cw_less: "0 < m \<Longrightarrow> cw m a b < m"
  by (simp add: cw_def)

lemma cw_self [simp]: "a < m \<Longrightarrow> cw m a a = 0"
  by (simp add: cw_def)

lemma cw_zero: "a < m \<Longrightarrow> b < m \<Longrightarrow> cw m a b = 0 \<longleftrightarrow> a = b"
  by (auto simp: cw_cases)

lemma cw_inj: "a < m \<Longrightarrow> b < m \<Longrightarrow> c < m \<Longrightarrow> cw m a b = cw m a c \<longleftrightarrow> b = c"
  by (auto simp: cw_cases)

lemma add_mod_cases:
  assumes "i < m" "h < m"
  shows "(i + h) mod m = (if i + h < m then i + h else i + h - (m :: nat))"
proof (cases "i + h < m")
  case False
  then have "(i + h) mod m = (i + h - m) mod m" by (simp add: le_mod_geq not_less)
  moreover have "i + h - m < m" using assms by linarith
  ultimately show ?thesis using False by simp
qed simp

text \<open>Moving the starting point by \<open>h\<close> shortens the way, unless it passes the target.\<close>

lemma cw_shift:
  assumes "i < m" "n < m" "h < m"
  shows "cw m ((i + h) mod m) n = (if h \<le> cw m i n then cw m i n - h else cw m i n + m - h)"
proof -
  have "(i + h) mod m < m" using assms by simp
  with assms show ?thesis by (auto simp: cw_cases add_mod_cases)
qed

lemma add_cw: "i < m \<Longrightarrow> n < m \<Longrightarrow> (i + cw m i n) mod m = n"
  by (auto simp: cw_cases add_mod_cases)

lemma cw_split:
  assumes "i < m" "f < m" "d < m" "cw m i f \<le> cw m i d"
  shows "cw m f d = cw m i d - cw m i f"
  using cw_shift [OF assms(1,3) cw_less, of i f] add_cw [OF assms(1,2)] assms by simp

section \<open>Successors and distances in the network\<close>

definition chord_ring :: "('d, 's, 'z) hwm_scheme \<Rightarrow> u64 \<Rightarrow> bool" where
  "chord_ring w b \<longleftrightarrow> wf_nodes (nodes w) \<and> unat b < 64
     \<and> (\<forall>x. omap_count (nodes w) x \<longrightarrow> unat x < 2 ^ unat b)"

lemma shl_one_ok:
  assumes "unat n < 64"
  shows "shl_one n = Inr (2 ^ unat n)" "unat (2 ^ unat n :: u64) = 2 ^ unat n"
  using assms by (simp_all add: shl_one_def push_bit_of_1 unat_2p)

lemma unat_mod_ring:
  assumes "unat (b :: u64) < 64"
  shows "unat (x mod 2 ^ unat b :: u64) = unat x mod 2 ^ unat b"
  using shl_one_ok(2) [OF assms] by (simp only: unat_mod)

lemma chord_distance_spec:
  assumes b: "unat b < 64" and i: "unat i < 2 ^ unat b"
  shows "\<exists>d. chord_distance i b x = Inr d \<and> unat d = cw (2 ^ unat b) (unat i) (unat x mod 2 ^ unat b)"
proof -
  define m where "m = (2 :: nat) ^ unat b"
  define y where "y = (x mod 2 ^ unat b :: u64)"
  have y: "unat y = unat x mod m" unfolding y_def m_def by (rule unat_mod_ring [OF b])
  then have ym: "unat y < m" by (simp add: m_def)
  have m63: "m \<le> 2 ^ 63" unfolding m_def using b by (intro power_increasing) simp_all
  have d: "chord_distance i b x = Inr (if y \<ge> i then y - i else 2 ^ unat b + y - i)"
    by (simp add: chord_distance_def shl_one_ok(1) [OF b] Let_def y_def)
  have p: "unat (2 ^ unat b :: u64) = m" unfolding m_def by (rule shl_one_ok(2) [OF b])
  have im: "unat i < m" using i by (simp add: m_def)
  show ?thesis
  proof (cases "y \<ge> i")
    case True
    then have "unat (y - i) = cw m (unat i) (unat y)"
      using im ym by (simp add: unat_sub_le cw_cases word_le_nat_alt)
    then show ?thesis using d True y by (simp add: m_def)
  next
    case False
    have s: "unat (2 ^ unat b + y) = m + unat y"
      using ym m63 p by (subst unat_add_no_wrap) simp_all
    then have "i \<le> 2 ^ unat b + y" using im by (simp add: word_le_nat_alt)
    then have "unat (2 ^ unat b + y - i) = cw m (unat i) (unat y)"
      using im ym s False by (simp add: unat_sub_le cw_cases word_le_nat_alt)
    then show ?thesis using d False y by (simp add: m_def)
  qed
qed

text \<open>The successor of a point is the nearest node clockwise.\<close>

lemma chord_successor_spec:
  assumes r: "chord_ring w b" and n: "omap_count (nodes w) n"
  shows "\<exists>s. chord_successor w b x = Inr s \<and> omap_count (nodes w) s
    \<and> (\<forall>y. omap_count (nodes w) y \<longrightarrow>
          cw (2 ^ unat b) (unat x mod 2 ^ unat b) (unat s) \<le> cw (2 ^ unat b) (unat x mod 2 ^ unat b) (unat y))"
proof -
  define m where "m = (2 :: nat) ^ unat b"
  define p where "p = (x mod 2 ^ unat b :: u64)"
  have b: "unat b < 64" and wf: "wf_nodes (nodes w)"
    and small: "\<And>y. omap_count (nodes w) y \<Longrightarrow> unat y < m"
    using r by (auto simp: chord_ring_def m_def)
  have p: "unat p = unat x mod m" unfolding p_def m_def by (rule unat_mod_ring [OF b])
  then have pm: "unat p < m" by (simp add: m_def)
  have eq: "chord_successor w b x = (if has_bigger_id w p then next_id w p else next_id w 0)"
    by (simp add: chord_successor_def shl_one_ok(1) [OF b] Let_def p_def)
  show ?thesis
  proof (cases "has_bigger_id w p")
    case True
    from next_id_found [OF wf True] obtain j where j: "next_id w p = Inr j" "omap_count (nodes w) j" "p \<le> j"
      "\<And>y. omap_count (nodes w) y \<Longrightarrow> p \<le> y \<Longrightarrow> j \<le> y" by blast
    have "cw m (unat p) (unat j) \<le> cw m (unat p) (unat y)" if "omap_count (nodes w) y" for y
      using j(3) j(4) [OF that] small [OF that] small [OF j(2)] pm
      by (auto simp: cw_cases word_le_nat_alt)
    then show ?thesis using eq True j(1,2) p by (auto simp: m_def)
  next
    case False
    then have below: "y < p" if "omap_count (nodes w) y" for y
      using that has_bigger_id_iff [OF wf, of p] by (auto simp: not_le)
    have "has_bigger_id w 0" using n has_bigger_id_iff [OF wf, of 0] by auto
    from next_id_found [OF wf this] obtain j where j: "next_id w 0 = Inr j" "omap_count (nodes w) j"
      "\<And>y. omap_count (nodes w) y \<Longrightarrow> j \<le> y" by auto
    have "cw m (unat p) (unat j) \<le> cw m (unat p) (unat y)" if "omap_count (nodes w) y" for y
      using below [OF that] below [OF j(2)] j(3) [OF that] small [OF that] small [OF j(2)] pm
      by (auto simp: cw_cases word_le_nat_alt word_less_nat_alt)
    then show ?thesis using eq False j(1,2) p by (auto simp: m_def)
  qed
qed

section \<open>The choice of a finger\<close>

text \<open>Distance between ids, and one turn of the loop over the fingers.\<close>

definition way :: "u64 \<Rightarrow> node_id \<Rightarrow> node_id \<Rightarrow> nat" where
  "way b i j = cw (2 ^ unat b) (unat i) (unat j)"

lemma finger_turn:
  assumes r: "chord_ring w b" and i: "omap_count (nodes w) i" and dst: "omap_count (nodes w) dst"
    and k: "k < unat b"
  shows "\<exists>s. omap_count (nodes w) s
    \<and> (\<forall>y. omap_count (nodes w) y \<longrightarrow> cw (2 ^ unat b) ((unat i + 2 ^ k) mod 2 ^ unat b) (unat s)
                                  \<le> cw (2 ^ unat b) ((unat i + 2 ^ k) mod 2 ^ unat b) (unat y))
    \<and> find_finger (Suc k) w b i dst
        = (if way b i s \<le> way b i dst then Inr (Some s) else find_finger k w b i dst)"
proof -
  have b: "unat b < 64" and small: "\<And>y. omap_count (nodes w) y \<Longrightarrow> unat y < 2 ^ unat b"
    using r by (auto simp: chord_ring_def)
  have k64: "unat (of_nat k :: u64) = k" "k < 64" using k b by (simp_all add: unat_of_nat_u64)
  have step: "shl_one (of_nat k) = Inr (2 ^ k)" "unat (2 ^ k :: u64) = 2 ^ k"
    using shl_one_ok(1) [of "of_nat k"] unat_2p [OF k64(2)] k64 by simp_all
  have "(2 :: nat) ^ k \<le> 2 ^ 62" "(2 :: nat) ^ unat b \<le> 2 ^ 63"
    using k b by (intro power_increasing; simp)+
  then have sum: "unat (i + 2 ^ k) = unat i + 2 ^ k"
    using small [OF i] step(2) by (subst unat_add_no_wrap) simp_all
  obtain s where s: "chord_successor w b (i + 2 ^ k) = Inr s" "omap_count (nodes w) s"
    "\<forall>y. omap_count (nodes w) y \<longrightarrow> cw (2 ^ unat b) ((unat i + 2 ^ k) mod 2 ^ unat b) (unat s)
                                  \<le> cw (2 ^ unat b) ((unat i + 2 ^ k) mod 2 ^ unat b) (unat y)"
    using chord_successor_spec [OF r i, of "i + 2 ^ k"] unfolding sum by blast
  have dist: "\<exists>d. chord_distance i b j = Inr d \<and> unat d = way b i j" if "omap_count (nodes w) j" for j
    using chord_distance_spec [OF b small [OF i], of j] small [OF that] by (simp add: way_def)
  from dist [OF s(2)] dist [OF dst] obtain df dd where
    "chord_distance i b s = Inr df" "unat df = way b i s"
    "chord_distance i b dst = Inr dd" "unat dd = way b i dst" by blast
  then have "find_finger (Suc k) w b i dst
      = (if way b i s \<le> way b i dst then Inr (Some s) else find_finger k w b i dst)"
    by (simp add: step(1) s(1) word_le_nat_alt)
  then show ?thesis using s(2,3) by blast
qed

text \<open>A finger at least \<open>2 ^ k\<close> away is the nearest such node, if there is one, else the node itself.\<close>

lemma finger_far:
  fixes s y :: u64
  assumes m: "h < m" "unat i < m" and y: "unat y < m" "h \<le> cw m (unat i) (unat y)"
    and s: "unat s < m" "cw m ((unat i + h) mod m) (unat s) \<le> cw m ((unat i + h) mod m) (unat y)"
  shows "h \<le> cw m (unat i) (unat s)" "cw m (unat i) (unat s) \<le> cw m (unat i) (unat y)"
proof -
  have "cw m (unat i) (unat y) < m" by (rule cw_less) (use m in simp)
  then show "h \<le> cw m (unat i) (unat s)" "cw m (unat i) (unat s) \<le> cw m (unat i) (unat y)"
    using s(2) y(2) m
    unfolding cw_shift [OF m(2) s(1) m(1)] cw_shift [OF m(2) y(1) m(1)] by (auto split: if_splits)
qed

lemma finger_self:
  fixes s :: u64
  assumes m: "h < m" "unat i < m" and near: "cw m (unat i) (unat s) < h"
    and s: "unat s < m" "cw m ((unat i + h) mod m) (unat s) \<le> cw m ((unat i + h) mod m) (unat i)"
  shows "s = i"
proof -
  have "cw m (unat i) (unat s) = 0"
    using s(2) near m unfolding cw_shift [OF m(2) s(1) m(1)] cw_shift [OF m(2,2,1)] by simp
  then have "unat i = unat s" using cw_zero [OF m(2) s(1)] by simp
  then show ?thesis using word_eq_iff_unsigned by (metis unsigned_word_eqI)
qed

text \<open>
  As long as some node is in the far half of the ring, the loop stops at the finger whose
  distance has as many bits as the destination's.
\<close>

lemma find_finger_halves:
  assumes r: "chord_ring w b" and i: "omap_count (nodes w) i" and dst: "omap_count (nodes w) dst"
    and far: "omap_count (nodes w) y" "2 ^ (unat b - 1) \<le> way b i y"
    and j: "2 ^ j \<le> way b i dst" "way b i dst < 2 ^ Suc j" and n: "j < n" "n \<le> unat b"
  shows "\<exists>f. find_finger n w b i dst = Inr (Some f) \<and> omap_count (nodes w) f
           \<and> 2 ^ j \<le> way b i f \<and> way b i f \<le> way b i dst"
  using n
proof (induction n)
  case (Suc k)
  define m where "m = (2 :: nat) ^ unat b"
  have small: "\<And>x. omap_count (nodes w) x \<Longrightarrow> unat x < m" using r by (auto simp: chord_ring_def m_def)
  have k: "k < unat b" using Suc.prems by simp
  then have h: "(2 :: nat) ^ k < m" unfolding m_def by (intro power_strict_increasing) simp_all
  from finger_turn [OF r i dst k] obtain s where s: "omap_count (nodes w) s"
    and near: "\<And>y. omap_count (nodes w) y \<Longrightarrow> cw m ((unat i + 2 ^ k) mod m) (unat s)
                                  \<le> cw m ((unat i + 2 ^ k) mod m) (unat y)"
    and turn: "find_finger (Suc k) w b i dst
        = (if way b i s \<le> way b i dst then Inr (Some s) else find_finger k w b i dst)"
    unfolding m_def by blast
  note fin = finger_far [OF h small [OF i] _ _ small [OF s] near, folded m_def way_def]
  show ?case
  proof (cases "k = j")
    case True
    then have "2 ^ j \<le> way b i s" "way b i s \<le> way b i dst"
      using fin [OF small [OF dst] _ dst] j(1) by (simp_all add: way_def m_def)
    then show ?thesis using turn s by simp
  next
    case False
    then have jk: "Suc j \<le> k" using Suc.prems by simp
    have "(2 :: nat) ^ k \<le> 2 ^ (unat b - 1)" using k by (intro power_increasing) simp_all
    then have fy: "2 ^ k \<le> cw m (unat i) (unat y)"
      using far(2) unfolding way_def m_def by (rule le_trans)
    have "2 ^ k \<le> way b i s"
      using fin(1) [OF small [OF far(1)] fy far(1)] by (simp add: way_def m_def)
    moreover have "(2 :: nat) ^ Suc j \<le> 2 ^ k" using jk by (intro power_increasing) simp_all
    ultimately have "\<not> way b i s \<le> way b i dst" using j(2) by simp
    then show ?thesis using turn Suc.IH jk Suc.prems by simp
  qed
qed simp

text \<open>With nothing in the far half and the destination nearby, the first finger is the node itself.\<close>

lemma find_finger_self:
  assumes r: "chord_ring w b" and i: "omap_count (nodes w) i" and dst: "omap_count (nodes w) dst"
    and b: "0 < unat b" and near: "\<And>y. omap_count (nodes w) y \<Longrightarrow> way b i y < 2 ^ (unat b - 1)"
  shows "find_finger (unat b) w b i dst = Inr (Some i)"
proof -
  define m where "m = (2 :: nat) ^ unat b"
  define k where "k = unat b - 1"
  have k: "k < unat b" "Suc k = unat b" using b by (simp_all add: k_def)
  have small: "\<And>x. omap_count (nodes w) x \<Longrightarrow> unat x < m" using r by (auto simp: chord_ring_def m_def)
  have h: "(2 :: nat) ^ k < m" unfolding m_def using k(1) by (intro power_strict_increasing) simp_all
  from finger_turn [OF r i dst k(1)] obtain s where s: "omap_count (nodes w) s"
    and nearest: "\<And>y. omap_count (nodes w) y \<Longrightarrow> cw m ((unat i + 2 ^ k) mod m) (unat s)
                                  \<le> cw m ((unat i + 2 ^ k) mod m) (unat y)"
    and turn: "find_finger (Suc k) w b i dst
        = (if way b i s \<le> way b i dst then Inr (Some s) else find_finger k w b i dst)"
    unfolding m_def by blast
  have "s = i"
    by (rule finger_self [OF h small [OF i] _ small [OF s] nearest [OF i]])
      (use near [OF s] in \<open>simp add: way_def m_def k_def\<close>)
  moreover have "way b i i = 0" using small [OF i] by (simp add: way_def m_def)
  ultimately show ?thesis using turn k(2) by simp
qed

section \<open>Routing\<close>

definition chord_net :: "('d, chord_state, 'z) hwm_scheme \<Rightarrow> u64 \<Rightarrow> bool" where
  "chord_net w b \<longleftrightarrow> chord_ring w b \<and> (\<forall>i nd. omap_at (nodes w) i = Some nd \<longrightarrow> bits (user nd) = b)"

definition half_way :: "('d, 's, 'z) hwm_scheme \<Rightarrow> u64 \<Rightarrow> bool" where
  "half_way w b \<longleftrightarrow> (\<forall>i. omap_count (nodes w) i \<longrightarrow>
     (\<exists>y. omap_count (nodes w) y \<and> 2 ^ (unat b - 1) \<le> way b i y))"

lemma uint_of_bits:
  assumes "unat (b :: u64) < 64"
  shows "unat (ucast b :: 32 word) = unat b"
proof -
  have "unat b < 2 ^ LENGTH(32)" using assms by simp
  then show ?thesis by (simp only: unsigned_ucast_eq take_bit_nat_eq_self)
qed

lemma way_self [simp]: "chord_ring w b \<Longrightarrow> omap_count (nodes w) i \<Longrightarrow> way b i i = 0"
  by (simp add: way_def chord_ring_def)

lemma way_pos:
  assumes "chord_ring w b" "omap_count (nodes w) i" "omap_count (nodes w) j" "i \<noteq> j"
  shows "0 < way b i j"
proof -
  have "unat i < 2 ^ unat b" "unat j < 2 ^ unat b" using assms by (auto simp: chord_ring_def)
  moreover have "unat i \<noteq> unat j" using assms(4) unsigned_word_eqI [of i j] by blast
  ultimately show ?thesis using cw_zero [of "unat i" "2 ^ unat b" "unat j"] by (simp add: way_def)
qed

lemma way_less: "way b i j < 2 ^ unat b"
  unfolding way_def by (rule cw_less) simp

text \<open>One hop: the message is sent to another node, and the way that is left has fewer bits.\<close>

lemma one_hop:
  assumes r: "chord_ring w b" and i: "omap_count (nodes w) i" and dst: "omap_count (nodes w) dst"
    and neq: "i \<noteq> dst" and far: "omap_count (nodes w) y" "2 ^ (unat b - 1) \<le> way b i y"
  shows "\<exists>f j. find_finger (unat b) w b i dst = Inr (Some f) \<and> omap_count (nodes w) f \<and> f \<noteq> i
    \<and> 2 ^ j \<le> way b i dst \<and> way b i dst < 2 ^ Suc j \<and> way b f dst < 2 ^ j"
proof -
  have pos: "0 < way b i dst" by (rule way_pos [OF r i dst neq])
  obtain j where j: "2 ^ j \<le> way b i dst" "way b i dst < 2 ^ Suc j"
    using ex_power_ivl1 [of 2 "way b i dst"] pos by auto
  have "(2 :: nat) ^ j < 2 ^ unat b" using j(1) way_less [of b i dst] by (rule le_less_trans)
  then have "j < unat b" by (simp add: power_strict_increasing_iff)
  from find_finger_halves [OF r i dst far j this] obtain f
    where f: "find_finger (unat b) w b i dst = Inr (Some f)" "omap_count (nodes w) f"
      "2 ^ j \<le> way b i f" "way b i f \<le> way b i dst" by auto
  have small: "\<And>x. omap_count (nodes w) x \<Longrightarrow> unat x < 2 ^ unat b" using r by (auto simp: chord_ring_def)
  have "way b f dst = way b i dst - way b i f"
    using cw_split [OF small [OF i] small [OF f(2)] small [OF dst]] f(4) by (simp add: way_def)
  then have "way b f dst < 2 ^ j" using f(3) j(2) by simp
  moreover have "f \<noteq> i" using f(3) way_self [OF r i] by (metis less_le_not_le zero_less_power pos2)
  ultimately show ?thesis using f j by blast
qed

lemma chord_handle_cases:
  assumes n: "chord_net w b" and i: "omap_at (nodes w) i = Some nd"
    and s: "chord_successor w b (msg_data msg) = Inr dst"
  shows "chord_handle cb i msg w =
    (if i = dst then cb i msg w
     else case find_finger (unat b) w b i dst of
         Inl e \<Rightarrow> (w, Some e)
       | Inr None \<Rightarrow> (w, None)
       | Inr (Some f) \<Rightarrow> send_message can_send i f msg w)"
proof -
  have "bits (user nd) = b" "unat b < 64" using n i by (auto simp: chord_net_def chord_ring_def)
  then show ?thesis using i s by (simp add: chord_handle_def uint_of_bits Let_def)
qed

section \<open>Delivery\<close>

text \<open>The only message there is, waiting at node \<open>i\<close> whose id is in the queue; and so many rounds of a worker.\<close>

definition carries :: "('d, 's, 'z) hwm_scheme \<Rightarrow> node_id \<Rightarrow> 'd message \<Rightarrow> bool" where
  "carries w i msg \<longleftrightarrow> nodes_queue w = [i] \<and> omap_count (nodes w) i \<and> msg_delay msg = 0
     \<and> (\<forall>j nd. omap_at (nodes w) j = Some nd \<longrightarrow>
          messages nd = (if j = i then [msg] else []) \<and> delayed_messages nd = [])"

primrec rounds ::
    "(node_id \<Rightarrow> 'd message \<Rightarrow> ('d, 's, 'z) hwm_scheme act) \<Rightarrow> (nat \<Rightarrow> nat) \<Rightarrow> nat \<Rightarrow> ('d, 's, 'z) hwm_scheme act" where
  "rounds handler tie 0 = ok_act id"
| "rounds handler tie (Suc n) = seq_act (worker_round handler tie 0) (rounds handler tie n)"

text \<open>The same ids and numbers of bits, and links that lose as much.\<close>

definition same_ring :: "('d, chord_state, 'z) hwm_scheme \<Rightarrow> ('d, chord_state, 'z) hwm_scheme \<Rightarrow> bool" where
  "same_ring w w' \<longleftrightarrow> fail_thres w' = fail_thres w
     \<and> (\<forall>x. map_option (\<lambda>nd. (nid nd, bits (user nd))) (omap_at (nodes w') x)
            = map_option (\<lambda>nd. (nid nd, bits (user nd))) (omap_at (nodes w) x))
     \<and> (omap_ok (nodes w) \<longrightarrow> omap_ok (nodes w'))"

lemma same_ring_refl [simp]: "same_ring w w"
  by (simp add: same_ring_def)

lemma same_ring_trans: "same_ring u v \<Longrightarrow> same_ring v w \<Longrightarrow> same_ring u w"
  by (simp add: same_ring_def)

lemma same_ring_at:
  assumes "same_ring w w'"
  shows "map_option (\<lambda>nd. (nid nd, bits (user nd))) (omap_at (nodes w') x)
    = map_option (\<lambda>nd. (nid nd, bits (user nd))) (omap_at (nodes w) x)"
  using assms by (simp add: same_ring_def)

lemma same_ring_count: "same_ring w w' \<Longrightarrow> omap_count (nodes w') x = omap_count (nodes w) x"
  using same_ring_at [of w w' x] by (cases "omap_at (nodes w) x"; cases "omap_at (nodes w') x") (simp_all add: omap_count_at)

lemma same_ring_net:
  assumes "same_ring w w'" "chord_net w b"
  shows "chord_net w' b"
proof -
  have at: "\<exists>nd. omap_at (nodes w) i = Some nd \<and> nid nd' = nid nd \<and> bits (user nd') = bits (user nd)"
    if "omap_at (nodes w') i = Some nd'" for i nd'
    using same_ring_at [OF assms(1), of i] that by (cases "omap_at (nodes w) i") simp_all
  have "nid nd' = i \<and> bits (user nd') = b" if "omap_at (nodes w') i = Some nd'" for i nd'
    using at [OF that] assms(2) by (auto simp: chord_net_def chord_ring_def wf_nodes_def)
  moreover have "omap_ok (nodes w')" using assms by (simp add: same_ring_def chord_net_def chord_ring_def wf_nodes_def)
  ultimately show ?thesis
    using assms same_ring_count [OF assms(1)] by (simp add: chord_net_def chord_ring_def wf_nodes_def)
qed

lemma same_ring_half: "same_ring w w' \<Longrightarrow> half_way w' b = half_way w b"
  by (simp add: half_way_def same_ring_count)

lemma same_ring_successor:
  assumes "same_ring w w'" "chord_net w b" "omap_count (nodes w) i"
  shows "chord_successor w' b k = chord_successor w b k"
proof -
  let ?d = "\<lambda>s. cw (2 ^ unat b) (unat k mod 2 ^ unat b) (unat s)"
  have r: "chord_ring w b" "chord_ring w' b"
    using assms(2) same_ring_net [OF assms(1,2)] by (simp_all add: chord_net_def)
  have c: "omap_count (nodes w') x = omap_count (nodes w) x" for x by (rule same_ring_count [OF assms(1)])
  obtain s where s: "chord_successor w b k = Inr s" "omap_count (nodes w) s"
    "\<And>y. omap_count (nodes w) y \<Longrightarrow> ?d s \<le> ?d y"
    using chord_successor_spec [OF r(1) assms(3), of k] by blast
  obtain s' where s': "chord_successor w' b k = Inr s'" "omap_count (nodes w) s'"
    "\<And>y. omap_count (nodes w) y \<Longrightarrow> ?d s' \<le> ?d y"
    using chord_successor_spec [OF r(2), of i k] assms(3) unfolding c by blast
  have "?d s = ?d s'" using s(3) [OF s'(2)] s'(3) [OF s(2)] by simp
  moreover have "unat s < 2 ^ unat b" "unat s' < 2 ^ unat b" using r(1) s(2) s'(2) by (simp_all add: chord_ring_def)
  ultimately have "unat s = unat s'" using cw_inj [of "unat k mod 2 ^ unat b" "2 ^ unat b" "unat s" "unat s'"] by simp
  then have "s = s'" by (rule unsigned_word_eqI)
  then show ?thesis using s(1) s'(1) by simp
qed

lemma at_update: "omap_at (omap_update k v m) x = (if x = k \<and> omap_at m k \<noteq> None then Some v else omap_at m x)"
  by (simp add: omap_at_def omap_update_at)

lemma ok_update: "omap_ok m \<Longrightarrow> omap_ok (omap_update k v m)"
  by (rule omap_update_ok)

text \<open>The world in which the handler runs: the message is out of the queues.\<close>

definition taken :: "node_id \<Rightarrow> ('d, 's, 'z) hwm_scheme \<Rightarrow> ('d, 's, 'z) hwm_scheme" where
  "taken i w = w\<lparr>nodes_queue := [], nodes := omap_update i ((the (omap_at (nodes w) i))\<lparr>messages := []\<rparr>) (nodes w),
     cnts := (cnts w)\<lparr>queued_messages := queued_messages (cnts w) - 1\<rparr>\<rparr>"

lemma taken_same:
  assumes "omap_count (nodes w) i"
  shows "same_ring w (taken i w)"
  using assms by (auto simp: same_ring_def taken_def at_update ok_update omap_count_at)

lemma carried_handled:
  assumes "carries w i msg"
  shows "handle_one_message handler tie i (w\<lparr>nodes_queue := []\<rparr>) = (case handler i msg (taken i w) of (w', e) \<Rightarrow> (1, w', e))"
proof -
  obtain nd where nd: "omap_at (nodes w) i = Some nd" using assms by (auto simp: carries_def omap_count_at)
  then have "messages nd = [msg]" using assms by (simp add: carries_def)
  then show ?thesis using nd by (simp add: handle_one_message_def take_message_def taken_def)
qed

lemma nothing_handled:
  assumes "omap_at (nodes w) i = Some nd" "messages nd = []" "delayed_messages nd = []"
  shows "handle_one_message handler tie i w = (0, w\<lparr>nodes := omap_update i nd (nodes w)\<rparr>, None)"
  using assms by (simp add: handle_one_message_def take_message_def)

text \<open>The round of a worker at a node that is not the destination: the message is at the next one.\<close>

lemma carried_on:
  assumes net: "chord_net w b" and c: "carries w i msg" and thres: "fail_thres w = 0"
    and s: "chord_successor w b (msg_data msg) = Inr s" "i \<noteq> s"
    and f: "find_finger (unat b) (taken i w) b i s = Inr (Some f)" "omap_count (nodes w) f" "f \<noteq> i"
  shows "\<exists>w'. (\<forall>cb. worker_round (chord_handle cb) tie 0 w = (w', None)) \<and> same_ring w w'
    \<and> carries w' f (msg\<lparr>hops := hops msg + 1\<rparr>)"
proof -
  have i: "omap_count (nodes w) i" "nodes_queue w = [i]" and empty: "\<And>j nd. omap_at (nodes w) j = Some nd \<Longrightarrow>
      messages nd = (if j = i then [msg] else []) \<and> delayed_messages nd = []" and delay: "msg_delay msg = 0"
    using c by (auto simp: carries_def)
  obtain nd where nd: "omap_at (nodes w) i = Some nd" using i(1) by (auto simp: omap_count_at)
  obtain ndf where ndf: "omap_at (nodes w) f = Some ndf" using f(2) by (auto simp: omap_count_at)
  let ?t = "taken i w"
  let ?nd = "nd\<lparr>messages := []\<rparr>" and ?m = "msg\<lparr>hops := hops msg + 1\<rparr>"
  let ?g = "?t\<lparr>gen := snd (rng_next (gen ?t))\<rparr>"
  have t: "same_ring w ?t" "fail_thres ?t = 0" "nodes_queue ?t = []" "clock ?t = clock w"
    "\<And>x. omap_at (nodes ?t) x = (if x = i then Some ?nd else omap_at (nodes w) x)"
    using taken_same [OF i(1)] thres nd by (simp_all add: taken_def at_update)
  have tnet: "chord_net ?t b" by (rule same_ring_net [OF t(1) net])
  have ts: "chord_successor ?t b (msg_data msg) = Inr s" using same_ring_successor [OF t(1) net i(1)] s(1) by simp
  define v where "v = push_token f (deliver f ndf ?m ?g)"
  have handled: "chord_handle cb i msg ?t = (v, None)" for cb
    using chord_handle_cases [OF tnet _ ts, of i ?nd cb] t(2,5) f s(2) ndf
    by (simp add: send_message_unfold Let_def omap_count_at can_send_def v_def)
  let ?ndf = "ndf\<lparr>messages := [?m]\<rparr>"
  have v: "omap_at (nodes v) x = (if x = f then Some ?ndf else if x = i then Some ?nd else omap_at (nodes w) x)" for x
    using ndf f(3) empty [OF ndf] delay t(5)
    by (simp add: v_def push_token_def deliver_def enqueue_def check_enqueue_def at_update)
  have vq: "nodes_queue v = [f]" "fail_thres v = 0" "omap_ok (nodes w) \<Longrightarrow> omap_ok (nodes v)"
    using t(2,3) by (simp_all add: v_def push_token_def deliver_def ok_update taken_def split: prod.split)
  let ?w' = "v\<lparr>nodes := omap_update i ?nd (nodes v)\<rparr>"
  have w': "omap_at (nodes ?w') x = (if x = f then Some ?ndf else if x = i then Some ?nd else omap_at (nodes w) x)" for x
    using v f(3) by (auto simp: at_update)
  have "worker_round (chord_handle cb) tie 0 w = (?w', None)" for cb
  proof -
    have one: "handle_one_message (chord_handle cb) (tie 0) i (w\<lparr>nodes_queue := []\<rparr>) = (1, v, None)"
      using carried_handled [OF c, of "chord_handle cb"] handled by simp
    have "handle_one_message (chord_handle cb) (tie 1) i v = (0, ?w', None)"
      using nothing_handled [of v i ?nd] v f(3) empty [OF nd] by simp
    then have "worker_burst (chord_handle cb) tie i 1 v = (?w', None)"
      unfolding worker_burst.simps [of _ tie i 1 v] by simp
    then have "worker_burst (chord_handle cb) tie i 0 (w\<lparr>nodes_queue := []\<rparr>) = (?w', None)"
      using one by (simp add: worker_burst.simps [of _ tie i 0 "w\<lparr>nodes_queue := []\<rparr>"])
    then show ?thesis using i by (simp add: worker_round_def)
  qed
  moreover have "same_ring w ?w'"
    using w' nd ndf vq thres by (simp add: same_ring_def ok_update)
  moreover have "carries ?w' f ?m"
    using w' vq f(3) empty delay nd ndf by (auto simp: carries_def omap_count_at split: if_splits)
  ultimately show ?thesis by blast
qed

lemma carried_to:
  assumes "chord_net w b" "half_way w b" "fail_thres w = 0"
    and "chord_successor w b (msg_data msg) = Inr s" "omap_count (nodes w) s"
    and "carries w i msg" "way b i s < 2 ^ n"
  shows "\<exists>m w'. m \<le> n \<and> (\<forall>cb. rounds (chord_handle cb) tie m w = (w', None)) \<and> same_ring w w'
    \<and> carries w' s (msg\<lparr>hops := hops msg + of_nat m\<rparr>)"
  using assms
proof (induction n arbitrary: w i msg)
  case 0
  have "chord_ring w b" "omap_count (nodes w) i" using 0 by (simp_all add: chord_net_def carries_def)
  then have "i = s" using way_pos [of w b i s] 0 by auto
  then show ?case using 0 by (intro exI [of _ 0] exI [of _ w]) (simp add: ok_act_def)
next
  case (Suc n)
  have i: "omap_count (nodes w) i" using Suc.prems(6) by (simp add: carries_def)
  show ?case
  proof (cases "i = s")
    case True
    then show ?thesis using Suc.prems by (intro exI [of _ 0] exI [of _ w]) (simp add: ok_act_def)
  next
    case False
    let ?t = "taken i w" and ?m = "msg\<lparr>hops := hops msg + 1\<rparr>"
    note t = taken_same [OF i]
    have r: "chord_ring ?t b" using same_ring_net [OF t Suc.prems(1)] by (simp add: chord_net_def)
    obtain y where y: "omap_count (nodes w) y" "2 ^ (unat b - 1) \<le> way b i y"
      using Suc.prems(2) i by (auto simp: half_way_def)
    have "\<exists>f j. find_finger (unat b) ?t b i s = Inr (Some f) \<and> omap_count (nodes ?t) f \<and> f \<noteq> i
        \<and> 2 ^ j \<le> way b i s \<and> way b i s < 2 ^ Suc j \<and> way b f s < 2 ^ j"
      using one_hop [OF r _ _ False _ y(2)] i y(1) Suc.prems(5) by (simp only: same_ring_count [OF t])
    then obtain f j where f: "find_finger (unat b) ?t b i s = Inr (Some f)" "omap_count (nodes w) f" "f \<noteq> i"
      "2 ^ j \<le> way b i s" "way b f s < 2 ^ j" unfolding same_ring_count [OF t] by blast
    have "(2 :: nat) ^ j < 2 ^ Suc n" using f(4) Suc.prems(7) by (rule le_less_trans)
    then have "j \<le> n" by (simp only: power_strict_increasing_iff less_Suc_eq_le)
    then have "(2 :: nat) ^ j \<le> 2 ^ n" by (intro power_increasing) simp_all
    with f(5) have near: "way b f s < 2 ^ n" by (rule less_le_trans)
    obtain v where v: "\<forall>cb. worker_round (chord_handle cb) tie 0 w = (v, None)" "same_ring w v" "carries v f ?m"
      using carried_on [OF Suc.prems(1,6,3,4) False f(1-3), of tie] by blast
    have "chord_successor v b (msg_data ?m) = Inr s"
      using same_ring_successor [OF v(2) Suc.prems(1) i] Suc.prems(4) by simp
    moreover have "fail_thres v = 0" using v(2) Suc.prems(3) by (simp add: same_ring_def)
    moreover have "half_way v b" "omap_count (nodes v) s"
      using same_ring_half [OF v(2)] same_ring_count [OF v(2)] Suc.prems(2,5) by simp_all
    ultimately obtain m w' where w': "m \<le> n" "\<forall>cb. rounds (chord_handle cb) tie m v = (w', None)" "same_ring v w'"
      "carries w' s (?m\<lparr>hops := hops ?m + of_nat m\<rparr>)"
      using Suc.IH [of v ?m f] same_ring_net [OF v(2) Suc.prems(1)] v(3) near by blast
    have "?m\<lparr>hops := hops ?m + of_nat m\<rparr> = msg\<lparr>hops := hops msg + of_nat (Suc m)\<rparr>" by (simp add: add.assoc)
    then show ?thesis using w' v(1) same_ring_trans [OF v(2) w'(3)]
      by (intro exI [of _ "Suc m"] exI [of _ w']) (simp add: seq_act_def add.assoc)
  qed
qed

lemma chord_ring_gen [simp]: "chord_ring (w\<lparr>gen := g\<rparr>) b = chord_ring w b"
  by (simp add: chord_ring_def)

lemma draw_key_alone:
  assumes "chord_ring w b" "\<And>x. omap_count (nodes w) x \<longleftrightarrow> x = i"
  shows "fst (draw_key fuel i b w) = Inl No_Return"
  using assms
proof (induction fuel arbitrary: w)
  case (Suc fuel)
  have b: "unat b < 64" using Suc.prems(1) by (simp add: chord_ring_def)
  obtain r g where rg: "rng_next (gen w) = (r, g)" by (cases "rng_next (gen w)")
  let ?w = "w\<lparr>gen := g\<rparr>"
  have ring: "chord_ring ?w b" and one: "\<And>x. omap_count (nodes ?w) x \<longleftrightarrow> x = i" using Suc.prems by simp_all
  have "omap_count (nodes ?w) i" by (simp only: one)
  from chord_successor_spec [OF ring this, of "r mod 2 ^ unat b"]
  have "chord_successor ?w b (r mod 2 ^ unat b) = Inr i" unfolding one by blast
  then show ?case using Suc.IH [OF ring one] rg shl_one_ok(1) [OF b] by simp
qed simp

section \<open>Properties of the protocol\<close>

text \<open>A network with the given ids, for the examples.\<close>

definition ring_of :: "u64 \<Rightarrow> u64 list \<Rightarrow> (u64, chord_state) hwm" where
  "ring_of b ids = (hwm_new 4 8 1 0 0)\<lparr>nodes := map (\<lambda>i. (i, chord_node i b)) ids\<rparr>"

lemma ring_of_at: "omap_at (nodes (ring_of b ids)) x = (if x \<in> set ids then Some (chord_node x b) else None)"
  by (induction ids) (auto simp: ring_of_def omap_at_def)

lemma ring_of_count: "omap_count (nodes (ring_of b ids)) x \<longleftrightarrow> x \<in> set ids"
  by (simp add: omap_count_at ring_of_at)

lemma ring_of_net:
  assumes "sorted_wrt (<) ids" "unat b < 64" "\<forall>x \<in> set ids. unat x < 2 ^ unat b"
  shows "chord_net (ring_of b ids) b"
proof -
  have "map fst (nodes (ring_of b ids)) = ids" by (simp add: ring_of_def comp_def)
  then show ?thesis
    using assms
    by (auto simp: chord_net_def chord_ring_def wf_nodes_def omap_ok_def ring_of_at ring_of_count
        chord_node_def node_new_def split: if_splits)
qed

lemma ring_of_successor:
  "chord_successor (ring_of b ids) b x = bind_res (shl_one b) (\<lambda>ring.
     case List.find (\<lambda>i. x mod ring \<le> i) ids of Some i \<Rightarrow> Inr i
     | None \<Rightarrow> (case ids of i # _ \<Rightarrow> Inr i | [] \<Rightarrow> Inl (Runtime_Error ''Invalid argument'')))"
proof -
  have lb: "omap_lower_bound k (nodes (ring_of b ids))
      = map_option (\<lambda>i. (i, chord_node i b)) (List.find (\<lambda>i. k \<le> i) ids)" for k
    by (induction ids) (simp_all add: ring_of_def omap_lower_bound_def)
  have "List.find (\<lambda>i. 0 \<le> i) ids = (case ids of [] \<Rightarrow> None | i # _ \<Rightarrow> Some i)"
    by (cases ids) simp_all
  then show ?thesis
    by (simp add: chord_successor_def has_bigger_id_def next_id_def lb Let_def bind_res_def
        split: sum.split option.split list.split)
qed

definition four_ring :: "(u64, chord_state) hwm" where "four_ring = ring_of 3 [0, 2, 4, 6]"

lemma four_ring_net: "chord_net four_ring 3"
  unfolding four_ring_def by (rule ring_of_net) simp_all

lemma four_ring_half: "half_way four_ring 3"
proof -
  have far: "2 ^ (unat (3 :: u64) - 1) \<le> way 3 0 4" "2 ^ (unat (3 :: u64) - 1) \<le> way 3 2 6"
    "2 ^ (unat (3 :: u64) - 1) \<le> way 3 4 0" "2 ^ (unat (3 :: u64) - 1) \<le> way 3 6 2"
    by (simp_all add: way_def cw_def)
  have "\<exists>y. omap_count (nodes four_ring) y \<and> 2 ^ (unat (3 :: u64) - 1) \<le> way 3 i y"
    if "omap_count (nodes four_ring) i" for i
  proof -
    have "i = 0 \<or> i = 2 \<or> i = 4 \<or> i = 6" using that by (simp add: four_ring_def ring_of_count)
    moreover have "omap_count (nodes four_ring) 0" "omap_count (nodes four_ring) 2"
      "omap_count (nodes four_ring) 4" "omap_count (nodes four_ring) 6"
      by (simp_all add: four_ring_def ring_of_count)
    ultimately show ?thesis using far by blast
  qed
  then show ?thesis by (simp add: half_way_def)
qed

text \<open>C16: one hop of the routing. Provided that some node lies in the far half of the ring, as
  seen from this one, a node that is not responsible for the key sends the message to another
  node, and the way that is then left to the responsible node has fewer bits than before.\<close>

theorem chord_hop_progress:
  assumes "chord_net w b" and "omap_count (nodes w) i" and "omap_count (nodes w) y"
    and "2 ^ (unat b - 1) \<le> way b i y"
    and "chord_successor w b (msg_data msg) = Inr dst" "omap_count (nodes w) dst" "i \<noteq> dst"
  shows "\<exists>f j. chord_handle cb i msg w = send_message can_send i f msg w \<and> omap_count (nodes w) f \<and> f \<noteq> i
    \<and> 2 ^ j \<le> way b i dst \<and> way b f dst < 2 ^ j"
proof -
  obtain nd where nd: "omap_at (nodes w) i = Some nd"
    using assms(2) by (auto simp: omap_count_at)
  have "chord_ring w b" using assms(1) by (simp add: chord_net_def)
  from one_hop [OF this assms(2,6,7,3,4)] obtain f j where
    f: "find_finger (unat b) w b i dst = Inr (Some f)" "omap_count (nodes w) f" "f \<noteq> i"
      "2 ^ j \<le> way b i dst" "way b f dst < 2 ^ j" by blast
  then show ?thesis using chord_handle_cases [OF assms(1) nd assms(5)] assms(7) by auto
qed

theorem chord_hop_progress_witness:
  "\<exists>f j. chord_handle (\<lambda>nd m w. (w, None)) 0 (message_new 5) four_ring = send_message can_send 0 f (message_new 5) four_ring
    \<and> omap_count (nodes four_ring) f \<and> f \<noteq> 0 \<and> 2 ^ j \<le> way 3 0 6 \<and> way 3 f 6 < 2 ^ j"
  by (rule chord_hop_progress [OF four_ring_net, where y = 4])
    (simp_all add: four_ring_def ring_of_count way_def cw_def message_new_def ring_of_successor shl_one_def)

text \<open>C17: a message that waits at some node, alone in the network, gets to the node that is responsible for its
  key, if every node sees another one in the far half of the ring and the links lose nothing: after at
  most as many rounds of a worker as ids have bits, without an exception, it waits at the key's successor,
  one hop older for each round, and no callback has been called; the next node to handle it calls its callback.\<close>

theorem chord_delivers:
  assumes "chord_net w b" and "half_way w b" and "fail_thres w = 0" and "carries w i msg"
  shows "\<exists>s n w'. chord_successor w b (msg_data msg) = Inr s \<and> n \<le> unat b
    \<and> (\<forall>cb. rounds (chord_handle cb) tie n w = (w', None))
    \<and> carries w' s (msg\<lparr>hops := hops msg + of_nat n\<rparr>)
    \<and> (\<forall>cb t. handle_one_message (chord_handle cb) t s (w'\<lparr>nodes_queue := []\<rparr>)
         = (case cb s (msg\<lparr>hops := hops msg + of_nat n\<rparr>) (taken s w') of (v, e) \<Rightarrow> (1, v, e)))"
proof -
  have i: "omap_count (nodes w) i" using assms(4) by (simp add: carries_def)
  have "chord_ring w b" using assms(1) by (simp add: chord_net_def)
  from chord_successor_spec [OF this i, of "msg_data msg"] obtain s
    where s: "chord_successor w b (msg_data msg) = Inr s" "omap_count (nodes w) s" by blast
  obtain n w' where w': "n \<le> unat b" "\<forall>cb. rounds (chord_handle cb) tie n w = (w', None)" "same_ring w w'"
    "carries w' s (msg\<lparr>hops := hops msg + of_nat n\<rparr>)"
    using carried_to [OF assms(1-3) s assms(4) way_less] by blast
  let ?m = "msg\<lparr>hops := hops msg + of_nat n\<rparr>"
  note t = taken_same [of w' s]
  have at: "omap_count (nodes w') s" using w'(4) by (simp add: carries_def)
  have net: "chord_net (taken s w') b" "chord_successor (taken s w') b (msg_data ?m) = Inr s"
    using same_ring_net [OF same_ring_trans [OF w'(3) t [OF at]] assms(1)]
      same_ring_successor [OF same_ring_trans [OF w'(3) t [OF at]] assms(1) i] s(1) by simp_all
  obtain nd where "omap_at (nodes (taken s w')) s = Some nd"
    using same_ring_count [OF t [OF at], of s] at by (auto simp: omap_count_at)
  then have "chord_handle cb s ?m (taken s w') = cb s ?m (taken s w')" for cb
    using chord_handle_cases [OF net(1) _ net(2)] by simp
  then have "\<forall>cb t. handle_one_message (chord_handle cb) t s (w'\<lparr>nodes_queue := []\<rparr>)
      = (case cb s ?m (taken s w') of (v, e) \<Rightarrow> (1, v, e))"
    using carried_handled [OF w'(4)] by simp
  then show ?thesis using s(1) w' by blast
qed

text \<open>A message for key 5, waiting at node 0: the way to node 6 leads over node 4.\<close>

definition ring_message :: "(u64, chord_state) hwm" where
  "ring_message = four_ring\<lparr>nodes_queue := [0],
     nodes := omap_update 0 ((chord_node 0 3)\<lparr>messages := [message_new 5]\<rparr>) (nodes four_ring)\<rparr>"

lemma ring_message_at:
  "omap_at (nodes ring_message) x = (if x = 0 then Some ((chord_node 0 3)\<lparr>messages := [message_new 5]\<rparr>)
     else omap_at (nodes four_ring) x)"
  by (simp add: ring_message_def at_update four_ring_def ring_of_at)

lemma ring_message_same: "same_ring four_ring ring_message"
  by (simp add: same_ring_def ring_message_at)
    (simp add: ring_message_def four_ring_def ring_of_at chord_node_def node_new_def ok_update)

theorem chord_delivers_witness:
  "\<exists>n w'. n \<le> 3 \<and> (\<forall>cb. rounds (chord_handle cb) (\<lambda>_. 0) n ring_message = (w', None))
    \<and> carries w' 6 ((message_new 5)\<lparr>hops := of_nat n\<rparr>)"
proof -
  have c: "carries ring_message 0 (message_new 5)"
    by (auto simp: carries_def omap_count_at ring_message_at four_ring_def ring_of_at chord_node_def node_new_def
        message_new_def split: if_splits) (simp add: ring_message_def)
  have f: "fail_thres ring_message = 0" by (simp add: ring_message_def four_ring_def ring_of_def hwm_new_def)
  have "chord_successor four_ring 3 5 = Inr 6" by (simp add: four_ring_def ring_of_successor shl_one_def)
  then have s: "chord_successor ring_message 3 5 = Inr 6"
    using same_ring_successor [OF ring_message_same four_ring_net, of 0] by (simp add: four_ring_def ring_of_count)
  have h: "half_way ring_message 3" using same_ring_half [OF ring_message_same] four_ring_half by simp
  show ?thesis
    using chord_delivers [OF same_ring_net [OF ring_message_same four_ring_net] h f c, of "\<lambda>_. 0"] s
    by (auto simp: message_new_def)
qed

text \<open>When no node lies in the far half of the ring, the farthest finger of a node is the
  node itself, at distance zero: it is chosen, \<open>send_message\<close> refuses to send from a node to
  itself, and the message is lost although its destination exists.\<close>

theorem chord_self_finger:
  assumes "chord_net w b" and "0 < unat b" and "omap_count (nodes w) i"
    and "\<And>y. omap_count (nodes w) y \<Longrightarrow> way b i y < 2 ^ (unat b - 1)"
    and "chord_successor w b (msg_data msg) = Inr dst" "omap_count (nodes w) dst" "i \<noteq> dst"
  shows "chord_handle cb i msg w =
    (w\<lparr>gen := snd (rng_next (gen w))\<rparr>,
     if fst (rng_next (gen w)) < fail_thres w then None
     else Some (Runtime_Error ''The sender cannot send to the receiver!''))"
proof -
  obtain nd where nd: "omap_at (nodes w) i = Some nd"
    using assms(3) by (auto simp: omap_count_at)
  have r: "chord_ring w b" using assms(1) by (simp add: chord_net_def)
  show ?thesis
    using chord_handle_cases [OF assms(1) nd assms(5), of cb] assms(7) nd
      find_finger_self [OF r assms(3,6,2,4)]
    by (simp add: send_message_unfold can_send_def omap_count_at Let_def)
qed

theorem chord_self_finger_witness:
  "chord_handle (\<lambda>nd m w. (w, None)) 0 (message_new 1) (ring_of 3 [0, 1]) =
    ((ring_of 3 [0, 1])\<lparr>gen := snd (rng_next (gen (ring_of 3 [0, 1])))\<rparr>,
     Some (Runtime_Error ''The sender cannot send to the receiver!''))"
proof -
  let ?w = "ring_of 3 [0, 1]"
  have net: "chord_net ?w 3" by (rule ring_of_net) simp_all
  have dst: "chord_successor ?w 3 (msg_data (message_new 1)) = Inr 1"
    by (simp add: message_new_def ring_of_successor shl_one_def)
  have near: "way 3 0 y < 2 ^ (unat (3 :: u64) - 1)" if "omap_count (nodes ?w) y" for y
    using that by (auto simp: ring_of_count way_def cw_def)
  have "fail_thres ?w = 0" by (simp add: ring_of_def hwm_new_def)
  then show ?thesis
    using chord_self_finger [OF net _ _ near dst] by (simp add: ring_of_count)
qed

text \<open>In a network with a single node, \<open>start_message\<close> draws keys forever: that node is
  responsible for each of them.\<close>

theorem chord_single_node_hangs:
  assumes "chord_net w b" and "\<And>x. omap_count (nodes w) x \<longleftrightarrow> x = i"
  shows "snd (chord_start fuel cb i msg w) = Some No_Return"
proof -
  have r: "chord_ring w b" using assms(1) by (simp add: chord_net_def)
  have "omap_count (nodes w) i" by (simp only: assms(2))
  then obtain nd where nd: "omap_at (nodes w) i = Some nd" by (auto simp: omap_count_at)
  then have "bits (user nd) = b" using assms(1) by (simp add: chord_net_def)
  then show ?thesis
    using nd draw_key_alone [OF r assms(2), of fuel]
    by (cases "draw_key fuel i b w") (simp add: chord_start_def)
qed

theorem chord_single_node_hangs_witness:
  "snd (chord_start 1000 (\<lambda>nd m w. (w, None)) 5 (message_new 0) (ring_of 3 [5])) = Some No_Return"
proof -
  have "chord_net (ring_of 3 [5]) 3" by (rule ring_of_net) simp_all
  then show ?thesis by (rule chord_single_node_hangs) (simp add: ring_of_count)
qed

end
