(* ===== verification/Node_Code.thy ===== *)
theory Node_Code
  imports Hardware_Manager
begin

text \<open>
  The code of a node (\<open>handle_message\<close>, \<open>start_message\<close>) cut at the places where other threads can get in
  between: a \<open>code\<close> is what is left to do, a tree whose branches are the answers of what it does next. Sending a
  message (\<open>HardwareManager::send_message\<close>, \<open>include/hardware_manager.hpp\<close>) is three steps: the checks, the
  message put into the receiver's queue (under that node's lock), and the receiver's id put into the queue of
  the workers. \<open>run_code\<close> runs a code in one go, with \<open>send_message\<close> as a whole.
\<close>

section \<open>Code and its steps\<close>

text \<open>
  \<open>Step f k\<close> changes the world by \<open>f\<close> and goes on with \<open>k\<close> of what it saw; \<open>Send\<close> goes on with the exception
  that \<open>send_message\<close> threw, if any.
\<close>

datatype ('d, 'w) code = Return "exn option"
  | Step "'w \<Rightarrow> 'w" "'w \<Rightarrow> ('d, 'w) code"
  | Send node_id node_id "'d message" "exn option \<Rightarrow> ('d, 'w) code"

text \<open>\<open>send_message\<close> up to its checks: the exception, or whether the message is not lost.\<close>

definition send_checks ::
    "(('d, 's, 'z) hwm_scheme \<Rightarrow> node_id \<Rightarrow> node_id \<Rightarrow> bool res) \<Rightarrow> node_id \<Rightarrow> node_id
      \<Rightarrow> ('d, 's, 'z) hwm_scheme \<Rightarrow> bool res \<times> ('d, 's, 'z) hwm_scheme" where
  "send_checks cansend sender receiver w0 =
     (let (r, g) = rng_next (gen w0); w = w0\<lparr>gen := g\<rparr> in
      (if r < fail_thres w then Inr False
       else if \<not> omap_count (nodes w) sender then Inl (Runtime_Error ''Invalid sender'')
       else if \<not> omap_count (nodes w) receiver then Inl (Runtime_Error ''Invalid receiver'')
       else case cansend w sender receiver of Inl e \<Rightarrow> Inl e
         | Inr ok \<Rightarrow> if \<not> ok then Inl (Runtime_Error ''The sender cannot send to the receiver!'') else Inr True, w))"

text \<open>
  Where a thread stands in the code of a node: before its next step; with the checks of a message to \<open>j\<close> done
  (\<open>Enqueueing j\<close>); with the message in the queue of \<open>j\<close> but not yet the id of \<open>j\<close> in the queue of the workers
  (\<open>Queueing j\<close>); at the end.
\<close>

datatype ('d, 'w) activity = Running "('d, 'w) code"
  | Enqueueing node_id "'d message" "('d, 'w) code"
  | Queueing node_id "('d, 'w) code"
  | Ended "exn option"

fun activity_step ::
    "(('d, 's, 'z) hwm_scheme \<Rightarrow> node_id \<Rightarrow> node_id \<Rightarrow> bool res)
      \<Rightarrow> ('d, ('d, 's, 'z) hwm_scheme) activity \<Rightarrow> ('d, 's, 'z) hwm_scheme
      \<Rightarrow> ('d, ('d, 's, 'z) hwm_scheme) activity \<times> ('d, 's, 'z) hwm_scheme" where
  "activity_step cansend (Running (Return e)) w = (Ended e, w)"
| "activity_step cansend (Running (Step f k)) w = (Running (k w), f w)"
| "activity_step cansend (Running (Send i j msg k)) w =
     (case send_checks cansend i j w of
        (Inl e, w') \<Rightarrow> (Running (k (Some e)), w')
      | (Inr False, w') \<Rightarrow> (Running (k None), w')
      | (Inr True, w') \<Rightarrow> (Enqueueing j (msg\<lparr>hops := hops msg + 1\<rparr>) (k None), w'))"
| "activity_step cansend (Enqueueing j msg c) w =
     (case omap_at (nodes w) j of None \<Rightarrow> (Ended (Some (UB ''node destroyed'')), w)
      | Some nd \<Rightarrow> (Queueing j c, deliver j nd msg w))"
| "activity_step cansend (Queueing j c) w = (Running c, push_token j w)"
| "activity_step cansend (Ended e) w = (Ended e, w)"

section \<open>Code run in one go\<close>

primrec run_code ::
    "(('d, 's, 'z) hwm_scheme \<Rightarrow> node_id \<Rightarrow> node_id \<Rightarrow> bool res)
      \<Rightarrow> ('d, ('d, 's, 'z) hwm_scheme) code \<Rightarrow> ('d, 's, 'z) hwm_scheme act" where
  "run_code cansend (Return e) = (\<lambda>w. (w, e))"
| "run_code cansend (Step f k) = (\<lambda>w. run_code cansend (k w) (f w))"
| "run_code cansend (Send i j msg k) =
     (\<lambda>w. case send_message cansend i j msg w of (w', e) \<Rightarrow> run_code cansend (k e) w')"

lemma send_message_checks:
  "send_message cansend i j msg w = (case send_checks cansend i j w of
      (Inl e, w') \<Rightarrow> (w', Some e)
    | (Inr False, w') \<Rightarrow> (w', None)
    | (Inr True, w') \<Rightarrow>
        (push_token j (deliver j (the (omap_at (nodes w') j)) (msg\<lparr>hops := hops msg + 1\<rparr>) w'), None))"
  by (auto simp: send_message_def send_checks_def Let_def omap_count_at split: prod.split option.split sum.split)

lemma send_checks_gen: "snd (send_checks cansend i j w) = w\<lparr>gen := snd (rng_next (gen w))\<rparr>"
  by (simp add: send_checks_def Let_def split: prod.split)

lemma send_checks_ok:
  assumes "send_checks cansend i j w = (Inr True, w')"
  shows "omap_count (nodes w) j" "omap_count (nodes w') j" "w' = w\<lparr>gen := gen w'\<rparr>"
  using assms by (auto simp: send_checks_def Let_def split: prod.splits if_splits sum.splits)

text \<open>The steps of an activity on its own, until there are none left.\<close>

inductive activity_run ::
    "(('d, 's, 'z) hwm_scheme \<Rightarrow> node_id \<Rightarrow> node_id \<Rightarrow> bool res)
      \<Rightarrow> ('d, ('d, 's, 'z) hwm_scheme) activity \<Rightarrow> ('d, 's, 'z) hwm_scheme \<Rightarrow> exn option \<Rightarrow> ('d, 's, 'z) hwm_scheme \<Rightarrow> bool"
  for cansend where
  run_end: "activity_run cansend (Ended e) w e w"
| run_step: "activity_step cansend a w = (a', w') \<Longrightarrow> activity_run cansend a' w' e v \<Longrightarrow> activity_run cansend a w e v"

lemma code_runs: "activity_run cansend (Running c) w (snd (run_code cansend c w)) (fst (run_code cansend c w))"
proof (induction c arbitrary: w)
  case (Return e)
  show ?case by (rule run_step [of _ _ _ "Ended e" w]) (simp_all add: run_end)
next
  case (Step f k)
  show ?case by (rule run_step [of _ _ _ "Running (k w)" "f w"]) (use Step [of "k w" "f w"] in simp_all)
next
  case (Send i j msg k)
  obtain r w' where c: "send_checks cansend i j w = (r, w')" by (cases "send_checks cansend i j w")
  consider (bad) e where "r = Inl e" | (lost) "r = Inr False" | (ok) "r = Inr True" by (cases r) auto
  then show ?case
  proof cases
    case bad
    show ?thesis by (rule run_step [of _ _ _ "Running (k (Some e))" w'])
      (use Send [of "k (Some e)" w'] c bad in \<open>simp_all add: send_message_checks\<close>)
  next
    case lost
    show ?thesis by (rule run_step [of _ _ _ "Running (k None)" w'])
      (use Send [of "k None" w'] c lost in \<open>simp_all add: send_message_checks\<close>)
  next
    case ok
    let ?m = "msg\<lparr>hops := hops msg + 1\<rparr>"
    from send_checks_ok(2) [of cansend i j w w'] c ok obtain nd where nd: "omap_at (nodes w') j = Some nd"
      by (auto simp: omap_count_at)
    let ?v = "deliver j nd ?m w'"
    have run: "run_code cansend (Send i j msg k) w = run_code cansend (k None) (push_token j ?v)"
      using c ok nd by (simp add: send_message_checks)
    have "activity_run cansend (Queueing j (k None)) ?v (snd (run_code cansend (k None) (push_token j ?v)))
        (fst (run_code cansend (k None) (push_token j ?v)))"
      by (rule run_step [OF _ Send [of "k None" "push_token j ?v"]]) simp_all
    then have "activity_run cansend (Enqueueing j ?m (k None)) w' (snd (run_code cansend (k None) (push_token j ?v)))
        (fst (run_code cansend (k None) (push_token j ?v)))"
      by (rule run_step [rotated]) (simp add: nd)
    then show ?thesis unfolding run by (rule run_step [rotated]) (simp add: c ok)
  qed
qed

section \<open>What the manager relies on of a node's code\<close>

text \<open>
  Between its messages a code works on what is its own: the states of nodes, the generator of its thread and
  whatever extends the manager's record. It leaves the flags, the set of nodes, the messages and the queue alone.
\<close>

definition own_work :: "('d, 's, 'z) hwm_scheme \<Rightarrow> ('d, 's, 'z) hwm_scheme \<Rightarrow> bool" where
  "own_work w w' \<longleftrightarrow> pausing w' = pausing w \<and> stopping w' = stopping w \<and> running_threads w' = running_threads w
     \<and> nodes_queue w' = nodes_queue w \<and> cnts w' = cnts w
     \<and> (\<forall>i. omap_count (nodes w') i \<longleftrightarrow> omap_count (nodes w) i)
     \<and> (\<forall>i. waiting_at w' i = waiting_at w i) \<and> total_waiting (nodes w') = total_waiting (nodes w)
     \<and> (wf_nodes (nodes w) \<longrightarrow> wf_nodes (nodes w'))"

inductive code_ok :: "('d, ('d, 's, 'z) hwm_scheme) code \<Rightarrow> bool" where
  return_ok: "code_ok (Return e)"
| step_ok: "(\<And>w. own_work w (f w)) \<Longrightarrow> (\<And>w. code_ok (k w)) \<Longrightarrow> code_ok (Step f k)"
| send_ok: "(\<And>e. code_ok (k e)) \<Longrightarrow> code_ok (Send i j msg k)"

inductive_cases step_okE: "code_ok (Step f k)"
inductive_cases send_okE: "code_ok (Send i j msg k)"

fun activity_ok :: "('d, ('d, 's, 'z) hwm_scheme) activity \<Rightarrow> bool" where
  "activity_ok (Running c) \<longleftrightarrow> code_ok c"
| "activity_ok (Enqueueing j m c) \<longleftrightarrow> code_ok c"
| "activity_ok (Queueing j c) \<longleftrightarrow> code_ok c"
| "activity_ok (Ended e) \<longleftrightarrow> True"

text \<open>The node whose id the activity is about to put into the queue; the node it has chosen as the receiver.\<close>

fun queueing :: "node_id \<Rightarrow> ('d, 'w) activity \<Rightarrow> bool" where
  "queueing i (Queueing j c) \<longleftrightarrow> i = j"
| "queueing i _ \<longleftrightarrow> False"

fun receivers :: "('d, 'w) activity \<Rightarrow> node_id set" where
  "receivers (Enqueueing j m c) = {j}"
| "receivers (Queueing j c) = {j}"
| "receivers _ = {}"

text \<open>What a step leaves of the flags, the set of nodes and the ids in the queue.\<close>

definition steady :: "('d, 's, 'z) hwm_scheme \<Rightarrow> ('d, 's, 'z) hwm_scheme \<Rightarrow> bool" where
  "steady w w' \<longleftrightarrow> pausing w' = pausing w \<and> stopping w' = stopping w \<and> running_threads w' = running_threads w
     \<and> (\<forall>i. omap_count (nodes w') i \<longleftrightarrow> omap_count (nodes w) i)
     \<and> (\<forall>i \<in> set (nodes_queue w'). i \<in> set (nodes_queue w) \<or> omap_count (nodes w) i)"

lemma steady_refl [simp]: "steady w w"
  by (simp add: steady_def)

lemma steady_trans: "steady u v \<Longrightarrow> steady v w \<Longrightarrow> steady u w"
  unfolding steady_def by metis

lemma steady_gen [simp]: "steady w (w'\<lparr>gen := g\<rparr>) = steady w w'" "steady (w\<lparr>gen := g\<rparr>) w' = steady w w'"
  by (simp_all add: steady_def)

lemma own_work_refl [simp]: "own_work w w"
  by (simp add: own_work_def)

lemma own_work_gen [simp]: "own_work w (w\<lparr>gen := g\<rparr>)"
  by (simp add: own_work_def waiting_at_def)

lemma own_work_steady: "own_work w w' \<Longrightarrow> steady w w'"
  by (simp add: own_work_def steady_def)

lemma own_work_inv: "own_work w w' \<Longrightarrow> net_inv s w \<Longrightarrow> net_inv s w'"
  by (simp add: own_work_def net_inv_def tokens_def)

lemma steady_push: "omap_count (nodes w) j \<Longrightarrow> steady w (push_token j w)"
  by (simp add: steady_def push_token_def)

lemma steady_deliver: "omap_at (nodes w) j = Some nd \<Longrightarrow> steady w (deliver j nd m w)"
  by (simp add: steady_def deliver_def split: prod.split)

text \<open>
  One step of an activity. A message put into a node's queue is one without an id (\<open>queueing\<close> makes up for it),
  until the id is in the queue.
\<close>

lemma activity_step_inv:
  assumes inv: "net_inv (\<lambda>i. s i + of_bool (queueing i a)) w" and ok: "activity_ok a"
    and there: "\<And>j. j \<in> receivers a \<Longrightarrow> omap_count (nodes w) j"
    and st: "activity_step cansend a w = (a', w')"
  shows "net_inv (\<lambda>i. s i + of_bool (queueing i a')) w' \<and> activity_ok a' \<and> steady w w'
    \<and> (\<forall>j \<in> receivers a'. omap_count (nodes w) j)"
proof (cases a)
  case (Running c)
  have net: "net_inv s w" using inv by (simp add: Running)
  show ?thesis
  proof (cases c)
    case (Return e)
    then show ?thesis using Running st net by auto
  next
    case (Step f k)
    with ok Running have "own_work w (f w)" "code_ok (k w)" by (auto elim: step_okE)
    with st Running Step net show ?thesis by (auto intro: own_work_inv own_work_steady)
  next
    case (Send i j msg k)
    have k: "code_ok (k e)" for e using ok Running Send by (auto elim: send_okE)
    obtain r v where c: "send_checks cansend i j w = (r, v)" by (cases "send_checks cansend i j w")
    have v: "v = w\<lparr>gen := snd (rng_next (gen w))\<rparr>" using send_checks_gen [of cansend i j w] c by simp
    consider e where "r = Inl e" | "r = Inr False" | "r = Inr True" by (cases r) auto
    then show ?thesis
      by cases (use st Running Send c k net send_checks_ok(1) [of cansend i j w v] in \<open>auto simp: v\<close>)
  qed
next
  case (Enqueueing j m c)
  then obtain nd where nd: "omap_at (nodes w) j = Some nd" using there by (auto simp: omap_count_at)
  with st Enqueueing have a': "a' = Queueing j c" "w' = deliver j nd m w" by auto
  have "net_inv (s(j := Suc (s j))) w'"
    using deliver_inv(1) [of s w j nd m] inv nd Enqueueing a' by simp
  then have "net_inv (\<lambda>i. s i + of_bool (i = j)) w'" by (rule net_inv_mono) simp
  then show ?thesis using a' ok there Enqueueing steady_deliver [OF nd] by auto
next
  case (Queueing j c)
  with st have a': "a' = Running c" "w' = push_token j w" by auto
  have "net_inv (s(j := Suc (s j))) w"
    using inv unfolding Queueing by (rule net_inv_mono) simp
  then have "net_inv s w'" unfolding a' by (rule net_inv_push)
  then show ?thesis using a' ok there Queueing steady_push [of w j] by auto
next
  case (Ended e)
  then show ?thesis using st inv by auto
qed

text \<open>Run in one go, such code keeps the network's invariant.\<close>

lemma run_code_inv: "code_ok c \<Longrightarrow> net_inv s w \<Longrightarrow> net_inv s (fst (run_code cansend c w))"
proof (induction c arbitrary: w)
  case (Step f k)
  then have "own_work w (f w)" "code_ok (k w)" by (auto elim: step_okE)
  with Step show ?case by (simp add: own_work_inv)
next
  case (Send i j msg k)
  then have "code_ok (k e)" for e by (auto elim: send_okE)
  with Send send_message_inv [of s w cansend i j msg] show ?case by (auto split: prod.split)
qed simp

end
