(* ===== verification/Scheduler.thy ===== *)
theory Scheduler
  imports Node_Code
begin

text \<open>
  \<open>HardwareManager::run\<close>, \<open>pause\<close>, \<open>resume\<close> and \<open>stop\<close> (\<open>include/hardware_manager.hpp\<close>): the
  worker threads, taking turns in any order with each other and with the main thread. A
  worker's program counter says between which two accesses to shared data it stands;
  \<open>worker_step\<close> is what it does next, a function of the position at which \<open>try_dequeue\<close>
  finds an id (it may find none although there are some) and of the choice among messages due
  at the same time. The code of a node takes its turns step by step too (theory \<open>Node_Code\<close>): other
  threads get in between the two lines of \<open>send_message\<close> that put the message and the id into their queues.

  The counter \<open>running_threads\<close> is raised when a thread starts or leaves the waiting loop, and
  lowered when it enters that loop: the theory shows what \<open>pause\<close> can and cannot rely on.
\<close>

section \<open>Workers\<close>

text \<open>
  The virtual methods that the threads call: \<open>can_send\<close> of the manager, \<open>handle_message\<close> and \<open>start_message\<close>
  of the nodes.
\<close>

record ('d, 'w) virtuals =
  may_send :: "'w \<Rightarrow> node_id \<Rightarrow> node_id \<Rightarrow> bool res"
  on_message :: "node_id \<Rightarrow> 'd message \<Rightarrow> ('d, 'w) code"
  on_start :: "node_id \<Rightarrow> 'd message \<Rightarrow> ('d, 'w) code"

type_synonym ('d, 's, 'z) methods = "('d, ('d, 's, 'z) hwm_scheme) virtuals"

text \<open>
  \<open>Working i num\<close>: at the top of the loop over the messages of node \<open>i\<close>; \<open>Handling i num a\<close>: in its
  handler, at \<open>a\<close>; \<open>Requeue\<close>: about to put its id back; \<open>Checking\<close>: after the burst; \<open>Paused\<close>: waiting
  for \<open>pausing\<close> to fall; \<open>Leaving\<close>: out of that loop, not yet counted.
\<close>

datatype ('d, 'w) wpc = Starting | Polling | Asleep | Working node_id nat
  | Handling node_id nat "('d, 'w) activity"
  | Requeue node_id | Checking | Paused | Leaving | Exited | Crashed

record ('d, 'w) worker =
  pc :: "('d, 'w) wpc"
  thread_rng :: xoroshiro

text \<open>
  The main thread: outside \<open>pause\<close>, waiting in it, between it and \<open>resume\<close>, in \<open>stop\<close>, in the
  \<open>start_message\<close> that \<open>gen_message\<close> called, ended by something that \<open>gen_message\<close> does not catch.
\<close>

datatype ('d, 'w) mpc = Outside | Pausing | Locked | Joining | Generating "('d, 'w) activity" | Failed

record ('d, 'w) sched =
  world :: 'w
  workers :: "('d, 'w) worker list"
  main_pc :: "('d, 'w) mpc"

type_synonym ('d, 's, 'z) system = "('d, ('d, 's, 'z) hwm_scheme) sched"

text \<open>The counter of running threads is not reset: \<open>run\<close> may be called again after \<open>stop\<close>.\<close>

definition run_workers :: "('d, 's, 'z) hwm_scheme \<Rightarrow> ('d, 's, 'z) system" where
  "run_workers w = \<lparr>world = w\<lparr>stopping := False, pausing := False\<rparr>,
     workers = replicate (nat (nthreads w)) \<lparr>pc = Starting, thread_rng = xoroshiro_default\<rparr>,
     main_pc = Outside\<rparr>"

definition set_pc :: "nat \<Rightarrow> ('d, 'w) wpc \<Rightarrow> ('d, 'w) sched \<Rightarrow> ('d, 'w) sched" where
  "set_pc t p s = s\<lparr>workers := (workers s)[t := (workers s ! t)\<lparr>pc := p\<rparr>]\<rparr>"

text \<open>An action of thread \<open>t\<close>, which draws from the thread's own generator.\<close>

definition as_thread :: "nat \<Rightarrow> ('d, 's, 'z) system \<Rightarrow> ('d, 's, 'z) hwm_scheme" where
  "as_thread t s = (world s)\<lparr>gen := thread_rng (workers s ! t)\<rparr>"

definition put_thread ::
    "nat \<Rightarrow> ('d, ('d, 's, 'z) hwm_scheme) wpc \<Rightarrow> ('d, 's, 'z) hwm_scheme \<Rightarrow> ('d, 's, 'z) system \<Rightarrow> ('d, 's, 'z) system" where
  "put_thread t p w s = s\<lparr>world := w\<lparr>gen := gen (world s)\<rparr>,
     workers := (workers s)[t := \<lparr>pc = p, thread_rng = gen w\<rparr>]\<rparr>"

definition take_id :: "nat \<Rightarrow> ('d, 's, 'z) hwm_scheme \<Rightarrow> ('d, 's, 'z) hwm_scheme" where
  "take_id pos w = w\<lparr>nodes_queue := take pos (nodes_queue w) @ drop (pos + 1) (nodes_queue w)\<rparr>"

text \<open>\<open>handle_one_message\<close> up to the end of the locked block, and the call of the handler.\<close>

definition step_take ::
    "('d, 's, 'z) methods \<Rightarrow> nat \<Rightarrow> nat \<Rightarrow> node_id \<Rightarrow> nat \<Rightarrow> ('d, 's, 'z) system \<Rightarrow> ('d, 's, 'z) system" where
  "step_take V tie t i num s =
     (case omap_at (nodes (world s)) i of
        None \<Rightarrow> set_pc t Crashed s
      | Some nd \<Rightarrow>
        (case take_message (clock (world s)) tie (nd, cnts (world s)) of
           (ret, msg, nd', c) \<Rightarrow>
             set_pc t (case msg of Some m \<Rightarrow> Handling i num (Running (on_message V i m))
                       | None \<Rightarrow> if ret = -1 then Requeue i else Checking)
               (s\<lparr>world := (world s)\<lparr>nodes := omap_update i nd' (nodes (world s)), cnts := c\<rparr>\<rparr>)))"

text \<open>A step of the handler, and what the loop does at its end.\<close>

definition step_handle ::
    "('d, 's, 'z) methods \<Rightarrow> nat \<Rightarrow> node_id \<Rightarrow> nat \<Rightarrow> ('d, ('d, 's, 'z) hwm_scheme) activity
      \<Rightarrow> ('d, 's, 'z) system \<Rightarrow> ('d, 's, 'z) system" where
  "step_handle V t i num a s =
     (case a of
        Ended None \<Rightarrow> set_pc t (Working i (num + 1)) s
      | Ended (Some x) \<Rightarrow> set_pc t (if catchable x then Checking else Crashed) s
      | _ \<Rightarrow> (case activity_step (may_send V) a (as_thread t s) of (a', w) \<Rightarrow> put_thread t (Handling i num a') w s))"

definition worker_step ::
    "('d, 's, 'z) methods \<Rightarrow> nat \<Rightarrow> nat \<Rightarrow> nat \<Rightarrow> ('d, 's, 'z) system \<Rightarrow> ('d, 's, 'z) system" where
  "worker_step V tie pos t s =
     (let w = world s in
      case pc (workers s ! t) of
        Starting \<Rightarrow> s\<lparr>world := w\<lparr>running_threads := running_threads w + 1\<rparr>,
          workers := (workers s)[t := \<lparr>pc = Polling, thread_rng = \<lparr>s_0 = of_nat t + 1, s_1 = seed w\<rparr>\<rparr>]\<rparr>
      | Polling \<Rightarrow>
          if pos < length (nodes_queue w) then
            set_pc t (if omap_count (nodes w) (nodes_queue w ! pos) then Working (nodes_queue w ! pos) 0 else Crashed)
              (s\<lparr>world := take_id pos w\<rparr>)
          else set_pc t Asleep s
      | Asleep \<Rightarrow> set_pc t (if stopping w then Exited else Polling) s
      | Working i num \<Rightarrow> if num > 128 then set_pc t (Requeue i) s else step_take V tie t i num s
      | Handling i num a \<Rightarrow> step_handle V t i num a s
      | Requeue i \<Rightarrow> set_pc t Checking (s\<lparr>world := push_token i w\<rparr>)
      | Checking \<Rightarrow>
          if pausing w then set_pc t Paused (s\<lparr>world := w\<lparr>running_threads := running_threads w - 1\<rparr>\<rparr>)
          else set_pc t Polling s
      | Paused \<Rightarrow> if pausing w then s else set_pc t Leaving s
      | Leaving \<Rightarrow> set_pc t Polling (s\<lparr>world := w\<lparr>running_threads := running_threads w + 1\<rparr>\<rparr>)
      | Exited \<Rightarrow> s
      | Crashed \<Rightarrow> s)"

section \<open>The main thread and the steps of the whole\<close>

definition crashed :: "('d, 'w) sched \<Rightarrow> bool" where
  "crashed s \<longleftrightarrow> main_pc s = Failed \<or> (\<exists>x \<in> set (workers s). pc x = Crashed)"

definition joined :: "('d, 'w) sched \<Rightarrow> bool" where
  "joined s \<longleftrightarrow> (\<forall>x \<in> set (workers s). pc x = Exited)"

text \<open>
  One step: of a worker; of the main thread, which may pause, change the map of nodes when
  \<open>pause\<close> has returned, resume, generate a message after drawing from its own generator
  (in steps of the node's code), stop, and start the workers again; or of the clock. Nodes are taken
  out (\<open>fail\<close>) only when \<open>failing\<close> says so. A crash ends the program.
\<close>

inductive sched_step ::
    "('d, 's, 'z) methods \<Rightarrow> bool \<Rightarrow> ('d, 's, 'z) system \<Rightarrow> ('d, 's, 'z) system \<Rightarrow> bool"
  for V failing where
  work: "\<not> crashed s \<Longrightarrow> t < length (workers s) \<Longrightarrow>
     sched_step V failing s (worker_step V tie pos t s)"
| pause: "\<not> crashed s \<Longrightarrow> main_pc s = Outside \<Longrightarrow>
     sched_step V failing s (s\<lparr>world := (world s)\<lparr>pausing := True\<rparr>, main_pc := Pausing\<rparr>)"
| paused: "\<not> crashed s \<Longrightarrow> main_pc s = Pausing \<Longrightarrow> running_threads (world s) = 0 \<Longrightarrow>
     sched_step V failing s (s\<lparr>main_pc := Locked\<rparr>)"
| emplace: "\<not> crashed s \<Longrightarrow> main_pc s = Locked \<Longrightarrow> waiting nd = {#} \<Longrightarrow>
     sched_step V failing s
       (s\<lparr>world := (world s)\<lparr>nodes := omap_emplace (nid nd) nd (nodes (world s))\<rparr>\<rparr>)"
| erase: "\<not> crashed s \<Longrightarrow> main_pc s = Locked \<Longrightarrow> failing \<Longrightarrow>
     sched_step V failing s (s\<lparr>world := (world s)\<lparr>nodes := omap_erase i (nodes (world s))\<rparr>\<rparr>)"
| resume: "\<not> crashed s \<Longrightarrow> main_pc s = Locked \<Longrightarrow>
     sched_step V failing s (s\<lparr>world := Hardware_Manager.resume (world s), main_pc := Outside\<rparr>)"
| generate: "\<not> crashed s \<Longrightarrow> main_pc s = Outside \<Longrightarrow> omap_count (nodes (world s)) i \<Longrightarrow>
     sched_step V failing s
       (s\<lparr>world := (world s)\<lparr>gen := g\<rparr>, main_pc := Generating (Running (on_start V i (message_new d)))\<rparr>)"
| generating: "\<not> crashed s \<Longrightarrow> main_pc s = Generating a \<Longrightarrow> activity_step (may_send V) a (world s) = (a', w) \<Longrightarrow>
     sched_step V failing s (s\<lparr>world := w, main_pc := Generating a'\<rparr>)"
| generated: "\<not> crashed s \<Longrightarrow> main_pc s = Generating (Ended e) \<Longrightarrow>
     sched_step V failing s
       (s\<lparr>main_pc := (case e of None \<Rightarrow> Outside | Some x \<Rightarrow> if catchable x then Outside else Failed)\<rparr>)"
| stop: "\<not> crashed s \<Longrightarrow> main_pc s = Outside \<Longrightarrow>
     sched_step V failing s (s\<lparr>world := (world s)\<lparr>stopping := True\<rparr>, main_pc := Joining\<rparr>)"
| stopped: "\<not> crashed s \<Longrightarrow> main_pc s = Joining \<Longrightarrow> joined s \<Longrightarrow>
     sched_step V failing s (s\<lparr>main_pc := Outside\<rparr>)"
| run: "\<not> crashed s \<Longrightarrow> main_pc s = Outside \<Longrightarrow> joined s \<Longrightarrow>
     sched_step V failing s (run_workers (world s))"
| tick: "\<not> crashed s \<Longrightarrow> 0 \<le> d \<Longrightarrow>
     sched_step V failing s (s\<lparr>world := (world s)\<lparr>clock := clock (world s) + d\<rparr>\<rparr>)"

inductive reachable ::
    "('d, 's, 'z) methods \<Rightarrow> bool \<Rightarrow> ('d, 's, 'z) system \<Rightarrow> ('d, 's, 'z) system \<Rightarrow> bool"
  for V failing s where
  here: "reachable V failing s s"
| there: "reachable V failing s u \<Longrightarrow> sched_step V failing u v \<Longrightarrow> reachable V failing s v"

lemmas worker_steps = worker_step_def Let_def set_pc_def step_take_def step_handle_def put_thread_def

lemma worker_step_frame [simp]:
  "main_pc (worker_step V tie pos t s) = main_pc s"
  "length (workers (worker_step V tie pos t s)) = length (workers s)"
  by (cases "pc (workers s ! t)"; simp add: worker_steps split: option.split prod.split activity.split)+

lemma locked_when_idle:
  assumes "sched_step V failing s s'" "main_pc s = Pausing" "main_pc s' = Locked"
  shows "running_threads (world s) = 0"
  using assms by (cases rule: sched_step.cases) (auto simp: run_workers_def split: option.splits)

lemma reachable_trans:
  assumes "reachable V failing u v" "reachable V failing s u"
  shows "reachable V failing s v"
  using assms by (induction rule: reachable.induct) (auto intro: reachable.there)

section \<open>What the manager relies on of the nodes\<close>

locale node_program =
  fixes V :: "('d, 's, 'z) methods"
  assumes message_ok: "code_ok (on_message V i m)"
    and start_ok: "code_ok (on_start V i m)"

sublocale node_program \<subseteq> whole_handler: node_handler "\<lambda>i m. run_code (may_send V) (on_message V i m)"
  by unfold_locales (rule run_code_inv [OF message_ok])

section \<open>The invariant of the whole\<close>

text \<open>
  The thread is to look at the node, or to put its id into the queue: back, or for a message it has put into
  the node's queue.
\<close>

fun holding :: "node_id \<Rightarrow> ('d, 'w) wpc \<Rightarrow> bool" where
  "holding i (Working j num) \<longleftrightarrow> i = j"
| "holding i (Requeue j) \<longleftrightarrow> i = j"
| "holding i (Handling j num a) \<longleftrightarrow> queueing i a"
| "holding i _ \<longleftrightarrow> False"

fun main_holding :: "node_id \<Rightarrow> ('d, 'w) mpc \<Rightarrow> bool" where
  "main_holding i (Generating a) \<longleftrightarrow> queueing i a"
| "main_holding i _ \<longleftrightarrow> False"

fun counted :: "('d, 'w) wpc \<Rightarrow> bool" where
  "counted Starting \<longleftrightarrow> False"
| "counted Paused \<longleftrightarrow> False"
| "counted Leaving \<longleftrightarrow> False"
| "counted _ \<longleftrightarrow> True"

fun visiting :: "('d, 'w) wpc \<Rightarrow> node_id set" where
  "visiting (Working i num) = {i}"
| "visiting (Handling i num a) = insert i (receivers a)"
| "visiting (Requeue i) = {i}"
| "visiting _ = {}"

fun at_ok :: "('d, ('d, 's, 'z) hwm_scheme) wpc \<Rightarrow> bool" where
  "at_ok (Handling i num a) \<longleftrightarrow> activity_ok a"
| "at_ok _ \<longleftrightarrow> True"

fun main_ok :: "('d, 's, 'z) hwm_scheme \<Rightarrow> ('d, ('d, 's, 'z) hwm_scheme) mpc \<Rightarrow> bool" where
  "main_ok w (Generating a) \<longleftrightarrow> activity_ok a \<and> (\<forall>i \<in> receivers a. omap_count (nodes w) i)"
| "main_ok w _ \<longleftrightarrow> True"

definition held :: "('d, 'w) sched \<Rightarrow> node_id \<Rightarrow> nat" where
  "held s i = length (filter (\<lambda>x. holding i (pc x)) (workers s)) + of_bool (main_holding i (main_pc s))"

definition running :: "('d, 'w) sched \<Rightarrow> nat" where
  "running s = length (filter (\<lambda>x. counted (pc x)) (workers s))"

text \<open>
  Every waiting message has an id in the queue or a thread that will look at its node or put the id there; the
  counter is at least the number of the threads that count (plus what it was when the workers were
  first started; the threads that ended before the workers were started again stay counted); ids lead to nodes.
\<close>

definition sched_inv :: "int \<Rightarrow> ('d, 's, 'z) system \<Rightarrow> bool" where
  "sched_inv r0 s \<longleftrightarrow> net_inv (held s) (world s)
     \<and> r0 + int (running s) \<le> running_threads (world s)
     \<and> (\<forall>i \<in> set (nodes_queue (world s)). omap_count (nodes (world s)) i)
     \<and> (\<forall>x \<in> set (workers s). at_ok (pc x) \<and> (\<forall>i \<in> visiting (pc x). omap_count (nodes (world s)) i))
     \<and> main_ok (world s) (main_pc s)"

lemma held_update:
  assumes "t < length (workers s)" "workers s' = (workers s)[t := x]" "main_pc s' = main_pc s"
  shows "held s' i + of_bool (holding i (pc (workers s ! t))) = held s i + of_bool (holding i (pc x))"
  using length_filter_update [OF assms(1), of "\<lambda>x. holding i (pc x)" x] assms(2,3) by (simp add: held_def)

lemma running_update:
  assumes "t < length (workers s)" "workers s' = (workers s)[t := x]"
  shows "running s' + of_bool (counted (pc (workers s ! t))) = running s + of_bool (counted (pc x))"
  using length_filter_update [OF assms(1), of "\<lambda>x. counted (pc x)" x] assms(2) by (simp add: running_def)

lemma held_pos:
  assumes "t < length (workers s)" "holding i (pc (workers s ! t))"
  shows "0 < held s i"
  using assms nth_mem [OF assms(1)] by (auto simp: held_def filter_empty_conv)

lemma held_frame [simp]:
  "held (s\<lparr>world := w\<rparr>) = held s" "running (s\<lparr>world := w\<rparr>) = running s" "running (s\<lparr>main_pc := m\<rparr>) = running s"
  by (simp_all add: fun_eq_iff held_def running_def)

lemma held_main:
  "held (s\<lparr>main_pc := m\<rparr>) i + of_bool (main_holding i (main_pc s)) = held s i + of_bool (main_holding i m)"
  by (simp add: held_def)

text \<open>
  One lemma for all the steps of a worker: what the world and the worker's new place must
  satisfy for the invariant to hold again.
\<close>

lemma worker_moves:
  assumes inv: "sched_inv r0 s" and t: "t < length (workers s)"
    and s': "world s' = w'" "workers s' = (workers s)[t := x]" "main_pc s' = main_pc s"
    and net: "net_inv (\<lambda>i. held s i - of_bool (holding i (pc (workers s ! t))) + of_bool (holding i (pc x))) w'"
    and run: "running_threads w' + int (of_bool (counted (pc (workers s ! t))))
      = running_threads (world s) + int (of_bool (counted (pc x)))"
    and ids: "\<And>i. omap_count (nodes w') i \<longleftrightarrow> omap_count (nodes (world s)) i"
    and queue: "\<And>i. i \<in> set (nodes_queue w') \<Longrightarrow> i \<in> set (nodes_queue (world s)) \<or> omap_count (nodes (world s)) i"
    and at: "at_ok (pc x)" "\<And>i. i \<in> visiting (pc x) \<Longrightarrow> omap_count (nodes (world s)) i"
  shows "sched_inv r0 s'"
proof -
  have "held s' i = held s i - of_bool (holding i (pc (workers s ! t))) + of_bool (holding i (pc x))" for i
    using held_update [OF t s'(2,3), of i] held_pos [OF t, of i]
    by (cases "holding i (pc (workers s ! t))"; cases "holding i (pc x)") simp_all
  then have "net_inv (held s') (world s')" using net s'(1) by presburger
  moreover have "r0 + int (running s') \<le> running_threads w'"
    using running_update [OF t s'(2)] run inv
    by (cases "counted (pc (workers s ! t))"; cases "counted (pc x)") (simp_all add: sched_inv_def)
  moreover have "\<forall>i \<in> set (nodes_queue w'). omap_count (nodes w') i"
    using queue ids inv by (auto simp: sched_inv_def)
  moreover have "y = x \<or> y \<in> set (workers s)" if "y \<in> set (workers s')" for y
    using that set_update_subset_insert [of "workers s" t x] s'(2) by auto
  then have "\<forall>y \<in> set (workers s'). at_ok (pc y) \<and> (\<forall>i \<in> visiting (pc y). omap_count (nodes w') i)"
    using at ids inv unfolding sched_inv_def by metis
  moreover have "main_ok w' (main_pc s)"
    using inv ids by (cases "main_pc s") (simp_all add: sched_inv_def)
  ultimately show ?thesis by (simp add: sched_inv_def s'(1,3))
qed

lemma step_take_inv:
  assumes inv: "sched_inv r0 s" and t: "t < length (workers s)" and pc: "pc (workers s ! t) = Working i num"
    and ok: "\<And>m. code_ok (on_message V i m)"
  shows "sched_inv r0 (step_take V tie t i num s)"
proof -
  let ?w = "world s"
  have "workers s ! t \<in> set (workers s)" using t by simp
  then have here: "omap_count (nodes ?w) i" using inv pc by (fastforce simp: sched_inv_def)
  then obtain nd where nd: "omap_at (nodes ?w) i = Some nd" by (auto simp: omap_count_at)
  obtain ret msg nd' c where tk: "take_message (clock ?w) tie (nd, cnts ?w) = (ret, msg, nd', c)"
    by (cases "take_message (clock ?w) tie (nd, cnts ?w)")
  define w' where "w' = ?w\<lparr>nodes := omap_update i nd' (nodes ?w), cnts := c\<rparr>"
  define p where "p = (case msg of Some m \<Rightarrow> Handling i num (Running (on_message V i m))
    | None \<Rightarrow> if ret = -1 then Requeue i else Checking)"
  have net: "net_inv (held s) ?w" and wf: "omap_ok (nodes ?w)"
    using inv by (auto simp: sched_inv_def net_inv_def wf_nodes_def)
  note tinv = take_inv [OF net nd tk, folded w'_def]
  have eq: "step_take V tie t i num s = set_pc t p (s\<lparr>world := w'\<rparr>)"
    using nd tk by (simp add: step_take_def w'_def p_def)
  have pos: "0 < held s i" using held_pos [OF t, of i] pc by simp
  show ?thesis
  proof (rule worker_moves [OF inv t, where x = "(workers s ! t)\<lparr>pc := p\<rparr>" and w' = w'])
    show "net_inv (\<lambda>j. held s j - of_bool (holding j (pc (workers s ! t)))
        + of_bool (holding j (pc ((workers s ! t)\<lparr>pc := p\<rparr>)))) w'"
    proof (cases msg)
      case (Some m)
      then have "net_inv ((held s)(i := held s i - 1)) w'" using tinv(2,5) by simp
      then show ?thesis by (rule net_inv_mono) (simp add: p_def Some pc)
    next
      case None
      then have "ret = 0 \<or> ret = -1" using tinv(4,5) by auto
      then show ?thesis
      proof
        assume "ret = 0"
        with tinv(3) have "net_inv ((held s)(i := 0)) w'" by simp
        then show ?thesis by (rule net_inv_mono) (simp add: pc)
      next
        assume "ret = -1"
        then show ?thesis by (intro net_inv_mono [OF tinv(1)]) (use pos in \<open>simp add: p_def None pc\<close>)
      qed
    qed
    show "omap_count (nodes w') j \<longleftrightarrow> omap_count (nodes ?w) j" for j
      using nodes_map.update_at [OF wf, of i nd' j] nd by (simp add: w'_def omap_count_at)
    show "j \<in> set (nodes_queue w') \<Longrightarrow> j \<in> set (nodes_queue ?w) \<or> omap_count (nodes ?w) j" for j
      by (simp add: w'_def)
    show "j \<in> visiting (pc ((workers s ! t)\<lparr>pc := p\<rparr>)) \<Longrightarrow> omap_count (nodes ?w) j" for j
      using here by (auto simp: p_def split: option.splits if_splits)
    show "at_ok (pc ((workers s ! t)\<lparr>pc := p\<rparr>))" using ok by (simp add: p_def split: option.split)
    show "running_threads w' + int (of_bool (counted (pc (workers s ! t))))
        = running_threads ?w + int (of_bool (counted (pc ((workers s ! t)\<lparr>pc := p\<rparr>))))"
      by (simp add: w'_def pc p_def split: option.split)
  qed (simp_all add: eq set_pc_def)
qed

lemma net_inv_running [simp]: "net_inv k (w\<lparr>running_threads := r\<rparr>) = net_inv k w"
  by (simp add: net_inv_def waiting_at_def tokens_def)

lemma step_handle_inv:
  assumes inv: "sched_inv r0 s" and t: "t < length (workers s)" and pc: "pc (workers s ! t) = Handling i num a"
    and going: "\<nexists>e. a = Ended e"
  shows "sched_inv r0 (step_handle V t i num a s)"
proof -
  obtain a' w where st: "activity_step (may_send V) a (as_thread t s) = (a', w)"
    by (cases "activity_step (may_send V) a (as_thread t s)")
  let ?k = "\<lambda>j. held s j - of_bool (queueing j a)"
  have k: "held s j = ?k j + of_bool (queueing j a)" for j using held_pos [OF t, of j] pc by simp
  have "workers s ! t \<in> set (workers s)" using t by simp
  then have at: "activity_ok a" "\<And>j. j \<in> insert i (receivers a) \<Longrightarrow> omap_count (nodes (world s)) j"
    using inv pc by (fastforce simp: sched_inv_def)+
  have "net_inv (held s) (as_thread t s)" using inv by (simp add: sched_inv_def as_thread_def)
  then have "net_inv (\<lambda>j. ?k j + of_bool (queueing j a)) (as_thread t s)" using k by presburger
  from activity_step_inv [OF this at(1) _ st] at(2)
  have r: "net_inv (\<lambda>j. ?k j + of_bool (queueing j a')) w" "activity_ok a'" "steady (as_thread t s) w"
    "\<forall>j \<in> receivers a'. omap_count (nodes (world s)) j"
    by (auto simp: as_thread_def)
  then have st2: "steady (world s) w" by (simp add: as_thread_def)
  have eq: "step_handle V t i num a s = put_thread t (Handling i num a') w s"
    by (cases a) (use going st in \<open>auto simp: step_handle_def\<close>)
  show ?thesis
    by (rule worker_moves [OF inv t, where x = "\<lparr>pc = Handling i num a', thread_rng = gen w\<rparr>" and w' = "w\<lparr>gen := gen (world s)\<rparr>"])
      (use r at st2 in \<open>auto simp: eq put_thread_def steady_def pc\<close>)
qed

context node_program
begin

lemma worker_step_inv:
  assumes inv: "sched_inv r0 s" and t: "t < length (workers s)"
  shows "sched_inv r0 (worker_step V tie pos t s)"
proof -
  let ?w = "world s"
  have net: "net_inv (held s) ?w" and queue: "\<And>i. i \<in> set (nodes_queue ?w) \<Longrightarrow> omap_count (nodes ?w) i"
    using inv by (auto simp: sched_inv_def)
  have at: "\<And>i. i \<in> visiting (pc (workers s ! t)) \<Longrightarrow> omap_count (nodes ?w) i"
    using inv t nth_mem [OF t] by (auto simp: sched_inv_def)
  have move: "sched_inv r0 (set_pc t p (s\<lparr>world := w'\<rparr>))"
    if "net_inv (\<lambda>i. held s i - of_bool (holding i (pc (workers s ! t))) + of_bool (holding i p)) w'"
      "running_threads w' + int (of_bool (counted (pc (workers s ! t)))) = running_threads ?w + int (of_bool (counted p))"
      "nodes w' = nodes ?w" "\<And>i. i \<in> set (nodes_queue w') \<Longrightarrow> omap_count (nodes ?w) i"
      "at_ok p" "\<And>i. i \<in> visiting p \<Longrightarrow> omap_count (nodes ?w) i" for p w'
    by (rule worker_moves [OF inv t, where x = "(workers s ! t)\<lparr>pc := p\<rparr>" and w' = w'])
      (use that in \<open>simp_all add: set_pc_def\<close>)
  have stay: "sched_inv r0 (set_pc t p s)"
    if "\<And>i. holding i p = holding i (pc (workers s ! t))" "counted p = counted (pc (workers s ! t))"
      "at_ok p" "visiting p \<subseteq> visiting (pc (workers s ! t))" for p
  proof -
    have "held s i - of_bool (holding i (pc (workers s ! t))) + of_bool (holding i p) = held s i" for i
      using that(1) [of i] held_pos [OF t, of i] by (cases "holding i p") simp_all
    then have "sched_inv r0 (set_pc t p (s\<lparr>world := ?w\<rparr>))"
      using that(2-4) net queue at by (intro move) auto
    then show ?thesis by simp
  qed
  show ?thesis
  proof (cases "pc (workers s ! t)")
    case Starting
    show ?thesis unfolding worker_step_def Let_def Starting wpc.case
      by (rule worker_moves [OF inv t, where x = "\<lparr>pc = Polling, thread_rng = \<lparr>s_0 = of_nat t + 1, s_1 = seed ?w\<rparr>\<rparr>"
          and w' = "?w\<lparr>running_threads := running_threads ?w + 1\<rparr>"]) (use Starting net in simp_all)
  next
    case Polling
    show ?thesis
    proof (cases "pos < length (nodes_queue ?w)")
      case True
      define i where "i = nodes_queue ?w ! pos"
      have "i \<in> set (nodes_queue ?w)" using True by (simp add: i_def)
      then have i: "omap_count (nodes ?w) i" by (rule queue)
      have "net_inv ((held s)(i := Suc (held s i))) (take_id pos ?w)"
        using dequeue_inv [OF net True] by (simp add: take_id_def i_def)
      then have "net_inv (\<lambda>j. held s j + of_bool (j = i)) (take_id pos ?w)" by (rule net_inv_mono) simp
      moreover have "set (nodes_queue (take_id pos ?w)) \<subseteq> set (nodes_queue ?w)"
        by (auto simp: take_id_def dest: in_set_takeD in_set_dropD)
      ultimately have "sched_inv r0 (set_pc t (Working i 0) (s\<lparr>world := take_id pos ?w\<rparr>))"
        using queue i by (intro move) (auto simp: Polling take_id_def)
      then show ?thesis using Polling True i by (simp add: worker_step_def Let_def i_def)
    qed (use Polling stay [of Asleep] in \<open>simp add: worker_step_def Let_def\<close>)
  next
    case Asleep
    then show ?thesis using stay [of Exited] stay [of Polling] by (simp add: worker_step_def Let_def)
  next
    case (Working i num)
    then show ?thesis using stay [of "Requeue i"] step_take_inv [OF inv t Working message_ok]
      by (simp add: worker_step_def Let_def)
  next
    case (Handling i num a)
    show ?thesis
    proof (cases "\<exists>e. a = Ended e")
      case False
      then show ?thesis using Handling step_handle_inv [OF inv t Handling False] by (simp add: worker_step_def Let_def)
    next
      case True
      then obtain e where a: "a = Ended e" by blast
      show ?thesis
      proof (cases e)
        case None
        have "net_inv (\<lambda>j. held s j + of_bool (j = i)) ?w" using net by (rule net_inv_mono) simp
        then have "sched_inv r0 (set_pc t (Working i (num + 1)) (s\<lparr>world := ?w\<rparr>))"
          using queue at by (intro move) (simp_all add: Handling a)
        then show ?thesis using Handling a None by (simp add: worker_step_def step_handle_def Let_def)
      next
        case (Some x)
        then show ?thesis using Handling a stay [of Checking] stay [of Crashed]
          by (simp add: worker_step_def step_handle_def Let_def)
      qed
    qed
  next
    case (Requeue i)
    have "net_inv ((held s)(i := held s i - 1)) (push_token i ?w)"
      using held_pos [OF t, of i] Requeue net by (intro net_inv_push) simp
    then have "net_inv (\<lambda>j. held s j - of_bool (j = i)) (push_token i ?w)" by (rule net_inv_mono) simp
    then show ?thesis using move [of Checking "push_token i ?w"] Requeue at queue
      by (auto simp: worker_step_def Let_def push_token_def)
  next
    case Checking
    then show ?thesis
      using stay [of Polling] move [of Paused "?w\<lparr>running_threads := running_threads ?w - 1\<rparr>"] net queue
      by (simp add: worker_step_def Let_def)
  next
    case Paused
    then show ?thesis using stay [of Leaving] inv by (simp add: worker_step_def Let_def)
  next
    case Leaving
    then show ?thesis
      using move [of Polling "?w\<lparr>running_threads := running_threads ?w + 1\<rparr>"] net queue
      by (simp add: worker_step_def Let_def)
  qed (use inv in \<open>simp_all add: worker_step_def Let_def\<close>)
qed

end

text \<open>The same for the steps of the main thread.\<close>

lemma main_moves:
  assumes inv: "sched_inv r0 s"
    and net: "net_inv (\<lambda>i. held s i - of_bool (main_holding i (main_pc s)) + of_bool (main_holding i m)) w'"
    and run: "running_threads w' = running_threads (world s)"
    and ids: "\<And>i. omap_count (nodes (world s)) i \<Longrightarrow> omap_count (nodes w') i"
    and queue: "\<And>i. i \<in> set (nodes_queue w') \<Longrightarrow> i \<in> set (nodes_queue (world s)) \<or> omap_count (nodes w') i"
    and ok: "main_ok w' m"
  shows "sched_inv r0 (s\<lparr>world := w', main_pc := m\<rparr>)"
proof -
  let ?s = "s\<lparr>world := w', main_pc := m\<rparr>"
  have "held ?s i = held s i - of_bool (main_holding i (main_pc s)) + of_bool (main_holding i m)" for i
    by (simp add: held_def)
  then have "net_inv (held ?s) w'" using net by presburger
  moreover have "running ?s = running s" by (simp add: running_def)
  ultimately show ?thesis using inv run ids queue ok by (fastforce simp: sched_inv_def)
qed

lemma main_stays:
  assumes inv: "sched_inv r0 s" and "\<And>i. main_holding i m \<longleftrightarrow> main_holding i (main_pc s)"
    and "\<And>k. net_inv k w' \<longleftrightarrow> net_inv k (world s)" "running_threads w' = running_threads (world s)"
    and "nodes w' = nodes (world s)" "nodes_queue w' = nodes_queue (world s)" and ok: "main_ok w' m"
  shows "sched_inv r0 (s\<lparr>world := w', main_pc := m\<rparr>)"
proof (rule main_moves [OF inv])
  have "held s i - of_bool (main_holding i (main_pc s)) + of_bool (main_holding i m) = held s i" for i
    using assms(2) [of i] by (simp add: held_def)
  then show "net_inv (\<lambda>i. held s i - of_bool (main_holding i (main_pc s)) + of_bool (main_holding i m)) w'"
    using inv assms(3) by (simp add: sched_inv_def)
qed (use assms in simp_all)

lemma net_inv_frame [simp]:
  "net_inv k (w\<lparr>stopping := b\<rparr>) = net_inv k w" "net_inv k (w\<lparr>clock := c\<rparr>) = net_inv k w"
  "net_inv k (Hardware_Manager.resume w) = net_inv k w"
  by (simp_all add: net_inv_def waiting_at_def tokens_def Hardware_Manager.resume_def)

lemma run_workers_again:
  assumes inv: "sched_inv r0 s" and out: "main_pc s = Outside" "joined s"
  shows "sched_inv r0 (run_workers (world s))"
proof -
  have "held (run_workers (world s)) = (\<lambda>_. 0)" "running (run_workers (world s)) = 0"
    by (simp_all add: fun_eq_iff held_def running_def run_workers_def)
  moreover have "held s i = 0" for i
    using out by (auto simp: held_def joined_def filter_empty_conv)
  then have "held s = (\<lambda>_. 0)" by (simp add: fun_eq_iff)
  ultimately show ?thesis using inv by (simp add: sched_inv_def) (simp add: run_workers_def)
qed

context node_program
begin

lemma generating_inv:
  assumes inv: "sched_inv r0 s" and pc: "main_pc s = Generating a"
    and st: "activity_step (may_send V) a (world s) = (a', w)"
  shows "sched_inv r0 (s\<lparr>world := w, main_pc := Generating a'\<rparr>)"
proof -
  let ?k = "\<lambda>j. held s j - of_bool (queueing j a)"
  have k: "held s j = ?k j + of_bool (queueing j a)" for j by (simp add: held_def pc)
  have at: "activity_ok a" "\<And>j. j \<in> receivers a \<Longrightarrow> omap_count (nodes (world s)) j"
    using inv pc by (simp_all add: sched_inv_def)
  have "net_inv (held s) (world s)" using inv by (simp add: sched_inv_def)
  then have "net_inv (\<lambda>j. ?k j + of_bool (queueing j a)) (world s)" using k by presburger
  from activity_step_inv [OF this at(1,2) st]
  have r: "net_inv (\<lambda>j. ?k j + of_bool (queueing j a')) w" "activity_ok a'" "steady (world s) w"
    "\<forall>j \<in> receivers a'. omap_count (nodes (world s)) j" by auto
  show ?thesis
    by (rule main_moves [OF inv]) (use r in \<open>auto simp: pc steady_def\<close>)
qed

lemma sched_step_inv:
  assumes "sched_step V False s s'" "sched_inv r0 s"
  shows "sched_inv r0 s'"
  using assms(1)
proof (cases rule: sched_step.cases)
  case (work t tie pos)
  then show ?thesis using worker_step_inv assms(2) by simp
next
  case (emplace nd)
  let ?m = "omap_emplace (nid nd) nd (nodes (world s))"
  have "omap_ok (nodes (world s))" using assms(2) by (simp add: sched_inv_def net_inv_def wf_nodes_def)
  then have "omap_count (nodes (world s)) i \<Longrightarrow> omap_count ?m i" for i
    using nodes_map.emplace_at [of "nodes (world s)" "nid nd" nd i] by (simp add: omap_count_at)
  then have "sched_inv r0 (s\<lparr>world := (world s)\<lparr>nodes := ?m\<rparr>, main_pc := Locked\<rparr>)"
    using emplace emplace_inv [of "held s" "world s" nd] assms(2)
    by (intro main_moves [OF assms(2)]) (auto simp: sched_inv_def)
  moreover have "s\<lparr>world := (world s)\<lparr>nodes := ?m\<rparr>, main_pc := Locked\<rparr> = s\<lparr>world := (world s)\<lparr>nodes := ?m\<rparr>\<rparr>"
    using emplace by (cases s) simp
  ultimately show ?thesis using emplace by simp
next
  case (generate i g d)
  then show ?thesis using start_ok by (auto intro!: main_stays [OF assms(2)])
next
  case (generating a a' w)
  then show ?thesis using generating_inv [OF assms(2)] by simp
next
  case (generated e)
  have "sched_inv r0 (s\<lparr>world := world s, main_pc := main_pc s'\<rparr>)"
    by (rule main_stays [OF assms(2)]) (use generated in \<open>auto split: option.split\<close>)
  then show ?thesis using generated by simp
next
  case run
  then show ?thesis using run_workers_again [OF assms(2)] by simp
next
  case (tick d)
  have "sched_inv r0 (s\<lparr>world := (world s)\<lparr>clock := clock (world s) + d\<rparr>, main_pc := main_pc s\<rparr>)"
    using assms(2) by (intro main_stays [OF assms(2)]) (cases "main_pc s"; simp add: sched_inv_def)+
  then show ?thesis using tick by simp
qed (use main_stays [OF assms(2), where w' = "world s"] in
    \<open>auto intro!: main_stays [OF assms(2)] simp: Hardware_Manager.resume_def\<close>)

lemma reachable_inv:
  assumes "reachable V False s s'" "sched_inv r0 s"
  shows "sched_inv r0 s'"
  using assms by (induction rule: reachable.induct) (auto intro: sched_step_inv)

end

lemma run_workers_inv:
  assumes "net_inv (\<lambda>_. 0) w" "\<forall>i \<in> set (nodes_queue w). omap_count (nodes w) i"
  shows "sched_inv (running_threads w) (run_workers w)"
proof -
  have "held (run_workers w) = (\<lambda>_. 0)" by (simp add: fun_eq_iff held_def run_workers_def)
  moreover have "running (run_workers w) = 0" by (simp add: running_def run_workers_def)
  ultimately show ?thesis using assms
    by (simp add: sched_inv_def run_workers_def net_inv_def waiting_at_def tokens_def)
qed

lemma total_waiting_zero:
  assumes "wf_nodes (nodes w)" "\<And>i. waiting_at w i = {#}"
  shows "total_waiting (nodes w) = 0"
proof -
  have "size (waiting (snd p)) = 0" if p: "p \<in> set (nodes w)" for p
  proof -
    have "distinct (map fst (nodes w))" using assms(1) by (simp add: wf_nodes_def omap_ok_def strict_sorted_iff)
    then have "omap_at (nodes w) (fst p) = Some (snd p)" using p by (simp add: omap_at_def)
    then show ?thesis using assms(2) [of "fst p"] by (simp add: waiting_at_def)
  qed
  then show ?thesis by (simp add: total_waiting_def)
qed

context node_program
begin

lemma loses_nothing:
  assumes "net_inv (\<lambda>_. 0) w" and "\<forall>i \<in> set (nodes_queue w). omap_count (nodes w) i"
    and "reachable V False (run_workers w) s"
  shows "(\<forall>i. waiting_at (world s) i \<noteq> {#} \<longrightarrow> i \<in> set (nodes_queue (world s))
            \<or> (\<exists>x \<in> set (workers s). holding i (pc x)) \<or> main_holding i (main_pc s))
    \<and> queued_messages (cnts (world s)) = int (total_waiting (nodes (world s)))
    \<and> (\<forall>i \<in> set (nodes_queue (world s)). omap_count (nodes (world s)) i)
    \<and> (nodes_queue (world s) = [] \<longrightarrow> (\<forall>x \<in> set (workers s). \<forall>i. \<not> holding i (pc x))
         \<longrightarrow> (\<forall>i. \<not> main_holding i (main_pc s)) \<longrightarrow> queued_messages (cnts (world s)) = 0)"
proof -
  have "sched_inv (running_threads w) s"
    by (rule reachable_inv [OF assms(3) run_workers_inv [OF assms(1,2)]])
  then have net: "net_inv (held s) (world s)" and ids: "\<forall>i \<in> set (nodes_queue (world s)). omap_count (nodes (world s)) i"
    by (simp_all add: sched_inv_def)
  have cnt: "queued_messages (cnts (world s)) = int (total_waiting (nodes (world s)))"
    and wf: "wf_nodes (nodes (world s))" using net by (simp_all add: net_inv_def)
  have cover: "i \<in> set (nodes_queue (world s)) \<or> (\<exists>x \<in> set (workers s). holding i (pc x)) \<or> main_holding i (main_pc s)"
    if "waiting_at (world s) i \<noteq> {#}" for i
  proof -
    have "0 < tokens (world s) i + held s i"
      using that net by (metis nonempty_has_size less_le_trans net_inv_def)
    then show ?thesis by (auto simp: tokens_def held_def filter_empty_conv)
  qed
  have "queued_messages (cnts (world s)) = 0"
    if "nodes_queue (world s) = []" "\<forall>x \<in> set (workers s). \<forall>i. \<not> holding i (pc x)" "\<forall>i. \<not> main_holding i (main_pc s)"
    using cover that total_waiting_zero [OF wf] cnt by force
  with cover cnt ids show ?thesis by blast
qed

end

section \<open>Properties of the scheduler\<close>

text \<open>Nodes that answer every message with one to node 3.\<close>

definition echo :: "(nat, unit, unit) methods" where
  "echo = \<lparr>may_send = can_send, on_message = (\<lambda>i m. Send i 3 m Return), on_start = (\<lambda>i m. Send i 3 m Return)\<rparr>"

interpretation echo: node_program echo
  by unfold_locales (simp_all add: echo_def return_ok send_ok)

definition queued_pair :: "(nat, unit) hwm" where
  "queued_pair = one_queued\<lparr>nthreads := 2\<rparr>"

lemma queued_pair_ok:
  "net_inv (\<lambda>_. 0) queued_pair" "\<forall>i \<in> set (nodes_queue queued_pair). omap_count (nodes queued_pair) i"
  "running_threads queued_pair = 0" "nodes_queue queued_pair = [5]" "nthreads queued_pair = 2"
  using one_queued_inv
  by (simp_all add: queued_pair_def net_inv_def waiting_at_def tokens_def one_queued_eq two_nodes_def hwm_new_def omap_count_def)

text \<open>C1: however the workers, the main thread and the clock take turns after \<open>run\<close>, also between the two
  lines of \<open>send_message\<close> that queue the message and the id, and as long as no node is taken out:
  every waiting message has the id of its node in the queue or a thread that is about to look at the
  node or to put its id into the queue; the shared counter is the number of waiting messages; no worker
  meets an id without a node; and when the queue is empty and no thread holds an id, no
  message is waiting, so that the counter is zero.\<close>

theorem scheduler_loses_nothing:
  assumes "node_program V" and "net_inv (\<lambda>_. 0) w"
    and "\<forall>i \<in> set (nodes_queue w). omap_count (nodes w) i"
    and "reachable V False (run_workers w) s"
  shows "(\<forall>i. waiting_at (world s) i \<noteq> {#} \<longrightarrow> i \<in> set (nodes_queue (world s))
            \<or> (\<exists>x \<in> set (workers s). holding i (pc x)) \<or> main_holding i (main_pc s))
    \<and> queued_messages (cnts (world s)) = int (total_waiting (nodes (world s)))
    \<and> (\<forall>i \<in> set (nodes_queue (world s)). omap_count (nodes (world s)) i)
    \<and> (nodes_queue (world s) = [] \<longrightarrow> (\<forall>x \<in> set (workers s). \<forall>i. \<not> holding i (pc x))
         \<longrightarrow> (\<forall>i. \<not> main_holding i (main_pc s)) \<longrightarrow> queued_messages (cnts (world s)) = 0)"
  by (rule node_program.loses_nothing [OF assms])

text \<open>Worker 1 has taken the id of node 5 and handled its message; its answer is in the queue of node 3.\<close>

definition turns :: "nat \<Rightarrow> (nat, unit, unit) system" where
  "turns n = fold (\<lambda>_. worker_step echo 0 0 1) [0..<n] (run_workers queued_pair)"

lemma turns_Suc: "turns 0 = run_workers queued_pair" "turns (Suc n) = worker_step echo 0 0 1 (turns n)"
  "turns (numeral k) = worker_step echo 0 0 1 (turns (pred_numeral k))"
  by (simp_all add: turns_def numeral_eq_Suc)

lemmas turns_eval = turns_Suc worker_steps run_workers_def queued_pair_def one_queued_eq two_nodes_def hwm_new_def
  numeral_2_eq_2 take_id_def omap_count_def omap_at_def omap_update_def take_message_def echo_def send_checks_def
  node_new_def message_new_def as_thread_def can_send_def
  prod.case_eq_if

lemma turns_steady:
  "main_pc (turns n) = Outside" "length (workers (turns n)) = 2"
  by (induction n) (simp_all add: turns_Suc run_workers_def queued_pair_ok)

lemma turns_pcs:
  "map pc (workers (turns 0)) = [Starting, Starting]"
  "map pc (workers (turns 1)) = [Starting, Polling]"
  "map pc (workers (turns 2)) = [Starting, Working 5 0]"
  "map pc (workers (turns 3)) = [Starting, Handling 5 0 (Running (Send 5 3 ((message_new 7)\<lparr>hops := 1\<rparr>) Return))]"
  "map pc (workers (turns 4)) = [Starting, Handling 5 0 (Enqueueing 3 ((message_new 7)\<lparr>hops := 2\<rparr>) (Return None))]"
  "map pc (workers (turns 5)) = [Starting, Handling 5 0 (Queueing 3 (Return None))]"
  by (simp_all add: turns_eval)

lemma turns_five:
  "nodes_queue (world (turns 5)) = []" "waiting_at (world (turns 5)) 3 = {#(message_new 7)\<lparr>hops := 2\<rparr>#}"
  by (simp_all add: turns_eval waiting_at_def waiting_def deliver_def enqueue_def check_enqueue_def)

lemma turns_reachable: "n \<le> 5 \<Longrightarrow> reachable echo False (run_workers queued_pair) (turns n)"
proof (induction n)
  case 0
  show ?case by (simp add: turns_Suc reachable.here)
next
  case (Suc n)
  from Suc.prems consider "n = 0" | "n = 1" | "n = 2" | "n = 3" | "n = 4" by linarith
  then have "Crashed \<notin> set (map pc (workers (turns n)))"
    by cases (simp_all only: turns_pcs, simp_all)
  then have "\<not> crashed (turns n)" by (simp add: crashed_def turns_steady) (metis image_eqI)
  then have "sched_step echo False (turns n) (turns (Suc n))"
    unfolding turns_Suc by (rule sched_step.work) (simp add: turns_steady)
  with Suc show ?case by (auto intro: reachable.there)
qed

theorem scheduler_loses_nothing_witness:
  "\<exists>s. reachable echo False (run_workers queued_pair) s \<and> nodes_queue (world s) = []
    \<and> waiting_at (world s) 3 = {#(message_new 7)\<lparr>hops := 2\<rparr>#} \<and> (\<exists>x \<in> set (workers s). holding 3 (pc x))"
proof -
  have r: "reachable echo False (run_workers queued_pair) (turns 5)" by (rule turns_reachable) simp
  from conjunct1 [OF scheduler_loses_nothing [OF echo.node_program_axioms queued_pair_ok(1,2) r], rule_format, of 3]
  have "\<exists>x \<in> set (workers (turns 5)). holding 3 (pc x)" by (simp add: turns_five turns_steady)
  then show ?thesis using r turns_five by blast
qed

text \<open>C40: after a first \<open>run\<close> over a well-formed network, and while no node is taken out, \<open>pause\<close> returns only when
  every worker is in the waiting loop, has just left it, or has not started: no worker is then inside a node's
  code, takes an id or handles a message. The counter is at least the number of such threads.\<close>

theorem pause_returns_when_idle:
  assumes "node_program V" and "net_inv (\<lambda>_. 0) w"
    and "\<forall>i \<in> set (nodes_queue w). omap_count (nodes w) i" and "running_threads w = 0"
    and "reachable V False (run_workers w) s"
    and "main_pc s = Pausing" and "sched_step V False s s'" and "main_pc s' = Locked"
  shows "\<forall>x \<in> set (workers s). pc x = Starting \<or> pc x = Paused \<or> pc x = Leaving"
proof -
  have "sched_inv 0 s"
    using node_program.reachable_inv [OF assms(1,5) run_workers_inv [OF assms(2,3)]] assms(4) by simp
  then have r: "int (running s) \<le> running_threads (world s)" by (simp add: sched_inv_def)
  have "running_threads (world s) = 0" by (rule locked_when_idle [OF assms(7,6,8)])
  then have "running s = 0" using r by simp
  then have "\<not> counted (pc x)" if "x \<in> set (workers s)" for x
    using that by (simp add: running_def filter_empty_conv)
  moreover have "\<not> counted p \<Longrightarrow> p = Starting \<or> p = Paused \<or> p = Leaving" for p by (cases p) simp_all
  ultimately show ?thesis by blast
qed

theorem pause_returns_when_idle_witness:
  "\<exists>s s'. reachable echo False (run_workers queued_pair) s \<and> sched_step echo False s s' \<and> main_pc s' = Locked
    \<and> (\<forall>x \<in> set (workers s). pc x = Starting \<or> pc x = Paused \<or> pc x = Leaving)"
proof -
  let ?s0 = "run_workers queued_pair"
  let ?u = "?s0\<lparr>world := (world ?s0)\<lparr>pausing := True\<rparr>, main_pc := Pausing\<rparr>"
  have r: "reachable echo False ?s0 ?u"
    by (rule reachable.there [OF reachable.here sched_step.pause]) (auto simp: crashed_def run_workers_def)
  moreover have st: "sched_step echo False ?u (?u\<lparr>main_pc := Locked\<rparr>)"
    by (rule sched_step.paused) (auto simp: crashed_def run_workers_def queued_pair_ok(3))
  ultimately show ?thesis
    using pause_returns_when_idle [OF echo.node_program_axioms queued_pair_ok(1-3) r _ st] by force
qed

lemma poll_takes:
  assumes "pc (workers s ! t) = Polling" "t < length (workers s)" "nodes_queue (world s) = i # rest"
    and "omap_count (nodes (world s)) i"
  shows "pc (workers (worker_step V tie 0 t s) ! t) = Working i 0"
  using assms by (simp add: worker_step_def Let_def set_pc_def)

text \<open>C28: right after \<open>run\<close> it does not wait at all: no worker has started, so the counter is zero.
  The lock that \<open>pause\<close> is to give does not exclude a worker: one that starts then takes an id
  and works on its node while the main thread is between \<open>pause\<close> and \<open>resume\<close>.\<close>

theorem lock_does_not_exclude:
  assumes "running_threads w = 0" and "0 < nthreads w"
    and "nodes_queue w = i # rest" and "omap_count (nodes w) i"
  shows "\<exists>s. reachable V failing (run_workers w) s \<and> main_pc s = Locked \<and> pc (workers s ! 0) = Working i 0"
proof -
  let ?s0 = "run_workers w"
  let ?s1 = "?s0\<lparr>world := (world ?s0)\<lparr>pausing := True\<rparr>, main_pc := Pausing\<rparr>"
  let ?s2 = "?s1\<lparr>main_pc := Locked\<rparr>"
  let ?s3 = "worker_step V 0 0 0 ?s2"
  let ?s4 = "worker_step V 0 0 0 ?s3"
  obtain n where n: "nat (nthreads w) = Suc n" using assms(2) by (cases "nat (nthreads w)") auto
  have s3: "workers ?s3 = \<lparr>pc = Polling, thread_rng = \<lparr>s_0 = 1, s_1 = seed w\<rparr>\<rparr>
      # replicate n \<lparr>pc = Starting, thread_rng = xoroshiro_default\<rparr>" "nodes_queue (world ?s3) = i # rest"
    "nodes (world ?s3) = nodes w"
    using n assms(3) by (simp_all add: run_workers_def worker_steps)
  have ok: "\<not> crashed ?s0" "\<not> crashed ?s1" "\<not> crashed ?s2" "\<not> crashed ?s3"
    using s3(1) by (auto simp: crashed_def run_workers_def)
  have "reachable V failing ?s0 ?s1"
    by (rule reachable.there [OF reachable.here]) (rule sched_step.pause [OF ok(1)], simp add: run_workers_def)
  moreover have "sched_step V failing ?s1 ?s2"
    by (rule sched_step.paused [OF ok(2)]) (use assms(1) in \<open>simp_all add: run_workers_def\<close>)
  moreover have "sched_step V failing ?s2 ?s3"
    by (rule sched_step.work [OF ok(3)]) (simp add: run_workers_def n)
  moreover have "sched_step V failing ?s3 ?s4"
    by (rule sched_step.work [OF ok(4)]) (simp add: run_workers_def n)
  ultimately have "reachable V failing ?s0 ?s4" by (blast intro: reachable.there)
  moreover have "pc (workers ?s4 ! 0) = Working i 0"
    by (rule poll_takes) (use s3 assms(4) in simp_all)
  moreover have "main_pc ?s4 = Locked" by simp
  ultimately show ?thesis by blast
qed

theorem lock_does_not_exclude_witness:
  "\<exists>s. reachable echo False (run_workers queued_pair) s \<and> main_pc s = Locked \<and> pc (workers s ! 0) = Working 5 0"
  by (rule lock_does_not_exclude) (use queued_pair_ok in auto)

text \<open>Nothing to do: no id in the queue, and the workers poll, sleep or have ended.\<close>

definition idle :: "('d, 's, 'z) system \<Rightarrow> bool" where
  "idle s \<longleftrightarrow> nodes_queue (world s) = [] \<and> (\<forall>x \<in> set (workers s). pc x \<in> {Polling, Asleep, Exited})"

lemma idle_step:
  assumes "idle s" "t < length (workers s)"
  shows "idle (worker_step V tie pos t s)"
    "running_threads (world (worker_step V tie pos t s)) = running_threads (world s)"
proof -
  have move: "idle (set_pc t p s)" if "p \<in> {Polling, Asleep, Exited}" for p
    using assms(1) that by (auto simp: idle_def set_pc_def dest!: set_update_subset_insert [THEN subsetD])
  have "pc (workers s ! t) \<in> {Polling, Asleep, Exited}" "nodes_queue (world s) = []"
    using assms by (simp_all add: idle_def)
  moreover define p where "p = (if pc (workers s ! t) = Polling then Asleep
      else if stopping (world s) then Exited else (Polling :: ('a, ('a, 'b, 'c) hwm_scheme) wpc))"
  ultimately have "worker_step V tie pos t s = (if pc (workers s ! t) = Exited then s else set_pc t p s)"
    by (auto simp: worker_step_def Let_def)
  then show "idle (worker_step V tie pos t s)"
    "running_threads (world (worker_step V tie pos t s)) = running_threads (world s)"
    using assms(1) move [of p] by (simp_all add: p_def, simp_all add: set_pc_def)
qed

text \<open>C27: \<open>pause\<close> (hence \<open>add_node\<close> and \<open>fail\<close>) never returns when there is nothing to do: the
  flag is looked at only after a burst, so workers that find the queue empty never enter the
  waiting loop. Nor does it return after \<open>stop\<close>: a worker that ends does not lower the counter.\<close>

theorem pause_never_returns:
  assumes "idle s" and "main_pc s = Pausing" and "running_threads (world s) \<noteq> 0"
    and "reachable V failing s s'"
  shows "main_pc s' = Pausing \<and> idle s' \<and> running_threads (world s') \<noteq> 0"
  using assms(4)
proof (induction rule: reachable.induct)
  case here
  show ?case using assms(1-3) by simp
next
  case (there u v)
  from there.hyps(2) there.IH show ?case
    by (cases rule: sched_step.cases) (simp_all add: idle_step, simp add: idle_def)
qed

definition two_idle :: "(nat, unit, unit) system" where
  "two_idle = \<lparr>world = two_nodes\<lparr>running_threads := 2, pausing := True\<rparr>,
     workers = replicate 2 \<lparr>pc = Polling, thread_rng = xoroshiro_default\<rparr>, main_pc = Pausing\<rparr>"

theorem pause_never_returns_witness:
  "\<exists>s. reachable echo False two_idle s \<and> pc (workers s ! 0) = Asleep \<and> main_pc s = Pausing"
proof -
  have i: "idle two_idle" "main_pc two_idle = Pausing" "running_threads (world two_idle) \<noteq> 0"
    by (simp_all add: idle_def two_idle_def two_nodes_def hwm_new_def)
  have r: "reachable echo False two_idle (worker_step echo 0 0 0 two_idle)"
    by (rule reachable.there [OF reachable.here], rule sched_step.work) (simp_all add: crashed_def two_idle_def)
  have "pc (workers (worker_step echo 0 0 0 two_idle) ! 0) = Asleep"
    by (simp add: worker_step_def set_pc_def two_idle_def two_nodes_def hwm_new_def)
  then show ?thesis using pause_never_returns [OF i r] r by blast
qed

section \<open>Schedules\<close>

text \<open>The workers' steps in a given order: whose turn it is, and the step's two choices.\<close>

definition worker_run ::
    "('d, 's, 'z) methods \<Rightarrow> (nat \<times> nat \<times> nat) list
      \<Rightarrow> ('d, 's, 'z) system \<Rightarrow> ('d, 's, 'z) system" where
  "worker_run V cs s = fold (\<lambda>(t, tie, pos). worker_step V tie pos t) cs s"

lemma worker_run_simps [simp]:
  "worker_run V [] s = s"
  "worker_run V ((t, tie, pos) # cs) s = worker_run V cs (worker_step V tie pos t s)"
  by (simp_all add: worker_run_def)

lemma length_worker_run [simp]: "length (workers (worker_run V cs s)) = length (workers s)"
  by (induction cs arbitrary: s) auto

lemma worker_run_append: "worker_run V (cs @ ds) s = worker_run V ds (worker_run V cs s)"
  by (simp add: worker_run_def)

subsection \<open>Stopping\<close>

text \<open>How many turns a worker without work needs to end.\<close>

fun turns_left :: "('d, 'w) wpc \<Rightarrow> nat" where
  "turns_left Exited = 0"
| "turns_left Asleep = 1"
| "turns_left Polling = 2"
| "turns_left Paused = 4"
| "turns_left _ = 3"

fun calm :: "('d, 'w) wpc \<Rightarrow> bool" where
  "calm (Working i num) \<longleftrightarrow> False"
| "calm (Handling i num a) \<longleftrightarrow> False"
| "calm (Requeue i) \<longleftrightarrow> False"
| "calm Crashed \<longleftrightarrow> False"
| "calm _ \<longleftrightarrow> True"

definition winding_down :: "('d, 's, 'z) system \<Rightarrow> bool" where
  "winding_down s \<longleftrightarrow> nodes_queue (world s) = [] \<and> stopping (world s) \<and> \<not> pausing (world s)
     \<and> (\<forall>x \<in> set (workers s). calm (pc x))"

lemma worker_step_at:
  assumes "u \<noteq> t"
  shows "workers (worker_step V tie pos t s) ! u = workers s ! u"
  using assms by (cases "pc (workers s ! t)"; simp add: worker_steps split: option.split prod.split activity.split)

lemma winding_step:
  assumes "winding_down s" "t < length (workers s)"
  shows "winding_down (worker_step V tie pos t s)"
    "turns_left (pc (workers (worker_step V tie pos t s) ! t)) = turns_left (pc (workers s ! t)) - 1"
proof -
  let ?s = "worker_step V tie pos t s"
  have pc: "calm (pc (workers s ! t))" and w: "nodes_queue (world s) = []" "stopping (world s)" "\<not> pausing (world s)"
    using assms by (simp_all add: winding_down_def)
  have "nodes_queue (world ?s) = [] \<and> stopping (world ?s) \<and> \<not> pausing (world ?s) \<and> calm (pc (workers ?s ! t))
      \<and> turns_left (pc (workers ?s ! t)) = turns_left (pc (workers s ! t)) - 1"
    using pc w assms(2) by (cases "pc (workers s ! t)") (simp_all add: worker_step_def Let_def set_pc_def)
  moreover have "calm (pc x)" if x: "x \<in> set (workers ?s)" and "calm (pc (workers ?s ! t))" for x
  proof -
    obtain u where "u < length (workers ?s)" and u2: "workers ?s ! u = x"
      using x unfolding in_set_conv_nth by blast
    then have u: "u < length (workers s)" by simp
    have "calm (pc (workers s ! u))" using u assms(1) by (simp add: winding_down_def)
    then show ?thesis using that(2) worker_step_at [of u t V tie pos s] u2 by (cases "u = t") simp_all
  qed
  ultimately show "winding_down ?s"
    "turns_left (pc (workers ?s ! t)) = turns_left (pc (workers s ! t)) - 1"
    unfolding winding_down_def by blast+
qed

lemma winding_run:
  assumes "winding_down s" "\<forall>c \<in> set cs. fst c < length (workers s)" "u < length (workers s)"
  shows "winding_down (worker_run V cs s)
    \<and> turns_left (pc (workers (worker_run V cs s) ! u))
        = turns_left (pc (workers s ! u)) - count_list (map fst cs) u"
  using assms
proof (induction cs arbitrary: s)
  case (Cons c cs)
  obtain t tie pos where c: "c = (t, tie, pos)" by (cases c)
  note step = winding_step [OF Cons.prems(1), of t V tie pos]
  have "winding_down (worker_step V tie pos t s)" using step(1) Cons.prems(2) c by simp
  from Cons.IH [OF this] Cons.prems(2,3) step(2) show ?case
    by (cases "u = t") (auto simp: c worker_step_at)
qed simp

text \<open>C26: \<open>stop\<close> returns when there is nothing left to do. Once it has set its flag, and when the queue is empty, no
  worker is at a node and nobody pauses (\<open>winding_down\<close>), the workers end by themselves: after any sequence of turns in which each has at least four,
  all have ended and can be joined.\<close>

theorem stop_returns:
  assumes "winding_down s" and "\<forall>c \<in> set cs. fst c < length (workers s)"
    and "\<forall>t < length (workers s). 4 \<le> count_list (map fst cs) t"
  shows "joined (worker_run V cs s)"
proof -
  have "pc x = Exited" if x: "x \<in> set (workers (worker_run V cs s))" for x
  proof -
    obtain u where u: "u < length (workers (worker_run V cs s))" "x = workers (worker_run V cs s) ! u"
      using x by (auto simp: in_set_conv_nth)
    have few: "turns_left p \<le> 4" for p :: "('a, ('a, 'b, 'c) hwm_scheme) wpc" by (cases p) simp_all
    from winding_run [OF assms(1,2), of u V] u(1)
    have "winding_down (worker_run V cs s)" "turns_left (pc x) = turns_left (pc (workers s ! u)) - count_list (map fst cs) u"
      by (simp_all add: u(2))
    moreover have "turns_left (pc (workers s ! u)) \<le> count_list (map fst cs) u"
      using few [of "pc (workers s ! u)"] assms(3) u(1) by (simp add: order_trans)
    ultimately have "calm (pc x)" "turns_left (pc x) = 0"
      using x by (simp_all add: winding_down_def)
    then show ?thesis by (cases "pc x") simp_all
  qed
  then show ?thesis by (simp add: joined_def)
qed

theorem stop_returns_witness:
  "joined (worker_run echo [(0, 0, 0), (1, 0, 0), (1, 0, 0), (0, 0, 0), (0, 0, 0), (1, 0, 0), (0, 0, 0), (1, 0, 0)]
     (two_idle\<lparr>world := two_nodes\<lparr>stopping := True\<rparr>\<rparr>))"
proof -
  have two: "t < Suc (Suc 0) \<longleftrightarrow> t = 0 \<or> t = 1" for t by auto
  show ?thesis
    by (rule stop_returns) (auto simp: winding_down_def two_idle_def two_nodes_def hwm_new_def numeral_2_eq_2 two)
qed


end
