(* ===== verification/Chord_Hops.thy ===== *)
theory Chord_Hops
  imports Chord Scheduler
begin

text \<open>
  The program \<open>examples/chord_hop_distribution.cpp\<close>: it sets up a Chord network, sends random
  messages through it and counts their hops. Its counters \<open>counts\<close> and \<open>received_messages\<close> are
  written by the callback of every node, so they extend the manager's record.
\<close>

section \<open>The program\<close>

record ('d, 's) hop_hwm = "('d, 's) hwm" +
  hop_counts :: "u64 list"
  received_messages :: u64

type_synonym hops_world = "(u64, chord_state) hop_hwm"

definition complete_callback :: "node_id \<Rightarrow> u64 message \<Rightarrow> hops_world act" where
  "complete_callback n msg w =
     (let h = unat (get_hops msg) in
      if h < length (hop_counts w)
      then (w\<lparr>hop_counts := (hop_counts w)[h := hop_counts w ! h + 1],
              received_messages := received_messages w + 1\<rparr>, None)
      else (w, Some (UB ''vector index'')))"

text \<open>\<open>1<<bits\<close> is an \<open>int\<close>, converted to 64 bits.\<close>

definition hops_new :: "int \<Rightarrow> u64 \<Rightarrow> hops_world res" where
  "hops_new hardware_concurrency b =
     (if unat b < 32 then
        Inr (hwm.extend (hwm_new hardware_concurrency (scast (push_bit (unat b) 1 :: 32 word)) hardware_concurrency 0 0)
               (hop_hwm.fields (replicate (unat (b + 1)) 0) 0))
      else Inl (UB ''shift past the width''))"

primrec hops_setup :: "nat \<Rightarrow> u64 \<Rightarrow> nat \<Rightarrow> hops_world act" where
  "hops_setup fuel b 0 = ok_act id"
| "hops_setup fuel b (Suc n) = (\<lambda>w.
     case gen_id fuel w of
       (Inl e, w') \<Rightarrow> (w', Some e)
     | (Inr i, w') \<Rightarrow> seq_act (add_node (\<lambda>_. ok_act id) (chord_node i b)) (hops_setup fuel b n) w')"

primrec hops_generate :: "nat \<Rightarrow> nat \<Rightarrow> hops_world act" where
  "hops_generate fuel 0 = ok_act id"
| "hops_generate fuel (Suc n) = (\<lambda>w.
     case get_random_node fuel w of
       (Inl e, w') \<Rightarrow> (w', Some e)
     | (Inr i, w') \<Rightarrow> seq_act (gen_message (chord_start fuel complete_callback) i 0) (hops_generate fuel n) w')"

text \<open>The share of the messages that took \<open>i\<close> hops, for each \<open>i\<close> from 1.\<close>

definition hops_output :: "u64 \<Rightarrow> hops_world \<Rightarrow> real list res" where
  "hops_output b w = fold_res (\<lambda>i out. bind_res (vec_get (hop_counts w) i) (\<lambda>c.
       Inr (out @ [1 * real (unat c) / real (unat (received_messages w))])))
     [1..<unat (b + 1)] []"

section \<open>The same code in steps\<close>

text \<open>
  What the scheduler interleaves: the draws and the look-ups (in the map of nodes, which only the main
  thread changes), then the callback or the message to the finger, which is several steps.
\<close>

definition callback_code :: "node_id \<Rightarrow> u64 message \<Rightarrow> (u64, hops_world) code" where
  "callback_code i msg = Step (\<lambda>w. fst (complete_callback i msg w)) (\<lambda>w. Return (snd (complete_callback i msg w)))"

definition chord_code ::
    "(node_id \<Rightarrow> u64 message \<Rightarrow> (u64, (u64, chord_state, 'z) hwm_scheme) code) \<Rightarrow> node_id \<Rightarrow> u64 message
      \<Rightarrow> (u64, (u64, chord_state, 'z) hwm_scheme) code" where
  "chord_code cb i msg = Step id (\<lambda>w.
     case omap_at (nodes w) i of None \<Rightarrow> Return (Some (UB ''node destroyed''))
      | Some nd \<Rightarrow> (let b = bits (user nd) in
        case chord_successor w b (msg_data msg) of Inl e \<Rightarrow> Return (Some e)
        | Inr dst \<Rightarrow>
            if i = dst then cb i msg
            else case find_finger (unat (ucast b :: 32 word)) w b i dst of
                Inl e \<Rightarrow> Return (Some e)
              | Inr None \<Rightarrow> Return None
              | Inr (Some finger) \<Rightarrow> Send i finger msg Return))"

definition chord_start_code ::
    "nat \<Rightarrow> (node_id \<Rightarrow> u64 message \<Rightarrow> (u64, (u64, chord_state, 'z) hwm_scheme) code) \<Rightarrow> node_id \<Rightarrow> u64 message
      \<Rightarrow> (u64, (u64, chord_state, 'z) hwm_scheme) code" where
  "chord_start_code fuel cb i msg = Step
     (\<lambda>w. case omap_at (nodes w) i of None \<Rightarrow> w | Some nd \<Rightarrow> snd (draw_key fuel i (bits (user nd)) w))
     (\<lambda>w. case omap_at (nodes w) i of None \<Rightarrow> Return (Some (UB ''node destroyed''))
       | Some nd \<Rightarrow> (case fst (draw_key fuel i (bits (user nd)) w) of
           Inl e \<Rightarrow> Return (Some e) | Inr k \<Rightarrow> chord_code cb i (set_msg_data k msg)))"

definition hops_methods :: "nat \<Rightarrow> (u64, hops_world) virtuals" where
  "hops_methods fuel = \<lparr>may_send = can_send, on_message = chord_code callback_code,
     on_start = chord_start_code fuel callback_code\<rparr>"

section \<open>The node's code keeps the network's invariant\<close>

lemma net_inv_hops [simp]:
  "net_inv s (w\<lparr>hop_counts := c\<rparr>) = net_inv s w" "net_inv s (w\<lparr>received_messages := r\<rparr>) = net_inv s w"
  by (simp_all add: net_inv_def waiting_at_def tokens_def)

lemma complete_callback_own: "own_work w (fst (complete_callback i msg w))"
  by (simp add: complete_callback_def Let_def own_work_def waiting_at_def)

lemma draw_key_gen: "\<exists>g. snd (draw_key fuel i b w) = w\<lparr>gen := g\<rparr>"
proof (induction fuel arbitrary: w)
  case 0
  show ?case by (intro exI [of _ "gen w"]) simp
next
  case (Suc fuel)
  obtain r g where g: "rng_next (gen w) = (r, g)" by (cases "rng_next (gen w)")
  from Suc.IH [of "w\<lparr>gen := g\<rparr>"] obtain g' where "snd (draw_key fuel i b (w\<lparr>gen := g\<rparr>)) = w\<lparr>gen := g'\<rparr>" by auto
  then show ?case by (auto simp: g Let_def split: sum.split)
qed

lemma callback_code_ok: "code_ok (callback_code i msg)"
  unfolding callback_code_def by (intro step_ok return_ok complete_callback_own)

lemma chord_code_ok:
  assumes "\<And>i m. code_ok (cb i m)"
  shows "code_ok (chord_code cb i msg)"
  unfolding chord_code_def
  by (rule step_ok) (auto simp: Let_def assms intro: return_ok send_ok split: option.split sum.split)

lemma chord_start_code_ok:
  assumes "\<And>i m. code_ok (cb i m)"
  shows "code_ok (chord_start_code fuel cb i msg)"
  unfolding chord_start_code_def
proof (rule step_ok)
  fix w :: "(u64, chord_state, 'a) hwm_scheme"
  have "own_work w (snd (draw_key fuel i b w))" for b
    using draw_key_gen [of fuel i b w] by auto
  then show "own_work w (case omap_at (nodes w) i of None \<Rightarrow> w | Some nd \<Rightarrow> snd (draw_key fuel i (bits (user nd)) w))"
    by (simp split: option.split)
qed (auto simp: chord_code_ok assms return_ok split: option.split sum.split)

text \<open>In one go, the steps are the methods of theory \<open>Chord\<close>.\<close>

lemma run_callback_code: "run_code cansend (callback_code i msg) = complete_callback i msg"
  by (simp add: callback_code_def)

lemma run_chord_code:
  "run_code can_send (chord_code cb i msg) = chord_handle (\<lambda>i m. run_code can_send (cb i m)) i msg"
  by (simp add: fun_eq_iff chord_code_def chord_handle_def Let_def split: option.split sum.split prod.split)

lemma run_chord_start_code:
  "run_code can_send (chord_start_code fuel cb i msg) w = chord_start fuel (\<lambda>i m. run_code can_send (cb i m)) i msg w"
  by (auto simp: chord_start_code_def chord_start_def run_chord_code split: option.split sum.split prod.split)

interpretation chord_nodes: node_program "hops_methods fuel" for fuel
  by unfold_locales (simp_all add: hops_methods_def chord_code_ok chord_start_code_ok callback_code_ok)

section \<open>Properties of the program\<close>

text \<open>Whatever Chord nodes do with the messages that a worker hands them, including a
  callback that indexes the counters with the number of hops, no message is left without a
  queued id after the worker's round.\<close>

theorem chord_round_keeps_messages:
  assumes "net_inv slack w" and "pos < length (nodes_queue w)"
    and "omap_count (nodes w) (nodes_queue w ! pos)"
  shows "net_inv slack (fst (worker_round (chord_handle complete_callback) tie pos w))"
  using chord_nodes.whole_handler.round_inv [OF assms]
  by (simp add: hops_methods_def run_chord_code run_callback_code)

lemma hops_new_small:
  assumes "unat b < 31"
  shows "\<exists>w. hops_new hc b = Inr w \<and> nodes w = [] \<and> nodes_queue w = [] \<and> max_id w = 2 ^ unat b
    \<and> running_threads w = 0 \<and> cnts w = \<lparr>queued_messages = 0, all_messages = 0\<rparr>"
proof -
  have "scast (push_bit (unat b) 1 :: 32 word) = (2 ^ unat b :: u64)"
  proof (rule bit_word_eqI)
    fix n assume "n < LENGTH(64)"
    then show "bit (scast (push_bit (unat b) 1 :: 32 word) :: u64) n = bit (2 ^ unat b :: u64) n"
      using assms by (auto simp: bit_simps push_bit_of_1)
  qed
  then show ?thesis
    using assms by (simp add: hops_new_def hwm.defs hop_hwm.defs hwm_new_def)
qed

lemma length_omap_emplace: "omap_at m k = None \<Longrightarrow> length (omap_emplace k v m) = Suc (length m)"
  by (induction k v m rule: omap_emplace.induct) (auto simp: omap_at_def split: if_splits)

lemma hops_setup_inv:
  assumes "hops_setup fuel b n w = (w', None)" "net_inv (\<lambda>_. 0) w" "chord_net w b" "running_threads w = 0"
    "max_id w = 2 ^ unat b"
  shows "net_inv (\<lambda>_. 0) w' \<and> chord_net w' b \<and> length (nodes w') = length (nodes w) + n \<and> cnts w' = cnts w"
  using assms
proof (induction n arbitrary: w)
  case (Suc n)
  obtain i v where g: "gen_id fuel w = (Inr i, v)" using Suc.prems(1)
    by (cases "gen_id fuel w"; cases "fst (gen_id fuel w)") auto
  note gs = gen_id_spec [OF g]
  obtain gn where v: "v = w\<lparr>gen := gn\<rparr>" using gs(3) by blast
  let ?u = "v\<lparr>nodes := omap_emplace i (chord_node i b) (nodes v), pausing := False\<rparr>"
  have nd: "nid (chord_node i b) = i" "waiting (chord_node i b) = {#}" "bits (user (chord_node i b)) = b"
    by (simp_all add: chord_node_def node_new_def waiting_def)
  have step: "hops_setup fuel b n ?u = (w', None)"
    using Suc.prems(1,4) g by (simp add: v seq_act_def add_node_idle nd catch_std_def ok_act_def)
  have b: "unat b < 64" and wf: "wf_nodes (nodes w)" using Suc.prems(3) by (auto simp: chord_net_def chord_ring_def)
  have inv: "net_inv (\<lambda>_. 0) ?u"
    using emplace_inv [of "\<lambda>_. 0" v "chord_node i b"] Suc.prems(2) nd by (simp add: v)
  have at: "omap_at (nodes ?u) x = (if x = i then Some (chord_node i b) else omap_at (nodes w) x)" for x
    using nodes_map.emplace_at [of "nodes w" i "chord_node i b" x] wf gs(1)
    by (simp add: v wf_nodes_def omap_count_at)
  have "unat i < 2 ^ unat b" using gs(2) Suc.prems(5) unat_2p [OF b] by (simp add: word_less_nat_alt)
  then have net: "chord_net ?u b"
    using inv Suc.prems(3) b at nd
    by (simp add: chord_net_def chord_ring_def net_inv_def omap_count_at)
  have "length (nodes ?u) = Suc (length (nodes w))"
    using gs(1) by (simp add: v length_omap_emplace omap_count_at)
  then show ?case using Suc.IH [OF step inv net] Suc.prems(4,5) by (simp add: v)
qed (simp add: ok_act_def)

text \<open>When the set-up loop gets through, the network is a Chord ring of as many nodes as asked
  for, with distinct ids below \<open>2 ^ bits\<close>, and no message is under way.\<close>

theorem hops_setup_correct:
  assumes "unat b < 31" and "hops_new hc b = Inr w" and "hops_setup fuel b n w = (w', None)"
  shows "chord_net w' b \<and> length (nodes w') = n \<and> net_inv (\<lambda>_. 0) w' \<and> queued_messages (cnts w') = 0"
proof -
  from hops_new_small [OF assms(1), of hc] assms(2) have w: "nodes w = []" "nodes_queue w = []"
    "max_id w = 2 ^ unat b" "running_threads w = 0" "cnts w = \<lparr>queued_messages = 0, all_messages = 0\<rparr>"
    by auto
  have inv: "net_inv (\<lambda>_. 0) w"
    using w by (simp add: net_inv_def wf_nodes_def omap_ok_def omap_at_def total_waiting_def waiting_at_def)
  have net: "chord_net w b"
    using w assms(1) by (simp add: chord_net_def chord_ring_def wf_nodes_def omap_ok_def omap_at_def omap_count_at)
  from hops_setup_inv [OF assms(3) inv net w(4,3)] have
    r: "net_inv (\<lambda>_. 0) w'" "chord_net w' b" "length (nodes w') = n" "cnts w' = cnts w" using w(1) by simp_all
  show ?thesis using r w(5) by simp
qed

theorem hops_setup_correct_witness:
  "\<exists>w w'. hops_new 4 3 = Inr w \<and> hops_setup 1 3 1 w = (w', None) \<and> chord_net w' 3 \<and> length (nodes w') = 1"
proof -
  from hops_new_small [of 3 4] obtain w where w: "hops_new 4 3 = Inr w" "nodes w = []" "max_id w = 8"
    "running_threads w = 0" by auto
  obtain r g where g: "rng_next (gen w) = (r, g)" by (cases "rng_next (gen w)")
  then have "gen_id 1 w = (Inr (r mod 8), w\<lparr>gen := g\<rparr>)"
    using w by (simp add: gen_id_def random_id_def omap_count_def)
  then obtain w' where s: "hops_setup 1 3 1 w = (w', None)"
    using w by (simp add: seq_act_def add_node_idle catch_std_def ok_act_def chord_node_def node_new_def)
  with w(1) hops_setup_correct [OF _ w(1) s] show ?thesis by simp
qed

text \<open>One message waiting at a node of a Chord ring, and the world it is in.\<close>

definition hops_example :: "hops_world" where
  "hops_example = fst (send_message can_send 0 2 (message_new 5)
     (hwm.extend four_ring (hop_hwm.fields (replicate 4 0) 0)))"

theorem chord_round_keeps_messages_witness:
  "net_inv (\<lambda>_. 0) (fst (worker_round (chord_handle complete_callback) (\<lambda>_. 0) 0 hops_example))"
proof -
  let ?w = "hwm.extend four_ring (hop_hwm.fields (replicate 4 0) 0) :: hops_world"
  have eq: "nodes ?w = nodes four_ring" "nodes_queue ?w = []" "cnts ?w = \<lparr>queued_messages = 0, all_messages = 0\<rparr>"
    by (simp_all add: hwm.defs four_ring_def ring_of_def hwm_new_def)
  have wf: "wf_nodes (nodes four_ring)" using four_ring_net by (simp add: chord_net_def chord_ring_def)
  have zero: "total_waiting (nodes four_ring) = 0"
    by (simp add: total_waiting_def four_ring_def ring_of_def chord_node_def node_new_def waiting_def)
  have "waiting_at ?w i = {#}" for i
    unfolding waiting_at_def eq by (simp add: four_ring_def ring_of_at chord_node_def node_new_def waiting_def)
  then have inv: "net_inv (\<lambda>_. 0) ?w" using wf zero by (simp add: net_inv_def eq)
  have link: "fail_thres ?w \<le> fst (rng_next (gen ?w))" "can_send v 0 2 = Inr True" for v :: hops_world
    by (simp_all add: hwm.defs four_ring_def ring_of_def hwm_new_def can_send_def)
  have here: "omap_at (nodes ?w) 0 \<noteq> None" "omap_at (nodes ?w) 2 \<noteq> None"
    unfolding eq by (simp_all add: four_ring_def ring_of_at)
  obtain nd where nd: "omap_at (nodes ?w) 2 = Some nd" using here(2) by auto
  have ex: "hops_example = push_token 2 (deliver 2 nd ((message_new 5)\<lparr>hops := 1\<rparr>) (?w\<lparr>gen := snd (rng_next (gen ?w))\<rparr>))"
    unfolding hops_example_def send_message_unfold using link here nd
    by (simp add: Let_def omap_count_at not_less message_new_def)
  have nq: "nodes_queue hops_example = [2]"
    by (simp add: ex push_token_def deliver_def eq split: prod.split)
  have "net_inv (\<lambda>_. 0) hops_example" unfolding hops_example_def by (rule send_message_inv [OF inv])
  moreover have "omap_count (nodes hops_example) 2"
    using nd nodes_map.update_at [of "nodes ?w" 2] wf eq
    by (simp add: ex push_token_def deliver_def omap_count_at wf_nodes_def split: prod.split)
  ultimately show ?thesis by (intro chord_round_keeps_messages) (simp_all add: nq)
qed

end
