(* ===== verification/Vec.thy ===== *)
theory Vec
  imports Sim_Prelude
begin

text \<open>
  \<open>include/common.hpp\<close>: the two helpers on vectors that are indexed by ids and grow on
  demand. Growing fills the new positions with default-constructed elements.
\<close>

definition vec_resize :: "'a \<Rightarrow> u64 \<Rightarrow> 'a list \<Rightarrow> 'a list" where
  "vec_resize dflt n xs = take (unat n) xs @ replicate (unat n - length xs) dflt"

definition satisfies :: "'a list \<Rightarrow> u64 \<Rightarrow> ('a \<Rightarrow> bool) \<Rightarrow> bool" where
  "satisfies vec pos f \<longleftrightarrow> length vec > unat pos \<and> f (vec ! unat pos)"

definition vec_set :: "'a \<Rightarrow> 'a list \<Rightarrow> u64 \<Rightarrow> 'a \<Rightarrow> 'a list res" where
  "vec_set dflt vec pos v =
     (let vec' = (if length vec \<le> unat pos then vec_resize dflt (pos + 1) vec else vec)
      in if unat pos < length vec' then Inr (vec'[unat pos := v]) else Inl (UB ''vector index''))"

lemma length_vec_resize [simp]: "length (vec_resize dflt n xs) = unat n"
  by (simp add: vec_resize_def)

lemma nth_vec_resize: "k < unat n \<Longrightarrow> vec_resize dflt n xs ! k = (if k < length xs then xs ! k else dflt)"
  by (simp add: vec_resize_def nth_append)

text \<open>The next id does not wrap, unless it is the largest.\<close>

lemma unat_succ: "pos \<noteq> - 1 \<Longrightarrow> unat (pos + 1 :: u64) = Suc (unat pos)"
proof -
  assume "pos \<noteq> - 1"
  then have "unat pos \<noteq> unat (- 1 :: u64)" using unsigned_word_eqI by blast
  moreover have "unat (- 1 :: u64) = 2 ^ 64 - 1" by (simp add: unsigned_minus_1_eq_mask mask_eq_exp_minus_1)
  ultimately have "unat pos + unat (1 :: u64) < 2 ^ 64" 
    using unat_u64_less_power [of pos] by (simp only: unat_1)
  then show ?thesis by (subst unat_add_no_wrap) simp_all
qed

lemma vec_set_ok:
  assumes "pos \<noteq> - 1"
  shows "\<exists>xs. vec_set dflt vec pos v = Inr xs \<and> length xs = max (length vec) (Suc (unat pos))
    \<and> (\<forall>k < length xs. xs ! k = (if k = unat pos then v else if k < length vec then vec ! k else dflt))"
proof (cases "length vec \<le> unat pos")
  case True
  let ?xs = "(vec_resize dflt (pos + 1) vec)[unat pos := v]"
  have "?xs ! k = (if k = unat pos then v else if k < length vec then vec ! k else dflt)" if "k < length ?xs" for k
    using that unat_succ [OF assms] by (simp add: nth_list_update nth_vec_resize)
  then show ?thesis using True unat_succ [OF assms]
    by (intro exI [of _ ?xs]) (simp add: vec_set_def Let_def max_def)
next
  case False
  then show ?thesis by (intro exI [of _ "vec[unat pos := v]"]) (simp add: vec_set_def max_def)
qed

text \<open>\<open>vec_set\<close> makes room for the position, keeps the other elements, and puts defaults in
  between; only the id \<open>-1\<close>, whose successor wraps to 0, makes it shrink the vector to
  nothing and write out of range.\<close>

theorem vec_set_correct:
  assumes "length vec < 2 ^ 64"
  shows "(pos \<noteq> - 1 \<longrightarrow> (\<exists>xs. vec_set dflt vec pos v = Inr xs \<and> length xs = max (length vec) (Suc (unat pos))
      \<and> (\<forall>k P. satisfies xs k P \<longleftrightarrow>
           (if k = pos then P v else if unat k < length vec then P (vec ! unat k) else unat k < length xs \<and> P dflt))))
    \<and> vec_set dflt vec (- 1) v = Inl (UB ''vector index'')"
proof (intro conjI impI)
  assume "pos \<noteq> - 1"
  from vec_set_ok [OF this, of dflt vec v] obtain xs where xs: "vec_set dflt vec pos v = Inr xs"
    "length xs = max (length vec) (Suc (unat pos))"
    "\<And>k. k < length xs \<Longrightarrow> xs ! k = (if k = unat pos then v else if k < length vec then vec ! k else dflt)" by blast
  have "satisfies xs k P \<longleftrightarrow>
      (if k = pos then P v else if unat k < length vec then P (vec ! unat k) else unat k < length xs \<and> P dflt)" for k P
  proof (cases "unat k < length xs")
    case True
    have "unat k = unat pos \<longleftrightarrow> k = pos" using unsigned_word_eqI [of k pos] by blast
    then show ?thesis using True xs(3) [OF True] by (auto simp: satisfies_def)
  next
    case False
    then show ?thesis using xs(2) by (auto simp: satisfies_def)
  qed
  then show "\<exists>xs. vec_set dflt vec pos v = Inr xs \<and> length xs = max (length vec) (Suc (unat pos))
      \<and> (\<forall>k P. satisfies xs k P \<longleftrightarrow>
           (if k = pos then P v else if unat k < length vec then P (vec ! unat k) else unat k < length xs \<and> P dflt))"
    using xs(1,2) by blast
next
  have "unat (- 1 :: u64) = 2 ^ 64 - 1" by (simp add: unsigned_minus_1_eq_mask mask_eq_exp_minus_1)
  then show "vec_set dflt vec (- 1) v = Inl (UB ''vector index'')"
    using assms by (simp add: vec_set_def)
qed

theorem vec_set_correct_witness:
  "\<exists>xs. vec_set 0 [7, 8] 4 (9 :: nat) = Inr xs \<and> length xs = 5 \<and> satisfies xs 3 (\<lambda>x. x = 0)"
proof -
  have "length [7, 8 :: nat] < 2 ^ 64" by simp
  from vec_set_correct [OF this, of 4 0 9] obtain xs where xs: "vec_set 0 [7, 8] 4 (9 :: nat) = Inr xs"
    "length xs = max (length [7, 8 :: nat]) (Suc (unat (4 :: u64)))"
    "\<And>k P. satisfies xs k P \<longleftrightarrow> (if k = 4 then P 9 else if unat k < length [7, 8 :: nat] then P ([7, 8] ! unat k)
        else unat k < length xs \<and> P 0)" by auto
  then have "satisfies xs 3 (\<lambda>x. x = 0)" by simp
  with xs(1,2) show ?thesis by auto
qed

end
