(* ===== verification/Tinycoin_Node.thy ===== *)
theory Tinycoin_Node
  imports Vec Node_Queue
begin

text \<open>
  The data of the simulated cryptocurrency and the blockchain that a node keeps
  (\<open>protocols/tinycoin.hpp\<close>, classes \<open>TinyTransaction\<close>, \<open>TinyBlock\<close> and \<open>TinyNode\<close>).

  Amounts are \<open>double\<close> in the code and exact real numbers here: rounding is not modelled. The
  vector of a block's transactions is behind a shared pointer, null in a default-constructed
  block; nobody writes to it after the block has been sent, so blocks share it as a value. The
  ids \<open>-1\<close> and \<open>-2\<close> mark a position without a block and a block whose parent is not there.
\<close>

section \<open>Transactions and blocks\<close>

record transaction =
  source_node :: node_id
  destination_node :: node_id
  amount :: real
  tx_id :: u64

record block =
  blk_id :: u64
  parent :: u64
  miner :: node_id
  transactions :: "transaction list option"

datatype tiny_data = Tx transaction | Blk block

definition no_id :: u64 where "no_id = - 1"
definition pending_id :: u64 where "pending_id = - 2"

text \<open>
  Default-constructed values; the fields that the constructors leave uninitialised are never
  read and are 0 here.
\<close>

definition tx_default :: transaction where
  "tx_default = \<lparr>source_node = 0, destination_node = 0, amount = 0, tx_id = no_id\<rparr>"

definition blk_default :: block where
  "blk_default = \<lparr>blk_id = no_id, parent = 0, miner = 0, transactions = None\<rparr>"

text \<open>The static members: the two counters behind \<open>next_id\<close>, and the parameters of the simulation.\<close>

record statics =
  next_tx :: u64
  next_blk :: u64
  tx_delay :: int
  delay_per_transaction :: int
  base_delay :: int
  block_reward :: real
  transaction_reward :: real
  transactions_per_block :: u64

definition tx_new :: "node_id \<Rightarrow> node_id \<Rightarrow> real \<Rightarrow> statics \<Rightarrow> transaction \<times> statics" where
  "tx_new src dst a st =
     (\<lparr>source_node = src, destination_node = dst, amount = a, tx_id = next_tx st\<rparr>, st\<lparr>next_tx := next_tx st + 1\<rparr>)"

definition blk_new :: "u64 \<Rightarrow> node_id \<Rightarrow> statics \<Rightarrow> block \<times> statics" where
  "blk_new par m st =
     (\<lparr>blk_id = next_blk st, parent = par, miner = m, transactions = Some []\<rparr>, st\<lparr>next_blk := next_blk st + 1\<rparr>)"

definition txs_of :: "block \<Rightarrow> transaction list res" where
  "txs_of blk = (case transactions blk of None \<Rightarrow> Inl (UB ''null pointer'') | Some ts \<Rightarrow> Inr ts)"

definition blk_delay :: "statics \<Rightarrow> block \<Rightarrow> int res" where
  "blk_delay c blk = bind_res (txs_of blk) (\<lambda>ts. Inr (int (length ts) * delay_per_transaction c + base_delay c))"

section \<open>The state of a node\<close>

record tiny =
  blockchain :: "block list"
  pending_blocks :: "block list list"
  received_transactions :: "transaction list"
  lengths :: "u64 list"
  head :: u64
  balance :: real

text \<open>The constructor: \<open>blockchain{1, {0, -1}}\<close> is one block, \<open>lengths{1, 0}\<close> is two numbers.\<close>

definition tiny_new :: "u64 \<Rightarrow> statics \<Rightarrow> tiny \<times> statics" where
  "tiny_new r c =
     (let (genesis, c') = blk_new 0 (- 1) c
      in (\<lparr>blockchain = [genesis], pending_blocks = [], received_transactions = [], lengths = [1, 0],
           head = 0, balance = real (unat (r mod 1024 + 16))\<rparr>, c'))"

definition set_data_tx :: "statics \<Rightarrow> transaction \<Rightarrow> tiny_data message \<Rightarrow> tiny_data message" where
  "set_data_tx c tx msg = set_delay (tx_delay c) (set_msg_data (Tx tx) msg)"

definition set_data_blk :: "statics \<Rightarrow> block \<Rightarrow> tiny_data message \<Rightarrow> tiny_data message res" where
  "set_data_blk c blk msg = bind_res (blk_delay c blk) (\<lambda>d. Inr (set_delay d (set_msg_data (Blk blk) msg)))"

definition block_value :: "statics \<Rightarrow> node_id \<Rightarrow> block \<Rightarrow> real res" where
  "block_value c i blk =
     bind_res (txs_of blk) (\<lambda>ts.
       let val = fold (\<lambda>tx val. if destination_node tx = i then val + amount tx else val) ts 0
       in Inr (if miner blk = i
               then val + (block_reward c + transaction_reward c * real (length ts)) else val))"

text \<open>The listeners of a plain node.\<close>

definition confirm :: "statics \<Rightarrow> node_id \<Rightarrow> block \<Rightarrow> ('z tiny_scheme, unit) eff" where
  "confirm c i blk = bind_eff (res_eff (block_value c i blk)) (\<lambda>v. mod_eff (\<lambda>st. st\<lparr>balance := balance st + v\<rparr>))"

definition unconfirm :: "statics \<Rightarrow> node_id \<Rightarrow> block \<Rightarrow> ('z tiny_scheme, unit) eff" where
  "unconfirm c i blk = bind_eff (res_eff (block_value c i blk)) (\<lambda>v. mod_eff (\<lambda>st. st\<lparr>balance := balance st - v\<rparr>))"

text \<open>
  \<open>update_head\<close>: the first loop climbs the new branch down to the height of the old head, the
  second both branches to where they meet. \<open>con\<close> and \<open>unc\<close> are the virtual methods.
\<close>

primrec climb_new ::
    "nat \<Rightarrow> (block \<Rightarrow> ('z tiny_scheme, unit) eff) \<Rightarrow> u64 \<Rightarrow> u64 \<Rightarrow> ('z tiny_scheme, u64) eff" where
  "climb_new 0 con old_head new_head = res_eff (Inl No_Return)"
| "climb_new (Suc fuel) con old_head new_head =
     bind_eff (get_eff lengths) (\<lambda>ls.
     bind_eff (get_eff blockchain) (\<lambda>bc.
     bind_eff (res_eff (vec_get ls (unat new_head))) (\<lambda>ln.
     bind_eff (res_eff (vec_get ls (unat old_head))) (\<lambda>lo.
       if ln > lo then
         bind_eff (res_eff (vec_get bc (unat new_head))) (\<lambda>b.
         bind_eff (con b) (\<lambda>_. climb_new fuel con old_head (parent b)))
       else ret_eff new_head))))"

primrec climb_both ::
    "nat \<Rightarrow> (block \<Rightarrow> ('z tiny_scheme, unit) eff) \<Rightarrow> (block \<Rightarrow> ('z tiny_scheme, unit) eff)
      \<Rightarrow> u64 \<Rightarrow> u64 \<Rightarrow> ('z tiny_scheme, unit) eff" where
  "climb_both 0 con unc old_head new_head = res_eff (Inl No_Return)"
| "climb_both (Suc fuel) con unc old_head new_head =
     (if new_head \<noteq> old_head then
        bind_eff (get_eff blockchain) (\<lambda>bc.
        bind_eff (res_eff (vec_get bc (unat new_head))) (\<lambda>bn.
        bind_eff (con bn) (\<lambda>_.
        bind_eff (res_eff (vec_get bc (unat old_head))) (\<lambda>bo.
        bind_eff (unc bo) (\<lambda>_. climb_both fuel con unc (parent bo) (parent bn))))))
      else ret_eff ())"

definition update_head ::
    "(block \<Rightarrow> ('z tiny_scheme, unit) eff) \<Rightarrow> (block \<Rightarrow> ('z tiny_scheme, unit) eff) \<Rightarrow> u64
      \<Rightarrow> ('z tiny_scheme, unit) eff" where
  "update_head con unc new_head =
     bind_eff (get_eff head) (\<lambda>old_head.
     bind_eff (mod_eff (\<lambda>st. st\<lparr>head := new_head\<rparr>)) (\<lambda>_.
     bind_eff (get_eff (\<lambda>st. Suc (length (blockchain st)))) (\<lambda>fuel.
     bind_eff (climb_new fuel con old_head new_head) (\<lambda>new'.
     climb_both fuel con unc old_head new'))))"

section \<open>Blocks and transactions that arrive\<close>

text \<open>A longer branch becomes the main one; the queues of waiting blocks reach up to the new id.\<close>

definition adopt_head ::
    "(block \<Rightarrow> ('z tiny_scheme, unit) eff) \<Rightarrow> (block \<Rightarrow> ('z tiny_scheme, unit) eff) \<Rightarrow> u64 \<Rightarrow> u64 \<Rightarrow> u64
      \<Rightarrow> ('z tiny_scheme, unit) eff" where
  "adopt_head con unc new len_new len_head =
     (if len_new > len_head then update_head con unc new else ret_eff ())"

definition room_for :: "block \<Rightarrow> block list list \<Rightarrow> block list list" where
  "room_for blk pb = (if length pb \<le> unat (blk_id blk) then vec_resize [] (blk_id blk + 1) pb else pb)"

text \<open>
  \<open>handle_block\<close> under its lock: whether to forward the block, and the blocks that have been
  waiting for it.
\<close>

definition accept_block ::
    "(block \<Rightarrow> ('z tiny_scheme, unit) eff) \<Rightarrow> (block \<Rightarrow> ('z tiny_scheme, unit) eff) \<Rightarrow> block
      \<Rightarrow> ('z tiny_scheme, bool \<times> block list) eff" where
  "accept_block con unc blk =
     bind_eff (get_eff (\<lambda>st. \<not> satisfies (blockchain st) (blk_id blk) (\<lambda>b. blk_id b \<noteq> no_id))) (\<lambda>should_forward.
     bind_eff (get_eff (\<lambda>st. satisfies (blockchain st) (blk_id blk) (\<lambda>b. blk_id b = blk_id blk))) (\<lambda>handled.
     if handled then ret_eff (should_forward, [])
     else
       bind_eff (get_eff (\<lambda>st. vec_set blk_default (blockchain st) (blk_id blk) blk)) (\<lambda>r.
       bind_eff (res_eff r) (\<lambda>bc.
       bind_eff (mod_eff (\<lambda>st. st\<lparr>blockchain := bc,
                   pending_blocks := room_for blk (pending_blocks st)\<rparr>)) (\<lambda>_.
       if satisfies bc (parent blk) (\<lambda>b. blk_id b = no_id \<or> blk_id b = pending_id) then
         bind_eff (get_eff pending_blocks) (\<lambda>pb.
         bind_eff (res_eff (vec_get pb (unat (parent blk)))) (\<lambda>waiting_blocks.
         bind_eff (mod_eff (\<lambda>st. st\<lparr>blockchain := bc[unat (blk_id blk) := blk\<lparr>blk_id := pending_id\<rparr>],
                     pending_blocks := pb[unat (parent blk) := waiting_blocks @ [blk]]\<rparr>)) (\<lambda>_.
         ret_eff (should_forward, []))))
       else
         bind_eff (get_eff lengths) (\<lambda>ls.
         bind_eff (res_eff (vec_get ls (unat (parent blk)))) (\<lambda>lp.
         bind_eff (res_eff (vec_set 0 ls (blk_id blk) (lp + 1))) (\<lambda>ls'.
         bind_eff (mod_eff (\<lambda>st. st\<lparr>lengths := ls'\<rparr>)) (\<lambda>_.
         bind_eff (get_eff head) (\<lambda>h.
         bind_eff (res_eff (vec_get ls' (unat h))) (\<lambda>lh.
         bind_eff (adopt_head con unc (blk_id blk) (lp + 1) lh) (\<lambda>_.
         bind_eff (get_eff (\<lambda>st. pending_blocks st ! unat (blk_id blk))) (\<lambda>fwd.
         bind_eff (mod_eff (\<lambda>st. st\<lparr>pending_blocks := (pending_blocks st)[unat (blk_id blk) := []]\<rparr>)) (\<lambda>_.
         ret_eff (should_forward, fwd)))))))))))))))"

text \<open>
  All of \<open>handle_block\<close>, on any state that holds the node's: \<open>accept\<close> is the part under the
  lock, \<open>after\<close> what a subclass adds after a block that was new; the recursion goes through
  the virtual method.
\<close>

primrec handle_block ::
    "nat \<Rightarrow> (block \<Rightarrow> ('w, bool \<times> block list) eff) \<Rightarrow> (block \<Rightarrow> ('w, unit) eff) \<Rightarrow> block \<Rightarrow> ('w, bool) eff" where
  "handle_block 0 accept after blk = res_eff (Inl No_Return)"
| "handle_block (Suc fuel) accept after blk =
     bind_eff (accept blk) (\<lambda>(should_forward, fwd).
     bind_eff (each_eff (handle_block fuel accept after) fwd) (\<lambda>_.
     bind_eff (if should_forward then after blk else ret_eff ()) (\<lambda>_. ret_eff should_forward)))"

text \<open>A plain node adds nothing.\<close>

definition no_after :: "block \<Rightarrow> ('w, unit) eff" where "no_after blk = ret_eff ()"

definition handle_transaction :: "transaction \<Rightarrow> ('z tiny_scheme, bool) eff" where
  "handle_transaction tx =
     bind_eff (get_eff (\<lambda>st. satisfies (received_transactions st) (tx_id tx) (\<lambda>t. tx_id t \<noteq> no_id))) (\<lambda>known.
     if known then ret_eff False
     else bind_eff (get_eff (\<lambda>st. vec_set tx_default (received_transactions st) (tx_id tx) tx)) (\<lambda>r.
          bind_eff (res_eff r) (\<lambda>ts.
          bind_eff (mod_eff (\<lambda>st. st\<lparr>received_transactions := ts\<rparr>)) (\<lambda>_. ret_eff True))))"

end
