(* ===== verification/Tinycoin_Chain.thy ===== *)
theory Tinycoin_Chain
  imports Tinycoin_Node
begin

text \<open>
  What the blockchain of a node is: the invariant of the vectors \<open>blockchain\<close>, \<open>lengths\<close> and
  \<open>pending_blocks\<close>, and the facts that \<open>update_head\<close>, \<open>handle_block\<close> keep it, keep the head on
  a longest chain and the balance equal to what the main chain pays. The virtual methods
  \<open>confirm\<close> and \<open>unconfirm\<close> enter through the contract \<open>block_listener\<close>.
\<close>

section \<open>The tree of blocks\<close>

definition seen :: "block list \<Rightarrow> nat \<Rightarrow> bool" where
  "seen bc k \<longleftrightarrow> k < length bc \<and> blk_id (bc ! k) \<noteq> no_id"

definition known :: "block list \<Rightarrow> nat \<Rightarrow> bool" where
  "known bc k \<longleftrightarrow> k < length bc \<and> blk_id (bc ! k) \<noteq> no_id \<and> blk_id (bc ! k) \<noteq> pending_id"

text \<open>The positions from a block down to the genesis block at position 0, which is left out.\<close>

function chain :: "block list \<Rightarrow> nat \<Rightarrow> nat list" where
  "chain bc k =
     (if k = 0 then []
      else k # (if unat (parent (bc ! k)) < k then chain bc (unat (parent (bc ! k))) else []))"
  by pat_completeness auto
termination
  by (relation "measure snd") auto

declare chain.simps [simp del]

lemma chain_0 [simp]: "chain bc 0 = []"
  by (simp add: chain.simps)

definition chain_value :: "(block \<Rightarrow> real) \<Rightarrow> block list \<Rightarrow> nat \<Rightarrow> real" where
  "chain_value v bc k = sum_list (map (\<lambda>j. v (bc ! j)) (chain bc k))"

text \<open>
  A block in the tree sits at the position of its id, has its parent in the tree, below it,
  and is one longer.
\<close>

definition tree_ok :: "block list \<Rightarrow> u64 list \<Rightarrow> bool" where
  "tree_ok bc ls \<longleftrightarrow> known bc 0 \<and> ls \<noteq> [] \<and> ls ! 0 = 1 \<and> length bc < 2 ^ 64 \<and>
     (\<forall>k. known bc k \<longrightarrow> 0 < k \<longrightarrow>
        unat (blk_id (bc ! k)) = k \<and> unat (parent (bc ! k)) < k \<and> known bc (unat (parent (bc ! k)))
        \<and> transactions (bc ! k) \<noteq> None \<and> k < length ls
        \<and> unat (ls ! k) = Suc (unat (ls ! unat (parent (bc ! k)))))"

lemma tree_okD:
  assumes "tree_ok bc ls" "known bc k" "0 < k"
  shows "unat (blk_id (bc ! k)) = k" "unat (parent (bc ! k)) < k" "known bc (unat (parent (bc ! k)))"
    "transactions (bc ! k) \<noteq> None" "k < length ls"
    "unat (ls ! k) = Suc (unat (ls ! unat (parent (bc ! k))))"
  using assms by (auto simp: tree_ok_def)

lemma tree_ok_length: "tree_ok bc ls \<Longrightarrow> known bc k \<Longrightarrow> k < length ls"
  by (cases "k = 0") (auto simp: tree_ok_def)

lemma known_less: "known bc k \<Longrightarrow> k < length bc"
  by (simp add: known_def)

lemma tree_ok_height:
  assumes "tree_ok bc ls"
  shows "known bc k \<Longrightarrow> unat (ls ! k) = Suc (length (chain bc k))"
proof (induction k rule: less_induct)
  case (less k)
  show ?case
  proof (cases "k = 0")
    case True
    then show ?thesis using assms by (simp add: tree_ok_def)
  next
    case False
    note k = tree_okD [OF assms less.prems]
    then show ?thesis using False less.IH by (simp add: chain.simps [of bc k])
  qed
qed

lemma tree_ok_root:
  assumes "tree_ok bc ls" "known bc k" "unat (ls ! k) = 1"
  shows "k = 0"
  using tree_ok_height [OF assms(1,2)] assms(3) by (cases "k = 0") (simp_all add: chain.simps [of bc k])

lemma chain_value_step:
  assumes "tree_ok bc ls" "known bc k" "0 < k"
  shows "chain_value v bc k = v (bc ! k) + chain_value v bc (unat (parent (bc ! k)))"
  using tree_okD(2) [OF assms] assms(3) by (simp add: chain_value_def chain.simps [of bc k])

lemma chain_mem:
  assumes "tree_ok bc ls"
  shows "known bc k \<Longrightarrow> j \<in> set (chain bc k) \<Longrightarrow> known bc j \<and> 0 < j \<and> j \<le> k"
proof (induction k rule: less_induct)
  case (less k)
  show ?case
  proof (cases "k = 0")
    case False
    note k = tree_okD [OF assms less.prems(1)]
    show ?thesis
    proof (cases "j = k")
      case False
      then have "j \<in> set (chain bc (unat (parent (bc ! k))))"
        using less.prems(2) k(2) \<open>k \<noteq> 0\<close> by (simp add: chain.simps [of bc k])
      with less.IH [OF _ _ this] k(2,3) \<open>k \<noteq> 0\<close> show ?thesis by auto
    qed (use less.prems \<open>k \<noteq> 0\<close> in simp)
  qed (use less.prems in simp)
qed

text \<open>The chain of a block does not depend on what is not in the tree.\<close>

lemma chain_cong:
  assumes "tree_ok bc ls" "\<And>j. known bc j \<Longrightarrow> bc' ! j = bc ! j"
  shows "known bc k \<Longrightarrow> chain bc' k = chain bc k"
proof (induction k rule: less_induct)
  case (less k)
  show ?case
  proof (cases "k = 0")
    case False
    note k = tree_okD [OF assms(1) less.prems]
    then show ?thesis using less.IH [OF k(2,3)] assms(2) [OF less.prems] False
      by (simp add: chain.simps [of bc k] chain.simps [of bc' k])
  qed simp
qed

lemma chain_value_cong:
  assumes "tree_ok bc ls" "\<And>j. known bc j \<Longrightarrow> bc' ! j = bc ! j" "known bc k"
  shows "chain_value v bc' k = chain_value v bc k"
proof -
  have "map (\<lambda>j. v (bc' ! j)) (chain bc k) = map (\<lambda>j. v (bc ! j)) (chain bc k)"
    using chain_mem [OF assms(1,3)] assms(2) by (intro map_cong) auto
  moreover have "chain bc' k = chain bc k" by (rule chain_cong [OF assms(1)]) (use assms(2,3) in simp_all)
  ultimately show ?thesis by (simp only: chain_value_def)
qed

section \<open>The contract of the listeners\<close>

text \<open>The fields that \<open>confirm\<close> and \<open>unconfirm\<close> leave alone.\<close>

definition same_blocks :: "'z tiny_scheme \<Rightarrow> 'z tiny_scheme \<Rightarrow> bool" where
  "same_blocks st st' \<longleftrightarrow> blockchain st' = blockchain st \<and> pending_blocks st' = pending_blocks st
     \<and> received_transactions st' = received_transactions st \<and> lengths st' = lengths st \<and> head st' = head st"

lemma same_blocks_refl [simp]: "same_blocks st st"
  by (simp add: same_blocks_def)

lemma same_blocks_trans: "same_blocks s t \<Longrightarrow> same_blocks t u \<Longrightarrow> same_blocks s u"
  by (simp add: same_blocks_def)

locale block_listener =
  fixes con unc :: "block \<Rightarrow> ('z tiny_scheme, unit) eff"
    and v :: "block \<Rightarrow> real"
  assumes con_ok: "transactions b \<noteq> None \<Longrightarrow>
      \<exists>st'. con b st = (st', Inr ()) \<and> same_blocks st st' \<and> balance st' = balance st + v b"
    and unc_ok: "transactions b \<noteq> None \<Longrightarrow>
      \<exists>st'. unc b st = (st', Inr ()) \<and> same_blocks st st' \<and> balance st' = balance st - v b"
begin

lemma climb_new_spec:
  assumes "tree_ok (blockchain st) (lengths st)" "known (blockchain st) (unat new)" "known (blockchain st) (unat old)"
    and "unat new < fuel" "lengths st ! unat new \<ge> lengths st ! unat old"
  shows "\<exists>st' new'. climb_new fuel con old new st = (st', Inr new') \<and> same_blocks st st'
    \<and> known (blockchain st) (unat new') \<and> unat new' \<le> unat new
    \<and> lengths st ! unat new' = lengths st ! unat old
    \<and> balance st' = balance st + chain_value v (blockchain st) (unat new) - chain_value v (blockchain st) (unat new')"
  using assms
proof (induction fuel arbitrary: st new)
  case (Suc fuel)
  let ?bc = "blockchain st" and ?ls = "lengths st"
  note tree = Suc.prems(1)
  have ln: "unat new < length ?ls" "unat old < length ?ls"
    using tree_ok_length [OF tree] Suc.prems(2,3) by auto
  show ?case
  proof (cases "?ls ! unat new > ?ls ! unat old")
    case False
    then have "?ls ! unat new = ?ls ! unat old" using Suc.prems(5) by simp
    then show ?thesis using ln Suc.prems(2) by simp
  next
    case True
    have "0 < unat new"
    proof (rule ccontr)
      assume "\<not> 0 < unat new"
      then have "unat (?ls ! unat new) = 1" using tree by (simp add: tree_ok_def)
      then show False using True tree_ok_height [OF tree Suc.prems(3)] by (simp add: word_less_nat_alt)
    qed
    note b = tree_okD [OF tree Suc.prems(2) this]
    let ?b = "?bc ! unat new"
    obtain s where s: "con ?b st = (s, Inr ())" "same_blocks st s" "balance s = balance st + v ?b"
      using con_ok [OF b(4)] by blast
    have par: "?ls ! unat (parent ?b) \<ge> ?ls ! unat old"
      using True b(6) by (simp add: word_less_nat_alt word_le_nat_alt)
    have same: "blockchain s = ?bc" "lengths s = ?ls" using s(2) by (simp_all add: same_blocks_def)
    have lt: "unat (parent ?b) < fuel" using b(2) Suc.prems(4) by simp
    from Suc.IH [of s "parent ?b"] obtain st' new' where
      r: "climb_new fuel con old (parent ?b) s = (st', Inr new')" "same_blocks s st'"
        "known ?bc (unat new')" "unat new' \<le> unat (parent ?b)" "?ls ! unat new' = ?ls ! unat old"
        "balance st' = balance s + chain_value v ?bc (unat (parent ?b)) - chain_value v ?bc (unat new')"
      using tree b(3) Suc.prems(3) lt par by (auto simp: same)
    have "climb_new (Suc fuel) con old new st = (st', Inr new')"
      using ln True known_less [OF Suc.prems(2)] s(1) r(1) by (simp add: bind_eff_def [of "con (blockchain st ! unat new)"])
    then show ?thesis
      using r s same_blocks_trans [OF s(2) r(2)] b(2) chain_value_step [OF tree Suc.prems(2) \<open>0 < unat new\<close>, of v]
      by (intro exI [of _ st'] exI [of _ new']) simp
  qed
qed simp

lemma climb_both_spec:
  assumes "tree_ok (blockchain st) (lengths st)" "known (blockchain st) (unat new)" "known (blockchain st) (unat old)"
    and "unat new < fuel" "lengths st ! unat new = lengths st ! unat old"
  shows "\<exists>st'. climb_both fuel con unc old new st = (st', Inr ()) \<and> same_blocks st st'
    \<and> balance st' = balance st + chain_value v (blockchain st) (unat new) - chain_value v (blockchain st) (unat old)"
  using assms
proof (induction fuel arbitrary: st new old)
  case (Suc fuel)
  let ?bc = "blockchain st" and ?ls = "lengths st"
  note tree = Suc.prems(1)
  show ?case
  proof (cases "new = old")
    case False
    have pos: "0 < unat new" "0 < unat old"
    proof -
      have "unat (?ls ! 0) = 1" using tree by (simp add: tree_ok_def)
      then have "unat new = 0 \<longleftrightarrow> unat old = 0"
        using tree_ok_root [OF tree Suc.prems(2)] tree_ok_root [OF tree Suc.prems(3)] Suc.prems(5) by auto
      moreover have "unat new \<noteq> unat old" using False unsigned_word_eqI by blast
      ultimately show "0 < unat new" "0 < unat old" by auto
    qed
    note bn = tree_okD [OF tree Suc.prems(2) pos(1)] and bo = tree_okD [OF tree Suc.prems(3) pos(2)]
    let ?bn = "?bc ! unat new" and ?bo = "?bc ! unat old"
    obtain s where s: "con ?bn st = (s, Inr ())" "same_blocks st s" "balance s = balance st + v ?bn"
      using con_ok [OF bn(4)] by blast
    obtain t where t: "unc ?bo s = (t, Inr ())" "same_blocks s t" "balance t = balance s - v ?bo"
      using unc_ok [OF bo(4)] by blast
    have st: "same_blocks st t" using s(2) t(2) by (rule same_blocks_trans)
    then have same: "blockchain t = ?bc" "lengths t = ?ls" by (simp_all add: same_blocks_def)
    have eq: "?ls ! unat (parent ?bn) = ?ls ! unat (parent ?bo)"
    proof (rule unsigned_word_eqI)
      show "unat (?ls ! unat (parent ?bn)) = unat (?ls ! unat (parent ?bo))"
        using bn(6) bo(6) Suc.prems(5) by simp
    qed
    have lt: "unat (parent ?bn) < fuel" using bn(2) Suc.prems(4) by simp
    from Suc.IH [of t "parent ?bn" "parent ?bo"] obtain st' where
      r: "climb_both fuel con unc (parent ?bo) (parent ?bn) t = (st', Inr ())" "same_blocks t st'"
        "balance st' = balance t + chain_value v ?bc (unat (parent ?bn)) - chain_value v ?bc (unat (parent ?bo))"
      using tree bn(3) bo(3) lt eq by (auto simp: same)
    have "climb_both (Suc fuel) con unc old new st = (st', Inr ())"
      using False known_less [OF Suc.prems(2)] known_less [OF Suc.prems(3)] r(1)
        s(1) t(1) by (simp add: bind_eff_def [of "con (blockchain st ! unat new)"]
          bind_eff_def [of "unc (blockchain st ! unat old)"])
    then show ?thesis
      using r s t same_blocks_trans [OF st r(2)]
        chain_value_step [OF tree Suc.prems(2) pos(1), of v] chain_value_step [OF tree Suc.prems(3) pos(2), of v]
      by simp
  qed simp
qed simp

lemma update_head_spec:
  assumes "tree_ok (blockchain st) (lengths st)" "known (blockchain st) (unat new)"
    and "known (blockchain st) (unat (head st))" "lengths st ! unat new \<ge> lengths st ! unat (head st)"
  shows "\<exists>st'. update_head con unc new st = (st', Inr ()) \<and> same_blocks (st\<lparr>head := new\<rparr>) st'
    \<and> balance st' = balance st + chain_value v (blockchain st) (unat new)
                               - chain_value v (blockchain st) (unat (head st))"
proof -
  let ?s = "st\<lparr>head := new\<rparr>" and ?bc = "blockchain st"
  have fuel: "unat new < Suc (length ?bc)" using known_less [OF assms(2)] by simp
  from climb_new_spec [of ?s new "head st" "Suc (length ?bc)"] obtain t new' where
    t: "climb_new (Suc (length ?bc)) con (head st) new ?s = (t, Inr new')" "same_blocks ?s t"
      "known ?bc (unat new')" "unat new' \<le> unat new" "lengths st ! unat new' = lengths st ! unat (head st)"
      "balance t = balance st + chain_value v ?bc (unat new) - chain_value v ?bc (unat new')"
    using assms fuel by auto
  have same: "blockchain t = ?bc" "lengths t = lengths st" using t(2) by (simp_all add: same_blocks_def)
  from climb_both_spec [of t new' "head st" "Suc (length ?bc)"] obtain u where
    u: "climb_both (Suc (length ?bc)) con unc (head st) new' t = (u, Inr ())" "same_blocks t u"
      "balance u = balance t + chain_value v ?bc (unat new') - chain_value v ?bc (unat (head st))"
    using assms t fuel by (auto simp: same)
  have "update_head con unc new st = (u, Inr ())"
    using u(1) t(1) by (simp del: climb_new.simps climb_both.simps add: update_head_def
        bind_eff_def [of "climb_new (Suc (length (blockchain st))) con (head st) new"])
  then show ?thesis using u(3) t(6) same_blocks_trans [OF t(2) u(2)] by simp
qed

end

section \<open>The invariant of a node\<close>

text \<open>A block as miners make them: a real id, a parent that is older, a vector of transactions.\<close>

definition blk_ok :: "block \<Rightarrow> bool" where
  "blk_ok b \<longleftrightarrow> blk_id b \<noteq> no_id \<and> blk_id b \<noteq> pending_id \<and> parent b < blk_id b \<and> transactions b \<noteq> None"

abbreviation uid :: "block \<Rightarrow> nat" where "uid b \<equiv> unat (blk_id b)"

text \<open>
  The head is in the tree and nothing in the tree is longer; blocks wait under a parent that is
  not in the tree; and every block marked as pending does wait, or its position is in \<open>R\<close>, the
  blocks that \<open>handle_block\<close> is about to handle.
\<close>

definition tiny_inv :: "nat set \<Rightarrow> 'z tiny_scheme \<Rightarrow> bool" where
  "tiny_inv R st \<longleftrightarrow> tree_ok (blockchain st) (lengths st)
     \<and> known (blockchain st) (unat (head st))
     \<and> (\<forall>k. known (blockchain st) k \<longrightarrow> lengths st ! k \<le> lengths st ! unat (head st))
     \<and> (\<forall>p < length (pending_blocks st). \<forall>c \<in> set (pending_blocks st ! p).
          blk_ok c \<and> unat (parent c) = p \<and> seen (blockchain st) (uid c) \<and> \<not> known (blockchain st) p)
     \<and> (\<forall>k < length (blockchain st). blk_id (blockchain st ! k) = pending_id \<longrightarrow>
          k \<in> R \<or> (\<exists>p < length (pending_blocks st). \<exists>c \<in> set (pending_blocks st ! p). uid c = k))"

lemma tiny_invD:
  assumes "tiny_inv R st"
  shows "tree_ok (blockchain st) (lengths st)" "known (blockchain st) (unat (head st))"
    "known (blockchain st) k \<Longrightarrow> lengths st ! k \<le> lengths st ! unat (head st)"
    "p < length (pending_blocks st) \<Longrightarrow> c \<in> set (pending_blocks st ! p) \<Longrightarrow>
       blk_ok c \<and> unat (parent c) = p \<and> seen (blockchain st) (uid c) \<and> \<not> known (blockchain st) p"
    "k < length (blockchain st) \<Longrightarrow> blk_id (blockchain st ! k) = pending_id \<Longrightarrow>
       k \<in> R \<or> (\<exists>p < length (pending_blocks st). \<exists>c \<in> set (pending_blocks st ! p). uid c = k)"
  using assms unfolding tiny_inv_def by blast+

lemma tiny_inv_mono: "tiny_inv R st \<Longrightarrow> R \<subseteq> S \<Longrightarrow> tiny_inv S st"
  unfolding tiny_inv_def by blast

lemma chain_length: "length (chain bc k) \<le> k"
proof (induction k rule: less_induct)
  case (less k)
  show ?case
  proof (cases "unat (parent (bc ! k)) < k")
    case True
    then show ?thesis using less.IH [OF True] by (simp add: chain.simps [of bc k])
  next
    case False
    then show ?thesis by (simp add: chain.simps [of bc k])
  qed
qed

lemma blk_okD:
  assumes "blk_ok b"
  shows "0 < uid b" "unat (parent b) < uid b" "blk_id b \<noteq> - 1" "blk_id b \<noteq> no_id" "blk_id b \<noteq> pending_id"
    "transactions b \<noteq> None" "Suc (uid b) < 2 ^ 64"
proof -
  show p: "unat (parent b) < uid b" using assms by (simp add: blk_ok_def word_less_nat_alt)
  then show "0 < uid b" by simp
  show i: "blk_id b \<noteq> - 1" "blk_id b \<noteq> no_id" "blk_id b \<noteq> pending_id" "transactions b \<noteq> None"
    using assms by (simp_all add: blk_ok_def no_id_def)
  show "Suc (uid b) < 2 ^ 64" using unat_succ [OF i(1)] unat_u64_less_power [of "blk_id b + 1"] by simp
qed

section \<open>One block under the lock\<close>

text \<open>The vector of blocks after the new one is written into it.\<close>

lemma new_blocks:
  assumes "blk_ok blk" "\<not> known bc (uid blk)"
  shows "\<exists>bc'. vec_set blk_default bc (blk_id blk) blk = Inr bc' \<and> length bc' = max (length bc) (Suc (uid blk))
    \<and> (\<forall>j. j \<noteq> uid blk \<longrightarrow> known bc' j = known bc j \<and> seen bc' j = seen bc j)
    \<and> (\<forall>j < length bc. j \<noteq> uid blk \<longrightarrow> bc' ! j = bc ! j) \<and> bc' ! uid blk = blk
    \<and> known bc' (uid blk) \<and> seen bc' (uid blk)
    \<and> (\<forall>j < length bc'. j \<noteq> uid blk \<longrightarrow> length bc \<le> j \<longrightarrow> blk_id (bc' ! j) = no_id)"
proof -
  note b = blk_okD [OF assms(1)]
  obtain xs where xs: "vec_set blk_default bc (blk_id blk) blk = Inr xs" "length xs = max (length bc) (Suc (uid blk))"
    "\<And>k. k < length xs \<Longrightarrow> xs ! k = (if k = uid blk then blk else if k < length bc then bc ! k else blk_default)"
    using vec_set_ok [OF b(3), of blk_default bc blk] by blast
  have d: "blk_id blk_default = no_id" by (simp add: blk_default_def)
  have "known xs j = known bc j \<and> seen xs j = seen bc j" if "j \<noteq> uid blk" for j
  proof (cases "j < length xs")
    case True
    then show ?thesis using xs(3) [OF True] xs(2) that d by (auto simp: known_def seen_def)
  next
    case False
    then show ?thesis using xs(2) by (auto simp: known_def seen_def)
  qed
  moreover have "xs ! j = bc ! j" if "j < length bc" "j \<noteq> uid blk" for j using that xs(2,3) by simp
  moreover have at: "xs ! uid blk = blk" "uid blk < length xs" using xs(2,3) by simp_all
  moreover have "known xs (uid blk)" "seen xs (uid blk)" using at b(4,5) by (simp_all add: known_def seen_def)
  moreover have "blk_id (xs ! j) = no_id" if "j < length xs" "j \<noteq> uid blk" "length bc \<le> j" for j
    using that xs(3) d by simp
  ultimately show ?thesis using xs(1,2) by blast
qed

lemma accept_handled:
  assumes "satisfies (blockchain st) (blk_id blk) (\<lambda>b. blk_id b = blk_id blk)" "blk_id blk \<noteq> no_id"
  shows "accept_block con unc blk st = (st, Inr (False, []))"
  using assms by (auto simp: accept_block_def satisfies_def)

lemma accept_waits:
  assumes "\<not> satisfies (blockchain st) (blk_id blk) (\<lambda>b. blk_id b = blk_id blk)"
    and "vec_set blk_default (blockchain st) (blk_id blk) blk = Inr bc"
    and "satisfies bc (parent blk) (\<lambda>b. blk_id b = no_id \<or> blk_id b = pending_id)"
    and "pb = room_for blk (pending_blocks st)"
    and "unat (parent blk) < length pb"
  shows "accept_block con unc blk st =
    (st\<lparr>blockchain := bc[uid blk := blk\<lparr>blk_id := pending_id\<rparr>],
        pending_blocks := pb[unat (parent blk) := pb ! unat (parent blk) @ [blk]]\<rparr>,
     Inr (\<not> satisfies (blockchain st) (blk_id blk) (\<lambda>b. blk_id b \<noteq> no_id), []))"
  using assms by (simp add: accept_block_def)

lemma accept_attaches:
  fixes st :: "'a tiny_scheme"
  assumes "\<not> satisfies (blockchain st) (blk_id blk) (\<lambda>b. blk_id b = blk_id blk)"
    and "vec_set blk_default (blockchain st) (blk_id blk) blk = Inr bc"
    and "\<not> satisfies bc (parent blk) (\<lambda>b. blk_id b = no_id \<or> blk_id b = pending_id)"
    and "pb = room_for blk (pending_blocks st)"
    and "unat (parent blk) < length (lengths st)"
    and "vec_set 0 (lengths st) (blk_id blk) (lengths st ! unat (parent blk) + 1) = Inr ls"
    and "unat (head st) < length ls"
    and "adopt_head con unc (blk_id blk) (lengths st ! unat (parent blk) + 1) (ls ! unat (head st))
           (st\<lparr>blockchain := bc, pending_blocks := pb, lengths := ls\<rparr>) = (st2, Inr ())"
  shows "accept_block con unc blk st =
    (st2\<lparr>pending_blocks := (pending_blocks st2)[uid blk := []]\<rparr>,
     Inr (\<not> satisfies (blockchain st) (blk_id blk) (\<lambda>b. blk_id b \<noteq> no_id), pending_blocks st2 ! uid blk))"
proof -
  have upd: "bind_eff (adopt_head con unc (blk_id blk) (lengths st ! unat (parent blk) + 1) (ls ! unat (head st))) f
      (st\<lparr>blockchain := bc, pending_blocks := pb, lengths := ls\<rparr>) = f () st2"
    for f :: "unit \<Rightarrow> ('a tiny_scheme, bool \<times> block list) eff"
    by (rule bind_eff_Inr) (rule assms(8))
  have "(st\<lparr>blockchain := bc, pending_blocks := pb\<rparr>)\<lparr>lengths := ls\<rparr>
      = st\<lparr>blockchain := bc, pending_blocks := pb, lengths := ls\<rparr>" by simp
  then show ?thesis
    using assms(1-7) upd by (simp add: accept_block_def)
qed

lemma room_for_spec:
  assumes "blk_ok blk"
  shows "length (room_for blk pb) = max (length pb) (Suc (uid blk))"
    "k < length (room_for blk pb) \<Longrightarrow> room_for blk pb ! k = (if k < length pb then pb ! k else [])"
  using unat_succ [OF blk_okD(3) [OF assms]]
  by (auto simp: room_for_def nth_vec_resize max_def)

lemma tree_grows:
  assumes tree: "tree_ok bc ls" and b: "blk_ok blk" and new: "\<not> known bc (uid blk)"
    and par: "known bc (unat (parent blk))"
    and bc': "length bc' = max (length bc) (Suc (uid blk))" "\<forall>j. j \<noteq> uid blk \<longrightarrow> known bc' j = known bc j"
      "\<forall>j < length bc. j \<noteq> uid blk \<longrightarrow> bc' ! j = bc ! j" "bc' ! uid blk = blk" "known bc' (uid blk)"
  shows "\<exists>ls'. vec_set 0 ls (blk_id blk) (ls ! unat (parent blk) + 1) = Inr ls' \<and> tree_ok bc' ls'
    \<and> (\<forall>j. known bc j \<longrightarrow> ls' ! j = ls ! j) \<and> ls' ! uid blk = ls ! unat (parent blk) + 1
    \<and> uid blk < length ls'"
proof -
  note bd = blk_okD [OF b]
  let ?p = "unat (parent blk)"
  obtain xs where xs: "vec_set 0 ls (blk_id blk) (ls ! ?p + 1) = Inr xs" "length xs = max (length ls) (Suc (uid blk))"
    "\<And>k. k < length xs \<Longrightarrow> xs ! k = (if k = uid blk then ls ! ?p + 1 else if k < length ls then ls ! k else 0)"
    using vec_set_ok [OF bd(3), of 0 ls "ls ! ?p + 1"] by blast
  have old: "xs ! j = ls ! j" if "known bc j" for j
  proof -
    have "j \<noteq> uid blk" "j < length ls" using that new tree_ok_length [OF tree that] by auto
    then show ?thesis using xs(2,3) by simp
  qed
  have at: "xs ! uid blk = ls ! ?p + 1" "uid blk < length xs" using xs(2,3) by simp_all
  have "unat (ls ! ?p) \<le> Suc ?p" using tree_ok_height [OF tree par] chain_length [of bc ?p] by simp
  also have "\<dots> < 2 ^ 64 - 1" using bd(2,7) by simp
  finally have "ls ! ?p \<noteq> - 1" using unat_succ [of "ls ! ?p"]
    by (auto simp: unsigned_minus_1_eq_mask mask_eq_exp_minus_1)
  then have suc: "unat (ls ! ?p + 1) = Suc (unat (ls ! ?p))" by (rule unat_succ)
  have len: "length bc' < 2 ^ 64" using tree bc'(1) bd(7) by (simp add: tree_ok_def)
  have "unat (blk_id (bc' ! k)) = k \<and> unat (parent (bc' ! k)) < k \<and> known bc' (unat (parent (bc' ! k)))
        \<and> transactions (bc' ! k) \<noteq> None \<and> k < length xs
        \<and> unat (xs ! k) = Suc (unat (xs ! unat (parent (bc' ! k))))" if k: "known bc' k" "0 < k" for k
  proof (cases "k = uid blk")
    case True
    have "?p \<noteq> uid blk" using bd(2) by simp
    then have "known bc' ?p" using bc'(2) par by blast
    then show ?thesis using True bd bc'(4) at suc old [OF par] by simp
  next
    case False
    then have kn: "known bc k" using bc'(2) k(1) by blast
    note t = tree_okD [OF tree kn k(2)]
    have "bc' ! k = bc ! k" using bc'(3) False known_less [OF kn] by blast
    moreover have "unat (parent (bc ! k)) \<noteq> uid blk" using new t(3) by auto
    then have "known bc' (unat (parent (bc ! k)))" using bc'(2) t(3) by blast
    moreover have "k < length xs" using t(5) xs(2) by simp
    ultimately show ?thesis using t old [OF kn] old [OF t(3)] by simp
  qed
  moreover have "known bc' 0" using tree bc'(2) bd(1) by (simp add: tree_ok_def)
  moreover have "xs \<noteq> []" using at(2) by auto
  moreover have "xs ! 0 = 1" using tree old [of 0] by (simp add: tree_ok_def)
  ultimately have "tree_ok bc' xs" using len unfolding tree_ok_def by blast
  then show ?thesis using xs(1) old at by blast
qed

text \<open>What handling a block does to a node, apart from its invariant.\<close>

definition paid :: "(block \<Rightarrow> real) \<Rightarrow> 'z tiny_scheme \<Rightarrow> real" where
  "paid v st = balance st - chain_value v (blockchain st) (unat (head st))"

text \<open>The head stays, or moves to a strictly longer chain.\<close>

definition height :: "'z tiny_scheme \<Rightarrow> nat" where
  "height st = length (chain (blockchain st) (unat (head st)))"

definition longer :: "'z tiny_scheme \<Rightarrow> 'z tiny_scheme \<Rightarrow> bool" where
  "longer st st' \<longleftrightarrow> (head st' = head st \<and> height st' = height st) \<or> height st < height st'"

lemma longer_refl [simp]: "longer st st"
  by (simp add: longer_def)

lemma longer_trans: "longer s t \<Longrightarrow> longer t u \<Longrightarrow> longer s u"
  by (auto simp: longer_def)

definition waits :: "'z tiny_scheme \<Rightarrow> block set" where
  "waits st = \<Union> (set ` set (pending_blocks st))"

lemma waits_iff: "c \<in> waits st \<longleftrightarrow> (\<exists>p < length (pending_blocks st). c \<in> set (pending_blocks st ! p))"
proof
  assume "c \<in> waits st"
  then obtain q where "q \<in> set (pending_blocks st)" "c \<in> set q" by (auto simp: waits_def)
  then show "\<exists>p < length (pending_blocks st). c \<in> set (pending_blocks st ! p)"
    unfolding in_set_conv_nth [of q] by blast
next
  assume "\<exists>p < length (pending_blocks st). c \<in> set (pending_blocks st ! p)"
  then show "c \<in> waits st" unfolding waits_def using nth_mem by blast
qed

definition advanced :: "(block \<Rightarrow> real) \<Rightarrow> block \<Rightarrow> 'z tiny_scheme \<Rightarrow> 'z tiny_scheme \<Rightarrow> bool" where
  "advanced v blk st st' \<longleftrightarrow>
     (\<forall>j. seen (blockchain st') j \<longleftrightarrow> seen (blockchain st) j \<or> j = uid blk)
     \<and> (\<forall>j. known (blockchain st) j \<longrightarrow> known (blockchain st') j \<and> blockchain st' ! j = blockchain st ! j)
     \<and> length (blockchain st') = max (length (blockchain st)) (Suc (uid blk))
     \<and> received_transactions st' = received_transactions st
     \<and> paid v st' = paid v st \<and> longer st st' \<and> waits st' \<subseteq> insert blk (waits st)"

lemma known_seen: "known bc j \<Longrightarrow> seen bc j"
  by (simp add: known_def seen_def)

lemma seen_known: "seen bc j \<Longrightarrow> known bc j \<or> (j < length bc \<and> blk_id (bc ! j) = pending_id)"
  by (auto simp: known_def seen_def)

lemma satisfies_seen: "satisfies bc i (\<lambda>b. blk_id b \<noteq> no_id) \<longleftrightarrow> seen bc (unat i)"
  by (simp add: satisfies_def seen_def)

lemma satisfies_unknown:
  "unat i < length bc \<Longrightarrow> satisfies bc i (\<lambda>b. blk_id b = no_id \<or> blk_id b = pending_id) \<longleftrightarrow> \<not> known bc (unat i)"
  by (auto simp: satisfies_def known_def)

lemma satisfies_handled:
  assumes "tree_ok bc ls" "blk_ok blk"
  shows "satisfies bc (blk_id blk) (\<lambda>b. blk_id b = blk_id blk) \<longleftrightarrow> known bc (uid blk)"
proof
  assume "known bc (uid blk)"
  then have "uid (bc ! uid blk) = uid blk" using tree_okD(1) [OF assms(1)] blk_okD(1) [OF assms(2)] by blast
  then show "satisfies bc (blk_id blk) (\<lambda>b. blk_id b = blk_id blk)"
    using \<open>known bc (uid blk)\<close> unsigned_word_eqI [of "blk_id (bc ! uid blk)" "blk_id blk"]
    by (simp add: satisfies_def known_def)
qed (use blk_okD(4,5) [OF assms(2)] in \<open>auto simp: satisfies_def known_def\<close>)

text \<open>A block whose parent is missing joins the queue of its parent.\<close>

lemma accept_pending_spec:
  assumes inv: "tiny_inv R st" and b: "blk_ok blk" and new: "\<not> known (blockchain st) (uid blk)"
    and par: "\<not> known (blockchain st) (unat (parent blk))"
  shows "\<exists>st'. accept_block con unc blk st = (st', Inr (\<not> seen (blockchain st) (uid blk), []))
    \<and> tiny_inv (R - {uid blk}) st' \<and> advanced v blk st st'"
proof -
  let ?bc = "blockchain st" and ?k = "uid blk" and ?p = "unat (parent blk)"
  note tree = tiny_invD(1) [OF inv] and bd = blk_okD [OF b]
  obtain bc where bc: "vec_set blk_default ?bc (blk_id blk) blk = Inr bc" "length bc = max (length ?bc) (Suc ?k)"
    "\<And>j. j \<noteq> ?k \<Longrightarrow> known bc j = known ?bc j \<and> seen bc j = seen ?bc j"
    "\<And>j. j < length ?bc \<Longrightarrow> j \<noteq> ?k \<Longrightarrow> bc ! j = ?bc ! j" "bc ! ?k = blk"
    "\<And>j. j < length bc \<Longrightarrow> j \<noteq> ?k \<Longrightarrow> length ?bc \<le> j \<Longrightarrow> blk_id (bc ! j) = no_id"
    using new_blocks [OF b new] by blast
  define pb where "pb = room_for blk (pending_blocks st)"
  note pbs = room_for_spec [OF b, where pb = "pending_blocks st", folded pb_def]
  have "?p \<noteq> ?k" using bd(2) by simp
  then have unk: "satisfies bc (parent blk) (\<lambda>b. blk_id b = no_id \<or> blk_id b = pending_id)"
    using satisfies_unknown [of "parent blk" bc] bc(2,3) bd(2) par by simp
  have pl: "?p < length pb" using pbs(1) bd(2) by simp
  define bc2 where "bc2 = bc[?k := blk\<lparr>blk_id := pending_id\<rparr>]"
  define pb2 where "pb2 = pb[?p := pb ! ?p @ [blk]]"
  define st' where "st' = st\<lparr>blockchain := bc2, pending_blocks := pb2\<rparr>"
  have run: "accept_block con unc blk st = (st', Inr (\<not> seen ?bc ?k, []))"
    using accept_waits [of st blk bc pb con unc] satisfies_handled [OF tree b] new bc(1) unk pbs(1) bd(2)
    by (simp add: pb_def satisfies_seen st'_def bc2_def pb2_def)
  have k2: "known bc2 j = known ?bc j" for j
    using bc(2) bc(3) [of j] new bd(5) by (cases "j = ?k") (auto simp: bc2_def known_def)
  have s2: "seen bc2 j \<longleftrightarrow> seen ?bc j \<or> j = ?k" for j
    using bc(2) bc(3) [of j] by (cases "j = ?k") (auto simp: bc2_def seen_def pending_id_def no_id_def)
  have same: "bc2 ! j = ?bc ! j" if "known ?bc j" for j
    using that new bc(4) [of j] known_less [OF that] by (cases "j = ?k") (auto simp: bc2_def)
  have tree2: "tree_ok bc2 (lengths st)"
    using tree same bc(2) bd(7) k2 by (auto simp: tree_ok_def bc2_def)
  have pend: "blk_ok c \<and> unat (parent c) = q \<and> seen bc2 (uid c) \<and> \<not> known bc2 q"
    if "q < length pb2" "c \<in> set (pb2 ! q)" for q c
  proof -
    have q: "q < length pb" using that(1) by (simp add: pb2_def)
    show ?thesis
    proof (cases "c = blk \<and> q = ?p")
      case True
      then show ?thesis using b par k2 s2 by simp
    next
      case False
      then have "c \<in> set (pb ! q)" using that(2) pl by (cases "q = ?p") (auto simp: pb2_def)
      then have "q < length (pending_blocks st)" "c \<in> set (pending_blocks st ! q)"
        using pbs(2) [OF q] by (auto split: if_splits)
      from tiny_invD(4) [OF inv this] show ?thesis using k2 s2 by simp
    qed
  qed
  have wait: "j \<in> R - {?k} \<or> (\<exists>q < length pb2. \<exists>c \<in> set (pb2 ! q). uid c = j)"
    if "j < length bc2" "blk_id (bc2 ! j) = pending_id" for j
  proof (cases "j = ?k")
    case True
    then show ?thesis using pl by (intro disjI2 exI [of _ ?p]) (simp add: pb2_def)
  next
    case False
    then have at: "j < length bc" "blk_id (bc ! j) = pending_id" using that by (simp_all add: bc2_def)
    then have "j < length ?bc" using bc(6) [OF at(1) False] by (cases "length ?bc \<le> j") (auto simp: pending_id_def no_id_def)
    with bc(4) [OF this False] at have j: "j < length ?bc" "blk_id (?bc ! j) = pending_id" by simp_all
    from tiny_invD(5) [OF inv j] show ?thesis
    proof
      assume "\<exists>q < length (pending_blocks st). \<exists>c \<in> set (pending_blocks st ! q). uid c = j"
      then obtain q c where q: "q < length (pending_blocks st)" "c \<in> set (pending_blocks st ! q)" "uid c = j" by blast
      then have "q < length pb2" "c \<in> set (pb2 ! q)"
        using pbs pl by (auto simp: pb2_def nth_list_update)
      with q(3) show ?thesis by blast
    qed (use False in simp)
  qed
  have inv': "tiny_inv (R - {?k}) st'"
    unfolding tiny_inv_def st'_def using tree2 tiny_invD(2,3) [OF inv] k2 pend wait by simp
  have "chain_value v bc2 (unat (head st)) = chain_value v ?bc (unat (head st))"
    by (rule chain_value_cong [OF tree same tiny_invD(2) [OF inv]])
  moreover have "chain bc2 (unat (head st)) = chain ?bc (unat (head st))"
    by (rule chain_cong [OF tree same tiny_invD(2) [OF inv]])
  moreover have "waits st' \<subseteq> insert blk (waits st)"
  proof
    fix c assume "c \<in> waits st'"
    then obtain q where q: "q < length pb" "c \<in> set (pb2 ! q)" by (auto simp: waits_iff st'_def pb2_def)
    then have "c = blk \<or> c \<in> set (pb ! q)" using pl by (cases "q = ?p") (auto simp: pb2_def)
    then show "c \<in> insert blk (waits st)" using pbs(2) [OF q(1)] by (auto simp: waits_iff split: if_splits)
  qed
  ultimately have "advanced v blk st st'"
    using s2 k2 same bc(2) by (simp add: advanced_def st'_def paid_def bc2_def longer_def height_def)
  with run inv' show ?thesis by blast
qed

context block_listener
begin

text \<open>Adopting a longer branch, or not: nothing in the tree is then longer than the head.\<close>

lemma adopt_head_spec:
  assumes "tree_ok (blockchain st) (lengths st)" "known (blockchain st) (unat new)" "known (blockchain st) (unat (head st))"
  shows "\<exists>st'. adopt_head con unc new (lengths st ! unat new) (lengths st ! unat (head st)) st = (st', Inr ())
    \<and> same_blocks (st\<lparr>head := head st'\<rparr>) st' \<and> paid v st' = paid v st
    \<and> (head st' = head st \<or> (head st' = new \<and> lengths st ! unat new > lengths st ! unat (head st)))
    \<and> lengths st ! unat (head st') \<ge> lengths st ! unat new \<and> lengths st ! unat (head st') \<ge> lengths st ! unat (head st)"
proof (cases "lengths st ! unat new > lengths st ! unat (head st)")
  case False
  then show ?thesis by (intro exI [of _ st]) (simp add: adopt_head_def same_blocks_def)
next
  case True
  then obtain st' where st': "update_head con unc new st = (st', Inr ())" "same_blocks (st\<lparr>head := new\<rparr>) st'"
    "balance st' = balance st + chain_value v (blockchain st) (unat new) - chain_value v (blockchain st) (unat (head st))"
    using update_head_spec [OF assms less_imp_le [OF True]] by blast
  then have "head st' = new" "blockchain st' = blockchain st" by (simp_all add: same_blocks_def)
  then show ?thesis using st' True by (intro exI [of _ st']) (simp add: adopt_head_def paid_def)
qed

lemma accept_attach_spec:
  assumes inv: "tiny_inv R st" and b: "blk_ok blk" and new: "\<not> known (blockchain st) (uid blk)"
    and par: "known (blockchain st) (unat (parent blk))"
  shows "\<exists>st' fwd. accept_block con unc blk st = (st', Inr (\<not> seen (blockchain st) (uid blk), fwd))
    \<and> tiny_inv ((R - {uid blk}) \<union> uid ` set fwd) st' \<and> advanced v blk st st'
    \<and> (\<forall>c \<in> set fwd. blk_ok c \<and> parent c = blk_id blk \<and> seen (blockchain st') (uid c) \<and> c \<in> waits st)"
proof -
  let ?bc = "blockchain st" and ?k = "uid blk" and ?p = "unat (parent blk)"
  note tree = tiny_invD(1) [OF inv] and bd = blk_okD [OF b]
  obtain bc where bc: "vec_set blk_default ?bc (blk_id blk) blk = Inr bc" "length bc = max (length ?bc) (Suc ?k)"
    "\<forall>j. j \<noteq> ?k \<longrightarrow> known bc j = known ?bc j \<and> seen bc j = seen ?bc j"
    "\<forall>j < length ?bc. j \<noteq> ?k \<longrightarrow> bc ! j = ?bc ! j" "bc ! ?k = blk"
    "known bc ?k" "seen bc ?k"
    "\<forall>j < length bc. j \<noteq> ?k \<longrightarrow> length ?bc \<le> j \<longrightarrow> blk_id (bc ! j) = no_id"
    using new_blocks [OF b new] by blast
  have kn: "known bc j \<longleftrightarrow> known ?bc j \<or> j = ?k" for j using bc(3,6) new by (cases "j = ?k") simp_all
  have sn: "seen bc j \<longleftrightarrow> seen ?bc j \<or> j = ?k" for j using bc(3,7) by (cases "j = ?k") simp_all
  have same: "bc ! j = ?bc ! j" if "known ?bc j" for j
    using bc(4) new that known_less by metis
  obtain ls where ls: "vec_set 0 (lengths st) (blk_id blk) (lengths st ! ?p + 1) = Inr ls" "tree_ok bc ls"
    "\<And>j. known ?bc j \<Longrightarrow> ls ! j = lengths st ! j" "ls ! ?k = lengths st ! ?p + 1" "?k < length ls"
    using tree_grows [OF tree b new par bc(2) _ bc(4,5,6)] bc(3) by blast
  define pb where "pb = room_for blk (pending_blocks st)"
  note pbs = room_for_spec [OF b, where pb = "pending_blocks st", folded pb_def]
  define st1 where "st1 = st\<lparr>blockchain := bc, pending_blocks := pb, lengths := ls\<rparr>"
  have h1: "known bc (unat (head st))" using tiny_invD(2) [OF inv] kn by blast
  have hl: "unat (head st) < length ls" by (rule tree_ok_length [OF ls(2) h1])
  obtain st2 where st2: "adopt_head con unc (blk_id blk) (ls ! ?k) (ls ! unat (head st)) st1 = (st2, Inr ())"
    "same_blocks (st1\<lparr>head := head st2\<rparr>) st2" "paid v st2 = paid v st1"
    "head st2 = head st \<or> (head st2 = blk_id blk \<and> ls ! ?k > ls ! unat (head st))"
    "ls ! unat (head st2) \<ge> ls ! ?k" "ls ! unat (head st2) \<ge> ls ! unat (head st)"
    using adopt_head_spec [of st1 "blk_id blk"] ls(2) bc(6) h1 by (auto simp: st1_def)
  have f2: "blockchain st2 = bc" "lengths st2 = ls" "pending_blocks st2 = pb"
    "received_transactions st2 = received_transactions st"
    using st2(2) by (simp_all add: same_blocks_def st1_def)
  define st' where "st' = st2\<lparr>pending_blocks := pb[?k := []]\<rparr>"
  have unk: "\<not> satisfies bc (parent blk) (\<lambda>b. blk_id b = no_id \<or> blk_id b = pending_id)"
    using satisfies_unknown [of "parent blk" bc] bc(2) kn bd(2) par by simp
  have "accept_block con unc blk st = (st2\<lparr>pending_blocks := (pending_blocks st2)[?k := []]\<rparr>,
     Inr (\<not> satisfies ?bc (blk_id blk) (\<lambda>b. blk_id b \<noteq> no_id), pending_blocks st2 ! ?k))"
    by (rule accept_attaches [OF _ bc(1) unk pb_def tree_ok_length [OF tree par] ls(1) hl])
      (use satisfies_handled [OF tree b] new st2(1) ls(4) in \<open>simp_all add: st1_def\<close>)
  then have run: "accept_block con unc blk st = (st', Inr (\<not> seen ?bc ?k, pb ! ?k))"
    by (simp add: st'_def f2 satisfies_seen)
  have old: "blk_ok c \<and> unat (parent c) = q \<and> seen bc (uid c) \<and> \<not> known ?bc q"
    if "q < length pb" "c \<in> set (pb ! q)" for q c
  proof -
    have "q < length (pending_blocks st)" "c \<in> set (pending_blocks st ! q)"
      using pbs(2) [OF that(1)] that(2) by (auto split: if_splits)
    from tiny_invD(4) [OF inv this] show ?thesis using sn by simp
  qed
  have pend: "blk_ok c \<and> unat (parent c) = q \<and> seen bc (uid c) \<and> \<not> known bc q"
    if "q < length (pb[?k := []])" "c \<in> set (pb[?k := []] ! q)" for q c
  proof -
    have "q \<noteq> ?k" "q < length pb" "c \<in> set (pb ! q)"
      using that by (cases "q = ?k"; simp)+
    then show ?thesis using old kn by blast
  qed
  have wait: "j \<in> R - {?k} \<union> uid ` set (pb ! ?k) \<or> (\<exists>q < length (pb[?k := []]). \<exists>c \<in> set (pb[?k := []] ! q). uid c = j)"
    if "j < length bc" "blk_id (bc ! j) = pending_id" for j
  proof -
    have jk: "j \<noteq> ?k" using that bc(5) bd(5) by auto
    then have "j < length ?bc" using bc(8) that by (cases "length ?bc \<le> j") (auto simp: pending_id_def no_id_def)
    then have "j < length ?bc" "blk_id (?bc ! j) = pending_id" using bc(4) that jk by auto
    from tiny_invD(5) [OF inv this] show ?thesis
    proof
      assume "\<exists>q < length (pending_blocks st). \<exists>c \<in> set (pending_blocks st ! q). uid c = j"
      then obtain q c where "q < length (pending_blocks st)" "c \<in> set (pending_blocks st ! q)" "uid c = j" by blast
      then have qc: "q < length pb" "c \<in> set (pb ! q)" "uid c = j" using pbs by auto
      show ?thesis
      proof (cases "q = ?k")
        case True
        then have "uid c \<in> uid ` set (pb ! ?k)" using qc(2) by simp
        then show ?thesis unfolding qc(3) by simp
      next
        case False
        then have "q < length (pb[?k := []])" "c \<in> set (pb[?k := []] ! q)" using qc by simp_all
        with qc(3) show ?thesis by blast
      qed
    qed (use jk in simp)
  qed
  have h2: "known bc (unat (head st2))" using st2(4) h1 bc(6) by auto
  have top: "ls ! j \<le> ls ! unat (head st2)" if "known bc j" for j
  proof (cases "j = ?k")
    case False
    then have "known ?bc j" using that kn by blast
    then have "ls ! j \<le> ls ! unat (head st)"
      using tiny_invD(3) [OF inv] ls(3) tiny_invD(2) [OF inv] by simp
    with st2(6) show ?thesis by simp
  qed (use st2(5) in simp)
  have inv': "tiny_inv ((R - {?k}) \<union> uid ` set (pb ! ?k)) st'"
    unfolding tiny_inv_def st'_def using ls(2) h2 top pend wait by (simp add: f2)
  have "chain_value v bc (unat (head st)) = chain_value v ?bc (unat (head st))"
    by (rule chain_value_cong [OF tree same tiny_invD(2) [OF inv]])
  then have "paid v st' = paid v st" using st2(3) by (simp add: st'_def paid_def f2 st1_def)
  moreover have ch: "chain bc (unat (head st)) = chain ?bc (unat (head st))"
    by (rule chain_cong [OF tree same tiny_invD(2) [OF inv]])
  have "longer st st'" using st2(4)
  proof
    assume "head st2 = blk_id blk \<and> ls ! ?k > ls ! unat (head st)"
    then show ?thesis
      using tree_ok_height [OF ls(2) bc(6)] tree_ok_height [OF ls(2) h1] ch
      by (simp add: longer_def height_def st'_def f2 word_less_nat_alt)
  qed (simp add: longer_def height_def st'_def f2 ch)
  moreover have from_pb: "c \<in> waits st" if "q < length pb" "c \<in> set (pb ! q)" for q c
    using pbs(2) [OF that(1)] that(2) by (auto simp: waits_iff split: if_splits)
  moreover have "waits st' \<subseteq> insert blk (waits st)"
  proof
    fix c assume "c \<in> waits st'"
    then obtain q where "q < length pb" "c \<in> set (pb[?k := []] ! q)" by (auto simp: waits_iff st'_def f2)
    then have "q < length pb" "c \<in> set (pb ! q)" by (cases "q = ?k"; simp)+
    then show "c \<in> insert blk (waits st)" using from_pb by blast
  qed
  ultimately have adv: "advanced v blk st st'"
    using sn kn same bc(2) by (simp add: advanced_def st'_def f2)
  have kids: "blk_ok c \<and> parent c = blk_id blk \<and> seen bc (uid c) \<and> c \<in> waits st" if "c \<in> set (pb ! ?k)" for c
  proof -
    have "?k < length pb" using pbs(1) by simp
    note o = old [OF this that]
    then have "unat (parent c) = unat (blk_id blk)" by simp
    then have "parent c = blk_id blk" by (rule unsigned_word_eqI)
    with o from_pb [OF \<open>?k < length pb\<close> that] show ?thesis by simp
  qed
  show ?thesis using run inv' adv kids by (intro exI [of _ st'] exI [of _ "pb ! ?k"]) (simp add: st'_def f2)
qed

lemma accept_block_spec:
  assumes inv: "tiny_inv R st" and b: "blk_ok blk"
  shows "\<exists>st' fwd. accept_block con unc blk st = (st', Inr (\<not> seen (blockchain st) (uid blk), fwd))
    \<and> tiny_inv ((R - {uid blk}) \<union> uid ` set fwd) st' \<and> advanced v blk st st'
    \<and> (\<forall>c \<in> set fwd. blk_ok c \<and> parent c = blk_id blk \<and> seen (blockchain st') (uid c) \<and> c \<in> waits st)"
proof (cases "known (blockchain st) (uid blk)")
  case True
  have h: "accept_block con unc blk st = (st, Inr (\<not> seen (blockchain st) (uid blk), []))"
    using accept_handled [of st blk] satisfies_handled [OF tiny_invD(1) [OF inv] b] True blk_okD(4) [OF b]
      known_seen [OF True] by simp
  have "tiny_inv (R - {uid blk}) st"
    using inv True unfolding tiny_inv_def by (auto simp: known_def)
  moreover have "advanced v blk st st"
    using known_seen [OF True] known_less [OF True] by (auto simp: advanced_def)
  ultimately show ?thesis using h by (intro exI [of _ st] exI [of _ "[]"]) simp
next
  case False
  show ?thesis
  proof (cases "known (blockchain st) (unat (parent blk))")
    case True
    then show ?thesis by (rule accept_attach_spec [OF inv b False])
  next
    case par: False
    from accept_pending_spec [OF inv b False par] obtain st' where
      "accept_block con unc blk st = (st', Inr (\<not> seen (blockchain st) (uid blk), []))"
      "tiny_inv (R - {uid blk}) st'" "advanced v blk st st'" by blast
    then show ?thesis by (intro exI [of _ st'] exI [of _ "[]"]) simp
  qed
qed

text \<open>
  All of \<open>handle_block\<close>. A waiting block has a larger id than the one it waits for, and a
  smaller one than the vector is long: this bounds the depth of the recursion.
\<close>

abbreviation handle where "handle fuel \<equiv> handle_block fuel (accept_block con unc) no_after"

lemma handle_kids_spec:
  assumes hyp: "\<And>R st blk. tiny_inv R st \<Longrightarrow> blk_ok blk \<Longrightarrow>
      max (length (blockchain st)) (Suc (uid blk)) \<le> uid blk + fuel \<Longrightarrow>
      \<exists>st'. handle fuel blk st = (st', Inr (\<not> seen (blockchain st) (uid blk)))
        \<and> tiny_inv (R - {uid blk}) st' \<and> advanced v blk st st'"
    and len: "length (blockchain s) \<le> k + Suc fuel"
  shows "\<forall>c \<in> set cs. blk_ok c \<and> k < uid c \<and> seen (blockchain s) (uid c) \<Longrightarrow> tiny_inv (R \<union> uid ` set cs) s \<Longrightarrow>
    \<exists>t. each_eff (handle fuel) cs s = (t, Inr ()) \<and> tiny_inv R t
      \<and> (\<forall>j. seen (blockchain t) j = seen (blockchain s) j)
      \<and> (\<forall>j. known (blockchain s) j \<longrightarrow> known (blockchain t) j \<and> blockchain t ! j = blockchain s ! j)
      \<and> length (blockchain t) = length (blockchain s)
      \<and> received_transactions t = received_transactions s \<and> paid v t = paid v s \<and> longer s t
      \<and> waits t \<subseteq> waits s \<union> set cs"
  using len
proof (induction cs arbitrary: s)
  case (Cons c cs)
  have c: "blk_ok c" "k < uid c" "seen (blockchain s) (uid c)" using Cons.prems(1) by simp_all
  have "uid c < length (blockchain s)" using c(3) by (simp add: seen_def)
  then have mx: "max (length (blockchain s)) (Suc (uid c)) \<le> uid c + fuel"
    and ml: "max (length (blockchain s)) (Suc (uid c)) = length (blockchain s)"
    using c(2) Cons.prems(3) by auto
  from hyp [OF Cons.prems(2) c(1) mx] obtain w where
    w: "handle fuel c s = (w, Inr (\<not> seen (blockchain s) (uid c)))"
      "tiny_inv (R \<union> uid ` set (c # cs) - {uid c}) w" "advanced v c s w" by blast
  have inv: "tiny_inv (R \<union> uid ` set cs) w" by (rule tiny_inv_mono [OF w(2)]) auto
  have a: "\<And>j. seen (blockchain w) j = seen (blockchain s) j" "length (blockchain w) = length (blockchain s)"
    "\<And>j. known (blockchain s) j \<Longrightarrow> known (blockchain w) j \<and> blockchain w ! j = blockchain s ! j"
    "received_transactions w = received_transactions s" "paid v w = paid v s" "longer s w"
    "waits w \<subseteq> insert c (waits s)"
    using w(3) c(3) ml by (auto simp: advanced_def)
  have "\<forall>c \<in> set cs. blk_ok c \<and> k < uid c \<and> seen (blockchain w) (uid c)" using Cons.prems(1) a(1) by simp
  from Cons.IH [OF this inv] Cons.prems(3) a(2) obtain t where
    t: "each_eff (handle fuel) cs w = (t, Inr ())" "tiny_inv R t"
      "\<forall>j. seen (blockchain t) j = seen (blockchain w) j"
      "\<forall>j. known (blockchain w) j \<longrightarrow> known (blockchain t) j \<and> blockchain t ! j = blockchain w ! j"
      "length (blockchain t) = length (blockchain w)"
      "received_transactions t = received_transactions w" "paid v t = paid v w" "longer w t"
      "waits t \<subseteq> waits w \<union> set cs" by auto
  have "each_eff (handle fuel) (c # cs) s = (t, Inr ())"
    using w(1) t(1) by (simp add: bind_eff_def [of "handle fuel c"])
  then show ?case using t a longer_trans [OF a(6) t(8)] by (intro exI [of _ t]) auto
qed simp

lemma handle_block_spec:
  "tiny_inv R st \<Longrightarrow> blk_ok blk \<Longrightarrow> max (length (blockchain st)) (Suc (uid blk)) \<le> uid blk + fuel \<Longrightarrow>
    \<exists>st'. handle fuel blk st = (st', Inr (\<not> seen (blockchain st) (uid blk)))
      \<and> tiny_inv (R - {uid blk}) st' \<and> advanced v blk st st'"
proof (induction fuel arbitrary: R st blk)
  case (Suc fuel)
  let ?k = "uid blk" and ?bc = "blockchain st"
  obtain s fwd where s: "accept_block con unc blk st = (s, Inr (\<not> seen ?bc ?k, fwd))"
    "tiny_inv ((R - {?k}) \<union> uid ` set fwd) s" "advanced v blk st s"
    and kids: "\<forall>c \<in> set fwd. blk_ok c \<and> parent c = blk_id blk \<and> seen (blockchain s) (uid c) \<and> c \<in> waits st"
    using accept_block_spec [OF Suc.prems(1,2)] by blast
  have len: "length (blockchain s) \<le> ?k + Suc fuel" using s(3) Suc.prems(3) by (simp add: advanced_def)
  have kids': "\<forall>c \<in> set fwd. blk_ok c \<and> ?k < uid c \<and> seen (blockchain s) (uid c)"
    using kids blk_okD(2) by fastforce
  from handle_kids_spec [OF Suc.IH len kids' s(2)] obtain t where
    t: "each_eff (handle fuel) fwd s = (t, Inr ())" "tiny_inv (R - {?k}) t"
      "\<forall>j. seen (blockchain t) j = seen (blockchain s) j"
      "\<forall>j. known (blockchain s) j \<longrightarrow> known (blockchain t) j \<and> blockchain t ! j = blockchain s ! j"
      "length (blockchain t) = length (blockchain s)"
      "received_transactions t = received_transactions s" "paid v t = paid v s" "longer s t"
      "waits t \<subseteq> waits s \<union> set fwd" by blast
  have "handle (Suc fuel) blk st = (t, Inr (\<not> seen ?bc ?k))"
    using s(1) t(1) by (simp add: bind_eff_def [of "accept_block con unc blk"]
        bind_eff_def [of "each_eff (handle fuel) fwd"] no_after_def)
  moreover have "advanced v blk st t"
  proof -
    have "waits s \<subseteq> insert blk (waits st)" "longer st s" using s(3) by (simp_all add: advanced_def)
    moreover have "set fwd \<subseteq> waits st" using kids by blast
    ultimately have "waits t \<subseteq> insert blk (waits st)" "longer st t" using t(8,9) longer_trans by blast+
    then show ?thesis using s(3) t(3-7) by (simp add: advanced_def)
  qed
  ultimately show ?case using t(2) by blast
qed simp

end

section \<open>Plain nodes\<close>

text \<open>What a block pays a node: the transactions to it, and the reward if it mined the block.\<close>

definition worth :: "statics \<Rightarrow> node_id \<Rightarrow> block \<Rightarrow> real" where
  "worth c i b = (case transactions b of None \<Rightarrow> 0 | Some ts \<Rightarrow>
     sum_list (map amount (filter (\<lambda>tx. destination_node tx = i) ts))
     + (if miner b = i then block_reward c + transaction_reward c * real (length ts) else 0))"

lemma fold_amounts:
  "fold (\<lambda>tx val. if P tx then val + amount tx else val) ts x = x + sum_list (map amount (filter P ts))"
  by (induction ts arbitrary: x) auto

lemma block_value_worth: "transactions b \<noteq> None \<Longrightarrow> block_value c i b = Inr (worth c i b)"
  by (auto simp: block_value_def txs_of_def worth_def fold_amounts)

interpretation plain_node: block_listener "confirm c i" "unconfirm c i" "worth c i" for c i
proof (unfold_locales, goal_cases)
  case (1 b st) then show ?case by (simp add: confirm_def block_value_worth mod_eff_def same_blocks_def)
next
  case (2 b st) then show ?case by (simp add: unconfirm_def block_value_worth mod_eff_def same_blocks_def)
qed

abbreviation receive :: "nat \<Rightarrow> statics \<Rightarrow> node_id \<Rightarrow> block \<Rightarrow> ('z tiny_scheme, bool) eff" where
  "receive fuel c i \<equiv> handle_block fuel (accept_block (confirm c i) (unconfirm c i)) no_after"

lemma tiny_new_inv:
  fixes r :: u64
  assumes "next_blk c \<noteq> no_id" "next_blk c \<noteq> pending_id"
  defines "st \<equiv> fst (tiny_new r c)"
  shows "tiny_inv {} st" "seen (blockchain st) j \<longleftrightarrow> j = 0" "length (blockchain st) = 1"
  using assms
  by (auto simp: tiny_new_def blk_new_def Let_def tiny_inv_def tree_ok_def known_def seen_def)

text \<open>C12: a node that receives a block returns, says whether the id was new to it, and keeps its
  invariant: every block of its tree has its parent in the tree and is one longer, no block of
  the tree is longer than the head, and every other block it has seen waits for its parent.
  The head stays, or moves to a strictly longer chain; the balance changes by exactly what the
  new main chain pays more than the old one, however the blocks are unconfirmed and confirmed.\<close>

theorem handle_block_correct:
  assumes "tiny_inv {} st" and "blk_ok blk"
    and "max (length (blockchain st)) (Suc (uid blk)) \<le> uid blk + fuel"
  shows "\<exists>st'. handle_block fuel (accept_block (confirm c i) (unconfirm c i)) no_after blk st
          = (st', Inr (\<not> seen (blockchain st) (uid blk)))
    \<and> tiny_inv {} st' \<and> seen (blockchain st') (uid blk) \<and> longer st st'
    \<and> balance st' - chain_value (worth c i) (blockchain st') (unat (head st'))
        = balance st - chain_value (worth c i) (blockchain st) (unat (head st))"
  using plain_node.handle_block_spec [OF assms, of c i] by (auto simp: advanced_def paid_def)

text \<open>Blocks 1, 2 and 3 on top of the genesis block, with one transaction, and their node.\<close>

definition example_statics :: statics where
  "example_statics = \<lparr>next_tx = 1, next_blk = 1, tx_delay = 20, delay_per_transaction = 20, base_delay = 100,
     block_reward = 1, transaction_reward = 1 / 100, transactions_per_block = 50\<rparr>"

definition example_block :: "u64 \<Rightarrow> u64 \<Rightarrow> block" where
  "example_block k par = \<lparr>blk_id = k, parent = par, miner = 7,
     transactions = Some [\<lparr>source_node = 8, destination_node = 7, amount = 2, tx_id = 1\<rparr>]\<rparr>"

definition example_node :: tiny where "example_node = fst (tiny_new 0 example_statics)"

lemma example_node_inv:
  "tiny_inv {} example_node" "seen (blockchain example_node) j \<longleftrightarrow> j = 0" "length (blockchain example_node) = 1"
  unfolding example_node_def
  by (rule tiny_new_inv; simp add: example_statics_def no_id_def pending_id_def)+

lemma example_block_ok:
  assumes "par < k" "k < 100"
  shows "blk_ok (example_block k par)" "uid (example_block k par) = unat k" "unat k < 100"
proof -
  have "unat k < 100" using assms(2) by (simp add: word_less_nat_alt)
  moreover have "k \<noteq> - 1" "k \<noteq> - 2" using assms(2) by auto
  ultimately show "blk_ok (example_block k par)" "uid (example_block k par) = unat k" "unat k < 100"
    using assms(1) by (simp_all add: blk_ok_def example_block_def no_id_def pending_id_def)
qed

theorem handle_block_correct_witness:
  "\<exists>st'. handle_block 5 (accept_block (confirm example_statics 7) (unconfirm example_statics 7)) no_after
       (example_block 1 0) example_node = (st', Inr True)
    \<and> tiny_inv {} st' \<and> seen (blockchain st') 1"
proof -
  have b: "blk_ok (example_block 1 0)" "uid (example_block 1 0) = 1" using example_block_ok [of 0 1] by simp_all
  then have "max (length (blockchain example_node)) (Suc (uid (example_block 1 0))) \<le> uid (example_block 1 0) + 5"
    by (simp add: example_node_inv)
  from handle_block_correct [OF example_node_inv(1) b(1) this] show ?thesis
    using b(2) by (auto simp: example_node_inv)
qed

text \<open>Many blocks, in the order of a list.\<close>

lemma receive_all:
  assumes "tiny_inv {} st" "\<forall>b \<in> set bs. blk_ok b \<and> uid b < N" "length (blockchain st) \<le> N"
  shows "\<exists>st'. each_eff (receive N c i) bs st = (st', Inr ()) \<and> tiny_inv {} st'
    \<and> (\<forall>j. seen (blockchain st') j \<longleftrightarrow> seen (blockchain st) j \<or> j \<in> uid ` set bs)
    \<and> paid (worth c i) st' = paid (worth c i) st \<and> waits st' \<subseteq> waits st \<union> set bs"
  using assms
proof (induction bs arbitrary: st)
  case (Cons b bs)
  have b: "blk_ok b" "uid b < N" using Cons.prems(2) by simp_all
  have "max (length (blockchain st)) (Suc (uid b)) \<le> uid b + N" using b(2) Cons.prems(3) by auto
  from plain_node.handle_block_spec [OF Cons.prems(1) b(1) this, of c i] obtain s r where
    s: "receive N c i b st = (s, Inr r)" "tiny_inv {} s" "advanced (worth c i) b st s" by auto
  have "length (blockchain s) \<le> N" using s(3) b(2) Cons.prems(3) by (simp add: advanced_def)
  with Cons.IH [OF s(2)] Cons.prems(2) obtain t where
    t: "each_eff (receive N c i) bs s = (t, Inr ())" "tiny_inv {} t"
      "\<forall>j. seen (blockchain t) j \<longleftrightarrow> seen (blockchain s) j \<or> j \<in> uid ` set bs"
      "paid (worth c i) t = paid (worth c i) s" "waits t \<subseteq> waits s \<union> set bs" by auto
  have "each_eff (receive N c i) (b # bs) st = (t, Inr ())"
    using s(1) t(1) by (simp add: bind_eff_def [of "receive N c i b"])
  then show ?case using t s(3) by (intro exI [of _ t]) (auto simp: advanced_def)
qed simp

text \<open>If the parents of all seen blocks have been seen, none is left waiting.\<close>

lemma all_attached:
  assumes inv: "tiny_inv {} st"
    and closed: "\<And>p c. p < length (pending_blocks st) \<Longrightarrow> c \<in> set (pending_blocks st ! p) \<Longrightarrow> seen (blockchain st) p"
  shows "seen (blockchain st) k \<Longrightarrow> known (blockchain st) k"
proof (induction k rule: less_induct)
  case (less k)
  show ?case
  proof (rule ccontr)
    assume "\<not> known (blockchain st) k"
    with seen_known [OF less.prems] have "k < length (blockchain st)" "blk_id (blockchain st ! k) = pending_id" by auto
    from tiny_invD(5) [OF inv this] obtain p c where
      pc: "p < length (pending_blocks st)" "c \<in> set (pending_blocks st ! p)" "uid c = k" by auto
    from tiny_invD(4) [OF inv pc(1,2)] have c: "blk_ok c" "unat (parent c) = p" "\<not> known (blockchain st) p" by auto
    have "p < k" using blk_okD(2) [OF c(1)] c(2) pc(3) by simp
    then have "known (blockchain st) p" using less.IH closed [OF pc(1,2)] by blast
    with c(3) show False by blast
  qed
qed

text \<open>C13: the order in which blocks arrive does not matter for what becomes part of the tree. A
  new node that receives any list of blocks whose parents are in the list (or the genesis
  block), with children possibly before their parents and blocks repeated, ends with all of
  them in its tree and none waiting, on a longest chain, its balance the initial one plus what
  the main chain pays.\<close>

theorem blocks_any_order:
  assumes "next_blk c \<noteq> no_id" "next_blk c \<noteq> pending_id"
    and "\<forall>b \<in> set bs. blk_ok b \<and> uid b < N" and "0 < N"
    and "\<forall>b \<in> set bs. parent b = 0 \<or> (\<exists>a \<in> set bs. blk_id a = parent b)"
  shows "\<exists>st'. each_eff (handle_block N (accept_block (confirm c i) (unconfirm c i)) no_after) bs
          (fst (tiny_new r c)) = (st', Inr ())
    \<and> (\<forall>b \<in> set bs. known (blockchain st') (uid b)) \<and> waits st' = {}
    \<and> (\<forall>k. known (blockchain st') k \<longrightarrow> lengths st' ! k \<le> lengths st' ! unat (head st'))
    \<and> balance st' = real (unat (r mod 1024 + 16)) + chain_value (worth c i) (blockchain st') (unat (head st'))"
proof -
  let ?st = "fst (tiny_new r c)"
  note new = tiny_new_inv [OF assms(1,2), of r]
  have w0: "waits ?st = {}" and p0: "paid (worth c i) ?st = real (unat (r mod 1024 + 16))"
    by (simp_all add: waits_def tiny_new_def blk_new_def paid_def chain_value_def)
  from receive_all [OF new(1) assms(3), of c i] assms(4) new(3) obtain st' where
    st': "each_eff (receive N c i) bs ?st = (st', Inr ())" "tiny_inv {} st'"
      "\<And>j. seen (blockchain st') j \<longleftrightarrow> j = 0 \<or> j \<in> uid ` set bs"
      "paid (worth c i) st' = paid (worth c i) ?st" "waits st' \<subseteq> set bs"
    using new(2) w0 by auto
  have closed: "seen (blockchain st') p"
    if "p < length (pending_blocks st')" "b \<in> set (pending_blocks st' ! p)" for p b
  proof -
    have "b \<in> waits st'" using that by (auto simp: waits_iff)
    then have "b \<in> set bs" using st'(5) by blast
    with assms(5) consider "parent b = 0" | a where "a \<in> set bs" "blk_id a = parent b" by blast
    then have "unat (parent b) = 0 \<or> unat (parent b) \<in> uid ` set bs"
    proof cases
      case 2
      then have "unat (parent b) = uid a" by simp
      with 2(1) show ?thesis by blast
    qed simp
    moreover have "unat (parent b) = p" using tiny_invD(4) [OF st'(2) that] by simp
    ultimately show ?thesis using st'(3) by blast
  qed
  have att: "known (blockchain st') k" if "seen (blockchain st') k" for k
    by (rule all_attached [OF st'(2) _ that]) (rule closed)
  have "waits st' = {}"
  proof (rule ccontr)
    assume "waits st' \<noteq> {}"
    then obtain p b where pb: "p < length (pending_blocks st')" "b \<in> set (pending_blocks st' ! p)"
      by (auto simp: waits_iff)
    then show False using tiny_invD(4) [OF st'(2) pb] att [OF closed [OF pb]] by simp
  qed
  moreover have "known (blockchain st') (uid b)" if "b \<in> set bs" for b using att st'(3) that by blast
  moreover have "lengths st' ! k \<le> lengths st' ! unat (head st')" if "known (blockchain st') k" for k
    using tiny_invD(3) [OF st'(2) that] .
  ultimately show ?thesis using st'(1,4) p0 by (intro exI [of _ st']) (simp add: paid_def)
qed

theorem blocks_any_order_witness:
  "\<exists>st'. each_eff (handle_block 5 (accept_block (confirm example_statics 7) (unconfirm example_statics 7)) no_after)
       [example_block 3 2, example_block 2 1, example_block 1 0] (fst (tiny_new 0 example_statics)) = (st', Inr ())
    \<and> known (blockchain st') 3 \<and> waits st' = {}"
proof -
  let ?bs = "[example_block 3 2, example_block 2 1, example_block 1 0]"
  have ok: "\<forall>b \<in> set ?bs. blk_ok b \<and> uid b < 5"
    using example_block_ok [of 2 3] example_block_ok [of 1 2] example_block_ok [of 0 1] by simp
  have closed: "\<forall>b \<in> set ?bs. parent b = 0 \<or> (\<exists>a \<in> set ?bs. blk_id a = parent b)"
    by (simp add: example_block_def)
  have ids: "next_blk example_statics \<noteq> no_id" "next_blk example_statics \<noteq> pending_id"
    by (simp_all add: example_statics_def no_id_def pending_id_def)
  from blocks_any_order [OF ids ok _ closed, of 7 0] show ?thesis
    using example_block_ok(2) [of 2 3] by auto
qed

end
