(* ===== verification/Tinycoin_Miner.thy ===== *)
theory Tinycoin_Miner
  imports Tinycoin_Chain
begin

text \<open>
  Miners (\<open>protocols/tinycoin.hpp\<close>, classes \<open>TinyMiner\<close> and \<open>MinerPolicy\<close>): what they add to
  the state of a node, the overridden methods, and the block that the default policy mines.
  \<open>std::set\<close> of ids is a strictly increasing list. The field \<open>is_miner\<close> stands for the class of
  the object, through which its virtual methods are found, and \<open>policy\<close> for the class of the
  object behind the pointer.
\<close>

section \<open>State and overridden methods\<close>

datatype policy = No_Policy | Honest_Policy | Selfish_Policy

record miner_state = tiny +
  is_miner :: bool
  pending_transactions :: "u64 list"
  policy_of :: policy
  power :: u64

definition set_add :: "u64 \<Rightarrow> u64 list \<Rightarrow> u64 list" where
  "set_add x xs = insort_insert x xs"

definition set_del :: "u64 \<Rightarrow> u64 list \<Rightarrow> u64 list" where
  "set_del x xs = removeAll x xs"

definition miner_new :: "bool \<Rightarrow> policy \<Rightarrow> u64 \<Rightarrow> u64 \<Rightarrow> statics \<Rightarrow> miner_state \<times> statics" where
  "miner_new mining pol pwr r c =
     (let (st, c') = tiny_new r c in (tiny.extend st (miner_state.fields mining [] pol pwr), c'))"

definition miner_confirm :: "statics \<Rightarrow> node_id \<Rightarrow> block \<Rightarrow> ('z miner_state_scheme, unit) eff" where
  "miner_confirm c i blk =
     bind_eff (confirm c i blk) (\<lambda>_.
     bind_eff (res_eff (txs_of blk)) (\<lambda>ts.
     mod_eff (\<lambda>st. st\<lparr>pending_transactions := fold (\<lambda>tx. set_del (tx_id tx)) ts (pending_transactions st)\<rparr>)))"

definition miner_unconfirm :: "statics \<Rightarrow> node_id \<Rightarrow> block \<Rightarrow> ('z miner_state_scheme, unit) eff" where
  "miner_unconfirm c i blk =
     bind_eff (unconfirm c i blk) (\<lambda>_.
     bind_eff (res_eff (txs_of blk)) (\<lambda>ts.
     mod_eff (\<lambda>st. st\<lparr>pending_transactions := fold (\<lambda>tx. set_add (tx_id tx)) ts (pending_transactions st)\<rparr>)))"

text \<open>The virtual methods.\<close>

definition v_confirm :: "statics \<Rightarrow> node_id \<Rightarrow> block \<Rightarrow> ('z miner_state_scheme, unit) eff" where
  "v_confirm c i blk st = (if is_miner st then miner_confirm c i blk st else confirm c i blk st)"

definition v_unconfirm :: "statics \<Rightarrow> node_id \<Rightarrow> block \<Rightarrow> ('z miner_state_scheme, unit) eff" where
  "v_unconfirm c i blk st = (if is_miner st then miner_unconfirm c i blk st else unconfirm c i blk st)"

text \<open>\<open>TinyMiner::handle_transaction\<close> up to the call of the policy.\<close>

definition v_handle_transaction :: "transaction \<Rightarrow> ('z miner_state_scheme, bool) eff" where
  "v_handle_transaction tx =
     bind_eff (handle_transaction tx) (\<lambda>fresh.
     bind_eff (get_eff is_miner) (\<lambda>mining.
     if fresh \<and> mining then
       bind_eff (mod_eff (\<lambda>st. st\<lparr>pending_transactions := set_add (tx_id tx) (pending_transactions st)\<rparr>)) (\<lambda>_.
       ret_eff True)
     else ret_eff fresh))"

text \<open>The loop of \<open>on_mined\<close>: transactions are looked up by their ids.\<close>

fun fill_block :: "u64 \<Rightarrow> transaction list \<Rightarrow> u64 list \<Rightarrow> transaction list \<Rightarrow> transaction list res" where
  "fill_block limit txs [] acc = Inr acc"
| "fill_block limit txs (tx # pend) acc =
     (if of_nat (length acc) > limit then Inr acc
      else bind_res (vec_get txs (unat tx)) (\<lambda>t. fill_block limit txs pend (acc @ [t])))"

text \<open>\<open>MinerPolicy::on_mined\<close> up to the call of \<open>send_block\<close>: the new block.\<close>

definition mine_block :: "node_id \<Rightarrow> 'z miner_state_scheme \<Rightarrow> statics \<Rightarrow> block res \<times> statics" where
  "mine_block i st c =
     (let (blk, c') = blk_new (head st) i c
      in (bind_res (fill_block (transactions_per_block c) (received_transactions st) (pending_transactions st) [])
            (\<lambda>ts. Inr (blk\<lparr>transactions := Some ts\<rparr>)), c'))"

section \<open>The listeners of a miner meet the contract\<close>

lemma set_add_set [simp]: "set (set_add x xs) = insert x (set xs)"
  by (simp add: set_add_def set_insort_insert)

lemma set_del_set [simp]: "set (set_del x xs) = set xs - {x}"
  by (simp add: set_del_def)

lemma fold_set_del: "set (fold (\<lambda>tx. set_del (tx_id tx)) ts xs) = set xs - tx_id ` set ts"
  by (induction ts arbitrary: xs) auto

lemma fold_set_add: "set (fold (\<lambda>tx. set_add (tx_id tx)) ts xs) = set xs \<union> tx_id ` set ts"
  by (induction ts arbitrary: xs) auto

lemma set_add_sorted: "sorted xs \<Longrightarrow> distinct xs \<Longrightarrow> sorted (set_add x xs) \<and> distinct (set_add x xs)"
  by (simp add: set_add_def sorted_insort_insert distinct_insort_insert)

lemma v_confirm_run:
  assumes "transactions b = Some ts"
  shows "v_confirm c i b st = (st\<lparr>balance := balance st + worth c i b,
     pending_transactions := (if is_miner st then fold (\<lambda>tx. set_del (tx_id tx)) ts (pending_transactions st)
                              else pending_transactions st)\<rparr>, Inr ())"
  using assms by (simp add: v_confirm_def miner_confirm_def confirm_def block_value_worth txs_of_def
      bind_eff_def mod_eff_def res_eff_def)

lemma v_unconfirm_run:
  assumes "transactions b = Some ts"
  shows "v_unconfirm c i b st = (st\<lparr>balance := balance st - worth c i b,
     pending_transactions := (if is_miner st then fold (\<lambda>tx. set_add (tx_id tx)) ts (pending_transactions st)
                              else pending_transactions st)\<rparr>, Inr ())"
  using assms by (simp add: v_unconfirm_def miner_unconfirm_def unconfirm_def block_value_worth txs_of_def
      bind_eff_def mod_eff_def res_eff_def)

interpretation any_node: block_listener "v_confirm c i" "v_unconfirm c i" "worth c i" for c i
proof (unfold_locales, goal_cases)
  case (1 b st) then show ?case by (auto simp: v_confirm_run same_blocks_def)
next
  case (2 b st) then show ?case by (auto simp: v_unconfirm_run same_blocks_def)
qed

section \<open>Properties of miners\<close>

lemma fill_block_length:
  assumes "limit \<noteq> - 1" "length acc \<le> Suc (unat limit)" "\<forall>t \<in> set pend. unat t < length txs"
  shows "\<exists>ts. fill_block limit txs pend acc = Inr (acc @ map (\<lambda>t. txs ! unat t) ts)
    \<and> ts = take (Suc (unat limit) - length acc) pend"
  using assms
proof (induction pend arbitrary: acc)
  case (Cons t pend)
  have "unat (of_nat (length acc) :: u64) = length acc"
    using Cons.prems(2) unat_succ [OF assms(1)] unat_u64_less_power [of "limit + 1"]
    by (intro unat_of_nat_u64) simp
  then have full: "of_nat (length acc) > limit \<longleftrightarrow> length acc = Suc (unat limit)"
    using Cons.prems(2) by (auto simp: word_less_nat_alt)
  show ?case
  proof (cases "length acc = Suc (unat limit)")
    case False
    then have "fill_block limit txs pend (acc @ [txs ! unat t])
        = Inr ((acc @ [txs ! unat t]) @ map (\<lambda>t. txs ! unat t) (take (Suc (unat limit) - Suc (length acc)) pend))"
      using Cons.IH [of "acc @ [txs ! unat t]"] Cons.prems by simp
    then show ?thesis using full False Cons.prems by (simp add: Suc_diff_le)
  qed (use full in simp)
qed simp

text \<open>The block that the default policy mines holds the pending transactions with the smallest
  ids, looked up by id: \<open>transactions_per_block\<close> of them and one more, when there are enough. (Its
  parent is the head and its id a fresh one.)\<close>

theorem mine_block_correct:
  assumes "transactions_per_block c \<noteq> - 1"
    and "\<forall>t \<in> set (pending_transactions st). unat t < length (received_transactions st)"
  shows "mine_block i st c =
    (Inr \<lparr>blk_id = next_blk c, parent = head st, miner = i,
        transactions = Some (map (\<lambda>t. received_transactions st ! unat t)
          (take (unat (transactions_per_block c) + 1) (pending_transactions st)))\<rparr>,
     c\<lparr>next_blk := next_blk c + 1\<rparr>)"
  using fill_block_length [OF assms(1) _ assms(2), of "[]"] by (simp add: mine_block_def blk_new_def)

definition example_miner :: miner_state where
  "example_miner = (fst (miner_new True Honest_Policy 10 0 example_statics))\<lparr>
     received_transactions := [tx_default, \<lparr>source_node = 8, destination_node = 7, amount = 2, tx_id = 1\<rparr>,
       \<lparr>source_node = 8, destination_node = 9, amount = 3, tx_id = 2\<rparr>],
     pending_transactions := [1, 2]\<rparr>"

theorem mine_block_correct_witness:
  "\<exists>b ts. mine_block 7 example_miner (example_statics\<lparr>transactions_per_block := 1\<rparr>) = (Inr b, example_statics\<lparr>
      transactions_per_block := 1, next_blk := 2\<rparr>)
    \<and> transactions b = Some ts \<and> length ts = 2"
proof -
  let ?c = "example_statics\<lparr>transactions_per_block := 1\<rparr>"
  have "transactions_per_block ?c \<noteq> - 1" "\<forall>t \<in> set (pending_transactions example_miner).
      unat t < length (received_transactions example_miner)"
    by (simp_all add: example_miner_def)
  from mine_block_correct [OF this, of 7] show ?thesis
    by (simp add: example_miner_def example_statics_def)
qed

text \<open>Blocks \<open>o\<close> and \<open>m\<close> have the same parent, \<open>o\<close> is the head, and \<open>n\<close> is a child of \<open>m\<close>.\<close>

definition rival_blocks :: "'z miner_state_scheme \<Rightarrow> u64 \<Rightarrow> u64 \<Rightarrow> u64 \<Rightarrow> bool" where
  "rival_blocks st old m n \<longleftrightarrow> tree_ok (blockchain st) (lengths st) \<and> head st = old
     \<and> known (blockchain st) (unat old) \<and> known (blockchain st) (unat m) \<and> known (blockchain st) (unat n)
     \<and> 0 < unat old \<and> 0 < unat m \<and> 0 < unat n \<and> m \<noteq> old
     \<and> parent (blockchain st ! unat n) = m
     \<and> parent (blockchain st ! unat m) = parent (blockchain st ! unat old)"

lemma reorg_run:
  assumes "rival_blocks st old m n"
    and "transactions (blockchain st ! unat old) = Some to" "transactions (blockchain st ! unat m) = Some tm"
    and "transactions (blockchain st ! unat n) = Some tn"
  shows "\<exists>st'. update_head (v_confirm c i) (v_unconfirm c i) n st = (st', Inr ())
    \<and> blockchain st' = blockchain st \<and> head st' = n
    \<and> (is_miner st \<longrightarrow> set (pending_transactions st')
         = (set (pending_transactions st) - tx_id ` set tn - tx_id ` set tm) \<union> tx_id ` set to)"
proof -
  let ?bc = "blockchain st" and ?ls = "lengths st"
  have tree: "tree_ok ?bc ?ls" and h: "head st = old"
    and k: "known ?bc (unat old)" "known ?bc (unat m)" "known ?bc (unat n)"
    and pos: "0 < unat old" "0 < unat m" "0 < unat n" and neq: "m \<noteq> old"
    and par: "parent (?bc ! unat n) = m" "parent (?bc ! unat m) = parent (?bc ! unat old)"
    using assms(1) by (auto simp: rival_blocks_def)
  note len = tree_ok_length [OF tree k(1)] tree_ok_length [OF tree k(2)] tree_ok_length [OF tree k(3)]
  note less = known_less [OF k(1)] known_less [OF k(2)] known_less [OF k(3)]
  have "unat (?ls ! unat m) = unat (?ls ! unat old)"
    using tree_okD(6) [OF tree k(1) pos(1)] tree_okD(6) [OF tree k(2) pos(2)] par(2) by simp
  then have same: "?ls ! unat m = ?ls ! unat old" by (rule unsigned_word_eqI)
  have more: "?ls ! unat n > ?ls ! unat old"
    using tree_okD(6) [OF tree k(3) pos(3)] par(1) same by (simp add: word_less_nat_alt)
  obtain f where f: "Suc (length ?bc) = Suc (Suc f)" using less(1) by (cases "length ?bc") auto
  define s1 where "s1 = fst (v_confirm c i (?bc ! unat n) (st\<lparr>head := n\<rparr>))"
  have s1: "v_confirm c i (?bc ! unat n) (st\<lparr>head := n\<rparr>) = (s1, Inr ())"
    and f1: "blockchain s1 = ?bc" "lengths s1 = ?ls" "head s1 = n" "is_miner s1 = is_miner st"
      "is_miner st \<Longrightarrow> set (pending_transactions s1) = set (pending_transactions st) - tx_id ` set tn"
    by (simp_all add: s1_def v_confirm_run [OF assms(4)] fold_set_del)
  have up: "climb_new (Suc (Suc f)) (v_confirm c i) old n (st\<lparr>head := n\<rparr>) = (s1, Inr m)"
    using s1 f1 len less same more par
    by (simp add: bind_eff_def [of "v_confirm c i (blockchain st ! unat n)"])
  define s2 where "s2 = fst (v_confirm c i (?bc ! unat m) s1)"
  have s2: "v_confirm c i (?bc ! unat m) s1 = (s2, Inr ())"
    and f2: "blockchain s2 = ?bc" "head s2 = n" "is_miner s2 = is_miner st"
      "is_miner st \<Longrightarrow> set (pending_transactions s2) = set (pending_transactions st) - tx_id ` set tn - tx_id ` set tm"
    using f1 by (simp_all add: s2_def v_confirm_run [OF assms(3)] fold_set_del)
  define s3 where "s3 = fst (v_unconfirm c i (?bc ! unat old) s2)"
  have s3: "v_unconfirm c i (?bc ! unat old) s2 = (s3, Inr ())"
    and f3: "blockchain s3 = ?bc" "head s3 = n"
      "is_miner st \<Longrightarrow> set (pending_transactions s3)
         = (set (pending_transactions st) - tx_id ` set tn - tx_id ` set tm) \<union> tx_id ` set to"
    using f2 by (simp_all add: s3_def v_unconfirm_run [OF assms(2)] fold_set_add)
  have both: "climb_both (Suc (Suc f)) (v_confirm c i) (v_unconfirm c i) old m s1 = (s3, Inr ())"
    using s2 s3 f1 less neq par
    by (simp add: bind_eff_def [of "v_confirm c i (blockchain st ! unat m)"]
        bind_eff_def [of "v_unconfirm c i (blockchain st ! unat old)"])
  have "update_head (v_confirm c i) (v_unconfirm c i) n st = (s3, Inr ())"
    using up both h f by (simp del: climb_new.simps climb_both.simps add: update_head_def
        bind_eff_def [of "climb_new (Suc (Suc f)) (v_confirm c i) old n"])
  then show ?thesis using f3 by blast
qed

text \<open>Two rival blocks of the same height usually hold the same transactions. When the chain
  moves from one to the other, the miner confirms the new block before it unconfirms the old
  one: a transaction of both ends up pending again, although a block of the new main chain
  holds it, and will be mined a second time.\<close>

theorem reorg_leaves_confirmed_pending:
  assumes "rival_blocks st old m n" and "is_miner st"
    and "transactions (blockchain st ! unat old) = Some to" "transactions (blockchain st ! unat m) = Some tm"
    and "transactions (blockchain st ! unat n) = Some tn"
    and "t \<in> set to" "t \<in> set tm"
  shows "\<exists>st'. update_head (v_confirm c i) (v_unconfirm c i) n st = (st', Inr ())
    \<and> tx_id t \<in> set (pending_transactions st')
    \<and> unat m \<in> set (chain (blockchain st') (unat (head st'))) \<and> transactions (blockchain st' ! unat m) = Some tm"
proof -
  have tree: "tree_ok (blockchain st) (lengths st)" "known (blockchain st) (unat n)" "0 < unat n" "0 < unat m"
    "parent (blockchain st ! unat n) = m"
    using assms(1) by (auto simp: rival_blocks_def)
  have "unat m \<in> set (chain (blockchain st) (unat n))"
    using tree tree_okD(2) [OF tree(1-3)]
    by (simp add: chain.simps [of "blockchain st" "unat n"] chain.simps [of "blockchain st" "unat m"])
  then show ?thesis using reorg_run [OF assms(1,3-5), of c i] assms(2,4,6) by auto
qed

definition rival_miner :: miner_state where
  "rival_miner = example_miner\<lparr>
     blockchain := [hd (blockchain example_miner), example_block 1 0, example_block 2 0, example_block 3 2],
     lengths := [1, 2, 2, 3], head := 1\<rparr>"

theorem reorg_leaves_confirmed_pending_witness:
  "\<exists>st'. update_head (v_confirm example_statics 7) (v_unconfirm example_statics 7) 3 rival_miner = (st', Inr ())
    \<and> 1 \<in> set (pending_transactions st') \<and> 2 \<in> set (chain (blockchain st') (unat (head st')))"
proof -
  have bc: "blockchain rival_miner = [\<lparr>blk_id = 1, parent = 0, miner = - 1, transactions = Some []\<rparr>,
      example_block 1 0, example_block 2 0, example_block 3 2]"
    by (simp add: rival_miner_def example_miner_def miner_new_def tiny_new_def blk_new_def example_statics_def
        Let_def tiny.defs)
  have ls: "lengths rival_miner = [1, 2, 2, 3]" by (simp add: rival_miner_def)
  have four: "k < 4 \<longleftrightarrow> k = 0 \<or> k = 1 \<or> k = 2 \<or> k = 3" for k :: nat by arith
  have known: "known (blockchain rival_miner) k \<longleftrightarrow> k < 4" for k
  proof (cases "k < 4")
    case True
    then consider "k = 0" | "k = 1" | "k = 2" | "k = 3" unfolding four by blast
    then show ?thesis by cases (simp_all add: known_def example_block_def no_id_def pending_id_def bc)
  qed (simp add: known_def bc)
  have "unat (blk_id (blockchain rival_miner ! k)) = k \<and> unat (parent (blockchain rival_miner ! k)) < k
      \<and> known (blockchain rival_miner) (unat (parent (blockchain rival_miner ! k)))
      \<and> transactions (blockchain rival_miner ! k) \<noteq> None \<and> k < length (lengths rival_miner)
      \<and> unat (lengths rival_miner ! k) = Suc (unat (lengths rival_miner ! unat (parent (blockchain rival_miner ! k))))"
    if "k < 4" "0 < k" for k
  proof -
    from that consider "k = 1" | "k = 2" | "k = 3" unfolding four by blast
    then show ?thesis unfolding known ls by cases (simp_all add: bc example_block_def)
  qed
  then have "tree_ok (blockchain rival_miner) (lengths rival_miner)"
    unfolding tree_ok_def known ls by (simp add: bc)
  then have "rival_blocks rival_miner 1 2 3"
    by (simp add: rival_blocks_def known) (simp add: rival_miner_def example_block_def)
  moreover have "is_miner rival_miner"
    by (simp add: rival_miner_def example_miner_def miner_new_def tiny_new_def blk_new_def example_statics_def
        Let_def tiny.defs miner_state.defs)
  moreover define t where "t = \<lparr>source_node = 8, destination_node = 7, amount = 2 :: real, tx_id = 1 :: u64\<rparr>"
  moreover have "transactions (blockchain rival_miner ! unat (1 :: u64)) = Some [t]"
    "transactions (blockchain rival_miner ! unat (2 :: u64)) = Some [t]"
    "transactions (blockchain rival_miner ! unat (3 :: u64)) = Some [t]"
    by (simp_all add: bc example_block_def t_def)
  ultimately have "\<exists>st'. update_head (v_confirm example_statics 7) (v_unconfirm example_statics 7) 3 rival_miner = (st', Inr ())
    \<and> tx_id t \<in> set (pending_transactions st')
    \<and> unat (2 :: u64) \<in> set (chain (blockchain st') (unat (head st')))
    \<and> transactions (blockchain st' ! unat (2 :: u64)) = Some [t]"
    by (intro reorg_leaves_confirmed_pending [where old = 1 and to = "[t]" and tn = "[t]"]) simp_all
  then show ?thesis by (auto simp: t_def)
qed

end
