(* ===== verification/Selfish.thy ===== *)
theory Selfish
  imports Tinycoin_Miner
begin

text \<open>
  The coordinator of the selfish miners (\<open>examples/tinycoin/selfish.hpp\<close>): a miner of its own,
  outside the network, that keeps the blocks its members have mined but not published. Here are
  its state and the parts of its methods that run under its lock; the calls that leave it (the
  blocks sent to the members) are in theory \<open>Tinycoin_Net\<close>. \<open>members\<close> holds the ids of the
  members in increasing order, which stand for the pointers to their policies.
\<close>

section \<open>The coordinator\<close>

record coordinator =
  coord_node :: miner_state
  our_chain :: "block list"
  members :: "node_id list"
  blocks_seen :: "u64 list"
  starting_height :: u64
  published_blocks :: u64
  our_head :: u64
  private_pending :: "u64 list"

definition coord_new :: "u64 \<Rightarrow> statics \<Rightarrow> coordinator \<times> statics" where
  "coord_new r c =
     (let (nd, c') = miner_new True No_Policy 0 r c
      in (\<lparr>coord_node = nd, our_chain = [], members = [], blocks_seen = [], starting_height = 0,
           published_blocks = 0, our_head = 0, private_pending = []\<rparr>, c'))"

definition on_coord_node :: "(miner_state, 'a) eff \<Rightarrow> (coordinator, 'a) eff" where
  "on_coord_node f co = (case f (coord_node co) of (nd, r) \<Rightarrow> (co\<lparr>coord_node := nd\<rparr>, r))"

definition clear_chain :: "(coordinator, unit) eff" where
  "clear_chain =
     bind_eff (mod_eff (\<lambda>co. co\<lparr>our_chain := [], published_blocks := 0, our_head := head (coord_node co)\<rparr>)) (\<lambda>_.
     bind_eff (get_eff (\<lambda>co. vec_get (lengths (coord_node co)) (unat (head (coord_node co))))) (\<lambda>r.
     bind_eff (res_eff r) (\<lambda>l.
     mod_eff (\<lambda>co. co\<lparr>starting_height := l, private_pending := pending_transactions (coord_node co)\<rparr>))))"

definition add_block :: "block \<Rightarrow> (coordinator, unit) eff" where
  "add_block blk =
     bind_eff (res_eff (txs_of blk)) (\<lambda>ts.
     mod_eff (\<lambda>co. co\<lparr>private_pending := fold (\<lambda>tx. set_del (tx_id tx)) ts (private_pending co),
                      our_chain := our_chain co @ [blk], our_head := blk_id blk\<rparr>))"

text \<open>\<open>flush_chain_\<close>, with what it appends to \<open>to_send\<close>.\<close>

definition flush_chain_in :: "(coordinator, block list) eff" where
  "flush_chain_in =
     bind_eff (get_eff members) (\<lambda>ms.
     if ms = [] then ret_eff []
     else bind_eff (get_eff our_chain) (\<lambda>to_send.
          bind_eff clear_chain (\<lambda>_. ret_eff to_send)))"

definition add_member :: "node_id \<Rightarrow> coordinator \<Rightarrow> coordinator" where
  "add_member i co = co\<lparr>members := set_add i (members co)\<rparr>"

definition is_member :: "node_id \<Rightarrow> coordinator \<Rightarrow> bool" where
  "is_member i co \<longleftrightarrow> i \<in> set (members co)"

definition get_head :: "coordinator \<Rightarrow> u64" where
  "get_head co = our_head co"

definition coord_transaction :: "transaction \<Rightarrow> (coordinator, unit) eff" where
  "coord_transaction tx =
     bind_eff (on_coord_node (v_handle_transaction tx)) (\<lambda>_.
     mod_eff (\<lambda>co. co\<lparr>private_pending := set_add (tx_id tx) (private_pending co)\<rparr>))"

definition add_transactions :: "u64 \<Rightarrow> block \<Rightarrow> coordinator \<Rightarrow> block res" where
  "add_transactions limit blk co =
     bind_res (txs_of blk) (\<lambda>ts.
     bind_res (fill_block limit (received_transactions (coord_node co)) (private_pending co) ts) (\<lambda>ts'.
     Inr (blk\<lparr>transactions := Some ts'\<rparr>)))"

definition publish_first :: "(coordinator, block list) eff" where
  "publish_first =
     bind_eff (get_eff our_chain) (\<lambda>ch.
     case ch of [] \<Rightarrow> res_eff (Inl (UB ''front of an empty deque''))
     | b # bs \<Rightarrow>
         bind_eff (mod_eff (\<lambda>co. co\<lparr>our_chain := bs, published_blocks := published_blocks co + 1\<rparr>)) (\<lambda>_.
         ret_eff [b]))"

definition our_height :: "coordinator \<Rightarrow> u64" where
  "our_height co = starting_height co + of_nat (length (our_chain co)) + published_blocks co"

text \<open>\<open>others_block\<close> and \<open>our_block\<close> under the lock: the blocks to send.\<close>

definition others_decide :: "block \<Rightarrow> (coordinator, block list) eff" where
  "others_decide blk =
     bind_eff (get_eff (\<lambda>co. is_member (miner blk) co \<or> blk_id blk \<in> set (blocks_seen co))) (\<lambda>skip.
     if skip then ret_eff []
     else
       bind_eff (mod_eff (\<lambda>co. co\<lparr>blocks_seen := set_add (blk_id blk) (blocks_seen co)\<rparr>)) (\<lambda>_.
       bind_eff (get_eff (\<lambda>co. head (coord_node co))) (\<lambda>h.
       if blk_id blk \<noteq> h then ret_eff []
       else
         bind_eff (get_eff (\<lambda>co. vec_get (lengths (coord_node co)) (unat (blk_id blk)))) (\<lambda>r.
         bind_eff (res_eff r) (\<lambda>l.
         bind_eff (get_eff our_height) (\<lambda>ours.
         if ours < l then bind_eff clear_chain (\<lambda>_. ret_eff [])
         else if ours = l then publish_first
         else if ours = l + 1 then flush_chain_in
         else publish_first))))))"

definition our_decide :: "block \<Rightarrow> (coordinator, block list) eff" where
  "our_decide blk =
     bind_eff (add_block blk) (\<lambda>_.
     bind_eff (get_eff (\<lambda>co. vec_get (lengths (coord_node co)) (unat (head (coord_node co))))) (\<lambda>r.
     bind_eff (res_eff r) (\<lambda>l.
     bind_eff (get_eff (\<lambda>co. our_height co = l + 1
                            \<and> published_blocks co + of_nat (length (our_chain co)) > 1)) (\<lambda>won.
     if won then flush_chain_in else ret_eff []))))"

section \<open>What the coordinator decides\<close>

text \<open>Its own node is a miner's, and the chain it reports does not overtake that node's head.\<close>

definition coord_inv :: "coordinator \<Rightarrow> bool" where
  "coord_inv co \<longleftrightarrow> tiny_inv {} (coord_node co)
     \<and> unat (starting_height co) + unat (published_blocks co)
         \<le> unat (lengths (coord_node co) ! unat (head (coord_node co)))"

lemma clear_chain_run:
  assumes "tiny_inv {} (coord_node co)"
  shows "clear_chain co = (co\<lparr>our_chain := [], published_blocks := 0, our_head := head (coord_node co),
     starting_height := lengths (coord_node co) ! unat (head (coord_node co)),
     private_pending := pending_transactions (coord_node co)\<rparr>, Inr ())"
  using tree_ok_length [OF tiny_invD(1,2) [OF assms]]
  by (simp add: clear_chain_def mod_eff_def)

abbreviation coord_receive :: "nat \<Rightarrow> statics \<Rightarrow> block \<Rightarrow> (coordinator, bool) eff" where
  "coord_receive fuel c blk \<equiv>
     on_coord_node (handle_block fuel (accept_block (v_confirm c (- 1)) (v_unconfirm c (- 1))) no_after blk)"

lemma coord_receive_run:
  assumes "tiny_inv {} (coord_node co)" "blk_ok blk"
    and "max (length (blockchain (coord_node co))) (Suc (uid blk)) \<le> uid blk + fuel"
  shows "\<exists>nd. coord_receive fuel c blk co = (co\<lparr>coord_node := nd\<rparr>, Inr (\<not> seen (blockchain (coord_node co)) (uid blk)))
    \<and> tiny_inv {} nd \<and> longer (coord_node co) nd"
  using any_node.handle_block_spec [OF assms, of c "- 1"] by (auto simp: on_coord_node_def advanced_def)

text \<open>The coordinator never takes the first block of an empty private chain: if what it has
  published does not overtake its node's head, then it handles every block of others that its
  node had not seen before and decides without an error, and the invariant holds again unless
  it has just published one block (which its node is then about to receive).\<close>

theorem others_block_safe:
  assumes "coord_inv co" and "blk_ok blk" and "\<not> seen (blockchain (coord_node co)) (uid blk)"
    and "max (length (blockchain (coord_node co))) (Suc (uid blk)) \<le> uid blk + fuel"
    and "coord_receive fuel c blk co = (co1, Inr True)"
  shows "\<exists>co2 to_send. others_decide blk co1 = (co2, Inr to_send)
    \<and> (coord_inv co2 \<or> (\<exists>b. to_send = [b] \<and> our_chain co1 = b # our_chain co2
                             \<and> published_blocks co2 = published_blocks co1 + 1))"
proof -
  let ?n = "coord_node co"
  have inv: "tiny_inv {} ?n" and reach: "unat (starting_height co) + unat (published_blocks co)
      \<le> unat (lengths ?n ! unat (head ?n))"
    using assms(1) by (simp_all add: coord_inv_def)
  obtain nd where nd: "co1 = co\<lparr>coord_node := nd\<rparr>" "tiny_inv {} nd" "longer ?n nd"
    using coord_receive_run [OF inv assms(2,4), of c] assms(5) by auto
  note tree = tiny_invD(1) [OF inv] tiny_invD(1) [OF nd(2)]
  note known = tiny_invD(2) [OF inv] tiny_invD(2) [OF nd(2)]
  have h: "unat (lengths ?n ! unat (head ?n)) = Suc (height ?n)" "unat (lengths nd ! unat (head nd)) = Suc (height nd)"
    using tree_ok_height [OF tree(1) known(1)] tree_ok_height [OF tree(2) known(2)] by (simp_all add: height_def)
  then have grown: "unat (starting_height co1) + unat (published_blocks co1) \<le> unat (lengths nd ! unat (head nd))"
    using reach nd(3) by (auto simp: longer_def nd(1))
  have cn: "coord_node co1 = nd" by (simp add: nd(1))
  have l: "unat (head nd) < length (lengths nd)" by (rule tree_ok_length [OF tree(2) known(2)])
  let ?c1 = "co1\<lparr>blocks_seen := set_add (blk_id blk) (blocks_seen co1)\<rparr>"
  have inv1: "coord_inv ?c1" "coord_inv co1" using nd grown by (simp_all add: coord_inv_def)
  have keep: "coord_inv (co\<lparr>coord_node := nd, our_chain := [], published_blocks := 0, our_head := h,
      starting_height := lengths nd ! unat (head nd), private_pending := p, blocks_seen := s\<rparr>)" for h p s
    using nd(2) by (simp add: coord_inv_def)
  show ?thesis
  proof (cases "is_member (miner blk) co1 \<or> blk_id blk \<in> set (blocks_seen co1) \<or> blk_id blk \<noteq> head nd")
    case True
    then show ?thesis using inv1 nd(1) by (auto simp: others_decide_def)
  next
    case False
    then have "head nd \<noteq> head ?n" using assms(3) known_seen [OF known(1)] by auto
    then have higher: "height ?n < height nd" using nd(3) by (simp add: longer_def)
    then have above: "unat (starting_height co1) + unat (published_blocks co1) < unat (lengths nd ! unat (head nd))"
      using reach h nd(1) by simp
    have sum: "unat (starting_height co1 + published_blocks co1) = unat (starting_height co1) + unat (published_blocks co1)"
    proof (rule unat_add_no_wrap)
      show "unat (starting_height co1) + unat (published_blocks co1) < 2 ^ 64"
        using above unat_u64_less_power by (rule less_trans)
    qed
    have nonempty: "our_chain co1 \<noteq> []" if "\<not> our_height ?c1 < lengths nd ! unat (head nd)"
      using that above sum by (auto simp: our_height_def word_less_nat_alt)
    have publish: "\<exists>co2 b. publish_first ?c1 = (co2, Inr [b]) \<and> our_chain co1 = b # our_chain co2
        \<and> published_blocks co2 = published_blocks co1 + 1" if "our_chain co1 \<noteq> []"
      using that by (cases "our_chain co1") (auto simp: publish_first_def)
    have clear: "clear_chain ?c1 = (co\<lparr>coord_node := nd, our_chain := [], published_blocks := 0, our_head := head nd,
        starting_height := lengths nd ! unat (head nd), private_pending := pending_transactions nd,
        blocks_seen := set_add (blk_id blk) (blocks_seen co1)\<rparr>, Inr ())"
      using clear_chain_run [of ?c1] nd by simp
    have flush: "\<exists>co2 ts. flush_chain_in ?c1 = (co2, Inr ts) \<and> coord_inv co2"
      using clear keep inv1 by (auto simp: flush_chain_in_def bind_eff_def [of clear_chain])
    have "others_decide blk co1 =
      (if our_height ?c1 < lengths nd ! unat (head nd) then bind_eff clear_chain (\<lambda>_. ret_eff [])
       else if our_height ?c1 = lengths nd ! unat (head nd) then publish_first
       else if our_height ?c1 = lengths nd ! unat (head nd) + 1 then flush_chain_in
       else publish_first) ?c1"
      using False l cn by (auto simp: others_decide_def)
    then show ?thesis
      using nonempty publish flush clear keep by (auto simp: bind_eff_def [of clear_chain])
  qed
qed

definition example_coord :: coordinator where
  "example_coord = (fst (coord_new 0 example_statics))\<lparr>members := [3, 5]\<rparr>"

lemma coord_new_node: "coord_node (fst (coord_new r c)) = tiny.extend (fst (tiny_new r c)) (miner_state.fields True [] No_Policy 0)"
  by (simp add: coord_new_def miner_new_def Let_def split: prod.split)

lemma tiny_inv_extend:
  "tiny_inv R (tiny.extend st e) = tiny_inv R st" "blockchain (tiny.extend st e) = blockchain st"
  "lengths (tiny.extend st e) = lengths st" "head (tiny.extend st e) = head st"
  by (simp_all add: tiny_inv_def tiny.defs)

lemma example_coord_inv: "coord_inv example_coord" "coord_node example_coord = tiny.extend example_node (miner_state.fields True [] No_Policy 0)"
proof -
  show n: "coord_node example_coord = tiny.extend example_node (miner_state.fields True [] No_Policy 0)"
    by (simp add: example_coord_def coord_new_node example_node_def)
  show "coord_inv example_coord"
    unfolding coord_inv_def n tiny_inv_extend using example_node_inv(1)
    by (simp add: example_coord_def coord_new_def miner_new_def Let_def split: prod.split)
qed

theorem others_block_safe_witness:
  "\<exists>co1 co2 to_send. coord_receive 5 example_statics (example_block 1 0) example_coord = (co1, Inr True)
    \<and> others_decide (example_block 1 0) co1 = (co2, Inr to_send)"
proof -
  have b: "blk_ok (example_block 1 0)" "uid (example_block 1 0) = 1" using example_block_ok [of 0 1] by simp_all
  have fresh: "\<not> seen (blockchain (coord_node example_coord)) (uid (example_block 1 0))"
    and len: "max (length (blockchain (coord_node example_coord))) (Suc (uid (example_block 1 0))) \<le> uid (example_block 1 0) + 5"
    by (simp_all add: example_coord_inv(2) tiny_inv_extend example_node_inv b(2))
  have "tiny_inv {} (coord_node example_coord)" using example_coord_inv(1) by (simp add: coord_inv_def)
  from coord_receive_run [OF this b(1) len, of example_statics] fresh obtain co1 where
    co1: "coord_receive 5 example_statics (example_block 1 0) example_coord = (co1, Inr True)" by auto
  from others_block_safe [OF example_coord_inv(1) b(1) fresh len co1] co1 show ?thesis by blast
qed

text \<open>The coordinator starts with \<open>starting_height\<close> 0 although the chain starts with the
  genesis block at height 1. So the first two blocks its members mine in private count as a won
  race between tied branches, and both are published at once; started at height 1, the very
  same blocks stay private, a lead of two.\<close>

theorem first_lead_given_away:
  fixes r :: u64 and c :: statics
  assumes "transactions b1 \<noteq> None" "transactions b2 \<noteq> None" and "ms \<noteq> []"
  defines "co \<equiv> (fst (coord_new r c))\<lparr>members := ms\<rparr>"
  shows "(\<exists>co1 co2. our_decide b1 co = (co1, Inr []) \<and> our_decide b2 co1 = (co2, Inr [b1, b2]))
    \<and> (\<exists>co1 co2. our_decide b1 (co\<lparr>starting_height := 1\<rparr>) = (co1, Inr []) \<and> our_decide b2 co1 = (co2, Inr [])
          \<and> our_chain co2 = [b1, b2])"
proof -
  obtain t1 t2 where t: "transactions b1 = Some t1" "transactions b2 = Some t2" using assms(1,2) by blast
  have n: "lengths (coord_node co) = [1, 0]" "head (coord_node co) = 0" "our_chain co = []" "starting_height co = 0"
    "published_blocks co = 0" "members co = ms"
    by (simp_all add: co_def coord_new_def miner_new_def tiny_new_def blk_new_def Let_def tiny.defs)
  show ?thesis
    using t n assms(3)
    by (simp add: our_decide_def add_block_def txs_of_def our_height_def mod_eff_def [symmetric]
        flush_chain_in_def clear_chain_def bind_eff_assoc)
qed

theorem first_lead_given_away_witness:
  "\<exists>co1 co2. our_decide (example_block 1 0) example_coord = (co1, Inr [])
    \<and> our_decide (example_block 2 1) co1 = (co2, Inr [example_block 1 0, example_block 2 1])"
proof -
  have "transactions (example_block 1 0) \<noteq> None" "transactions (example_block 2 1) \<noteq> None" "[3, 5 :: u64] \<noteq> []"
    by (simp_all add: example_block_def)
  from first_lead_given_away [OF this, of 0 example_statics] show ?thesis by (auto simp: example_coord_def)
qed

end
