(* ===== verification/Cuckoo.thy ===== *)
theory Cuckoo
  imports Sim_Prelude
begin

unbundle bit_operations_syntax

text \<open>
  The hash set of \<open>include/cuckoo.hpp\<close> at its one instance in the program,
  \<open>cuckoo_hash_set<node_id_t>\<close>: 64-bit keys, two slots per bucket, and the value \<open>-1\<close> for
  a free slot. The buckets are one vector; a key belongs in bucket \<open>hash_1\<close> or \<open>hash_2\<close>.

  The first part translates the class. The second part gives the table's invariant (every
  key in one of its two buckets, none twice) and shows what the operations do to the set of
  stored keys; \<open>key_set\<close> is the contract the rest of the program uses, interpreted on the
  class at the end. The variables \<open>h1\<close> and \<open>h2\<close> of the code are \<open>int\<close>: a hash that does
  not fit is reported as an error of the model.
\<close>

section \<open>The class\<close>

definition missing :: u64 where "missing = - 1"

definition bucket_size :: nat where "bucket_size = 16 div 8"

lemma bucket_size_2 [simp]: "bucket_size = 2"
  by (simp add: bucket_size_def)

record cuckoo =
  ht :: "u64 list"
  hmask :: u64
  sz :: nat

definition hash_1 :: "u64 \<Rightarrow> u64 \<Rightarrow> u64" where
  "hash_1 m k = k AND m"

definition hash_2 :: "u64 \<Rightarrow> u64 \<Rightarrow> u64" where
  "hash_2 m k = NOT k AND m"

text \<open>\<open>int h1 = hash_1(k)\<close>\<close>

definition int_index :: "u64 \<Rightarrow> nat res" where
  "int_index h = (if unat h < 2 ^ 31 then Inr (unat h) else Inl (UB ''narrowing to int''))"

definition capacity :: "u64 \<Rightarrow> u64" where
  "capacity m = (m + 1) * of_nat bucket_size"

text \<open>The scan of a bucket for a value (a free slot, or a key to erase).\<close>

function find_pos :: "u64 list \<Rightarrow> nat \<Rightarrow> u64 \<Rightarrow> nat \<Rightarrow> nat option res" where
  "find_pos table h x pos =
     (if pos < bucket_size then
        bind_res (vec_get table (h * bucket_size + pos)) (\<lambda>y.
          if y = x then Inr (Some pos) else find_pos table h x (pos + 1))
      else Inr None)"
  by pat_completeness auto
termination
  by (relation "measure (\<lambda>(table, h, x, pos). bucket_size - pos)") auto

declare find_pos.simps [simp del]

text \<open>The move of a full bucket by one slot, from position \<open>pos\<close> on.\<close>

function shift_bucket :: "u64 list \<Rightarrow> nat \<Rightarrow> nat \<Rightarrow> u64 list" where
  "shift_bucket table h pos =
     (if pos < bucket_size then
        shift_bucket (table[h * bucket_size + pos - 1 := table ! (h * bucket_size + pos)]) h (pos + 1)
      else table)"
  by pat_completeness auto
termination
  by (relation "measure (\<lambda>(table, h, pos). bucket_size - pos)") auto

declare shift_bucket.simps [simp del]

text \<open>
  The displacement loop of the private \<open>insert\<close>, with the number of iterations left; the
  result holds the key still without a place, if there is one.
\<close>

primrec cuckoo_loop ::
    "nat \<Rightarrow> u64 \<Rightarrow> bool \<Rightarrow> u64 \<Rightarrow> u64 list \<Rightarrow> (u64 option \<times> u64 list) res" where
  "cuckoo_loop 0 m use_hash_1 k table = Inr (Some k, table)"
| "cuckoo_loop (Suc n) m use_hash_1 k table =
     (let hash = (if use_hash_1 then hash_1 m k else hash_2 m k); h = unat hash
      in bind_res (find_pos table h missing 0) (\<lambda>found.
         let (cuckooed, table') =
           (case found of
              None \<Rightarrow> (table ! (h * bucket_size),
                       (shift_bucket table h 1)[h * bucket_size + bucket_size - 1 := k])
            | Some pos \<Rightarrow> (table ! (h * bucket_size + pos), table[h * bucket_size + pos := k]))
         in if cuckooed = missing then Inr (None, table')
            else cuckoo_loop n m (hash = hash_2 m cuckooed) cuckooed table'))"

text \<open>\<open>rehash\<close>, over the \<open>insert\<close> that it calls for each stored key.\<close>

definition rehash ::
    "(u64 \<Rightarrow> u64 list \<times> u64 \<Rightarrow> (u64 list \<times> u64) res) \<Rightarrow> u64 list \<Rightarrow> u64 \<Rightarrow> (u64 list \<times> u64) res" where
  "rehash ins table oldmask =
     (let m = (if oldmask = 0 then 1 else push_bit 1 oldmask OR oldmask);
          newt = replicate (unat (capacity m)) missing
      in fold_res (\<lambda>i st. bind_res (vec_get table i) (\<lambda>x. if x \<noteq> missing then ins x st else Inr st))
           [0..<unat ((oldmask + 1) * of_nat bucket_size)] (newt, m))"

primrec insert_tbl :: "nat \<Rightarrow> u64 \<Rightarrow> u64 list \<times> u64 \<Rightarrow> (u64 list \<times> u64) res" where
  "insert_tbl 0 k tm = Inl No_Return"
| "insert_tbl (Suc fuel) k tm =
     (let table = fst tm; m = snd tm in
      bind_res (int_index (hash_1 m k)) (\<lambda>h1.
      bind_res (find_pos table h1 missing 0) (\<lambda>p1.
      case p1 of Some pos \<Rightarrow> Inr (table[h1 * bucket_size + pos := k], m)
      | None \<Rightarrow>
      bind_res (int_index (hash_2 m k)) (\<lambda>h2.
      bind_res (find_pos table h2 missing 0) (\<lambda>p2.
      case p2 of Some pos \<Rightarrow> Inr (table[h2 * bucket_size + pos := k], m)
      | None \<Rightarrow>
      bind_res (cuckoo_loop (unat m) m True k table) (\<lambda>(left, table').
      case left of None \<Rightarrow> Inr (table', m)
      | Some k' \<Rightarrow>
      bind_res (rehash (insert_tbl fuel) table' m) (insert_tbl fuel k')))))))"

definition cuckoo_empty :: cuckoo where
  "cuckoo_empty = \<lparr>ht = replicate bucket_size missing, hmask = 0, sz = 0\<rparr>"

definition cuckoo_copy :: "cuckoo \<Rightarrow> cuckoo res" where
  "cuckoo_copy other =
     bind_res (fold_res (\<lambda>i t. bind_res (vec_get (ht other) i) (\<lambda>x. Inr (t @ [x])))
                 [0..<unat (capacity (hmask other))] [])
       (\<lambda>t. Inr \<lparr>ht = t, hmask = hmask other, sz = sz other\<rparr>)"

text \<open>\<open>count\<close>: the loop over the slots of both buckets, \<open>(bucket_size*h)|i\<close> as index.\<close>

definition cuckoo_count :: "cuckoo \<Rightarrow> u64 \<Rightarrow> bool res" where
  "cuckoo_count c k =
     bind_res (int_index (hash_1 (hmask c) k)) (\<lambda>h1.
     bind_res (int_index (hash_2 (hmask c) k)) (\<lambda>h2.
     fold_res (\<lambda>i result.
         bind_res (vec_get (ht c) (bucket_size * h1 OR i)) (\<lambda>x.
         bind_res (vec_get (ht c) (bucket_size * h2 OR i)) (\<lambda>y.
         Inr (result \<or> x = k \<or> y = k))))
       [0..<bucket_size] False))"

text \<open>
  The fuel for the public \<open>insert\<close>: every level of the recursion has a mask one bit longer,
  and hashes have to fit an \<open>int\<close>.
\<close>

definition cuckoo_fuel :: nat where "cuckoo_fuel = 33"

definition cuckoo_insert :: "cuckoo \<Rightarrow> u64 \<Rightarrow> cuckoo res" where
  "cuckoo_insert c k =
     bind_res (cuckoo_count c k) (\<lambda>found.
       if found then Inr c
       else bind_res (insert_tbl cuckoo_fuel k (ht c, hmask c)) (\<lambda>(t, m).
         Inr (c\<lparr>ht := t, hmask := m, sz := sz c + 1\<rparr>)))"

definition cuckoo_erase :: "cuckoo \<Rightarrow> u64 \<Rightarrow> cuckoo res" where
  "cuckoo_erase c k =
     bind_res (int_index (hash_1 (hmask c) k)) (\<lambda>h1.
     bind_res (find_pos (ht c) h1 k 0) (\<lambda>p1.
     case p1 of Some pos \<Rightarrow> Inr (c\<lparr>ht := (ht c)[h1 * bucket_size + pos := missing], sz := sz c - 1\<rparr>)
     | None \<Rightarrow>
     bind_res (int_index (hash_2 (hmask c) k)) (\<lambda>h2.
     bind_res (find_pos (ht c) h2 k 0) (\<lambda>p2.
     case p2 of Some pos \<Rightarrow> Inr (c\<lparr>ht := (ht c)[h2 * bucket_size + pos := missing], sz := sz c - 1\<rparr>)
     | None \<Rightarrow> Inr c))))"

definition cuckoo_size :: "cuckoo \<Rightarrow> nat" where "cuckoo_size c = sz c"

definition cuckoo_is_empty :: "cuckoo \<Rightarrow> bool" where "cuckoo_is_empty c \<longleftrightarrow> sz c = 0"

text \<open>
  The iterator: an offset that its constructor and \<open>operator++\<close> advance to the next
  occupied slot or to the capacity; a range-based \<open>for\<close> visits the slots it stops at.
\<close>

function iter_skip :: "cuckoo \<Rightarrow> nat \<Rightarrow> nat res" where
  "iter_skip c offset =
     (if offset < unat (capacity (hmask c)) then
        bind_res (vec_get (ht c) offset) (\<lambda>x.
          if x = missing then iter_skip c (offset + 1) else Inr offset)
      else Inr offset)"
  by pat_completeness auto
termination
  by (relation "measure (\<lambda>(c, offset). unat (capacity (hmask c)) - offset)") auto

definition iter_begin :: "cuckoo \<Rightarrow> nat res" where "iter_begin c = iter_skip c 0"

definition iter_end :: "cuckoo \<Rightarrow> nat" where "iter_end c = unat (capacity (hmask c))"

definition iter_next :: "cuckoo \<Rightarrow> nat \<Rightarrow> nat res" where "iter_next c offset = iter_skip c (offset + 1)"

declare iter_skip.simps [simp del]

text \<open>\<open>for (auto& x: c) body\<close> collects the elements in the order of the iteration.\<close>

primrec iter_from :: "nat \<Rightarrow> cuckoo \<Rightarrow> nat \<Rightarrow> u64 list res" where
  "iter_from 0 c offset = Inl No_Return"
| "iter_from (Suc fuel) c offset =
     (if offset = iter_end c then Inr []
      else bind_res (vec_get (ht c) offset) (\<lambda>x.
           bind_res (iter_next c offset) (\<lambda>offset'.
           bind_res (iter_from fuel c offset') (\<lambda>xs. Inr (x # xs)))))"

definition cuckoo_iter :: "cuckoo \<Rightarrow> u64 list res" where
  "cuckoo_iter c = bind_res (iter_begin c) (iter_from (unat (capacity (hmask c)) + 1) c)"

definition cuckoo_front :: "cuckoo \<Rightarrow> 32 word res" where
  "cuckoo_front c =
     bind_res (iter_begin c) (\<lambda>offset. bind_res (vec_get (ht c) offset) (\<lambda>x. Inr (ucast x)))"

text \<open>\<open>operator==\<close>: the sizes agree and every element of the other set is here.\<close>

definition cuckoo_eq :: "cuckoo \<Rightarrow> cuckoo \<Rightarrow> bool res" where
  "cuckoo_eq c oth =
     (if sz oth \<noteq> sz c then Inr False
      else bind_res (cuckoo_iter oth) (\<lambda>xs.
        fold_res (\<lambda>x ok. if ok then cuckoo_count c x else Inr False) xs True))"

text \<open>\<open>reserve\<close>: the doubling loop, then a fresh table; \<open>std::fill\<close> of a range.\<close>

primrec reserve_mask :: "nat \<Rightarrow> u64 \<Rightarrow> u64 \<Rightarrow> u64 res" where
  "reserve_mask 0 m n = Inl No_Return"
| "reserve_mask (Suc fuel) m n =
     (if m \<le> n div of_nat bucket_size then reserve_mask fuel (push_bit 1 m) n else Inr m)"

definition cuckoo_reserve :: "cuckoo \<Rightarrow> u64 \<Rightarrow> cuckoo res" where
  "cuckoo_reserve c n =
     (if n \<le> capacity (hmask c) then Inr c
      else bind_res (reserve_mask 65 (hmask c + 1) n) (\<lambda>m.
        Inr (c\<lparr>ht := replicate (unat (capacity m)) missing, hmask := m - 1\<rparr>)))"

definition fill_slots :: "u64 list \<Rightarrow> nat \<Rightarrow> u64 \<Rightarrow> u64 list res" where
  "fill_slots t n x = (if n \<le> length t then Inr (replicate n x @ drop n t)
                       else Inl (UB ''write past the table''))"

definition cuckoo_clear :: "cuckoo \<Rightarrow> cuckoo res" where
  "cuckoo_clear c =
     bind_res (fill_slots (ht c) (unat (of_nat bucket_size * capacity (hmask c))) missing)
       (\<lambda>t. Inr (c\<lparr>ht := t\<rparr>))"

section \<open>The table's invariant\<close>

text \<open>
  \<open>n\<close> is the number of bits of the mask. Every stored key is in one of its two buckets.
\<close>

definition live :: "u64 list \<Rightarrow> u64 list" where
  "live t = filter (\<lambda>x. x \<noteq> missing) t"

definition in_bucket :: "u64 \<Rightarrow> nat \<Rightarrow> u64 \<Rightarrow> bool" where
  "in_bucket m b k \<longleftrightarrow> b = unat (hash_1 m k) \<or> b = unat (hash_2 m k)"

definition tbl_inv :: "nat \<Rightarrow> u64 list \<Rightarrow> u64 \<Rightarrow> bool" where
  "tbl_inv n t m \<longleftrightarrow> n \<le> 31 \<and> m = mask n \<and> length t = 2 ^ (n + 1) \<and>
     (\<forall>i < length t. t ! i \<noteq> missing \<longrightarrow> in_bucket m (i div 2) (t ! i))"

lemma hash_less:
  assumes "n \<le> 31"
  shows "unat (hash_1 (mask n) k) < 2 ^ n" "unat (hash_2 (mask n) k) < 2 ^ n"
  using assms
  by (simp_all add: hash_1_def hash_2_def take_bit_eq_mask [symmetric] unsigned_take_bit_eq)

lemma hash_slots:
  assumes "tbl_inv n t m"
  shows "unat (hash_1 m k) * 2 + 1 < length t" "unat (hash_2 m k) * 2 + 1 < length t"
  using assms hash_less [of n k] by (auto simp: tbl_inv_def)

lemma int_index_hash:
  assumes "tbl_inv n t m"
  shows "int_index (hash_1 m k) = Inr (unat (hash_1 m k))"
    and "int_index (hash_2 m k) = Inr (unat (hash_2 m k))"
proof -
  have n: "n \<le> 31" "m = mask n" using assms by (auto simp: tbl_inv_def)
  have "(2 :: nat) ^ n \<le> 2 ^ 31" using n(1) by (rule power_increasing) simp
  then show "int_index (hash_1 m k) = Inr (unat (hash_1 m k))"
    "int_index (hash_2 m k) = Inr (unat (hash_2 m k))"
    using hash_less [OF n(1), of k] n(2) by (auto simp: int_index_def)
qed

lemma find_pos_bucket:
  assumes "h * 2 + 1 < length t"
  shows "find_pos t h x 0 =
    Inr (if t ! (h * 2) = x then Some 0 else if t ! (h * 2 + 1) = x then Some 1 else None)"
  using assms
  by (simp add: find_pos.simps [of t h x 0] find_pos.simps [of t h x "Suc 0"]
      find_pos.simps [of t h x "Suc (Suc 0)"])

lemma shift_bucket_2:
  "h * 2 + 1 < length t \<Longrightarrow> shift_bucket t h 1 = t[h * 2 := t ! (h * 2 + 1)]"
  by (simp add: shift_bucket.simps [of t h "Suc 0"] shift_bucket.simps [of _ h "Suc (Suc 0)"])

lemma mset_live: "mset (live t) = filter_mset (\<lambda>x. x \<noteq> missing) (mset t)"
  by (simp add: live_def)

lemma live_fill:
  assumes "i < length t" "t ! i = missing" "k \<noteq> missing"
  shows "mset (live (t[i := k])) = add_mset k (mset (live t))"
  using assms by (simp add: mset_live mset_update)

lemma live_clear:
  assumes "i < length t" "t ! i = k" "k \<noteq> missing"
  shows "add_mset k (mset (live (t[i := missing]))) = mset (live t)"
proof -
  have "k \<in># mset (live t)" using assms by (auto simp: mset_live)
  then show ?thesis using assms by (simp add: mset_live mset_update)
qed

lemma live_shift:
  assumes "j < length t" "i < length t" "i \<noteq> j" "t ! i \<noteq> missing" "k \<noteq> missing"
  shows "add_mset (t ! i) (mset (live (t[i := t ! j, j := k]))) = add_mset k (mset (live t))"
proof -
  have "t ! i \<in># mset t" using assms by simp
  then have "add_mset (t ! i) (mset (t[i := t ! j, j := k])) = add_mset k (mset t)"
    using assms by (simp add: mset_update add_mset_commute)
  then have "filter_mset (\<lambda>x. x \<noteq> missing) (add_mset (t ! i) (mset (t[i := t ! j, j := k])))
      = filter_mset (\<lambda>x. x \<noteq> missing) (add_mset k (mset t))" by simp
  then show ?thesis using assms by (simp add: mset_live)
qed

lemma live_memI: "i < length t \<Longrightarrow> t ! i \<noteq> missing \<Longrightarrow> t ! i \<in> set (live t)"
  by (simp add: live_def)

lemma live_no_missing [simp]: "missing \<notin> set (live t)"
  by (simp add: live_def)

lemma distinct_live_nth:
  assumes "distinct (live t)" "i < length t" "j < length t" "t ! i \<noteq> missing" "t ! i = t ! j"
  shows "i = j"
proof (rule ccontr)
  assume "i \<noteq> j"
  then obtain a b where ab: "a < b" "b < length t" "t ! a = t ! i" "t ! b = t ! i"
    using assms by (metis nat_neq_iff)
  have "t = take b t @ t ! b # drop (Suc b) t" using ab(2) by (rule id_take_nth_drop)
  then have "live t = live (take b t @ t ! b # drop (Suc b) t)" by simp
  also have "\<dots> = live (take b t) @ t ! b # live (drop (Suc b) t)"
    using ab(4) assms(4) by (simp add: live_def)
  finally have eq: "live t = live (take b t) @ t ! b # live (drop (Suc b) t)" .
  have "a < length (take b t)" using ab by simp
  then have "take b t ! a \<in> set (live (take b t))"
    using ab assms(4) by (intro live_memI) simp_all
  then have "t ! b \<in> set (live (take b t))" using ab by simp
  then show False using assms(1) eq by simp
qed

lemma tbl_inv_update:
  assumes "tbl_inv n t m" "in_bucket m (i div 2) k \<or> k = missing"
  shows "tbl_inv n (t[i := k]) m"
  using assms by (cases "i < length t") (auto simp: tbl_inv_def nth_list_update split: if_splits)

lemma in_bucket_hash [simp]:
  "in_bucket m (unat (hash_1 m k)) k" "in_bucket m (unat (hash_2 m k)) k"
  by (simp_all add: in_bucket_def)

lemma tbl_inv_place:
  assumes "tbl_inv n t m" "in_bucket m h k"
  shows "tbl_inv n (t[h * 2 := k]) m" "tbl_inv n (t[h * 2 + 1 := k]) m"
  using assms by (auto intro!: tbl_inv_update)

section \<open>Insertion\<close>

text \<open>What the displacement loop does: it exchanges keys, and loses none.\<close>

lemma cuckoo_loop_Suc:
  fixes use1 k m
  defines "hash \<equiv> if use1 then hash_1 m k else hash_2 m k"
  defines "h \<equiv> unat hash"
  assumes "h * 2 + 1 < length t" and "k \<noteq> missing"
  shows "cuckoo_loop (Suc i) m use1 k t =
    (if t ! (h * 2) = missing then Inr (None, t[h * 2 := k])
     else if t ! (h * 2 + 1) = missing then Inr (None, t[h * 2 + 1 := k])
     else cuckoo_loop i m (hash = hash_2 m (t ! (h * 2))) (t ! (h * 2))
            (t[h * 2 := t ! (h * 2 + 1), h * 2 + 1 := k]))"
  unfolding cuckoo_loop.simps Let_def hash_def [symmetric] h_def [symmetric]
  using assms(3) shift_bucket_2 [OF assms(3)] by (simp add: find_pos_bucket)

lemma cuckoo_loop_spec:
  assumes "tbl_inv n t m" "k \<noteq> missing"
  shows "\<exists>left t'. cuckoo_loop i m use1 k t = Inr (left, t') \<and> tbl_inv n t' m \<and>
    (case left of None \<Rightarrow> mset (live t') = add_mset k (mset (live t))
     | Some k' \<Rightarrow> k' \<noteq> missing \<and> add_mset k' (mset (live t')) = add_mset k (mset (live t)))"
  using assms
proof (induction i arbitrary: use1 k t)
  case (Suc i)
  define h where "h = unat (if use1 then hash_1 m k else hash_2 m k)"
  have hl: "h * 2 + 1 < length t" using hash_slots [OF Suc.prems(1)] by (simp add: h_def)
  have hb: "in_bucket m h k" by (simp add: h_def)
  note step = cuckoo_loop_Suc [of use1 m k t i, folded h_def, OF hl Suc.prems(2)]
  show ?case
  proof (cases "t ! (h * 2) = missing \<or> t ! (h * 2 + 1) = missing")
    case True
    then obtain j where j: "j = h * 2 \<or> j = h * 2 + 1" "t ! j = missing"
      "cuckoo_loop (Suc i) m use1 k t = Inr (None, t[j := k])"
      unfolding step by (cases "t ! (h * 2) = missing") auto
    have "j < length t" using j(1) hl by auto
    then have "mset (live (t[j := k])) = add_mset k (mset (live t))"
      using j(2) Suc.prems(2) by (rule live_fill)
    moreover have "tbl_inv n (t[j := k]) m"
      using tbl_inv_place [OF Suc.prems(1) hb] j(1) by auto
    ultimately show ?thesis using j(3) by auto
  next
    case False
    let ?c = "t ! (h * 2)" and ?t = "t[h * 2 := t ! (h * 2 + 1), h * 2 + 1 := k]"
    have "in_bucket m h (t ! (h * 2 + 1))"
      using Suc.prems(1) hl False by (auto simp: tbl_inv_def dest!: spec [of _ "h * 2 + 1"])
    then have inv: "tbl_inv n ?t m"
      by (intro tbl_inv_place Suc.prems(1) hb)
    have ms: "add_mset ?c (mset (live ?t)) = add_mset k (mset (live t))"
      using live_shift [of "h * 2 + 1" t "h * 2" k] hl False Suc.prems(2) by simp
    from Suc.IH [OF inv, of ?c] False show ?thesis
      unfolding step ms [symmetric] by (auto split: option.splits)
  qed
qed auto

text \<open>
  With as many mask bits as the keys have, the first bucket always has room: it can hold
  only the key whose complement hashes there.
\<close>

lemma room_in_first_bucket:
  assumes inv: "tbl_inv n t m" and "j \<le> n" and d: "distinct (live t)" and k: "k \<notin> set (live t)"
    and bits: "\<forall>x \<in> insert k (set (live t)). unat x < 2 ^ j"
  shows "t ! (unat (hash_1 m k) * 2) = missing \<or> t ! (unat (hash_1 m k) * 2 + 1) = missing"
proof (rule ccontr)
  let ?h = "unat (hash_1 m k)"
  assume full: "\<not> ?thesis"
  have m: "m = mask n" and n: "n \<le> 31" using inv by (auto simp: tbl_inv_def)
  have small: "take_bit n x = x" if "x \<in> insert k (set (live t))" for x :: u64
  proof -
    have "unat x < 2 ^ n" using bits that \<open>j \<le> n\<close>
      by (meson less_le_trans one_le_numeral power_increasing)
    then show ?thesis using n by (simp add: word_unat_eq_iff unsigned_take_bit_eq take_bit_nat_eq_self)
  qed
  have idx: "?h * 2 < length t" "?h * 2 + 1 < length t" using hash_slots [OF inv, of k] by auto
  have comp: "hash_2 m (t ! i) = k" if "i \<in> {?h * 2, ?h * 2 + 1}" for i
  proof -
    have il: "i < length t" "i div 2 = ?h" "t ! i \<noteq> missing" using idx that full by auto
    then have mem: "t ! i \<in> set (live t)" by (intro live_memI)
    have "in_bucket m ?h (t ! i)" using inv il by (auto simp: tbl_inv_def)
    moreover have "hash_1 m (t ! i) = t ! i" "hash_1 m k = k"
      using small mem by (simp_all add: hash_1_def m take_bit_eq_mask [symmetric])
    ultimately show ?thesis using mem k by (auto simp: in_bucket_def simp flip: word_unat_eq_iff)
  qed
  have "t ! (?h * 2) = t ! (?h * 2 + 1)"
  proof -
    have "take_bit n (NOT (t ! (?h * 2))) = take_bit n (NOT (t ! (?h * 2 + 1)))"
      using comp by (simp add: hash_2_def m take_bit_eq_mask [symmetric])
    then have "take_bit n (t ! (?h * 2)) = take_bit n (t ! (?h * 2 + 1))"
      by (metis take_bit_not_iff)
    moreover have "t ! (?h * 2) \<in> set (live t)" "t ! (?h * 2 + 1) \<in> set (live t)"
      using idx full by (auto intro: live_memI)
    ultimately show ?thesis using small by (metis insertCI)
  qed
  with distinct_live_nth [OF d idx] full show False by auto
qed

lemma capacity_mask:
  assumes "n \<le> 62"
  shows "unat (capacity (mask n)) = 2 ^ (n + 1)"
proof -
  have "capacity (mask n) = 2 ^ (n + 1)"
    by (simp add: capacity_def mask_eq_exp_minus_1 mult.commute)
  also have "\<dots> = (of_nat (2 ^ (n + 1)) :: u64)" by simp
  finally have "unat (capacity (mask n)) = unat (of_nat (2 ^ (n + 1)) :: u64)" by simp
  also have "\<dots> = 2 ^ (n + 1)"
    using assms by (intro unat_of_nat_u64 power_strict_increasing) simp_all
  finally show ?thesis .
qed

lemma next_mask:
  assumes "n \<le> 31"
  shows "(if mask n = 0 then 1 else push_bit 1 (mask n) OR mask n) = (mask (Suc n) :: u64)"
proof (cases n)
  case (Suc k)
  have nz: "(mask n :: u64) \<noteq> 0" using Suc by simp
  have "push_bit 1 (mask n :: u64) OR mask n = mask (Suc n)"
    using Suc by (intro bit_word_eqI) (auto simp only: bit_or_iff bit_push_bit_iff bit_mask_iff possible_bit_word)
  with nz show ?thesis by simp
qed simp

text \<open>A table with distinct keys of at most \<open>j\<close> bits, and what an insertion does to it.\<close>

definition good_tbl :: "nat \<Rightarrow> nat \<Rightarrow> u64 list \<times> u64 \<Rightarrow> bool" where
  "good_tbl j n tm \<longleftrightarrow> tbl_inv n (fst tm) (snd tm) \<and> distinct (live (fst tm)) \<and>
     (\<forall>x \<in> set (live (fst tm)). unat x < 2 ^ j)"

definition new_key :: "nat \<Rightarrow> u64 \<Rightarrow> u64 list \<times> u64 \<Rightarrow> bool" where
  "new_key j k tm \<longleftrightarrow> k \<noteq> missing \<and> k \<notin> set (live (fst tm)) \<and> unat k < 2 ^ j"

definition inserts :: "nat \<Rightarrow> nat \<Rightarrow> (u64 \<Rightarrow> u64 list \<times> u64 \<Rightarrow> (u64 list \<times> u64) res) \<Rightarrow> bool" where
  "inserts j n0 ins \<longleftrightarrow>
     (\<forall>n k tm. n0 \<le> n \<longrightarrow> good_tbl j n tm \<longrightarrow> new_key j k tm \<longrightarrow>
        (\<exists>n' tm'. ins k tm = Inr tm' \<and> n \<le> n' \<and> n' \<le> max n j \<and> good_tbl j n' tm' \<and>
           mset (live (fst tm')) = add_mset k (mset (live (fst tm)))))"

lemma good_tbl_mset:
  assumes "tbl_inv n t m" "mset (live t) = add_mset k (mset (live (fst tm)))"
    and "good_tbl j n0 tm" "new_key j k tm"
  shows "good_tbl j n (t, m)"
proof -
  have "set (live t) = insert k (set (live (fst tm)))"
    using assms(2) by (metis set_mset_add_mset_insert set_mset_mset)
  moreover have "distinct (live t)"
    using assms(2,3,4) by (metis distinct.simps(2) good_tbl_def mset.simps(2) mset_eq_imp_distinct_iff
        new_key_def)
  ultimately show ?thesis using assms by (auto simp: good_tbl_def new_key_def)
qed

lemma exchange_key:
  assumes "tbl_inv n t' m" "mset (live t') + {#k'#} = add_mset k (mset (live t))" "k' \<noteq> missing"
    and "good_tbl j n0 (t, m)" "new_key j k (t, m)"
  shows "good_tbl j n (t', m) \<and> new_key j k' (t', m)"
proof -
  have eq: "mset (k' # live t') = mset (k # live t)" using assms(2) by simp
  have "distinct (k # live t)" using assms(4,5) by (simp add: good_tbl_def new_key_def)
  then have "distinct (k' # live t')" using mset_eq_imp_distinct_iff [OF eq] by simp
  moreover have "set (k' # live t') = set (k # live t)" using mset_eq_setD [OF eq] .
  ultimately show ?thesis using assms by (auto simp: good_tbl_def new_key_def)
qed

lemma rehash_spec:
  assumes ins: "inserts j (Suc n) ins" and good: "good_tbl j n (t, m)" and "n < j" "j \<le> 31"
  shows "\<exists>n' tm'. rehash ins t m = Inr tm' \<and> n < n' \<and> n' \<le> j \<and> good_tbl j n' tm' \<and>
           mset (live (fst tm')) = mset (live t)"
proof -
  have inv: "tbl_inv n t m" "distinct (live t)" "\<forall>x \<in> set (live t). unat x < 2 ^ j"
    using good by (auto simp: good_tbl_def)
  have m: "m = mask n" and lt: "length t = 2 ^ (n + 1)" and n31: "n \<le> 31"
    using inv(1) by (auto simp: tbl_inv_def)
  let ?new = "(replicate (2 ^ (n + 2)) missing, mask (Suc n)) :: u64 list \<times> u64"
  let ?f = "\<lambda>i st. bind_res (vec_get t i) (\<lambda>x. if x \<noteq> missing then ins x st else Inr st)"
  have e1: "(if m = 0 then 1 else push_bit 1 m OR m) = mask (Suc n)"
    unfolding m by (rule next_mask [OF n31])
  have e2: "unat (capacity (mask (Suc n))) = 2 ^ (n + 2)"
    using capacity_mask [of "Suc n"] n31 by simp
  have e3: "unat ((m + 1) * of_nat bucket_size) = length t"
    using capacity_mask [of n] n31 by (simp only: m lt capacity_def)
  have eq: "rehash ins t m = fold_res ?f [0..<length t] ?new"
    unfolding rehash_def Let_def e1 e2 e3 ..
  have "\<exists>n' tm'. fold_res ?f [0..<l] ?new = Inr tm' \<and> n < n' \<and> n' \<le> j \<and> good_tbl j n' tm' \<and>
           mset (live (fst tm')) = mset (live (take l t))" if "l \<le> length t" for l
    using that
  proof (induction l)
    case 0
    have "good_tbl j (Suc n) ?new"
      using \<open>n < j\<close> \<open>j \<le> 31\<close> by (auto simp: good_tbl_def tbl_inv_def live_def)
    then show ?case using \<open>n < j\<close> by (auto simp: live_def intro!: exI [of _ "Suc n"])
  next
    case (Suc l)
    then obtain n' tm where IH: "fold_res ?f [0..<l] ?new = Inr tm" "n < n'" "n' \<le> j"
      "good_tbl j n' tm" "mset (live (fst tm)) = mset (live (take l t))" by auto
    have l: "l < length t" using Suc.prems by simp
    have split: "live (take (Suc l) t) = live (take l t) @ live [t ! l]"
      using l by (simp add: take_Suc_conv_app_nth live_def)
    have step: "fold_res ?f [0..<Suc l] ?new = ?f l tm"
      using IH(1) by (simp add: fold_res_append l)
    show ?case
    proof (cases "t ! l = missing")
      case True
      then show ?thesis unfolding step split using IH l by (auto simp: live_def)
    next
      case False
      have "distinct (live (take (Suc l) t))"
        using inv(2) by (metis append_take_drop_id distinct_append filter_append live_def)
      then have "distinct (live (take l t) @ [t ! l])"
        unfolding split using False by (simp add: live_def)
      then have "t ! l \<notin> set (live (take l t))" by simp
      moreover have "set (live (fst tm)) = set (live (take l t))"
        using IH(5) by (metis set_mset_mset)
      ultimately have "new_key j (t ! l) tm"
        using False inv(3) l by (simp add: new_key_def live_memI)
      then obtain n'' tm' where "ins (t ! l) tm = Inr tm'" "n' \<le> n''" "n'' \<le> max n' j"
        "good_tbl j n'' tm'" "mset (live (fst tm')) = add_mset (t ! l) (mset (live (fst tm)))"
        using ins IH(2,4) by (meson Suc_leI inserts_def)
      then show ?thesis unfolding step split using IH l False
        by (intro exI [of _ n'']) (auto simp: live_def)
    qed
  qed
  from this [of "length t"] show ?thesis unfolding eq by simp
qed

lemma insert_tbl_Suc:
  fixes k m
  defines "h1 \<equiv> unat (hash_1 m k)" and "h2 \<equiv> unat (hash_2 m k)"
  assumes inv: "tbl_inv n t m"
  shows "insert_tbl (Suc fuel) k (t, m) =
    (if t ! (h1 * 2 + 0) = missing then Inr (t[h1 * 2 + 0 := k], m)
     else if t ! (h1 * 2 + 1) = missing then Inr (t[h1 * 2 + 1 := k], m)
     else if t ! (h2 * 2 + 0) = missing then Inr (t[h2 * 2 + 0 := k], m)
     else if t ! (h2 * 2 + 1) = missing then Inr (t[h2 * 2 + 1 := k], m)
     else bind_res (cuckoo_loop (unat m) m True k t) (\<lambda>(left, t').
       case left of None \<Rightarrow> Inr (t', m)
       | Some k' \<Rightarrow> bind_res (rehash (insert_tbl fuel) t' m) (insert_tbl fuel k')))"
  unfolding insert_tbl.simps Let_def fst_conv snd_conv int_index_hash [OF inv]
    bind_res_Inr hash_slots [OF inv, THEN find_pos_bucket] h1_def h2_def
  by simp

lemma insert_tbl_inserts:
  assumes "j \<le> 31" "j - n0 < fuel"
  shows "inserts j n0 (insert_tbl fuel)"
  using assms(2)
proof (induction fuel arbitrary: n0)
  case (Suc fuel)
  show ?case unfolding inserts_def
  proof (intro allI impI)
    fix n k tm
    assume n0: "n0 \<le> n" and good: "good_tbl j n tm" and new: "new_key j k tm"
    obtain t m where tm: "tm = (t, m)" by (cases tm)
    have inv: "tbl_inv n t m" and km: "k \<noteq> missing"
      using good new by (auto simp: tm good_tbl_def new_key_def)
    let ?h1 = "unat (hash_1 m k)" and ?h2 = "unat (hash_2 m k)"
    let ?goal = "\<lambda>r. \<exists>n' tm'. r = Inr tm' \<and> n \<le> n' \<and> n' \<le> max n j \<and> good_tbl j n' tm' \<and>
           mset (live (fst tm')) = add_mset k (mset (live (fst tm)))"
    have placed: "?goal (Inr (t[h * 2 + p := k], m))"
      if "t ! (h * 2 + p) = missing" "h = ?h1 \<or> h = ?h2" "p \<le> 1" for h p
    proof -
      have l: "h * 2 + p < length t" using hash_slots [OF inv, of k] that by auto
      have "in_bucket m ((h * 2 + p) div 2) k" using that(2,3) by (auto simp: le_Suc_eq)
      then have "tbl_inv n (t[h * 2 + p := k]) m" using tbl_inv_update [OF inv] by blast
      then have "good_tbl j n (t[h * 2 + p := k], m)"
        using live_fill [OF l that(1) km] good new by (intro good_tbl_mset [where tm = tm]) (auto simp: tm)
      then show ?thesis using live_fill [OF l that(1) km] by (auto simp: tm)
    qed
    have displaced: "?goal (bind_res (cuckoo_loop (unat m) m True k t) (\<lambda>(left, t').
       case left of None \<Rightarrow> Inr (t', m)
       | Some k' \<Rightarrow> bind_res (rehash (insert_tbl fuel) t' m) (insert_tbl fuel k')))"
      if full: "t ! (?h1 * 2 + 0) \<noteq> missing" "t ! (?h1 * 2 + 1) \<noteq> missing"
    proof -
      have nj: "n < j"
        using room_in_first_bucket [OF inv _ _ _ , of j k] full good new
        by (force simp: good_tbl_def new_key_def tm not_less [symmetric])
      obtain left t' where loop: "cuckoo_loop (unat m) m True k t = Inr (left, t')" "tbl_inv n t' m"
        "case left of None \<Rightarrow> mset (live t') = add_mset k (mset (live t))
         | Some k' \<Rightarrow> k' \<noteq> missing \<and> add_mset k' (mset (live t')) = add_mset k (mset (live t))"
        using cuckoo_loop_spec [OF inv km] by blast
      show ?thesis
      proof (cases left)
        case None
        with loop good new have "good_tbl j n (t', m)"
          by (intro good_tbl_mset [where tm = tm]) (auto simp: tm)
        with None loop show ?thesis by (auto simp: tm)
      next
        case (Some k')
        with loop(3) have k': "k' \<noteq> missing"
          and ms: "mset (live t') + {#k'#} = add_mset k (mset (live t))" by auto
        note ex = exchange_key [OF loop(2) ms k' good [unfolded tm] new [unfolded tm]]
        then have g: "good_tbl j n (t', m)" and nk: "new_key j k' (t', m)" by auto
        have IH: "inserts j (Suc n) (insert_tbl fuel)" using Suc.prems n0 nj by (intro Suc.IH) linarith
        obtain n1 tm1 where r: "rehash (insert_tbl fuel) t' m = Inr tm1" "n < n1" "n1 \<le> j"
          "good_tbl j n1 tm1" "mset (live (fst tm1)) = mset (live t')"
          using rehash_spec [OF IH g nj \<open>j \<le> 31\<close>] by blast
        have "new_key j k' tm1" using nk r(5) by (metis fst_conv new_key_def set_mset_mset)
        then obtain n2 tm2 where "insert_tbl fuel k' tm1 = Inr tm2" "n1 \<le> n2" "n2 \<le> max n1 j"
          "good_tbl j n2 tm2" "mset (live (fst tm2)) = add_mset k' (mset (live (fst tm1)))"
          using IH r(2,4) unfolding inserts_def by (meson Suc_leI)
        then show ?thesis using loop Some r ms nj by (intro exI [of _ n2] exI [of _ tm2]) (auto simp: tm)
      qed
    qed
    note eq = insert_tbl_Suc [OF inv, of fuel k]
    have slot: "?goal (insert_tbl (Suc fuel) k tm)"
      if "insert_tbl (Suc fuel) k (t, m) = Inr (t[h * 2 + p := k], m)"
        "t ! (h * 2 + p) = missing" "h = ?h1 \<or> h = ?h2" "p \<le> 1" for h p
      unfolding tm that(1) using placed [OF that(2-4)] by (simp only: tm)
    consider (1) "t ! (?h1 * 2 + 0) = missing"
      | (2) "t ! (?h1 * 2 + 0) \<noteq> missing" "t ! (?h1 * 2 + 1) = missing"
      | (3) "t ! (?h1 * 2 + 0) \<noteq> missing" "t ! (?h1 * 2 + 1) \<noteq> missing" "t ! (?h2 * 2 + 0) = missing"
      | (4) "t ! (?h1 * 2 + 0) \<noteq> missing" "t ! (?h1 * 2 + 1) \<noteq> missing"
        "t ! (?h2 * 2 + 0) \<noteq> missing" "t ! (?h2 * 2 + 1) = missing"
      | (full) "t ! (?h1 * 2 + 0) \<noteq> missing" "t ! (?h1 * 2 + 1) \<noteq> missing"
        "t ! (?h2 * 2 + 0) \<noteq> missing" "t ! (?h2 * 2 + 1) \<noteq> missing"
      by blast
    then show "?goal (insert_tbl (Suc fuel) k tm)"
    proof cases
      case 1 then show ?thesis by (intro slot [of ?h1 0]) (simp_all only: eq if_True simp_thms le_SucI zero_le)
    next
      case 2 then show ?thesis by (intro slot [of ?h1 1]) (simp_all only: eq if_True if_False simp_thms order_refl)
    next
      case 3 then show ?thesis by (intro slot [of ?h2 0]) (simp_all only: eq if_True if_False simp_thms zero_le)
    next
      case 4 then show ?thesis by (intro slot [of ?h2 1]) (simp_all only: eq if_True if_False simp_thms order_refl)
    next
      case full
      have "insert_tbl (Suc fuel) k (t, m) = bind_res (cuckoo_loop (unat m) m True k t) (\<lambda>(left, t').
       case left of None \<Rightarrow> Inr (t', m)
       | Some k' \<Rightarrow> bind_res (rehash (insert_tbl fuel) t' m) (insert_tbl fuel k'))"
        unfolding eq using full by (simp only: if_False)
      then show ?thesis unfolding tm using displaced [OF full(1,2)] by (simp only: tm)
    qed
  qed
qed simp

section \<open>The operations on the stored keys\<close>

definition key_bits :: nat where "key_bits = 31"

lemma key_bits_31 [simp]: "key_bits = 31"
  by (simp add: key_bits_def)

definition is_key :: "u64 \<Rightarrow> bool" where
  "is_key k \<longleftrightarrow> unat k < 2 ^ key_bits"

definition elems :: "cuckoo \<Rightarrow> u64 set" where
  "elems c = set (live (ht c))"

definition cuckoo_inv :: "cuckoo \<Rightarrow> bool" where
  "cuckoo_inv c \<longleftrightarrow> (\<exists>n. good_tbl key_bits n (ht c, hmask c)) \<and> sz c = length (live (ht c))"

lemma cuckoo_invE:
  assumes "cuckoo_inv c"
  obtains n where "good_tbl 31 n (ht c, hmask c)" "tbl_inv n (ht c) (hmask c)"
    "distinct (live (ht c))" "sz c = length (live (ht c))"
    "length (ht c) = unat (capacity (hmask c))"
proof -
  from assms obtain n where n: "good_tbl 31 n (ht c, hmask c)" "sz c = length (live (ht c))"
    by (auto simp: cuckoo_inv_def)
  then have "tbl_inv n (ht c) (hmask c)" "distinct (live (ht c))" by (auto simp: good_tbl_def)
  moreover from this have "length (ht c) = unat (capacity (hmask c))"
    using capacity_mask [of n] by (auto simp: tbl_inv_def)
  ultimately show thesis using n that by blast
qed

lemma key_not_missing: "is_key k \<Longrightarrow> k \<noteq> missing"
  by (auto simp: is_key_def missing_def unsigned_minus_1_eq_mask mask_eq_exp_minus_1)

lemma elems_keys: "cuckoo_inv c \<Longrightarrow> k \<in> elems c \<Longrightarrow> is_key k"
  by (auto simp: cuckoo_inv_def good_tbl_def elems_def is_key_def)

lemma live_iff_bucket:
  assumes inv: "tbl_inv n t m" and k: "k \<noteq> missing"
  defines "h1 \<equiv> unat (hash_1 m k)" and "h2 \<equiv> unat (hash_2 m k)"
  shows "k \<in> set (live t) \<longleftrightarrow>
    t ! (h1 * 2) = k \<or> t ! (h1 * 2 + 1) = k \<or> t ! (h2 * 2) = k \<or> t ! (h2 * 2 + 1) = k"
proof
  assume "k \<in> set (live t)"
  then obtain i where i: "i < length t" "t ! i = k" by (auto simp: live_def in_set_conv_nth)
  then have "i div 2 = h1 \<or> i div 2 = h2"
    using inv k by (auto simp: tbl_inv_def in_bucket_def h1_def h2_def)
  moreover have "i = i div 2 * 2 \<or> i = i div 2 * 2 + 1" by presburger
  ultimately show "t ! (h1 * 2) = k \<or> t ! (h1 * 2 + 1) = k \<or> t ! (h2 * 2) = k \<or> t ! (h2 * 2 + 1) = k"
    using i(2) by metis
next
  assume "t ! (h1 * 2) = k \<or> t ! (h1 * 2 + 1) = k \<or> t ! (h2 * 2) = k \<or> t ! (h2 * 2 + 1) = k"
  moreover have "h1 * 2 + 1 < length t" "h2 * 2 + 1 < length t"
    using hash_slots [OF inv, of k] by (simp_all add: h1_def h2_def)
  ultimately show "k \<in> set (live t)"
    using k by (metis add_lessD1 live_memI)
qed

lemma count_slots:
  fixes k
  assumes "tbl_inv n (ht c) (hmask c)"
  defines "h1 \<equiv> unat (hash_1 (hmask c) k)" and "h2 \<equiv> unat (hash_2 (hmask c) k)"
  shows "cuckoo_count c k = Inr (ht c ! (h1 * 2) = k \<or> ht c ! (h1 * 2 + 1) = k \<or>
    ht c ! (h2 * 2) = k \<or> ht c ! (h2 * 2 + 1) = k)"
proof -
  have r: "[0..<bucket_size] = [0, 1]" by (simp add: upt_rec)
  have o: "bucket_size * h OR 0 = h * 2" "bucket_size * h OR 1 = h * 2 + 1" for h
    by (simp_all add: or_Suc_0_eq)
  have l: "h1 * 2 + 1 < length (ht c)" "h2 * 2 + 1 < length (ht c)"
    using hash_slots [OF assms(1), of k] by (simp_all add: h1_def h2_def)
  have i: "int_index (hash_1 (hmask c) k) = Inr h1" "int_index (hash_2 (hmask c) k) = Inr h2"
    using int_index_hash [OF assms(1)] by (simp_all only: h1_def h2_def)
  show ?thesis
    unfolding cuckoo_count_def r i bind_res_Inr fold_res.simps o
    using l by auto
qed

lemma cuckoo_count_spec:
  assumes "cuckoo_inv c" "is_key k"
  shows "cuckoo_count c k = Inr (k \<in> elems c)"
  using assms(1)
proof (rule cuckoo_invE)
  fix n assume inv: "tbl_inv n (ht c) (hmask c)"
  show ?thesis
    using count_slots [OF inv] live_iff_bucket [OF inv key_not_missing [OF assms(2)]]
    by (simp add: elems_def)
qed

lemma cuckoo_insert_spec:
  assumes "cuckoo_inv c" "is_key k"
  shows "\<exists>c'. cuckoo_insert c k = Inr c' \<and> cuckoo_inv c' \<and> elems c' = insert k (elems c) \<and>
     sz c' = (if k \<in> elems c then sz c else sz c + 1)"
proof (cases "k \<in> elems c")
  case True
  then show ?thesis
    using assms cuckoo_count_spec [OF assms] by (simp add: cuckoo_insert_def insert_absorb)
next
  case False
  obtain n where n: "good_tbl 31 n (ht c, hmask c)" "sz c = length (live (ht c))"
    using assms(1) by (rule cuckoo_invE)
  have "new_key 31 k (ht c, hmask c)"
    using assms(2) False key_not_missing by (auto simp: new_key_def is_key_def elems_def)
  moreover have "inserts 31 0 (insert_tbl cuckoo_fuel)"
    by (rule insert_tbl_inserts) (simp_all add: cuckoo_fuel_def)
  ultimately obtain n' t m where r: "insert_tbl cuckoo_fuel k (ht c, hmask c) = Inr (t, m)"
    "good_tbl 31 n' (t, m)" "mset (live t) = add_mset k (mset (live (ht c)))"
    using n(1) unfolding inserts_def by (metis fst_conv prod.collapse zero_le)
  then have "set (live t) = insert k (set (live (ht c)))" "length (live t) = Suc (length (live (ht c)))"
    by (metis set_mset_add_mset_insert set_mset_mset, metis size_add_mset size_mset)
  then show ?thesis
    using r n(2) False cuckoo_count_spec [OF assms]
    by (auto simp: cuckoo_insert_def cuckoo_inv_def elems_def)
qed

lemma erase_slot:
  assumes good: "good_tbl j n (ht c, hmask c)" and s: "sz c = length (live (ht c))"
    and i: "i < length (ht c)" "ht c ! i = k" "k \<noteq> missing"
  defines "c' \<equiv> c\<lparr>ht := (ht c)[i := missing], sz := sz c - 1\<rparr>"
  shows "good_tbl j n (ht c', hmask c') \<and> sz c' = length (live (ht c')) \<and> elems c' = elems c - {k}"
proof -
  let ?t = "(ht c)[i := missing]"
  have eq: "mset (k # live ?t) = mset (live (ht c))" using live_clear [OF i] by simp
  have "distinct (k # live ?t)"
    using good mset_eq_imp_distinct_iff [OF eq] by (simp add: good_tbl_def)
  moreover have "set (live (ht c)) = insert k (set (live ?t))" using mset_eq_setD [OF eq] by simp
  moreover have "length (live (ht c)) = Suc (length (live ?t))" using mset_eq_length [OF eq] by simp
  moreover have "tbl_inv n ?t (hmask c)" using good tbl_inv_update by (auto simp: good_tbl_def)
  ultimately show ?thesis using good s by (auto simp: good_tbl_def elems_def c'_def)
qed

lemma cuckoo_erase_spec:
  assumes "cuckoo_inv c" "is_key k"
  shows "\<exists>c'. cuckoo_erase c k = Inr c' \<and> cuckoo_inv c' \<and> elems c' = elems c - {k} \<and>
     sz c' = (if k \<in> elems c then sz c - 1 else sz c)"
proof -
  obtain n where n: "good_tbl 31 n (ht c, hmask c)" "tbl_inv n (ht c) (hmask c)" "sz c = length (live (ht c))"
    using assms(1) by (rule cuckoo_invE)
  have k: "k \<noteq> missing" using assms(2) by (rule key_not_missing)
  let ?h1 = "unat (hash_1 (hmask c) k)" and ?h2 = "unat (hash_2 (hmask c) k)"
  let ?del = "\<lambda>i. c\<lparr>ht := (ht c)[i := missing], sz := sz c - 1\<rparr>"
  have l: "?h1 * 2 + 1 < length (ht c)" "?h2 * 2 + 1 < length (ht c)"
    using hash_slots [OF n(2), of k] by simp_all
  have del: "cuckoo_inv (?del i) \<and> elems (?del i) = elems c - {k} \<and> k \<in> elems c"
    if "i < length (ht c)" "ht c ! i = k" for i
    using erase_slot [OF n(1,3) that k] live_memI [of i "ht c"] that k
    by (auto simp: cuckoo_inv_def elems_def)
  have eq: "cuckoo_erase c k =
    Inr (if ht c ! (?h1 * 2) = k then ?del (?h1 * 2)
         else if ht c ! (?h1 * 2 + 1) = k then ?del (?h1 * 2 + 1)
         else if ht c ! (?h2 * 2) = k then ?del (?h2 * 2)
         else if ht c ! (?h2 * 2 + 1) = k then ?del (?h2 * 2 + 1) else c)"
    unfolding cuckoo_erase_def int_index_hash [OF n(2)] bind_res_Inr
      hash_slots [OF n(2), THEN find_pos_bucket] by simp
  have "k \<in> elems c \<longleftrightarrow> ht c ! (?h1 * 2) = k \<or> ht c ! (?h1 * 2 + 1) = k \<or>
      ht c ! (?h2 * 2) = k \<or> ht c ! (?h2 * 2 + 1) = k"
    using live_iff_bucket [OF n(2) k] by (simp add: elems_def)
  then show ?thesis
    unfolding eq using del [of "?h1 * 2"] del [of "?h1 * 2 + 1"] del [of "?h2 * 2"] del [of "?h2 * 2 + 1"]
      l assms(1) by auto
qed

section \<open>Iteration\<close>

lemma iter_from_skip:
  assumes "length (ht c) = iter_end c" "offset \<le> iter_end c" "iter_end c - offset < fuel"
  shows "bind_res (iter_skip c offset) (iter_from fuel c) = Inr (live (drop offset (ht c)))"
  using assms(2,3)
proof (induction "iter_end c - offset" arbitrary: offset fuel)
  case 0
  then have "offset = iter_end c" by simp
  moreover obtain f where "fuel = Suc f" using 0 by (cases fuel) auto
  ultimately show ?case
    using assms(1)
    by (simp add: iter_skip.simps [of c "unat (capacity (hmask c))"] iter_end_def live_def)
next
  case (Suc d)
  obtain f where f: "fuel = Suc f" using Suc.prems by (cases fuel) auto
  have o: "offset < length (ht c)" "offset < unat (capacity (hmask c))"
    using Suc.hyps(2) assms(1) by (simp_all add: iter_end_def)
  have dr: "live (drop offset (ht c)) =
      (if ht c ! offset = missing then [] else [ht c ! offset]) @ live (drop (offset + 1) (ht c))"
    using o(1) by (simp add: Cons_nth_drop_Suc [symmetric] live_def)
  show ?case
  proof (cases "ht c ! offset = missing")
    case True
    then have "iter_skip c offset = iter_skip c (offset + 1)"
      using o by (simp add: iter_skip.simps [of c offset])
    then show ?thesis using Suc.hyps(1) [of "offset + 1" fuel] Suc.hyps(2) Suc.prems dr True by simp
  next
    case False
    then have here: "iter_skip c offset = Inr offset"
      using o by (simp add: iter_skip.simps [of c offset])
    have IH: "bind_res (iter_skip c (offset + 1)) (iter_from f c) = Inr (live (drop (offset + 1) (ht c)))"
      using Suc.hyps(1) [of "offset + 1" f] Suc.hyps(2) Suc.prems f by simp
    have "bind_res (iter_skip c (offset + 1)) (\<lambda>o'. bind_res (iter_from f c o') (\<lambda>xs. Inr (x # xs)))
        = Inr (x # live (drop (offset + 1) (ht c)))" for x
      using IH by (simp flip: bind_res_assoc)
    then show ?thesis using o False dr unfolding here f
      by (simp add: iter_next_def iter_end_def)
  qed
qed

lemma cuckoo_iter_live:
  assumes "length (ht c) = unat (capacity (hmask c))"
  shows "cuckoo_iter c = Inr (live (ht c))"
  using iter_from_skip [of c 0 "unat (capacity (hmask c)) + 1"] assms
  by (simp add: cuckoo_iter_def iter_begin_def iter_end_def)

lemma cuckoo_iter_spec:
  assumes "cuckoo_inv c"
  shows "\<exists>xs. cuckoo_iter c = Inr xs \<and> distinct xs \<and> set xs = elems c \<and> length xs = sz c"
  using assms by (rule cuckoo_invE) (simp add: cuckoo_iter_live elems_def)

lemma cuckoo_empty_inv: "cuckoo_inv cuckoo_empty" "elems cuckoo_empty = {}"
  by (auto simp: cuckoo_inv_def cuckoo_empty_def good_tbl_def tbl_inv_def live_def elems_def
      intro!: exI [of _ 0])

section \<open>The contract of a set of keys\<close>

text \<open>
  What the clients of the class rely on. The operations are partial in the code; for keys
  within the bound they return.
\<close>

locale key_set =
  fixes emp :: 's
    and ins :: "'s \<Rightarrow> u64 \<Rightarrow> 's res"
    and del :: "'s \<Rightarrow> u64 \<Rightarrow> 's res"
    and mem :: "'s \<Rightarrow> u64 \<Rightarrow> bool res"
    and iter :: "'s \<Rightarrow> u64 list res"
    and members :: "'s \<Rightarrow> u64 set"
    and inv :: "'s \<Rightarrow> bool"
    and key :: "u64 \<Rightarrow> bool"
  assumes emp_inv: "inv emp" and emp_members: "members emp = {}"
    and ins_ok: "inv s \<Longrightarrow> key k \<Longrightarrow> \<exists>s'. ins s k = Inr s' \<and> inv s' \<and> members s' = insert k (members s)"
    and del_ok: "inv s \<Longrightarrow> key k \<Longrightarrow> \<exists>s'. del s k = Inr s' \<and> inv s' \<and> members s' = members s - {k}"
    and mem_ok: "inv s \<Longrightarrow> key k \<Longrightarrow> mem s k = Inr (k \<in> members s)"
    and iter_ok: "inv s \<Longrightarrow> \<exists>xs. iter s = Inr xs \<and> distinct xs \<and> set xs = members s"
begin

text \<open>Inserting a list of keys into the empty set.\<close>

lemma insert_all:
  assumes "inv s" "\<forall>k \<in> set ks. key k"
  shows "\<exists>s'. fold_res (\<lambda>k s. ins s k) ks s = Inr s' \<and> inv s' \<and> members s' = members s \<union> set ks"
  using assms
proof (induction ks arbitrary: s)
  case (Cons k ks)
  obtain t where t: "ins s k = Inr t" "inv t" "members t = insert k (members s)"
    using ins_ok Cons.prems by (metis list.set_intros(1))
  then show ?case using Cons.IH [of t] Cons.prems(2) by auto
qed auto

lemma build_lookup:
  assumes "\<forall>k \<in> set ks. key k" "key x"
  shows "\<exists>s'. fold_res (\<lambda>k s. ins s k) ks emp = Inr s' \<and> inv s' \<and> mem s' x = Inr (x \<in> set ks)"
  using insert_all [OF emp_inv assms(1)] mem_ok [OF _ assms(2)] emp_members by (metis Un_empty_left)

lemma build_iter:
  assumes "\<forall>k \<in> set ks. key k"
  shows "\<exists>s' xs. fold_res (\<lambda>k s. ins s k) ks emp = Inr s' \<and> iter s' = Inr xs \<and> distinct xs \<and> set xs = set ks"
  using insert_all [OF emp_inv assms] iter_ok emp_members by (metis Un_empty_left)

end

interpretation cuckoo_set: key_set cuckoo_empty cuckoo_insert cuckoo_erase cuckoo_count cuckoo_iter
    elems cuckoo_inv is_key
proof (unfold_locales, goal_cases)
  case 1 show ?case by (rule cuckoo_empty_inv)
next
  case 2 show ?case by (rule cuckoo_empty_inv)
next
  case (3 s k) then show ?case using cuckoo_insert_spec [of s k] by blast
next
  case (4 s k) then show ?case using cuckoo_erase_spec [of s k] by blast
next
  case (5 s k) then show ?case by (rule cuckoo_count_spec)
next
  case (6 s) then show ?case using cuckoo_iter_spec [of s] by blast
qed

section \<open>Properties of the set\<close>

text \<open>C14: inserting a key into a well-formed set returns, whatever displacements and
  rehashes it takes; the set then holds that key and the old ones, is well formed (each key in
  one of its two buckets, no key twice, size exact), and grew by one if the key was new.\<close>

theorem cuckoo_insert_correct:
  assumes "cuckoo_inv c" and "is_key k"
  shows "\<exists>c'. cuckoo_insert c k = Inr c' \<and> cuckoo_inv c' \<and> elems c' = insert k (elems c)
           \<and> cuckoo_size c' = card (insert k (elems c))"
proof -
  obtain c' where c': "cuckoo_insert c k = Inr c'" "cuckoo_inv c'" "elems c' = insert k (elems c)"
    using cuckoo_insert_spec [OF assms] by blast
  from c'(2) have "sz c' = card (elems c')"
    by (rule cuckoo_invE) (simp add: elems_def distinct_card)
  with c' show ?thesis by (simp add: cuckoo_size_def)
qed

theorem cuckoo_insert_correct_witness:
  "\<exists>c'. cuckoo_insert cuckoo_empty 5 = Inr c' \<and> cuckoo_inv c' \<and> elems c' = insert 5 (elems cuckoo_empty)
     \<and> cuckoo_size c' = card (insert 5 (elems cuckoo_empty))"
  by (rule cuckoo_insert_correct) (simp_all add: cuckoo_empty_inv is_key_def)

text \<open>After inserting any keys into a new set, one after the other, \<open>count\<close> says of
  every key exactly whether it was inserted.\<close>

theorem cuckoo_lookup_after_inserts:
  assumes "\<forall>k \<in> set ks. is_key k" and "is_key x"
  shows "\<exists>c. fold_res (\<lambda>k c. cuckoo_insert c k) ks cuckoo_empty = Inr c
           \<and> cuckoo_count c x = Inr (x \<in> set ks)"
  using cuckoo_set.build_lookup [OF assms] by blast

theorem cuckoo_lookup_after_inserts_witness:
  "\<exists>c. fold_res (\<lambda>k c. cuckoo_insert c k) [4, 0, 8, 12, 16, 20] cuckoo_empty = Inr c
     \<and> cuckoo_count c 12 = Inr (12 \<in> set [4, 0, 8, 12, 16, 20 :: u64])"
  by (rule cuckoo_lookup_after_inserts) (simp_all add: is_key_def)

text \<open>C30: iterating from \<open>begin\<close> to \<open>end\<close> over a set built by insertions visits every
  inserted key exactly once, and nothing else.\<close>

theorem cuckoo_iteration:
  assumes "\<forall>k \<in> set ks. is_key k"
  shows "\<exists>c xs. fold_res (\<lambda>k c. cuckoo_insert c k) ks cuckoo_empty = Inr c
           \<and> cuckoo_iter c = Inr xs \<and> distinct xs \<and> set xs = set ks"
  by (rule cuckoo_set.build_iter [OF assms])

theorem cuckoo_iteration_witness:
  "\<exists>c xs. fold_res (\<lambda>k c. cuckoo_insert c k) [3, 1, 3, 2] cuckoo_empty = Inr c
     \<and> cuckoo_iter c = Inr xs \<and> distinct xs \<and> set xs = set [3, 1, 3, 2 :: u64]"
  by (rule cuckoo_iteration) (simp add: is_key_def)

text \<open>C38: \<open>erase\<close> removes exactly the given key (one below \<open>2 ^ 31\<close>), keeps the set well formed
  and counts one key less, or leaves a set without that key as it was; afterwards \<open>count\<close> no longer finds it,
  and finds every other key that it found before.\<close>

theorem cuckoo_erase_correct:
  assumes "cuckoo_inv c" and "is_key k"
  shows "\<exists>c'. cuckoo_erase c k = Inr c' \<and> cuckoo_inv c' \<and> elems c' = elems c - {k}
           \<and> sz c' = (if k \<in> elems c then sz c - 1 else sz c)
           \<and> (\<forall>x. is_key x \<longrightarrow> cuckoo_count c' x = Inr (x \<in> elems c \<and> x \<noteq> k))"
  using cuckoo_erase_spec [OF assms] cuckoo_count_spec by fastforce

theorem cuckoo_erase_correct_witness:
  "\<exists>c c'. cuckoo_insert cuckoo_empty 3 = Inr c \<and> elems c = {3} \<and> cuckoo_erase c 3 = Inr c'
     \<and> elems c' = {} \<and> cuckoo_count c' 3 = Inr False \<and> sz c = 1 \<and> sz c' = 0"
proof -
  have k: "is_key 3" by (simp add: is_key_def)
  obtain c where c: "cuckoo_insert cuckoo_empty 3 = Inr c" "cuckoo_inv c" "elems c = {3}" "sz c = sz cuckoo_empty + 1"
    using cuckoo_insert_spec [OF cuckoo_empty_inv(1) k] cuckoo_empty_inv(2) by auto
  show ?thesis
    using cuckoo_erase_correct [OF c(2) k] c k by (auto simp: cuckoo_empty_def)
qed

lemma fold_and_count:
  assumes "cuckoo_inv c" "\<forall>x \<in> set xs. is_key x"
  shows "fold_res (\<lambda>x ok. if ok then cuckoo_count c x else Inr False) xs b = Inr (b \<and> set xs \<subseteq> elems c)"
  using assms by (induction xs arbitrary: b) (auto simp: cuckoo_count_spec)

text \<open>\<open>operator==\<close> decides whether the two sets hold the same keys.\<close>

theorem cuckoo_eq_correct:
  assumes "cuckoo_inv c" and "cuckoo_inv d"
  shows "cuckoo_eq c d = Inr (elems c = elems d)"
proof -
  obtain xs where xs: "cuckoo_iter d = Inr xs" "distinct xs" "set xs = elems d" "length xs = sz d"
    using cuckoo_iter_spec [OF assms(2)] by blast
  have cd: "card (elems d) = sz d" using xs by (metis distinct_card)
  obtain ys where ys: "distinct ys" "set ys = elems c" "length ys = sz c"
    using cuckoo_iter_spec [OF assms(1)] by blast
  then have cc: "card (elems c) = sz c" "finite (elems c)" by (metis distinct_card, metis finite_set)
  have "elems d \<subseteq> elems c \<longleftrightarrow> elems c = elems d" if "sz c = sz d"
    using cc cd that by (metis card_subset_eq order_refl)
  moreover have "elems c \<noteq> elems d" if "sz c \<noteq> sz d" using cc cd that by auto
  ultimately show ?thesis
    using xs fold_and_count [OF assms(1), of xs True] elems_keys [OF assms(2)]
    by (auto simp: cuckoo_eq_def)
qed

theorem cuckoo_eq_correct_witness:
  "cuckoo_eq cuckoo_empty cuckoo_empty = Inr (elems cuckoo_empty = elems cuckoo_empty)"
  by (rule cuckoo_eq_correct) (rule cuckoo_empty_inv)+

lemma reserve_mask_returns:
  assumes "p \<le> 63" "63 - p < fuel"
  shows "\<exists>q \<le> 63. reserve_mask fuel (2 ^ p) n = Inr (2 ^ q)"
  using assms
proof (induction fuel arbitrary: p)
  case (Suc fuel)
  show ?case
  proof (cases "2 ^ p \<le> n div 2")
    case True
    have "unat (2 ^ p :: u64) = 2 ^ p" using Suc.prems(1) by (intro unat_2p) simp
    moreover have "unat (n div 2) < 2 ^ 63"
      using unat_u64_less_power [of n] by (simp add: unat_div less_mult_imp_div_less)
    ultimately have "(2 :: nat) ^ p < 2 ^ 63" using True by (simp add: word_le_nat_alt)
    then have "p < 63" by (rule power_less_imp_less_exp [rotated]) simp
    with Suc.IH [of "Suc p"] Suc.prems True show ?thesis by (simp add: mult.commute)
  next
    case False
    with Suc.prems show ?thesis by auto
  qed
qed simp

text \<open>\<open>reserve\<close> beyond the capacity does not keep the contents: the new table is empty,
  although \<open>size()\<close> still reports the old number of keys.\<close>

theorem cuckoo_reserve_drops:
  assumes "cuckoo_inv c" and "capacity (hmask c) < n"
  shows "\<exists>c'. cuckoo_reserve c n = Inr c' \<and> elems c' = {} \<and> cuckoo_size c' = cuckoo_size c"
proof -
  obtain b where "tbl_inv b (ht c) (hmask c)" using assms(1) by (rule cuckoo_invE)
  then have "hmask c + 1 = 2 ^ b" "b \<le> 31" by (auto simp: tbl_inv_def mask_eq_exp_minus_1)
  moreover from this have "63 - b < (65 :: nat)" "b \<le> 63" by simp_all
  ultimately obtain q where "reserve_mask 65 (hmask c + 1) n = Inr (2 ^ q)"
    using reserve_mask_returns [of b 65 n] that by fastforce
  moreover have "\<not> n \<le> capacity (hmask c)" using assms(2) by simp
  ultimately show ?thesis
    by (simp add: cuckoo_reserve_def elems_def live_def cuckoo_size_def)
qed

theorem cuckoo_reserve_drops_witness:
  "\<exists>c'. cuckoo_reserve cuckoo_empty 100 = Inr c' \<and> elems c' = {} \<and> cuckoo_size c' = cuckoo_size cuckoo_empty"
  by (rule cuckoo_reserve_drops) (simp_all add: cuckoo_empty_inv, simp add: cuckoo_empty_def capacity_def)

text \<open>\<open>clear\<close> fills \<open>bucket_size\<close> times the slots the table has: on every well-formed
  set it writes past the end of the table.\<close>

theorem cuckoo_clear_overruns:
  assumes "cuckoo_inv c"
  shows "cuckoo_clear c = Inl (UB ''write past the table'')"
  using assms
proof (rule cuckoo_invE)
  fix n assume inv: "tbl_inv n (ht c) (hmask c)" and l: "length (ht c) = unat (capacity (hmask c))"
  have n: "n \<le> 31" and c: "unat (capacity (hmask c)) = 2 ^ (n + 1)"
    using inv l by (auto simp: tbl_inv_def)
  have "(2 :: nat) ^ (n + 1) \<le> 2 ^ 32" using n by (intro power_increasing) simp_all
  then have "unat (2 * capacity (hmask c)) = 2 * 2 ^ (n + 1)"
    using c by (simp add: unat_word_ariths)
  then have "length (ht c) < unat (of_nat bucket_size * capacity (hmask c))" using l c by simp
  then show ?thesis by (simp add: cuckoo_clear_def fill_slots_def)
qed

theorem cuckoo_clear_overruns_witness:
  "cuckoo_clear cuckoo_empty = Inl (UB ''write past the table'')"
  by (rule cuckoo_clear_overruns) (rule cuckoo_empty_inv)

text \<open>The key \<open>-1\<close> stands for a free slot: a new set already counts it as present.\<close>

lemma count_missing: "cuckoo_count cuckoo_empty missing = Inr True"
  using count_slots [of 0 cuckoo_empty missing]
  by (simp add: cuckoo_empty_def tbl_inv_def hash_1_def hash_2_def)

end
