(* ===== verification/Doubles.thy ===== *)
theory Doubles
  imports Complex_Main "HOL-Library.Log_Nat"
begin

text \<open>
  The arithmetic of \<open>double\<close> where the program's results depend on its rounding: a number rounded to 53
  significant bits, to the nearest and at a tie to the even one (\<open>to_double\<close>), and the rounded square root of an
  integer, \<open>round(sqrt(x))\<close> (\<open>round_sqrt\<close>). Numbers too big or too small for a \<open>double\<close> do not occur where the
  program uses these.
\<close>

section \<open>Rounding to a double\<close>

definition round_even :: "real \<Rightarrow> int" where
  "round_even x =
     (let f = floor x; d = x - real_of_int f in if d < 1 / 2 \<or> d = 1 / 2 \<and> even f then f else f + 1)"

text \<open>The exponent of a positive number: \<open>2 ^ exponent x \<le> x < 2 ^ (exponent x + 1)\<close>.\<close>

definition exponent :: "real \<Rightarrow> int" where
  "exponent x = (if 1 \<le> x then int (floorlog 2 (nat (floor x)) - 1) else - int (ceillog2 (nat (ceiling (1 / x)))))"

definition to_double :: "real \<Rightarrow> real" where
  "to_double x =
     (if x = 0 then 0
      else let u = exponent \<bar>x\<bar> - 52 in real_of_int (round_even (x / 2 powi u)) * 2 powi u)"

lemma round_even_int [simp]: "round_even (real_of_int n) = n"
  by (simp add: round_even_def)

lemma round_even_nonneg: "0 \<le> x \<Longrightarrow> 0 \<le> round_even x"
  by (simp add: round_even_def Let_def)

lemma to_double_nonneg: "0 \<le> x \<Longrightarrow> 0 \<le> to_double x"
  by (auto simp: to_double_def Let_def intro!: mult_nonneg_nonneg round_even_nonneg)

lemma to_double_int:
  assumes "n < 2 ^ 53"
  shows "to_double (real n) = real n"
proof (cases "n = 0")
  case False
  let ?e = "floorlog 2 n - 1"
  have "2 ^ ?e \<le> n" using floorlog_bounds [of n 2] False by simp
  then have "(2 :: nat) ^ ?e < 2 ^ 53" using assms by linarith
  then have e: "?e \<le> 52" using power_strict_increasing_iff [of "2 :: nat" ?e 53] by simp
  define k where "k = 52 - ?e"
  have u: "exponent \<bar>real n\<bar> - 52 = - int k" using False e by (simp add: exponent_def k_def)
  have "real n / 2 powi (- int k) = real_of_int (int n * 2 ^ k)" by (simp add: power_int_minus divide_inverse)
  then show ?thesis
    using False by (simp only: to_double_def u Let_def round_even_int) (simp add: power_int_minus)
qed (simp add: to_double_def)

section \<open>The rounded square root\<close>

text \<open>The square root rounded down.\<close>

fun floor_root :: "nat \<Rightarrow> nat" where
  "floor_root n =
     (if n = 0 then 0
      else let r = 2 * floor_root (n div 4) in if (r + 1) * (r + 1) \<le> n then r + 1 else r)"

declare floor_root.simps [simp del]

lemma floor_root_spec: "floor_root n * floor_root n \<le> n \<and> n < (floor_root n + 1) * (floor_root n + 1)"
proof (induction n rule: floor_root.induct)
  case (1 n)
  show ?case
  proof (cases "n = 0")
    case False
    define q where "q = floor_root (n div 4)"
    have q: "q * q \<le> n div 4" "n div 4 < (q + 1) * (q + 1)" using 1 False by (simp_all add: q_def)
    have "4 * (n div 4) \<le> n" "n < 4 * (n div 4) + 4" by simp_all
    then have "(2 * q) * (2 * q) \<le> n" "n < (2 * q + 2) * (2 * q + 2)"
      using q by (simp_all add: algebra_simps)
    then show ?thesis using False by (simp add: floor_root.simps [of n] q_def [symmetric] Let_def)
  qed (simp add: floor_root.simps)
qed

text \<open>
  \<open>round(sqrt(x))\<close>: the integer is converted, the root is the nearest \<open>double\<close>, with \<open>k\<close> bits behind the point
  (a root is never half way between two), and \<open>round\<close> goes to the nearest integer, up at a tie.
\<close>

definition nearest_root :: "nat \<Rightarrow> nat" where
  "nearest_root n = (let f = floor_root n in if f * f + f < n then f + 1 else f)"

definition round_sqrt :: "nat \<Rightarrow> nat" where
  "round_sqrt x =
     (let y = nat (floor (to_double (real x)));
          k = 52 - (floorlog 2 y - 1) div 2;
          s = nearest_root (y * 4 ^ k)
      in (2 * s + 2 ^ k) div 2 ^ (k + 1))"

lemma nearest_root_less:
  assumes "n \<le> t * t - t" "0 < t"
  shows "nearest_root n < t"
proof -
  let ?f = "floor_root n"
  have f: "?f * ?f \<le> n" using floor_root_spec by blast
  have "n < t * t" using assms by (cases t) simp_all
  then have "?f * ?f < t * t" using f by linarith
  then have ft: "?f < t" by (metis linorder_not_less mult_le_mono)
  show ?thesis
  proof (cases "?f * ?f + ?f < n")
    case True
    have "?f + 1 \<noteq> t"
    proof
      assume "?f + 1 = t"
      then have "t * t - t = ?f * ?f + ?f" by (auto simp: algebra_simps)
      then show False using True assms(1) by simp
    qed
    then show ?thesis using ft True by (simp add: nearest_root_def Let_def)
  qed (use ft in \<open>simp add: nearest_root_def Let_def\<close>)
qed

lemma nearest_root_ge:
  assumes "l * l \<le> n"
  shows "l \<le> nearest_root n"
proof -
  have "l * l < (floor_root n + 1) * (floor_root n + 1)" using assms floor_root_spec [of n] by linarith
  then have "l < floor_root n + 1" by (metis linorder_not_less mult_le_mono)
  then show ?thesis by (simp add: nearest_root_def Let_def)
qed

text \<open>As long as the root is below \<open>2 ^ 25\<close>, the two roundings find the integer next to the exact root.\<close>

lemma round_sqrt_is:
  assumes "0 < r" "(r - 1) * (r - 1) + (r - 1) < x" "x \<le> r * r + r" "r < 2 ^ 25"
  shows "round_sqrt x = r"
proof -
  obtain q where r: "r = Suc q" using assms(1) by (cases r) auto
  have "r * r + r \<le> (2 ^ 25 - 1) * (2 ^ 25 - 1) + (2 ^ 25 - 1)" using assms(4) by (intro add_mono mult_le_mono) simp_all
  then have small: "x < 2 ^ 50" using assms(3) by simp
  have x0: "0 < x" using assms(2) by simp
  have y: "nat (floor (to_double (real x))) = x" using to_double_int [of x] small by simp
  let ?e = "(floorlog 2 x - 1) div 2"
  have "2 ^ (floorlog 2 x - 1) \<le> x" using floorlog_bounds [of x 2] x0 by simp
  then have "(2 :: nat) ^ (floorlog 2 x - 1) < 2 ^ 50" using small by linarith
  then have e: "?e \<le> 24" using power_strict_increasing_iff [of "2 :: nat" "floorlog 2 x - 1" 50] by simp
  define j where "j = 51 - ?e"
  have j: "52 - ?e = Suc j" "27 \<le> j" using e by (simp_all add: j_def)
  let ?n = "x * 4 ^ Suc j"
  have four: "(4 :: nat) ^ j = 2 ^ j * 2 ^ j" by (simp add: power_mult_distrib [symmetric])
  let ?t = "(2 * r + 1) * 2 ^ j" and ?l = "(2 * q + 1) * 2 ^ j"
  have "(2 :: nat) ^ 27 \<le> 2 ^ j" using j(2) by (rule power_increasing) simp
  then have "2 * r + 1 \<le> 2 ^ j" using assms(4) by simp
  then have "?t \<le> 4 ^ j" unfolding four by (rule mult_right_mono) simp
  moreover have "?t * ?t = (4 * (r * r + r) + 1) * 4 ^ j" by (simp add: four algebra_simps)
  moreover have "?n \<le> 4 * (r * r + r) * 4 ^ j" using assms(3) by simp
  ultimately have "?n \<le> ?t * ?t - ?t" by (simp add: distrib_right)
  then have up: "nearest_root ?n < ?t" by (rule nearest_root_less) simp
  have "?l * ?l = (4 * (q * q + q) + 1) * 4 ^ j" by (simp add: four algebra_simps)
  also have "\<dots> \<le> (4 * x) * 4 ^ j" using assms(2) r by (intro mult_right_mono) simp_all
  finally have lo: "?l \<le> nearest_root ?n" by (intro nearest_root_ge) simp
  let ?m = "2 * nearest_root ?n + 2 ^ Suc j"
  have "r * 2 ^ (Suc j + 1) \<le> ?m" using lo r by (simp add: algebra_simps)
  moreover have "?m < (r + 1) * 2 ^ (Suc j + 1)" using up by (simp add: algebra_simps)
  ultimately have "?m div 2 ^ (Suc j + 1) = r" by (intro div_nat_eqI) (simp_all add: mult.commute)
  then show ?thesis unfolding round_sqrt_def y Let_def j(1) .
qed

end
