(* ===== verification/Graph_Gen.thy ===== *)
theory Graph_Gen
  imports Rng Doubles
begin

text \<open>
  The random graphs of \<open>include/graph_gen.hpp\<close>: a random tree completed with distinct
  further edges (\<open>gen_conn_erdos\<close>), and preferential attachment (\<open>gen_barabasi_albert\<close>).
  An edge \<open>(a, b)\<close> with \<open>b < a\<close> has the number \<open>a * (a - 1) / 2 + b\<close>; the first function
  draws numbers and decodes them with a rounded square root. The parameter \<open>S\<close>, the seed,
  is not used by the code, and neither here: the generator's state is passed in.
\<close>

type_synonym edge = "u64 \<times> u64"

section \<open>The generators\<close>

text \<open>\<open>for (int i=1; i<N; i++) ans.emplace_back(i, rng(i))\<close>\<close>

primrec tree_edges :: "nat list \<Rightarrow> xoroshiro \<Rightarrow> (edge list \<times> xoroshiro) res" where
  "tree_edges [] g = Inr ([], g)"
| "tree_edges (i # is) g =
     bind_res (rng_upto g (of_nat i)) (\<lambda>(r, g1).
     bind_res (tree_edges is g1) (\<lambda>(es, g2). Inr ((of_nat i, r) # es, g2)))"

definition edge_number :: "edge \<Rightarrow> u64" where
  "edge_number x = fst x * (fst x - 1) div 2 + snd x"

definition edge_of_number :: "u64 \<Rightarrow> edge" where
  "edge_of_number edg =
     (let first = of_nat (round_sqrt (unat (2 * (edg + 1))));
          second = edg - first * (first - 1) div 2
      in (first, second))"

definition gen_conn_erdos :: "xoroshiro \<Rightarrow> int \<Rightarrow> int \<Rightarrow> (edge list \<times> xoroshiro) res" where
  "gen_conn_erdos g N M =
     (let M = (if M < N - 1 then N - 1 else M) in
      bind_res (tree_edges [1..<nat N] g) (\<lambda>(ans, g1).
      let excluded = sort (map edge_number ans) in
      bind_res (get_distinct_upto g1 (of_int (M - N + 1)) (of_int N * of_int (N - 1) div 2) excluded)
        (\<lambda>(to_add, g2). Inr (ans @ map edge_of_number to_add, g2))))"

text \<open>The neighbours of a new node: both ends of the edges drawn, sorted, without repetition.\<close>

primrec edge_ends :: "edge list \<Rightarrow> u64 list \<Rightarrow> u64 list res" where
  "edge_ends ans [] = Inr []"
| "edge_ends ans (idx # idxs) =
     bind_res (vec_get ans (unat idx)) (\<lambda>e.
     bind_res (edge_ends ans idxs) (\<lambda>neighs. Inr (fst e # snd e # neighs)))"

definition barabasi_step ::
    "int \<Rightarrow> nat \<Rightarrow> edge list \<times> xoroshiro \<Rightarrow> (edge list \<times> xoroshiro) res" where
  "barabasi_step K i = (\<lambda>(ans, g).
     bind_res (get_distinct_upto g (of_int K) (of_nat (length ans)) []) (\<lambda>(idxs, g').
     bind_res (edge_ends ans idxs) (\<lambda>neighs.
     Inr (ans @ map (\<lambda>neigh. (of_nat i, neigh)) (remdups_adj (sort neighs)), g'))))"

definition gen_barabasi_albert :: "xoroshiro \<Rightarrow> int \<Rightarrow> int \<Rightarrow> (edge list \<times> xoroshiro) res" where
  "gen_barabasi_albert g N K = fold_res (barabasi_step K) [2..<nat N] ([(1, 0)], g)"

section \<open>Edge numbers\<close>

definition tri :: "nat \<Rightarrow> nat" where "tri a = a * (a - 1) div 2"

lemma two_tri: "2 * tri a = a * (a - 1)"
proof -
  have "even (a * (a - 1))" by (cases a) auto
  then show ?thesis unfolding tri_def by (rule dvd_mult_div_cancel)
qed

lemma tri_Suc: "tri (Suc a) = tri a + a"
proof -
  have "2 * tri (Suc a) = 2 * (tri a + a)"
    unfolding distrib_left two_tri by (cases a) (simp_all add: algebra_simps)
  then show ?thesis by simp
qed

lemma tri_mono: "a \<le> b \<Longrightarrow> tri a \<le> tri b"
  by (induction b) (auto simp: tri_Suc le_Suc_eq)

lemma edge_number_exists: "e < tri n \<Longrightarrow> \<exists>a b. b < a \<and> a < n \<and> e = tri a + b"
proof (induction n)
  case (Suc n)
  show ?case
  proof (cases "e < tri n")
    case True then show ?thesis using Suc.IH by (meson less_SucI)
  next
    case False
    then show ?thesis using Suc.prems by (intro exI [of _ n] exI [of _ "e - tri n"]) (auto simp: tri_Suc)
  qed
qed (simp add: tri_def)

lemma edge_number_less: "b < a \<Longrightarrow> a < n \<Longrightarrow> tri a + b < tri n"
  using tri_mono [of "Suc a" n] by (simp add: tri_Suc)

lemma tri_unique:
  assumes "b < a" "d < c" "tri a + b = tri c + d"
  shows "a = c \<and> b = d"
proof -
  have "\<not> a < c" using edge_number_less [OF assms(1), of c] assms(3) by linarith
  moreover have "\<not> c < a" using edge_number_less [OF assms(2), of a] assms(3) by linarith
  ultimately show ?thesis using assms(3) by (auto dest: linorder_neqE_nat)
qed

lemma round_sqrt_edge: "b < a \<Longrightarrow> a < 2 ^ 25 \<Longrightarrow> round_sqrt (2 * (tri a + b + 1)) = a"
proof (rule round_sqrt_is)
  assume ba: "b < a"
  then obtain c where a: "a = Suc c" by (cases a) auto
  have "2 * (tri a + b + 1) = a * (a - 1) + 2 * (b + 1)" using two_tri [of a] by simp
  then show "2 * (tri a + b + 1) \<le> a * a + a" "(a - 1) * (a - 1) + (a - 1) < 2 * (tri a + b + 1)"
    using ba a by (auto simp: algebra_simps)
qed auto

text \<open>The same on machine integers, for node numbers below \<open>2 ^ 31\<close>.\<close>

lemma unat_triangle:
  assumes "unat (a :: u64) < 2 ^ 31" "0 < unat a"
  shows "unat (a * (a - 1) div 2) = tri (unat a)"
proof -
  have p: "unat (a - 1) = unat a - 1"
    using assms(2) by (subst unat_sub_le) (simp_all add: word_le_nat_alt)
  have "unat a * (unat a - 1) \<le> 2 ^ 31 * 2 ^ 31" using assms(1) by (intro mult_le_mono) simp_all
  then have "unat (a * (a - 1)) = unat a * (unat a - 1)"
    by (simp add: unat_word_ariths p)
  then show ?thesis by (simp add: unat_div tri_def)
qed

definition plain_edge :: "nat \<Rightarrow> edge \<Rightarrow> bool" where
  "plain_edge n e \<longleftrightarrow> snd e < fst e \<and> unat (fst e) < n"

lemma tri_bound: "n \<le> 2 ^ 31 \<Longrightarrow> tri n \<le> 2 ^ 61"
proof -
  assume "n \<le> 2 ^ 31"
  then have "n * (n - 1) \<le> 2 ^ 31 * 2 ^ 31" by (intro mult_le_mono) simp_all
  then show ?thesis by (simp add: tri_def)
qed

lemma edge_number_unat:
  assumes "plain_edge n e" "n \<le> 2 ^ 31"
  shows "unat (edge_number e) = tri (unat (fst e)) + unat (snd e)"
proof -
  have e: "unat (snd e) < unat (fst e)" "unat (fst e) < n"
    using assms by (auto simp: plain_edge_def word_less_nat_alt)
  have t: "unat (fst e * (fst e - 1) div 2) = tri (unat (fst e))"
    using e assms(2) by (intro unat_triangle) auto
  have "tri (unat (fst e)) + unat (snd e) < tri n" using e by (rule edge_number_less)
  also have "\<dots> \<le> 2 ^ 61" using assms(2) by (rule tri_bound)
  finally have "tri (unat (fst e)) + unat (snd e) < 2 ^ 61" .
  then show ?thesis unfolding edge_number_def by (subst unat_add_no_wrap) (simp_all add: t)
qed

lemma edge_of_number_spec:
  assumes "unat x < tri n" "n \<le> 2 ^ 25"
  shows "plain_edge n (edge_of_number x)" "edge_number (edge_of_number x) = x"
proof -
  obtain a b where ab: "b < a" "a < n" "unat x = tri a + b"
    using edge_number_exists [OF assms(1)] by blast
  have n31: "n \<le> 2 ^ 31" using assms(2) by simp
  have x: "unat x < 2 ^ 61" using assms(1) tri_bound [OF n31] by linarith
  have x1: "unat (x + 1) = unat x + 1" using x by (subst unat_add_no_wrap) simp_all
  then have "unat (2 * (x + 1)) = 2 * (unat x + 1)" using x by (simp add: unat_word_ariths)
  then have r: "round_sqrt (unat (2 * (x + 1))) = a"
    using round_sqrt_edge [OF ab(1)] ab(2) assms(2) by (simp add: ab(3))
  have a: "a < 2 ^ 31" "unat (of_nat a :: u64) = a"
    using ab(2) assms(2) by (simp_all add: unat_of_nat_u64)
  have t: "unat (of_nat a * (of_nat a - 1) div 2 :: u64) = tri a"
    using a ab(1) unat_triangle [of "of_nat a"] by simp
  have "of_nat a * (of_nat a - 1) div 2 \<le> x" using t ab(3) by (simp add: word_le_nat_alt)
  then have b: "unat (x - of_nat a * (of_nat a - 1) div 2) = b"
    using t ab(3) by (simp add: unat_sub_le)
  have e: "edge_of_number x = (of_nat a, x - of_nat a * (of_nat a - 1) div 2)"
    by (simp only: edge_of_number_def Let_def r)
  show p: "plain_edge n (edge_of_number x)"
    using a b ab by (simp add: e plain_edge_def word_less_nat_alt)
  show "edge_number (edge_of_number x) = x" by (simp add: e edge_number_def)
qed

lemma edge_number_inj:
  assumes "plain_edge n e" "plain_edge n f" "n \<le> 2 ^ 31" "edge_number e = edge_number f"
  shows "e = f"
proof -
  have "tri (unat (fst e)) + unat (snd e) = tri (unat (fst f)) + unat (snd f)"
    using assms edge_number_unat by metis
  moreover have "unat (snd e) < unat (fst e)" "unat (snd f) < unat (fst f)"
    using assms by (auto simp: plain_edge_def word_less_nat_alt)
  ultimately have "unat (fst e) = unat (fst f)" "unat (snd e) = unat (snd f)"
    using tri_unique by blast+
  then show ?thesis by (simp add: prod_eq_iff word_unat_eq_iff)
qed

section \<open>Connected simple graphs\<close>

definition connected :: "nat \<Rightarrow> edge list \<Rightarrow> bool" where
  "connected n es \<longleftrightarrow>
     (\<forall>a < n. \<forall>b < n. (of_nat a, of_nat b) \<in> (set es \<union> (set es)\<inverse>)\<^sup>*)"

text \<open>A graph where every node but 0 has a neighbour with a smaller number is connected.\<close>

lemma connectedI:
  assumes "\<And>a. 0 < a \<Longrightarrow> a < n \<Longrightarrow> \<exists>b < a. (of_nat a, of_nat b) \<in> set es"
  shows "connected n es"
proof -
  let ?R = "set es \<union> (set es)\<inverse>"
  have root: "(of_nat a, of_nat 0) \<in> ?R\<^sup>*" if "a < n" for a
    using that
  proof (induction a rule: less_induct)
    case (less a)
    show ?case
    proof (cases "a = 0")
      case False
      then obtain b where "b < a" "(of_nat a, of_nat b) \<in> set es" using assms less.prems by blast
      moreover from this have "(of_nat b, of_nat 0) \<in> ?R\<^sup>*" using less by simp
      ultimately show ?thesis by (meson UnI1 converse_rtrancl_into_rtrancl)
    qed simp
  qed
  moreover have "sym (?R\<^sup>*)" by (intro sym_rtrancl) (auto simp: sym_def)
  ultimately show ?thesis unfolding connected_def by (meson rtrancl_trans symD)
qed

lemma tree_edges_spec:
  assumes "\<forall>i \<in> set is. 0 < i \<and> i < 2 ^ 31"
  shows "\<exists>es g'. tree_edges is g = Inr (es, g') \<and> map fst es = map of_nat is \<and>
           (\<forall>e \<in> set es. snd e < fst e)"
  using assms
proof (induction "is" arbitrary: g)
  case (Cons i "is")
  have "unat (of_nat i :: u64) = i" using Cons.prems by (intro unat_of_nat_u64) simp
  then have "(0 :: u64) < of_nat i" using Cons.prems by (simp add: word_less_nat_alt)
  then obtain r g1 where r: "rng_upto g (of_nat i) = Inr (r, g1)" "r < of_nat i"
    unfolding rng_upto_def using rng_range_bounds by blast
  have "\<forall>i \<in> set is. 0 < i \<and> i < 2 ^ 31" using Cons.prems by simp
  from Cons.IH [OF this, of g1] obtain es g2 where "tree_edges is g1 = Inr (es, g2)"
    "map fst es = map of_nat is" "\<forall>e \<in> set es. snd e < fst e" by blast
  with r show ?case by simp
qed simp

text \<open>What \<open>gen_conn_erdos\<close> has after its first loop: a spanning tree.\<close>

definition spanning :: "nat \<Rightarrow> edge list \<Rightarrow> bool" where
  "spanning n es \<longleftrightarrow> map fst es = map of_nat [1..<n] \<and> (\<forall>e \<in> set es. snd e < fst e)"

lemma spanning_plain:
  assumes "spanning n es" "n \<le> 2 ^ 31" "e \<in> set es"
  shows "plain_edge n e"
proof -
  have "fst e \<in> set (map fst es)" using assms(3) by simp
  also have "set (map fst es) = set (map of_nat [1..<n])" using assms(1) by (simp only: spanning_def)
  finally obtain i where "fst e = of_nat i" "i < n" by auto
  moreover from this have "unat (of_nat i :: u64) = i" using assms(2) by (intro unat_of_nat_u64) simp
  ultimately show ?thesis using assms by (auto simp: plain_edge_def spanning_def)
qed

lemma spanning_distinct:
  assumes "spanning n es" "n \<le> 2 ^ 31"
  shows "distinct es"
proof -
  have "inj_on (of_nat :: nat \<Rightarrow> u64) {1..<n}"
  proof (rule inj_onI)
    fix a b assume "a \<in> {1..<n}" "b \<in> {1..<n}" "(of_nat a :: u64) = of_nat b"
    moreover from this have "a < 2 ^ 64" "b < 2 ^ 64" using assms(2) by auto
    ultimately show "a = b" by (metis unat_of_nat_u64)
  qed
  then have "distinct (map fst es)" using assms(1) by (simp add: spanning_def distinct_map)
  then show ?thesis by (simp add: distinct_map)
qed

lemma spanning_connected:
  assumes "spanning n es" "n \<le> 2 ^ 31" "set es \<subseteq> set fs"
  shows "connected n fs"
proof (rule connectedI)
  fix a assume a: "0 < a" "a < n"
  have "set (map fst es) = set (map of_nat [1..<n])" using assms(1) by (simp only: spanning_def)
  moreover have "(of_nat a :: u64) \<in> set (map of_nat [1..<n])" using a by auto
  ultimately have "of_nat a \<in> set (map fst es)" by simp
  then obtain e where e: "e \<in> set es" "fst e = of_nat a" by auto
  have "unat (of_nat a :: u64) = a" using a assms(2) by (intro unat_of_nat_u64) simp
  moreover have "snd e < fst e" using assms(1) e(1) by (simp add: spanning_def)
  ultimately have "unat (snd e) < a" using e(2) by (simp add: word_less_nat_alt)
  moreover have "e = (of_nat a, of_nat (unat (snd e)))" using e(2) by (simp add: prod_eq_iff)
  moreover have "e \<in> set fs" using e(1) assms(3) by blast
  ultimately show "\<exists>b < a. (of_nat a, of_nat b) \<in> set fs" by metis
qed

text \<open>The arguments the drawing of the further edges gets.\<close>

definition edge_target :: "int \<Rightarrow> int \<Rightarrow> int" where
  "edge_target N M = (if M < N - 1 then N - 1 else M)"

lemma erdos_prefix:
  assumes N: "1 \<le> N" "N < 2 ^ 31" and M: "M < 2 ^ 61"
  defines "n \<equiv> nat N"
  obtains ans g1 amount upper where "spanning n ans" "length ans = n - 1"
    "unat amount = nat (edge_target N M - N + 1)" "unat upper = tri n"
    "gen_conn_erdos g N M =
       bind_res (get_distinct_upto g1 amount upper (sort (map edge_number ans)))
        (\<lambda>(to_add, g2). Inr (ans @ map edge_of_number to_add, g2))"
proof -
  have n: "0 < n" "n < 2 ^ 31" using N by (auto simp: n_def nat_less_iff)
  obtain ans g1 where t: "tree_edges [1..<n] g = Inr (ans, g1)" "map fst ans = map of_nat [1..<n]"
    "\<forall>e \<in> set ans. snd e < fst e"
    using tree_edges_spec [of "[1..<n]" g] n by auto
  then have sp: "spanning n ans" by (simp add: spanning_def)
  have len: "length ans = n - 1" using t(2) by (metis length_map length_upt)
  have am: "unat (of_int (edge_target N M - N + 1) :: u64) = nat (edge_target N M - N + 1)"
    using N M by (intro unat_of_int_u64) (auto simp: edge_target_def)
  have u: "unat (of_int N :: u64) = n" using N unat_of_int_u64 [of N] by (simp add: n_def)
  then have up: "unat (of_int N * of_int (N - 1) div 2 :: u64) = tri n"
    using unat_triangle [of "of_int N"] n by simp
  show thesis
    by (rule that [OF sp len am up, of g1])
      (simp only: gen_conn_erdos_def Let_def edge_target_def [symmetric] t(1) n_def [symmetric]
        bind_res_Inr prod.case)
qed

lemma gen_conn_erdos_returns:
  assumes "1 \<le> N" "N \<le> 2 ^ 25" and "edge_target N M < N * (N - 1) div 2"
  shows "\<exists>es g'. gen_conn_erdos g N M = Inr (es, g') \<and> int (length es) = edge_target N M
           \<and> distinct es \<and> (\<forall>e \<in> set es. plain_edge (nat N) e) \<and> connected (nat N) es"
proof -
  let ?n = "nat N"
  have N31: "N < 2 ^ 31" using assms(2) by simp
  have n: "0 < ?n" "?n \<le> 2 ^ 31" and n25: "?n \<le> 2 ^ 25" using assms(1,2) by auto
  have tn: "int (tri ?n) = N * (N - 1) div 2"
    using n(1) assms(1) by (simp add: tri_def zdiv_int of_nat_diff)
  have M: "M < 2 ^ 61"
    using tri_bound [OF n(2)] tn assms(3) by (auto simp: edge_target_def split: if_splits)
  obtain ans g1 amount upper where sp: "spanning ?n ans" and len: "length ans = ?n - 1"
    and am: "unat amount = nat (edge_target N M - N + 1)" and up: "unat upper = tri ?n"
    and gen: "gen_conn_erdos g N M =
       bind_res (get_distinct_upto g1 amount upper (sort (map edge_number ans)))
        (\<lambda>(to_add, g2). Inr (ans @ map edge_of_number to_add, g2))"
    using assms(1) N31 M by (rule erdos_prefix)
  let ?ex = "sort (map edge_number ans)"
  have total: "int (unat amount + length ans) = edge_target N M"
    using am len assms(1) by (auto simp: edge_target_def)
  have "int (unat amount + length ans) < int (tri ?n)" unfolding total tn by (rule assms(3))
  then have "unat amount + length ans < tri ?n" by (simp only: of_nat_less_iff)
  then have "unat amount + unat (0 :: u64) + length ?ex < unat upper" by (simp add: up)
  from get_distinct_returns [OF sorted_sort this] obtain add g2 where
    add: "get_distinct g1 amount 0 upper ?ex = Inr (add, g2)" "length add = unat amount"
      "sorted_wrt (<) add" "set add \<inter> set ?ex = {}" "\<forall>x \<in> set add. x < upper" by blast
  have new: "plain_edge ?n (edge_of_number x)" "edge_number (edge_of_number x) = x" if "x \<in> set add" for x
    using edge_of_number_spec [of x ?n] that add(5) up n25 by (auto simp: word_less_nat_alt)
  have "distinct add" using add(3) by (simp add: strict_sorted_iff)
  moreover have "inj_on edge_of_number (set add)" by (rule inj_onI) (metis new(2))
  ultimately have d: "distinct (map edge_of_number add)" by (simp add: distinct_map)
  have disj: "set ans \<inter> set (map edge_of_number add) = {}"
  proof -
    have False if e: "e \<in> set ans" "x \<in> set add" "e = edge_of_number x" for e x
    proof -
      have "edge_number e \<in> set ?ex" using e(1) by simp
      moreover have "edge_number e = x" using e(2,3) new(2) by simp
      ultimately show False using add(4) e(2) by blast
    qed
    then show ?thesis by auto
  qed
  let ?es = "ans @ map edge_of_number add"
  have "gen_conn_erdos g N M = Inr (?es, g2)" using add(1) by (simp add: gen get_distinct_upto_def)
  moreover have "int (length ?es) = edge_target N M" using total add(2) by simp
  moreover have "distinct ?es" using d disj spanning_distinct [OF sp n(2)] by simp
  moreover have "\<forall>e \<in> set ?es. plain_edge ?n e"
    using new(1) spanning_plain [OF sp n(2)] by auto
  moreover have "connected ?n ?es" using spanning_connected [OF sp n(2), of ?es] by simp
  ultimately show ?thesis by blast
qed

text \<open>C19: for at most \<open>2 ^ 25\<close> nodes, and with fewer edges asked for than a complete graph has, \<open>gen_conn_erdos\<close> returns a
  connected simple graph with exactly that many edges, or with \<open>N - 1\<close> if fewer are asked
  for: no edge occurs twice, none is a loop, and every end is a node.\<close>

theorem gen_conn_erdos_correct:
  assumes "1 \<le> N" "N \<le> 2 ^ 25" and "edge_target N M < N * (N - 1) div 2"
  shows "\<exists>es g'. gen_conn_erdos g N M = Inr (es, g') \<and> int (length es) = edge_target N M
           \<and> distinct es \<and> (\<forall>e \<in> set es. plain_edge (nat N) e) \<and> connected (nat N) es"
  by (rule gen_conn_erdos_returns [OF assms])

theorem gen_conn_erdos_correct_witness:
  "\<exists>es g'. gen_conn_erdos xoroshiro_default 5 7 = Inr (es, g') \<and> int (length es) = edge_target 5 7
     \<and> distinct es \<and> (\<forall>e \<in> set es. plain_edge (nat 5) e) \<and> connected (nat 5) es"
  by (rule gen_conn_erdos_correct) (simp_all add: edge_target_def)

text \<open>When as many edges are asked for as a complete graph has, or more, the result is
  the random tree followed by every edge of the complete graph: the edges of the tree are
  there twice, although \<open>get_distinct\<close> was told to leave them out.\<close>

theorem gen_conn_erdos_saturated:
  assumes "2 \<le> N" "N \<le> 2 ^ 25" and "N * (N - 1) div 2 \<le> edge_target N M" "M < 2 ^ 61"
  shows "\<exists>ans all g'. gen_conn_erdos g N M = Inr (ans @ all, g') \<and> length ans = nat N - 1
           \<and> ans \<noteq> [] \<and> set ans \<subseteq> set all \<and> int (length all) = N * (N - 1) div 2"
proof -
  let ?n = "nat N"
  have N31: "N < 2 ^ 31" using assms(2) by simp
  have n: "1 < ?n" "?n \<le> 2 ^ 31" and n25: "?n \<le> 2 ^ 25" using assms(1,2) by auto
  have tn: "int (tri ?n) = N * (N - 1) div 2"
    using n(1) assms(1) by (simp add: tri_def zdiv_int of_nat_diff)
  have N1: "1 \<le> N" using assms(1) by simp
  obtain ans g1 amount upper where sp: "spanning ?n ans" and len: "length ans = ?n - 1"
    and am: "unat amount = nat (edge_target N M - N + 1)" and up: "unat upper = tri ?n"
    and gen: "gen_conn_erdos g N M =
       bind_res (get_distinct_upto g1 amount upper (sort (map edge_number ans)))
        (\<lambda>(to_add, g2). Inr (ans @ map edge_of_number to_add, g2))"
    using N1 N31 assms(4) by (rule erdos_prefix)
  let ?ex = "sort (map edge_number ans)"
  have total: "int (unat amount + length ans) = edge_target N M"
    using am len assms(1) by (auto simp: edge_target_def)
  have small: "edge_target N M < 2 ^ 61" using assms(2,4) by (auto simp: edge_target_def)
  have len2: "unat (of_nat (length ?ex) :: u64) = length ans"
    using len n(2) by (subst unat_of_nat_u64) auto
  have "int (unat amount + length ans) < 2 ^ 61" unfolding total by (rule small)
  then have "unat amount + length ans < 2 ^ 61" by (metis of_nat_less_iff of_nat_numeral of_nat_power)
  then have sum: "unat (amount + 0 + of_nat (length ?ex)) = unat amount + length ans"
    using len2 by (subst unat_add_no_wrap) simp_all
  have "int (tri ?n) \<le> int (unat amount + length ans)" unfolding total tn by (rule assms(3))
  then have "upper \<le> amount + 0 + of_nat (length ?ex)"
    unfolding word_le_nat_alt sum up by (simp only: of_nat_le_iff)
  from get_distinct_full [OF this, of g1] have
    eq: "gen_conn_erdos g N M = Inr (ans @ map edge_of_number (map of_nat [0..<tri ?n]), g1)"
    by (simp add: gen get_distinct_upto_def up)
  have "e \<in> set (map edge_of_number (map of_nat [0..<tri ?n]))" if e: "e \<in> set ans" for e
  proof -
    have p: "plain_edge ?n e" using spanning_plain [OF sp n(2) e] .
    have num: "unat (edge_number e) < tri ?n"
      using edge_number_unat [OF p n(2)] edge_number_less p
      by (simp add: plain_edge_def word_less_nat_alt)
    have "e = edge_of_number (edge_number e)"
      using edge_number_inj [OF p _ n(2)] edge_of_number_spec [OF num n25] by metis
    moreover have "edge_number e = of_nat (unat (edge_number e))" by simp
    ultimately show ?thesis using num by (force simp: image_iff)
  qed
  moreover have "ans \<noteq> []" using len n(1) by auto
  ultimately show ?thesis using eq len tn
    by (intro exI [of _ ans] exI [of _ "map edge_of_number (map of_nat [0..<tri ?n])"] exI [of _ g1]) auto
qed

theorem gen_conn_erdos_saturated_witness:
  "\<exists>ans all g'. gen_conn_erdos xoroshiro_default 3 3 = Inr (ans @ all, g') \<and> length ans = nat 3 - 1
     \<and> ans \<noteq> [] \<and> set ans \<subseteq> set all \<and> int (length all) = 3 * (3 - 1) div 2"
  by (rule gen_conn_erdos_saturated) (simp_all add: edge_target_def)

lemma floor_root_is: "f * f \<le> n \<Longrightarrow> n < (f + 1) * (f + 1) \<Longrightarrow> floor_root n = f"
proof -
  assume "f * f \<le> n" "n < (f + 1) * (f + 1)"
  then have "floor_root n * floor_root n < (f + 1) * (f + 1)" "f * f < (floor_root n + 1) * (floor_root n + 1)"
    using floor_root_spec [of n] by linarith+
  then have "floor_root n < f + 1" "f < floor_root n + 1" by (metis linorder_not_less mult_le_mono)+
  then show ?thesis by simp
qed

lemma round_sqrt_wrong: "round_sqrt 1125899940397056 = 33554433"
proof -
  have y: "nat (floor (to_double (real 1125899940397056))) = 1125899940397056"
    using to_double_int [of 1125899940397056] by simp
  have e: "(floorlog 2 1125899940397056 - 1) div 2 = 25"
    by (simp add: compute_floorlog)
  have "floor_root (1125899940397056 * 4 ^ 27) = 4503599694479359" by (rule floor_root_is) simp_all
  then show ?thesis unfolding round_sqrt_def y Let_def e by (simp add: nearest_root_def Let_def)
qed

text \<open>C37: decoding undoes the numbering of the edges of any graph with at most \<open>2 ^ 25\<close> nodes. With one node
  more it does not: the root of the last number is rounded up twice, to a first end that is no node, and the
  second end is \<open>- 1\<close>, wrapped around.\<close>

theorem edge_numbers_roundtrip:
  "(\<forall>e. plain_edge (2 ^ 25) e \<longrightarrow> edge_of_number (edge_number e) = e)
   \<and> plain_edge (2 ^ 25 + 1) (2 ^ 25, 2 ^ 25 - 1)
   \<and> edge_of_number (edge_number (2 ^ 25, 2 ^ 25 - 1)) = (2 ^ 25 + 1, - 1)"
proof (intro conjI allI impI)
  fix e assume p: "plain_edge (2 ^ 25) e"
  have few: "(2 :: nat) ^ 25 \<le> 2 ^ 31" by (rule power_increasing) simp_all
  have num: "unat (edge_number e) < tri (2 ^ 25)"
    using edge_number_unat [OF p few] edge_number_less p by (simp add: plain_edge_def word_less_nat_alt)
  show "edge_of_number (edge_number e) = e"
    using edge_of_number_spec [OF num order_refl] by (intro edge_number_inj [OF _ p few]) simp_all
next
  show "plain_edge (2 ^ 25 + 1) (2 ^ 25, 2 ^ 25 - 1)" by (simp add: plain_edge_def)
next
  show "edge_of_number (edge_number (2 ^ 25, 2 ^ 25 - 1)) = (2 ^ 25 + 1, - 1)"
    by (simp add: edge_number_def edge_of_number_def round_sqrt_wrong)
qed

theorem edge_numbers_roundtrip_witness:
  "edge_of_number (edge_number (4, 2)) = (4, 2)"
proof -
  have "plain_edge (2 ^ 25) (4, 2)" by (simp add: plain_edge_def)
  then show ?thesis using edge_numbers_roundtrip by blast
qed

section \<open>Preferential attachment\<close>

lemma get_distinct_no_excluded:
  "\<exists>ans g'. get_distinct_upto g amount upper [] = Inr (ans, g') \<and> (\<forall>x \<in> set ans. x < upper)
     \<and> distinct ans \<and> length ans = min (unat amount) (unat upper)"
proof (cases "upper \<le> amount")
  case True
  then have "get_distinct_upto g amount upper [] = Inr (map of_nat [0..<unat upper], g)"
    using get_distinct_full [of upper amount 0 "[]" g] by (simp add: get_distinct_upto_def)
  moreover have u: "unat (of_nat i :: u64) = i" if "i < unat upper" for i
    using that unat_u64_less_power [of upper] by (intro unat_of_nat_u64) linarith
  moreover have "inj_on (of_nat :: nat \<Rightarrow> u64) {0..<unat upper}" by (rule inj_onI) (metis u atLeastLessThan_iff)
  ultimately show ?thesis using True by (auto simp: word_less_nat_alt word_le_nat_alt distinct_map)
next
  case False
  then have lt: "unat amount + unat (0 :: u64) + length ([] :: u64 list) < unat upper"
    by (simp add: word_le_nat_alt)
  have "sorted ([] :: u64 list)" by simp
  from get_distinct_returns [OF this lt, of g] show ?thesis
    using lt by (auto simp: get_distinct_upto_def strict_sorted_iff)
qed

lemma edge_ends_spec:
  assumes "\<forall>x \<in> set idxs. unat x < length ans"
  defines "drawn \<equiv> (\<lambda>x. ans ! unat x) ` set idxs"
  shows "\<exists>ns. edge_ends ans idxs = Inr ns \<and> set ns = fst ` drawn \<union> snd ` drawn"
  using assms(1) unfolding drawn_def
  by (induction idxs) auto

text \<open>
  What node \<open>i\<close> is attached to: both ends of as many earlier edges as \<open>K\<close> says, or of all of them if there are
  not so many.
\<close>

definition attached_at :: "int \<Rightarrow> edge list \<Rightarrow> nat \<Rightarrow> bool" where
  "attached_at K es i \<longleftrightarrow>
     (\<exists>drawn \<subseteq> {e \<in> set es. unat (fst e) < i}. card drawn = min (nat K) (card {e \<in> set es. unat (fst e) < i})
        \<and> {b. (of_nat i, b) \<in> set es} = fst ` drawn \<union> snd ` drawn)"

text \<open>The graph after the nodes below \<open>i\<close> have been added: its edges lead to smaller nodes.\<close>

definition attached :: "int \<Rightarrow> nat \<Rightarrow> edge list \<Rightarrow> bool" where
  "attached K i es \<longleftrightarrow> (\<forall>e \<in> set es. plain_edge i e) \<and> distinct es \<and> (1, 0) \<in> set es \<and>
     length es \<le> i * i \<and> (\<forall>a. 2 \<le> a \<longrightarrow> a < i \<longrightarrow> attached_at K es a)"

text \<open>Edges of later nodes do not matter to what a node is attached to.\<close>

lemma attached_at_append:
  assumes "a < i" "i < 2 ^ 31" "\<forall>e \<in> set new. fst e = of_nat i"
  shows "attached_at K (es @ new) a = attached_at K es a"
proof -
  have u: "unat (of_nat j :: u64) = j" if "j \<le> i" for j using that assms(2) by (intro unat_of_nat_u64) simp
  have "{e \<in> set (es @ new). unat (fst e) < a} = {e \<in> set es. unat (fst e) < a}"
    using assms(1,3) u by auto
  moreover have "(of_nat a, b) \<in> set (es @ new) \<longleftrightarrow> (of_nat a, b) \<in> set es" for b
    using assms(1,3) u [of a] u [of i] by fastforce
  ultimately show ?thesis by (simp only: attached_at_def)
qed

lemma barabasi_step_attached:
  assumes "attached K i es" "2 \<le> i" "i < 2 ^ 31" "0 \<le> K" "K < 2 ^ 31"
  shows "\<exists>es' g'. barabasi_step K i (es, g) = Inr (es', g') \<and> attached K (Suc i) es'"
proof -
  have i: "unat (of_nat i :: u64) = i" using assms(3) by (intro unat_of_nat_u64) simp
  have K: "unat (of_int K :: u64) = nat K" using assms(4,5) by (intro unat_of_int_u64) simp_all
  have "i * i \<le> 2 ^ 31 * 2 ^ 31" using assms(3) by (intro mult_le_mono) simp_all
  then have len: "unat (of_nat (length es) :: u64) = length es"
    using assms(1) by (intro unat_of_nat_u64) (simp add: attached_def)
  have es: "distinct es" "\<And>e. e \<in> set es \<Longrightarrow> unat (fst e) < i \<and> snd e < fst e"
    using assms(1) by (auto simp: attached_def plain_edge_def)
  obtain idxs g' where d: "get_distinct_upto g (of_int K) (of_nat (length es)) [] = Inr (idxs, g')"
    "\<forall>x \<in> set idxs. x < of_nat (length es)" "distinct idxs" "length idxs = min (nat K) (length es)"
    using get_distinct_no_excluded [of g "of_int K" "of_nat (length es)"] by (auto simp: K len)
  have idx: "\<forall>x \<in> set idxs. unat x < length es" using d(2) len by (simp add: word_less_nat_alt)
  define drawn where "drawn = (\<lambda>x. es ! unat x) ` set idxs"
  from edge_ends_spec [OF idx] obtain ns where ns: "edge_ends es idxs = Inr ns"
    "set ns = fst ` drawn \<union> snd ` drawn" unfolding drawn_def by blast
  have sub: "drawn \<subseteq> set es" using idx by (auto simp: drawn_def)
  have "inj_on (\<lambda>x. es ! unat x) (set idxs)"
    by (rule inj_onI) (metis idx es(1) nth_eq_iff_index_eq unsigned_word_eqI)
  then have card: "card drawn = min (nat K) (length es)"
    using d(3,4) by (simp add: drawn_def card_image distinct_card)
  let ?ns = "remdups_adj (sort ns)"
  let ?new = "map (\<lambda>n. (of_nat i :: u64, n)) ?ns"
  have small: "unat n < i" if "n \<in> set ns" for n
    using that sub es(2) unfolding ns(2) by (force simp: word_less_nat_alt)
  have dn: "distinct ?ns" by (rule distinct_unique_sort)
  have "distinct (es @ ?new)"
    using dn es i by (force simp: distinct_map inj_on_def)
  moreover have "\<forall>e \<in> set (es @ ?new). plain_edge (Suc i) e"
    using es(2) small i by (fastforce simp: plain_edge_def word_less_nat_alt)
  moreover have "length (es @ ?new) \<le> Suc i * Suc i"
  proof -
    have "length ?ns \<le> i" using length_distinct_below [OF dn, of i] small by simp
    moreover have "length es \<le> i * i" using assms(1) by (simp add: attached_def)
    ultimately show ?thesis by simp
  qed
  moreover have "attached_at K (es @ ?new) i"
  proof -
    have "{e \<in> set (es @ ?new). unat (fst e) < i} = set es" using es(2) i by auto
    moreover have "{b. (of_nat i, b) \<in> set (es @ ?new)} = set ns" using es(2) i by force
    ultimately show ?thesis
      unfolding attached_at_def using sub card es(1) ns(2) distinct_card [of es] by (intro exI [of _ drawn]) simp
  qed
  moreover have "attached_at K (es @ ?new) a" if "2 \<le> a" "a < i" for a
    using that assms(1,3) attached_at_append [of a i ?new K es] by (auto simp: attached_def)
  ultimately have "attached K (Suc i) (es @ ?new)"
    using assms(1) by (auto simp: attached_def less_Suc_eq)
  moreover have "barabasi_step K i (es, g) = Inr (es @ ?new, g')"
    by (simp add: barabasi_step_def d(1) ns(1))
  ultimately show ?thesis by blast
qed

lemma barabasi_loop:
  assumes "2 \<le> n" "n < 2 ^ 31" "0 \<le> K" "K < 2 ^ 31" "2 \<le> m" "m \<le> n"
  shows "\<exists>es g'. fold_res (barabasi_step K) [2..<m] ([(1, 0)], g) = Inr (es, g') \<and> attached K m es"
  using assms(5,6)
proof (induction m rule: dec_induct)
  case base
  then show ?case by (auto simp: attached_def plain_edge_def)
next
  case (step m)
  then obtain es g' where "fold_res (barabasi_step K) [2..<m] ([(1, 0)], g) = Inr (es, g')"
    "attached K m es" by auto
  moreover have "[2..<Suc m] = [2..<m] @ [m]" using step.hyps by simp
  ultimately show ?case
    using barabasi_step_attached [of K m es g'] step.hyps step.prems assms(2-4)
    by (simp add: fold_res_append)
qed

lemma attached_connected:
  assumes "attached K n es" "0 < K" "n < 2 ^ 31"
  shows "connected n es"
proof (rule connectedI)
  fix a assume a: "0 < a" "a < n"
  show "\<exists>b < a. (of_nat a, of_nat b) \<in> set es"
  proof (cases "a = 1")
    case True
    then show ?thesis using assms(1) by (intro exI [of _ 0]) (simp add: attached_def)
  next
    case False
    then have "attached_at K es a" using assms(1) a by (simp add: attached_def)
    then obtain drawn where d: "card drawn = min (nat K) (card {e \<in> set es. unat (fst e) < a})"
      "{b. (of_nat a, b) \<in> set es} = fst ` drawn \<union> snd ` drawn" by (auto simp: attached_at_def)
    have "(1, 0) \<in> {e \<in> set es. unat (fst e) < a}" using assms(1) a False by (simp add: attached_def)
    then have "0 < card {e \<in> set es. unat (fst e) < a}" by (intro card_gt_0_iff [THEN iffD2]) auto
    then have "0 < card drawn" using d(1) assms(2) by simp
    then obtain e where "e \<in> drawn" by (metis card_gt_0_iff ex_in_conv)
    then have e: "(of_nat a, fst e) \<in> set es" using d(2) by blast
    then have "fst e < of_nat a" using assms(1) by (auto simp: attached_def plain_edge_def)
    moreover have "unat (of_nat a :: u64) = a" using a assms(3) by (intro unat_of_nat_u64) simp
    ultimately show ?thesis using e by (intro exI [of _ "unat (fst e)"]) (simp add: word_less_nat_alt)
  qed
qed

text \<open>C32: for at least two nodes \<open>gen_barabasi_albert\<close> returns a simple graph on the nodes
  below \<open>N\<close>, with no edge twice, that starts with the edge between nodes 1 and 0 and attaches every further
  node to earlier ones: node \<open>i\<close> to exactly the ends, both of them, of \<open>K\<close> different edges
  among the nodes before it (of all edges, if there are fewer). It is connected when \<open>K\<close> is positive.\<close>

theorem gen_barabasi_albert_correct:
  assumes "2 \<le> N" "N < 2 ^ 31" "0 \<le> K" "K < 2 ^ 31"
  shows "\<exists>es g'. gen_barabasi_albert g N K = Inr (es, g') \<and> distinct es
    \<and> (\<forall>e \<in> set es. plain_edge (nat N) e) \<and> (1, 0) \<in> set es
    \<and> (\<forall>i. 2 \<le> i \<longrightarrow> i < nat N \<longrightarrow>
         (\<exists>drawn \<subseteq> {e \<in> set es. unat (fst e) < i}. card drawn = min (nat K) (card {e \<in> set es. unat (fst e) < i})
            \<and> {b. (of_nat i, b) \<in> set es} = fst ` drawn \<union> snd ` drawn))
    \<and> (0 < K \<longrightarrow> connected (nat N) es)"
proof -
  have n: "2 \<le> nat N" "nat N < 2 ^ 31" using assms by (auto simp: nat_less_iff)
  then obtain es g' where r: "gen_barabasi_albert g N K = Inr (es, g')" "attached K (nat N) es"
    using barabasi_loop [of "nat N" K "nat N" g] assms(3,4) by (auto simp: gen_barabasi_albert_def)
  note a = r(2) [unfolded attached_def attached_at_def]
  show ?thesis using r attached_connected [OF r(2) _ n(2)] a by (intro exI [of _ es] exI [of _ g']) blast
qed

theorem gen_barabasi_albert_correct_witness:
  "\<exists>es g'. gen_barabasi_albert xoroshiro_default 6 2 = Inr (es, g') \<and> distinct es
    \<and> {b. (2, b) \<in> set es} = {0, 1} \<and> connected 6 es"
proof -
  have p: "(2 :: int) \<le> 6" "(6 :: int) < 2 ^ 31" "(0 :: int) \<le> 2" "(2 :: int) < 2 ^ 31" by simp_all
  obtain es g' where r: "gen_barabasi_albert xoroshiro_default 6 2 = Inr (es, g')" "distinct es"
    "\<forall>e \<in> set es. plain_edge (nat 6) e" "(1, 0) \<in> set es" "0 < (2 :: int) \<longrightarrow> connected (nat 6) es"
    and at: "\<And>i. 2 \<le> i \<Longrightarrow> i < nat 6 \<Longrightarrow>
         \<exists>drawn \<subseteq> {e \<in> set es. unat (fst e) < i}. card drawn = min (nat 2) (card {e \<in> set es. unat (fst e) < i})
            \<and> {b. (of_nat i, b) \<in> set es} = fst ` drawn \<union> snd ` drawn"
    using gen_barabasi_albert_correct [OF p, of xoroshiro_default] by blast
  have one: "{e \<in> set es. unat (fst e) < 2} = {(1, 0)}"
  proof -
    have "e = (1, 0)" if "e \<in> set es" "unat (fst e) < 2" for e
    proof -
      have "unat (snd e) < unat (fst e)" using r(3) that(1) by (simp add: plain_edge_def word_less_nat_alt)
      then have "unat (fst e) = 1" "unat (snd e) = 0" using that(2) by linarith+
      then have "unat (fst e) = unat (1 :: u64)" "unat (snd e) = unat (0 :: u64)" by simp_all
      then have "fst e = 1" "snd e = 0" using unsigned_word_eqI by blast+
      then show ?thesis by (cases e) simp
    qed
    then have "{e \<in> set es. unat (fst e) < 2} \<subseteq> {(1, 0)}" by blast
    moreover have "(1, 0) \<in> {e \<in> set es. unat (fst e) < 2}" using r(4) by simp
    ultimately show ?thesis by blast
  qed
  obtain drawn where d: "drawn \<subseteq> {(1, 0)}" "card drawn = 1" "{b. (2, b) \<in> set es} = fst ` drawn \<union> snd ` drawn"
    using at [of 2] unfolding one by auto
  then have "drawn = {(1, 0)}" by (metis card.empty subset_singletonD zero_neq_one)
  then show ?thesis using d(3) r(1,2,5) by auto
qed

end
