(* ===== verification/Graph_HWM.thy ===== *)
theory Graph_HWM
  imports Hardware_Manager Cuckoo Graph_Gen
begin

text \<open>
  \<open>include/graph_hwm.hpp\<close>: a hardware manager whose links are the edges of a graph, one hash
  set of neighbours per node. It extends the manager's record; the overriding methods carry the
  prefix \<open>graph_\<close>. The lemmas use the hash set only through its contract \<open>key_set\<close>.
\<close>

section \<open>The class\<close>

record ('d, 's) graph_hwm = "('d, 's) hwm" +
  graph :: "cuckoo list"

definition graph_hwm_new :: "int \<Rightarrow> int \<Rightarrow> u64 \<Rightarrow> ('d, 's) graph_hwm" where
  "graph_hwm_new hardware_concurrency nt sd =
     hwm.extend (hwm_new hardware_concurrency 0 nt sd 0) (graph_hwm.fields [])"

definition graph_can_send :: "('d, 's, 'z) graph_hwm_scheme \<Rightarrow> node_id \<Rightarrow> node_id \<Rightarrow> bool res" where
  "graph_can_send w a b = bind_res (vec_get (graph w) (unat a)) (\<lambda>s. cuckoo_count s b)"

fun visit :: "(node_id \<Rightarrow> 'x \<Rightarrow> 'x \<times> bool res) \<Rightarrow> node_id list \<Rightarrow> 'x act" where
  "visit callback [] x = (x, None)"
| "visit callback (node # rest) x =
     (case callback node x of
        (x', Inl e) \<Rightarrow> (x', Some e)
      | (x', Inr True) \<Rightarrow> visit callback rest x'
      | (x', Inr False) \<Rightarrow> (x', None))"

definition graph_iter_neighbours ::
    "('d, 's, 'z) graph_hwm_scheme \<Rightarrow> node_id \<Rightarrow> (node_id \<Rightarrow> 'x \<Rightarrow> 'x \<times> bool res) \<Rightarrow> 'x act" where
  "graph_iter_neighbours w n callback x =
     (case bind_res (vec_get (graph w) (unat n)) cuckoo_iter of
        Inl e \<Rightarrow> (x, Some e) | Inr ns \<Rightarrow> visit callback ns x)"

definition graph_gen_id :: "('d, 's, 'z) graph_hwm_scheme \<Rightarrow> node_id res" where
  "graph_gen_id w = Inl (Runtime_Error ''Illegal function call'')"

definition graph_get_random_node ::
    "('d, 's, 'z) graph_hwm_scheme \<Rightarrow> node_id res \<times> ('d, 's, 'z) graph_hwm_scheme" where
  "graph_get_random_node w =
     (let (r, g) = rng_next (gen w)
      in (if of_nat (length (graph w)) = (0 :: u64) then Inl (UB ''division by zero'')
          else Inr (r mod of_nat (length (graph w))), w\<lparr>gen := g\<rparr>))"

text \<open>\<open>node_ctor\<close> is the constructor of the node's class, which may change the world.\<close>

definition graph_add_node ::
    "(node_id \<Rightarrow> ('d, 's, 'z) graph_hwm_scheme act)
      \<Rightarrow> (node_id \<Rightarrow> ('d, 's, 'z) graph_hwm_scheme \<Rightarrow> ('d, 's) node \<times> ('d, 's, 'z) graph_hwm_scheme)
      \<Rightarrow> ('d, 's, 'z) graph_hwm_scheme act" where
  "graph_add_node init node_ctor w =
     (let (nd, w') = node_ctor (of_nat (length (graph w))) w
      in seq_act (add_node init nd) (ok_act (\<lambda>w. w\<lparr>graph := graph w @ [cuckoo_empty]\<rparr>)) w')"

definition set_insert :: "node_id \<Rightarrow> node_id \<Rightarrow> ('d, 's, 'z) graph_hwm_scheme act" where
  "set_insert a b w =
     (case cuckoo_insert (graph w ! unat a) b of
        Inl e \<Rightarrow> (w, Some e) | Inr s \<Rightarrow> (w\<lparr>graph := (graph w)[unat a := s]\<rparr>, None))"

definition add_edge :: "bool \<Rightarrow> node_id \<Rightarrow> node_id \<Rightarrow> ('d, 's, 'z) graph_hwm_scheme act" where
  "add_edge directed a b w =
     (if unat a \<ge> length (graph w) \<or> unat b \<ge> length (graph w)
      then (w, Some (Runtime_Error ''Invalid node in edge!''))
      else seq_act (set_insert a b) (if directed then ok_act id else set_insert b a) w)"

section \<open>The graph's invariant\<close>

text \<open>Every node has a well-formed set of neighbours; nodes are numbered from 0, below \<open>2 ^ 31\<close>.\<close>

definition graph_ok :: "('d, 's, 'z) graph_hwm_scheme \<Rightarrow> bool" where
  "graph_ok w \<longleftrightarrow> list_all cuckoo_inv (graph w) \<and> length (graph w) \<le> 2 ^ 31"

definition linked :: "('d, 's, 'z) graph_hwm_scheme \<Rightarrow> node_id \<Rightarrow> node_id \<Rightarrow> bool" where
  "linked w a b \<longleftrightarrow> unat a < length (graph w) \<and> b \<in> elems (graph w ! unat a)"

lemma graph_key: "graph_ok w \<Longrightarrow> unat a < length (graph w) \<Longrightarrow> is_key a"
  by (simp add: graph_ok_def is_key_def)

lemma graph_set: "graph_ok w \<Longrightarrow> unat a < length (graph w) \<Longrightarrow> cuckoo_inv (graph w ! unat a)"
  by (simp add: graph_ok_def list_all_length)

lemma graph_can_send_linked:
  assumes "graph_ok w" "unat a < length (graph w)" "is_key b"
  shows "graph_can_send w a b = Inr (linked w a b)"
  using cuckoo_set.mem_ok [OF graph_set [OF assms(1,2)] assms(3)] assms(2)
  by (simp add: graph_can_send_def linked_def)

lemma set_insert_spec:
  assumes "graph_ok w" "unat a < length (graph w)" "unat b < length (graph w)"
  shows "\<exists>g. set_insert a b w = (w\<lparr>graph := g\<rparr>, None) \<and> graph_ok (w\<lparr>graph := g\<rparr>) \<and> length g = length (graph w)
    \<and> (\<forall>x y. linked (w\<lparr>graph := g\<rparr>) x y \<longleftrightarrow> linked w x y \<or> (x = a \<and> y = b))"
proof -
  from cuckoo_set.ins_ok [OF graph_set [OF assms(1,2)] graph_key [OF assms(1,3)]] obtain s
    where s: "cuckoo_insert (graph w ! unat a) b = Inr s" "cuckoo_inv s" "elems s = insert b (elems (graph w ! unat a))"
    by blast
  let ?g = "(graph w)[unat a := s]"
  have "graph_ok (w\<lparr>graph := ?g\<rparr>)"
    using assms(1) s(2) set_update_subset_insert [of "graph w" "unat a" s]
    by (auto simp: graph_ok_def list_all_iff)
  moreover have "linked (w\<lparr>graph := ?g\<rparr>) x y \<longleftrightarrow> linked w x y \<or> (x = a \<and> y = b)" for x y
  proof (cases "x = a")
    case True
    then show ?thesis using assms(2) s(3) by (auto simp: linked_def)
  next
    case False
    then have "unat x \<noteq> unat a" using unsigned_word_eqI [of x a] by blast
    then show ?thesis using False by (simp add: linked_def)
  qed
  ultimately show ?thesis using s(1) by (intro exI [of _ ?g]) (simp add: set_insert_def)
qed

lemma add_edge_spec:
  assumes "graph_ok w" "unat a < length (graph w)" "unat b < length (graph w)"
  shows "\<exists>g. add_edge directed a b w = (w\<lparr>graph := g\<rparr>, None) \<and> graph_ok (w\<lparr>graph := g\<rparr>) \<and> length g = length (graph w)
    \<and> (\<forall>x y. linked (w\<lparr>graph := g\<rparr>) x y \<longleftrightarrow> linked w x y \<or> (x = a \<and> y = b) \<or> (\<not> directed \<and> x = b \<and> y = a))"
proof -
  obtain g where g: "set_insert a b w = (w\<lparr>graph := g\<rparr>, None)" "graph_ok (w\<lparr>graph := g\<rparr>)" "length g = length (graph w)"
    "\<And>x y. linked (w\<lparr>graph := g\<rparr>) x y \<longleftrightarrow> linked w x y \<or> (x = a \<and> y = b)"
    using set_insert_spec [OF assms] by blast
  show ?thesis
  proof (cases directed)
    case True
    then show ?thesis using g assms(2,3) by (intro exI [of _ g]) (simp add: add_edge_def seq_act_def ok_act_def)
  next
    case False
    obtain h where h: "set_insert b a (w\<lparr>graph := g\<rparr>) = (w\<lparr>graph := h\<rparr>, None)" "graph_ok (w\<lparr>graph := h\<rparr>)"
      "length h = length g"
      "\<And>x y. linked (w\<lparr>graph := h\<rparr>) x y \<longleftrightarrow> linked (w\<lparr>graph := g\<rparr>) x y \<or> (x = b \<and> y = a)"
      using set_insert_spec [OF g(2), of b a] assms(2,3) g(3) by auto
    then show ?thesis using g False assms(2,3)
      by (intro exI [of _ h]) (auto simp: add_edge_def seq_act_def not_le)
  qed
qed

lemma graph_iter_push:
  "visit (\<lambda>neigh ans. (ans @ [neigh], Inr True)) ns acc = (acc @ ns, None)"
  by (induction ns arbitrary: acc) auto

text \<open>All the edges of a list, added one after the other.\<close>

lemma add_edges_spec:
  assumes "graph_ok w" "\<forall>e \<in> set es. unat (fst e) < length (graph w) \<and> unat (snd e) < length (graph w)"
  shows "\<exists>g. each_act (\<lambda>e. add_edge directed (fst e) (snd e)) es w = (w\<lparr>graph := g\<rparr>, None)
    \<and> graph_ok (w\<lparr>graph := g\<rparr>) \<and> length g = length (graph w)
    \<and> (\<forall>x y. linked (w\<lparr>graph := g\<rparr>) x y \<longleftrightarrow>
         linked w x y \<or> (x, y) \<in> set es \<or> (\<not> directed \<and> (y, x) \<in> set es))"
  using assms
proof (induction es arbitrary: w)
  case Nil
  then show ?case by (intro exI [of _ "graph w"]) (simp add: ok_act_def)
next
  case (Cons e es)
  obtain g where g: "add_edge directed (fst e) (snd e) w = (w\<lparr>graph := g\<rparr>, None)" "graph_ok (w\<lparr>graph := g\<rparr>)"
    "length g = length (graph w)"
    "\<And>x y. linked (w\<lparr>graph := g\<rparr>) x y \<longleftrightarrow>
        linked w x y \<or> (x = fst e \<and> y = snd e) \<or> (\<not> directed \<and> x = snd e \<and> y = fst e)"
    using add_edge_spec [OF Cons.prems(1), of "fst e" "snd e" directed] Cons.prems(2) by auto
  have "\<forall>e \<in> set es. unat (fst e) < length (graph (w\<lparr>graph := g\<rparr>)) \<and> unat (snd e) < length (graph (w\<lparr>graph := g\<rparr>))"
    using Cons.prems(2) g(3) by simp
  from Cons.IH [OF g(2) this] obtain h where
    h: "each_act (\<lambda>e. add_edge directed (fst e) (snd e)) es (w\<lparr>graph := g\<rparr>) = (w\<lparr>graph := h\<rparr>, None)"
      "graph_ok (w\<lparr>graph := h\<rparr>)" "length h = length g"
      "\<And>x y. linked (w\<lparr>graph := h\<rparr>) x y \<longleftrightarrow>
         linked (w\<lparr>graph := g\<rparr>) x y \<or> (x, y) \<in> set es \<or> (\<not> directed \<and> (y, x) \<in> set es)"
    by auto
  have "linked (w\<lparr>graph := h\<rparr>) x y \<longleftrightarrow>
      linked w x y \<or> (x, y) \<in> set (e # es) \<or> (\<not> directed \<and> (y, x) \<in> set (e # es))" for x y
    unfolding h(4) g(4) by (cases e) auto
  moreover have "each_act (\<lambda>e. add_edge directed (fst e) (snd e)) (e # es) w = (w\<lparr>graph := h\<rparr>, None)"
    using g(1) h(1) by (simp add: seq_act_def)
  ultimately show ?case using h(2,3) g(3) by (intro exI [of _ h]) simp
qed

text \<open>The neighbours of a node, as iterating over them visits them.\<close>

lemma graph_iter_spec:
  assumes "graph_ok w" "unat n < length (graph w)"
  shows "\<exists>ns. bind_res (vec_get (graph w) (unat n)) cuckoo_iter = Inr ns \<and> distinct ns
    \<and> (\<forall>y. y \<in> set ns \<longleftrightarrow> linked w n y)"
  using cuckoo_set.iter_ok [OF graph_set [OF assms]] assms(2) by (auto simp: linked_def)

definition empty_graph :: "nat \<Rightarrow> ('d, 's) graph_hwm" where
  "empty_graph n = (graph_hwm_new 4 1 0)\<lparr>graph := replicate n cuckoo_empty\<rparr>"

lemma empty_graph_ok:
  assumes "n \<le> 2 ^ 31"
  shows "graph_ok (empty_graph n)" "length (graph (empty_graph n)) = n" "\<not> linked (empty_graph n) x y"
  using assms cuckoo_set.emp_inv cuckoo_set.emp_members
  by (auto simp: graph_ok_def empty_graph_def linked_def list_all_iff)

section \<open>Properties of the graph\<close>

text \<open>After adding a list of edges to a graph whose nodes they mention, one node can send to
  another exactly if they were linked before or an edge of the list links them, in both
  directions unless the graph is directed; \<open>get_neighbours\<close> lists exactly these nodes, each
  once. Nothing but the graph changes, and its sets stay well formed.\<close>

theorem graph_links_correct:
  assumes "graph_ok w"
    and "\<forall>e \<in> set es. unat (fst e) < length (graph w) \<and> unat (snd e) < length (graph w)"
    and "unat x < length (graph w)" "unat y < length (graph w)"
  shows "\<exists>g ns. each_act (\<lambda>e. add_edge directed (fst e) (snd e)) es w = (w\<lparr>graph := g\<rparr>, None)
    \<and> graph_ok (w\<lparr>graph := g\<rparr>)
    \<and> graph_can_send (w\<lparr>graph := g\<rparr>) x y
        = Inr (linked w x y \<or> (x, y) \<in> set es \<or> (\<not> directed \<and> (y, x) \<in> set es))
    \<and> get_neighbours (graph_iter_neighbours (w\<lparr>graph := g\<rparr>) x) = Inr ns \<and> distinct ns
    \<and> (y \<in> set ns \<longleftrightarrow> graph_can_send (w\<lparr>graph := g\<rparr>) x y = Inr True)"
proof -
  obtain g where g: "each_act (\<lambda>e. add_edge directed (fst e) (snd e)) es w = (w\<lparr>graph := g\<rparr>, None)"
    "graph_ok (w\<lparr>graph := g\<rparr>)" "length g = length (graph w)"
    "\<And>x y. linked (w\<lparr>graph := g\<rparr>) x y \<longleftrightarrow>
         linked w x y \<or> (x, y) \<in> set es \<or> (\<not> directed \<and> (y, x) \<in> set es)"
    using add_edges_spec [OF assms(1,2)] by blast
  have x: "unat x < length (graph (w\<lparr>graph := g\<rparr>))" and y: "unat y < length (graph (w\<lparr>graph := g\<rparr>))"
    using assms(3,4) g(3) by simp_all
  have send: "graph_can_send (w\<lparr>graph := g\<rparr>) x y = Inr (linked (w\<lparr>graph := g\<rparr>) x y)"
    by (rule graph_can_send_linked [OF g(2) x graph_key [OF g(2) y]])
  obtain ns where ns: "bind_res (vec_get (graph (w\<lparr>graph := g\<rparr>)) (unat x)) cuckoo_iter = Inr ns" "distinct ns"
    "\<And>z. z \<in> set ns \<longleftrightarrow> linked (w\<lparr>graph := g\<rparr>) x z"
    using graph_iter_spec [OF g(2) x] by blast
  have "get_neighbours (graph_iter_neighbours (w\<lparr>graph := g\<rparr>) x) = Inr ns"
    using ns(1) graph_iter_push by (simp add: get_neighbours_def graph_iter_neighbours_def)
  then show ?thesis using g(1,2) send ns(2,3) g(4) by (intro exI [of _ g] exI [of _ ns]) simp
qed

definition three_nodes :: "(nat, unit) graph_hwm" where "three_nodes = empty_graph 3"

theorem graph_links_correct_witness:
  "\<exists>g ns. each_act (\<lambda>e. add_edge False (fst e) (snd e)) [(1, 0), (2, 1)] three_nodes
        = (three_nodes\<lparr>graph := g\<rparr>, None)
    \<and> graph_can_send (three_nodes\<lparr>graph := g\<rparr>) 1 2 = Inr True
    \<and> get_neighbours (graph_iter_neighbours (three_nodes\<lparr>graph := g\<rparr>) 1) = Inr ns \<and> 2 \<in> set ns"
proof -
  have ok: "graph_ok three_nodes" "length (graph three_nodes) = 3"
    by (simp_all add: three_nodes_def empty_graph_ok)
  show ?thesis using graph_links_correct [OF ok(1), of "[(1, 0), (2, 1)]" 1 2 False] ok(2) by auto
qed

end
