(* ===== verification/Tinycoin_Net.thy ===== *)
theory Tinycoin_Net
  imports Selfish Graph_HWM
begin

text \<open>
  The nodes of the cryptocurrency in their network: what the methods of \<open>TinyNode\<close>,
  \<open>TinyMiner\<close>, the mining policies and the coordinator do to the whole simulation. The world
  is the graph's manager with the static members and the coordinator; the state of a node is
  the \<open>user\<close> part of its record. A call of a virtual method goes by the state's \<open>is_miner\<close> and
  \<open>policy_of\<close>.
\<close>

section \<open>The world\<close>

record ('d, 's) tiny_hwm = "('d, 's) graph_hwm" +
  stat :: statics
  coord :: coordinator

type_synonym world = "(tiny_data, miner_state) tiny_hwm"

definition on_node :: "node_id \<Rightarrow> (miner_state, 'a) eff \<Rightarrow> (world, 'a) eff" where
  "on_node i f w =
     (case omap_at (nodes w) i of
        None \<Rightarrow> (w, Inl (UB ''node destroyed''))
      | Some nd \<Rightarrow> (case f (user nd) of
          (s, r) \<Rightarrow> (w\<lparr>nodes := omap_update i (nd\<lparr>user := s\<rparr>) (nodes w)\<rparr>, r)))"

definition on_coord :: "(coordinator, 'a) eff \<Rightarrow> (world, 'a) eff" where
  "on_coord f w = (case f (coord w) of (co, r) \<Rightarrow> (w\<lparr>coord := co\<rparr>, r))"

definition on_stat :: "(statics \<Rightarrow> 'a \<times> statics) \<Rightarrow> (world, 'a) eff" where
  "on_stat f w = (case f (stat w) of (x, c) \<Rightarrow> (w\<lparr>stat := c\<rparr>, Inr x))"

definition draw_word :: "(world, u64) eff" where
  "draw_word w = (case rng_next (gen w) of (r, g) \<Rightarrow> (w\<lparr>gen := g\<rparr>, Inr r))"

section \<open>Sending\<close>

text \<open>\<open>forward\<close>: the message goes to every neighbour.\<close>

definition forward :: "node_id \<Rightarrow> tiny_data message \<Rightarrow> (world, unit) eff" where
  "forward i msg w =
     act_eff (graph_iter_neighbours w i (\<lambda>neigh w.
       case send_message graph_can_send i neigh msg w of
         (w', None) \<Rightarrow> (w', Inr True) | (w', Some e) \<Rightarrow> (w', Inl e))) w"

text \<open>\<open>TinyMiner::send_block\<close>, over the node's \<open>handle_block\<close>.\<close>

definition miner_send_block ::
    "(node_id \<Rightarrow> block \<Rightarrow> (world, bool) eff) \<Rightarrow> node_id \<Rightarrow> block \<Rightarrow> (world, unit) eff" where
  "miner_send_block handle i blk =
     bind_eff (handle i blk) (\<lambda>_.
     bind_eff (get_eff stat) (\<lambda>c.
     bind_eff (res_eff (set_data_blk c blk (message_new (Tx tx_default)))) (\<lambda>msg.
     forward i msg)))"

section \<open>The coordinator's calls\<close>

definition coord_handle_block :: "nat \<Rightarrow> block \<Rightarrow> (world, bool) eff" where
  "coord_handle_block fuel blk w =
     on_coord (on_coord_node (handle_block fuel
       (accept_block (v_confirm (stat w) (- 1)) (v_unconfirm (stat w) (- 1))) no_after blk)) w"

definition coord_send_block ::
    "nat \<Rightarrow> (node_id \<Rightarrow> block \<Rightarrow> (world, bool) eff) \<Rightarrow> block \<Rightarrow> (world, unit) eff" where
  "coord_send_block fuel handle blk =
     bind_eff (coord_handle_block fuel blk) (\<lambda>_.
     bind_eff (get_eff (\<lambda>w. members (coord w))) (\<lambda>ms.
     each_eff (\<lambda>j. miner_send_block handle j blk) ms))"

definition others_block ::
    "nat \<Rightarrow> (node_id \<Rightarrow> block \<Rightarrow> (world, bool) eff) \<Rightarrow> block \<Rightarrow> (world, unit) eff" where
  "others_block fuel handle blk =
     bind_eff (coord_handle_block fuel blk) (\<lambda>_.
     bind_eff (on_coord (others_decide blk)) (\<lambda>to_send.
     each_eff (coord_send_block fuel handle) to_send))"

definition our_block ::
    "nat \<Rightarrow> (node_id \<Rightarrow> block \<Rightarrow> (world, bool) eff) \<Rightarrow> block \<Rightarrow> (world, unit) eff" where
  "our_block fuel handle blk =
     bind_eff (on_coord (our_decide blk)) (\<lambda>to_send.
     each_eff (coord_send_block fuel handle) to_send)"

definition flush_chain ::
    "nat \<Rightarrow> (node_id \<Rightarrow> block \<Rightarrow> (world, bool) eff) \<Rightarrow> (world, unit) eff" where
  "flush_chain fuel handle =
     bind_eff (on_coord flush_chain_in) (\<lambda>to_send.
     each_eff (coord_send_block fuel handle) to_send)"

section \<open>Receiving\<close>

definition accept_at :: "node_id \<Rightarrow> block \<Rightarrow> (world, bool \<times> block list) eff" where
  "accept_at i blk w = on_node i (accept_block (v_confirm (stat w) i) (v_unconfirm (stat w) i) blk) w"

text \<open>What \<open>TinyMiner::handle_block\<close> adds: \<open>if (policy) policy->on_block(block)\<close>.\<close>

definition on_block ::
    "nat \<Rightarrow> (node_id \<Rightarrow> block \<Rightarrow> (world, bool) eff) \<Rightarrow> node_id \<Rightarrow> block \<Rightarrow> (world, unit) eff" where
  "on_block fuel handle i blk =
     bind_eff (on_node i (get_eff (\<lambda>s. is_miner s \<and> policy_of s = Selfish_Policy))) (\<lambda>selfish.
     if selfish then others_block fuel handle blk else ret_eff ())"

text \<open>
  A node's \<open>handle_block\<close>. The coordinator hands blocks to its members, whose policies call the
  coordinator again: \<open>depth\<close> bounds this nesting, \<open>fuel\<close> the recursion over waiting blocks.
\<close>

primrec node_handle_block :: "nat \<Rightarrow> nat \<Rightarrow> node_id \<Rightarrow> block \<Rightarrow> (world, bool) eff" where
  "node_handle_block fuel 0 i blk = res_eff (Inl No_Return)"
| "node_handle_block fuel (Suc depth) i blk =
     handle_block fuel (accept_at i) (on_block fuel (node_handle_block fuel depth) i) blk"

definition node_handle_transaction :: "node_id \<Rightarrow> transaction \<Rightarrow> (world, bool) eff" where
  "node_handle_transaction i tx =
     bind_eff (on_node i (v_handle_transaction tx)) (\<lambda>fresh.
     bind_eff (on_node i (get_eff (\<lambda>s. is_miner s \<and> policy_of s = Selfish_Policy))) (\<lambda>selfish.
     bind_eff (if fresh \<and> selfish then on_coord (coord_transaction tx) else ret_eff ()) (\<lambda>_.
     ret_eff fresh)))"

definition tiny_handle :: "nat \<Rightarrow> nat \<Rightarrow> node_id \<Rightarrow> tiny_data message \<Rightarrow> world act" where
  "tiny_handle fuel depth i msg = eff_act
     (bind_eff (case msg_data msg of
          Tx tx \<Rightarrow> node_handle_transaction i tx
        | Blk blk \<Rightarrow> node_handle_block fuel depth i blk) (\<lambda>fresh.
      if fresh then forward i msg else ret_eff ()))"

section \<open>Starting messages\<close>

text \<open>\<open>fmod\<close>, whose value by a zero balance is no number and ends the model's run.\<close>

definition c_fmod :: "real \<Rightarrow> real \<Rightarrow> real res" where
  "c_fmod x y =
     (if y = 0 then Inl (UB ''not a number'')
      else Inr (x - y * real_of_int (if 0 \<le> x / y then floor (x / y) else ceiling (x / y))))"

text \<open>\<open>while (tx.destination_node == id()) tx.destination_node = rng()\<close>\<close>

primrec redraw :: "nat \<Rightarrow> node_id \<Rightarrow> u64 \<Rightarrow> (world, u64) eff" where
  "redraw 0 i dst = res_eff (Inl No_Return)"
| "redraw (Suc fuel) i dst = (if dst = i then bind_eff draw_word (redraw fuel i) else ret_eff dst)"

definition start_transaction :: "nat \<Rightarrow> node_id \<Rightarrow> tiny_data message \<Rightarrow> (world, unit) eff" where
  "start_transaction fuel i msg =
     bind_eff draw_word (\<lambda>dst0.
     bind_eff draw_word (\<lambda>r.
     bind_eff (on_node i (get_eff balance)) (\<lambda>b.
     bind_eff (res_eff (c_fmod (real (unat r) / 1000000) b)) (\<lambda>a.
     bind_eff (on_stat (tx_new i dst0 (a * (99 / 100)))) (\<lambda>tx0.
     bind_eff (redraw fuel i dst0) (\<lambda>dst.
     let tx = tx0\<lparr>destination_node := dst\<rparr> in
     bind_eff (on_node i (mod_eff (\<lambda>s. s\<lparr>balance := balance s - amount tx\<rparr>))) (\<lambda>_.
     bind_eff (node_handle_transaction i tx) (\<lambda>_.
     bind_eff (get_eff stat) (\<lambda>c.
     forward i (set_data_tx c tx msg))))))))))"

text \<open>\<open>on_mined\<close> of the two policies.\<close>

definition honest_mined :: "nat \<Rightarrow> nat \<Rightarrow> node_id \<Rightarrow> (world, unit) eff" where
  "honest_mined fuel depth i =
     bind_eff (on_node i (get_eff id)) (\<lambda>s.
     bind_eff (on_stat (mine_block i s)) (\<lambda>r.
     bind_eff (res_eff r) (\<lambda>blk.
     miner_send_block (node_handle_block fuel depth) i blk)))"

definition selfish_mined :: "nat \<Rightarrow> nat \<Rightarrow> node_id \<Rightarrow> (world, unit) eff" where
  "selfish_mined fuel depth i =
     bind_eff (get_eff (\<lambda>w. get_head (coord w))) (\<lambda>h.
     bind_eff (on_stat (blk_new h i)) (\<lambda>blk0.
     bind_eff (get_eff (\<lambda>w. add_transactions (transactions_per_block (stat w)) blk0 (coord w))) (\<lambda>r.
     bind_eff (res_eff r) (\<lambda>blk.
     our_block fuel (node_handle_block fuel depth) blk))))"

definition tiny_start :: "nat \<Rightarrow> nat \<Rightarrow> node_id \<Rightarrow> tiny_data message \<Rightarrow> world act" where
  "tiny_start fuel depth i msg = eff_act
     (bind_eff (on_node i (get_eff id)) (\<lambda>s.
      if is_miner s then
        (case msg_data msg of
           Tx _ \<Rightarrow> start_transaction fuel i msg
         | Blk _ \<Rightarrow> (case policy_of s of
               No_Policy \<Rightarrow> ret_eff ()
             | Honest_Policy \<Rightarrow> honest_mined fuel depth i
             | Selfish_Policy \<Rightarrow> selfish_mined fuel depth i))
      else start_transaction fuel i msg))"

section \<open>The methods keep the network's invariant\<close>

lemma net_inv_ext [simp]:
  "net_inv s (w\<lparr>stat := c\<rparr>) = net_inv s w" "net_inv s (w\<lparr>coord := co\<rparr>) = net_inv s w"
  by (simp_all add: net_inv_def waiting_at_def tokens_def)

lemma total_waiting_user:
  assumes "omap_ok m" "omap_at m i = Some nd"
  shows "total_waiting (omap_update i (nd\<lparr>user := s\<rparr>) m) = total_waiting m"
  using total_waiting_update [OF assms, of "nd\<lparr>user := s\<rparr>"] by (simp add: waiting_def)

lemma net_inv_user:
  assumes "net_inv s w" "omap_at (nodes w) i = Some nd"
  shows "net_inv s (w\<lparr>nodes := omap_update i (nd\<lparr>user := u\<rparr>) (nodes w)\<rparr>)"
proof -
  have wf: "wf_nodes (nodes w)" using assms(1) by (simp add: net_inv_def)
  have "waiting_at (w\<lparr>nodes := omap_update i (nd\<lparr>user := u\<rparr>) (nodes w)\<rparr>) j = waiting_at w j" for j
    using waiting_at_update [OF wf assms(2), of "w\<lparr>nodes := omap_update i (nd\<lparr>user := u\<rparr>) (nodes w)\<rparr>" "nd\<lparr>user := u\<rparr>" j]
      assms(2) by (auto simp: waiting_def waiting_at_def)
  then show ?thesis
    using assms(1) wf_nodes_update [OF wf assms(2), of "nd\<lparr>user := u\<rparr>"] total_waiting_user [OF _ assms(2)] wf
    by (simp add: net_inv_def tokens_def wf_nodes_def)
qed

lemma visit_inv:
  assumes "\<And>n x. P x \<Longrightarrow> P (fst (callback n x))" "P x"
  shows "P (fst (visit callback ns x))"
  using assms(2)
proof (induction ns arbitrary: x)
  case (Cons n ns)
  then show ?case using assms(1) [OF Cons.prems, of n]
    by (cases "callback n x") (auto split: sum.split bool.split)
qed simp

lemma handle_block_inv:
  assumes "\<And>b w. P w \<Longrightarrow> P (fst (accept b w))" "\<And>b w. P w \<Longrightarrow> P (fst (after b w))"
  shows "P w \<Longrightarrow> P (fst (handle_block fuel accept after blk w))"
proof (induction fuel arbitrary: blk w)
  case (Suc fuel)
  have kids: "P (fst (each_eff (handle_block fuel accept after) fwd v))" if "P v" for fwd v
    by (rule each_eff_inv [where P = P]) (auto intro: Suc.IH that)
  have aft: "P (fst ((if sf then after blk else ret_eff ()) v))" if "P v" for sf v
    using that assms(2) by simp
  have "P (fst (bind_eff (each_eff (handle_block fuel accept after) fwd) (\<lambda>_.
      bind_eff (if sf then after blk else ret_eff ()) (\<lambda>_. ret_eff sf)) v))" if "P v" for sf fwd v
    by (intro bind_eff_inv [where P = P] kids aft that) simp_all
  then have step: "P (fst ((case x of (sf, fwd) \<Rightarrow> bind_eff (each_eff (handle_block fuel accept after) fwd) (\<lambda>_.
      bind_eff (if sf then after blk else ret_eff ()) (\<lambda>_. ret_eff sf))) v))" if "P v" for x v
    using that by (cases x) simp
  show ?case
    unfolding handle_block.simps by (rule bind_eff_inv [where P = P, OF assms(1) step Suc.prems])
qed (simp add: res_eff_def)

text \<open>
  A predicate on the world that single accesses keep: a new state of a node, of the coordinator
  or of the static members, a draw, and a message sent. Then the methods keep it.
\<close>

locale world_kept =
  fixes P :: "world \<Rightarrow> bool"
  assumes user_kept: "P w \<Longrightarrow> omap_at (nodes w) i = Some nd \<Longrightarrow> P (w\<lparr>nodes := omap_update i (nd\<lparr>user := u\<rparr>) (nodes w)\<rparr>)"
    and gen_kept: "P w \<Longrightarrow> P (w\<lparr>gen := g\<rparr>)"
    and stat_kept: "P w \<Longrightarrow> P (w\<lparr>stat := c\<rparr>)"
    and coord_kept: "P w \<Longrightarrow> P (w\<lparr>coord := co\<rparr>)"
    and send_kept: "P w \<Longrightarrow> P (fst (send_message graph_can_send i j msg w))"
begin

lemma on_node_inv: "P w \<Longrightarrow> P (fst (on_node i f w))"
  by (auto simp: on_node_def user_kept split: option.split prod.split)

lemma on_coord_inv: "P w \<Longrightarrow> P (fst (on_coord f w))"
  by (simp add: on_coord_def coord_kept split: prod.split)

lemma on_stat_inv: "P w \<Longrightarrow> P (fst (on_stat f w))"
  by (simp add: on_stat_def stat_kept split: prod.split)

lemma draw_word_inv: "P w \<Longrightarrow> P (fst (draw_word w))"
  by (simp add: draw_word_def gen_kept split: prod.split)

lemma get_eff_inv: "P w \<Longrightarrow> P (fst (get_eff f w))"
  by (simp add: get_eff_def)

lemma res_eff_inv: "P w \<Longrightarrow> P (fst (res_eff r w))"
  by (simp add: res_eff_def)

lemma ret_eff_inv: "P w \<Longrightarrow> P (fst (ret_eff x w))"
  by simp

lemma send_one_inv:
  assumes "P w"
  shows "P (fst (case send_message graph_can_send i n msg w of
      (w', None) \<Rightarrow> (w', Inr True) | (w', Some e) \<Rightarrow> (w', Inl e)))"
  using send_kept [OF assms, of i n msg]
  by (cases "send_message graph_can_send i n msg w") (simp split: option.split)

lemma forward_inv: "P w \<Longrightarrow> P (fst (forward i msg w))"
  unfolding forward_def act_eff_fst graph_iter_neighbours_def
  by (auto split: sum.split intro!: visit_inv [where P = "P"] send_one_inv)

lemmas eff_invs = on_node_inv on_coord_inv on_stat_inv draw_word_inv get_eff_inv res_eff_inv ret_eff_inv forward_inv

lemma miner_send_block_inv:
  assumes "\<And>w. P w \<Longrightarrow> P (fst (handle i blk w))" "P w"
  shows "P (fst (miner_send_block handle i blk w))"
  unfolding miner_send_block_def
  by (intro bind_eff_inv [where P = "P"] eff_invs assms)

lemma coord_handle_block_inv: "P w \<Longrightarrow> P (fst (coord_handle_block fuel blk w))"
  unfolding coord_handle_block_def by (rule on_coord_inv)

lemma coord_send_block_inv:
  assumes "\<And>j b w. P w \<Longrightarrow> P (fst (handle j b w))" "P w"
  shows "P (fst (coord_send_block fuel handle blk w))"
  unfolding coord_send_block_def
  by (intro bind_eff_inv [where P = "P"] each_eff_inv [where P = "P"] eff_invs
      coord_handle_block_inv miner_send_block_inv assms)

lemma send_all_inv:
  assumes h: "\<And>j b w. P w \<Longrightarrow> P (fst (handle j b w))" and w: "P w"
  shows "P (fst (others_block fuel handle blk w))" "P (fst (our_block fuel handle blk w))"
    "P (fst (flush_chain fuel handle w))"
proof -
  have each: "P (fst (each_eff (coord_send_block fuel handle) ts v))" if "P v" for ts v
    by (rule each_eff_inv [where P = "P"]) (auto intro: coord_send_block_inv [OF h] that)
  have two: "P (fst (bind_eff (on_coord f) (each_eff (coord_send_block fuel handle)) v))"
    if "P v" for f v
    by (rule bind_eff_inv [where P = "P"]) (auto intro: on_coord_inv each that)
  show "P (fst (our_block fuel handle blk w))" "P (fst (flush_chain fuel handle w))"
    unfolding our_block_def flush_chain_def using two [OF w] by simp_all
  show "P (fst (others_block fuel handle blk w))"
    unfolding others_block_def
    by (rule bind_eff_inv [where P = "P"]) (auto intro: coord_handle_block_inv two w)
qed

lemma accept_at_inv: "P w \<Longrightarrow> P (fst (accept_at i blk w))"
  unfolding accept_at_def by (rule on_node_inv)

lemma node_handle_block_inv: "P w \<Longrightarrow> P (fst (node_handle_block fuel depth i blk w))"
proof (induction depth arbitrary: i blk w)
  case (Suc depth)
  have "P (fst (on_block fuel (node_handle_block fuel depth) i b w))" if "P w" for b w
    unfolding on_block_def using that
    by (intro bind_eff_inv [where P = "P"] eff_invs) (simp_all add: send_all_inv(1) Suc.IH)
  then show ?case
    unfolding node_handle_block.simps by (intro handle_block_inv [where P = "P"] accept_at_inv Suc.prems)
qed (simp add: res_eff_def)

lemma node_handle_transaction_inv: "P w \<Longrightarrow> P (fst (node_handle_transaction i tx w))"
  unfolding node_handle_transaction_def
  by (intro bind_eff_inv [where P = "P"] eff_invs) (simp_all add: on_coord_inv)

lemma tiny_handle_inv: "P w \<Longrightarrow> P (fst (tiny_handle fuel depth i msg w))"
  unfolding tiny_handle_def eff_act_fst
  by (rule bind_eff_inv [where P = "P"])
    (auto intro: node_handle_transaction_inv node_handle_block_inv forward_inv split: tiny_data.split)

lemma redraw_inv: "P w \<Longrightarrow> P (fst (redraw fuel i dst w))"
proof (induction fuel arbitrary: dst w)
  case (Suc fuel)
  show ?case unfolding redraw.simps
    by (cases "dst = i") (auto intro: bind_eff_inv [where P = P] draw_word_inv Suc)
qed (simp add: res_eff_def)

lemma start_transaction_inv: "P w \<Longrightarrow> P (fst (start_transaction fuel i msg w))"
  unfolding start_transaction_def Let_def
  by (intro bind_eff_inv [where P = P] eff_invs redraw_inv node_handle_transaction_inv)

lemma honest_mined_inv: "P w \<Longrightarrow> P (fst (honest_mined fuel depth i w))"
  unfolding honest_mined_def
  by (intro bind_eff_inv [where P = P] eff_invs miner_send_block_inv node_handle_block_inv)

lemma selfish_mined_inv: "P w \<Longrightarrow> P (fst (selfish_mined fuel depth i w))"
  unfolding selfish_mined_def
  by (intro bind_eff_inv [where P = P] eff_invs) (simp_all add: send_all_inv(2) node_handle_block_inv)

lemma tiny_start_inv: "P w \<Longrightarrow> P (fst (tiny_start fuel depth i msg w))"
  unfolding tiny_start_def eff_act_fst
  by (rule bind_eff_inv [where P = P])
    (auto intro: on_node_inv start_transaction_inv honest_mined_inv selfish_mined_inv split: tiny_data.split policy.split)

end

interpretation net_kept: world_kept "net_inv s" for s
  by unfold_locales (simp_all add: net_inv_user send_message_inv)

interpretation tiny_nodes: node_handler "tiny_handle fuel depth" for fuel depth
  by unfold_locales (simp add: net_kept.tiny_handle_inv)

section \<open>Flooding\<close>

text \<open>The fields that sending leaves alone, with the nodes' own states.\<close>

definition same_states :: "world \<Rightarrow> world \<Rightarrow> bool" where
  "same_states w w' \<longleftrightarrow> graph w' = graph w \<and> fail_thres w' = fail_thres w \<and> stat w' = stat w \<and> coord w' = coord w
     \<and> (\<forall>x. map_option user (omap_at (nodes w') x) = map_option user (omap_at (nodes w) x))"

lemma same_states_count: "same_states w w' \<Longrightarrow> omap_count (nodes w') x = omap_count (nodes w) x"
  unfolding same_states_def omap_count_at by (metis option.map_disc_iff)

lemma send_message_ok:
  assumes inv: "net_inv s w" and thres: "fail_thres w = 0"
    and here: "omap_count (nodes w) i" "omap_count (nodes w) j" and link: "graph_can_send w i j = Inr True"
  shows "\<exists>w'. send_message graph_can_send i j msg w = (w', None) \<and> net_inv s w' \<and> same_states w w'
    \<and> (\<forall>x. waiting_at w' x = (if x = j then add_mset (msg\<lparr>hops := hops msg + 1\<rparr>) (waiting_at w x) else waiting_at w x))"
proof -
  let ?w0 = "w\<lparr>gen := snd (rng_next (gen w))\<rparr>" and ?m = "msg\<lparr>hops := hops msg + 1\<rparr>"
  obtain nd where nd: "omap_at (nodes w) j = Some nd" using here(2) by (auto simp: omap_count_at)
  have inv0: "net_inv s ?w0" and nd0: "omap_at (nodes ?w0) j = Some nd" using inv nd by simp_all
  have link0: "graph_can_send ?w0 i j = Inr True" using link by (simp add: graph_can_send_def)
  note d = deliver_inv [OF inv0 nd0, of ?m]
  have eq: "send_message graph_can_send i j msg w = (push_token j (deliver j nd ?m ?w0), None)"
    using thres here nd link0 by (simp add: send_message_unfold Let_def)
  obtain nd' c where e: "enqueue check_enqueue (clock w) ?m (nd, cnts w) = (nd', c)"
    by (cases "enqueue check_enqueue (clock w) ?m (nd, cnts w)")
  have u: "user nd' = user nd" using e by (auto simp: enqueue_def split: if_splits)
  have ok: "omap_ok (nodes w)" using inv by (simp add: net_inv_def wf_nodes_def)
  have "same_states w (push_token j (deliver j nd ?m ?w0))"
    using nd u nodes_map.update_at [OF ok, of j nd'] by (simp add: same_states_def push_token_def deliver_def e)
  moreover have "net_inv s (fst (send_message graph_can_send i j msg w))" by (rule send_message_inv [OF inv])
  moreover have "waiting_at (push_token j v) x = waiting_at v x" for v :: world and x
    by (simp add: push_token_def waiting_at_def)
  ultimately show ?thesis using d(2) nd by (auto simp: eq waiting_at_def)
qed

lemma same_states_trans: "same_states u v \<Longrightarrow> same_states v w \<Longrightarrow> same_states u w"
  by (simp add: same_states_def)

lemma visit_sends:
  assumes "net_inv s w" "fail_thres w = 0" "omap_count (nodes w) i"
    and "\<forall>j \<in> set ns. omap_count (nodes w) j \<and> graph_can_send w i j = Inr True" and "distinct ns"
  shows "\<exists>w'. visit (\<lambda>n w. case send_message graph_can_send i n msg w of
        (w', None) \<Rightarrow> (w', Inr True) | (w', Some e) \<Rightarrow> (w', Inl e)) ns w = (w', None)
    \<and> net_inv s w' \<and> same_states w w'
    \<and> (\<forall>x. waiting_at w' x = waiting_at w x + (if x \<in> set ns then {#msg\<lparr>hops := hops msg + 1\<rparr>#} else {#}))"
  using assms
proof (induction ns arbitrary: w)
  case Nil
  then show ?case by (simp add: same_states_def)
next
  case (Cons n ns)
  from send_message_ok [OF Cons.prems(1-3), of n msg] Cons.prems(4) obtain v where
    v: "send_message graph_can_send i n msg w = (v, None)" "net_inv s v" "same_states w v"
      "\<And>x. waiting_at v x = (if x = n then add_mset (msg\<lparr>hops := hops msg + 1\<rparr>) (waiting_at w x) else waiting_at w x)"
    by auto
  have cnt: "omap_count (nodes v) x = omap_count (nodes w) x" for x by (rule same_states_count [OF v(3)])
  have "fail_thres v = 0" "omap_count (nodes v) i" using v(3) Cons.prems(2,3) cnt by (simp_all add: same_states_def)
  moreover have "\<forall>j \<in> set ns. omap_count (nodes v) j \<and> graph_can_send v i j = Inr True"
    using Cons.prems(4) cnt v(3) by (simp add: graph_can_send_def same_states_def)
  moreover have "distinct ns" using Cons.prems(5) by simp
  ultimately obtain w' where
    w': "visit (\<lambda>n w. case send_message graph_can_send i n msg w of
        (w', None) \<Rightarrow> (w', Inr True) | (w', Some e) \<Rightarrow> (w', Inl e)) ns v = (w', None)"
      "net_inv s w'" "same_states v w'"
      "\<And>x. waiting_at w' x = waiting_at v x + (if x \<in> set ns then {#msg\<lparr>hops := hops msg + 1\<rparr>#} else {#})"
    using Cons.IH [OF v(2)] by blast
  then show ?case using v same_states_trans [OF v(3) w'(3)] Cons.prems(5) by (auto simp: w'(4))
qed

text \<open>A network whose nodes are those of its graph, and whose links lose nothing.\<close>

definition graph_net :: "(node_id \<Rightarrow> nat) \<Rightarrow> world \<Rightarrow> bool" where
  "graph_net s w \<longleftrightarrow> net_inv s w \<and> graph_ok w \<and> fail_thres w = 0
     \<and> (\<forall>j. omap_count (nodes w) j \<longleftrightarrow> unat j < length (graph w))
     \<and> (\<forall>i j. linked w i j \<longrightarrow> unat j < length (graph w))"

lemma forward_sends:
  assumes "graph_net s w" "omap_count (nodes w) i"
  shows "\<exists>w'. forward i msg w = (w', Inr ()) \<and> net_inv s w' \<and> same_states w w'
    \<and> (\<forall>x. waiting_at w' x = waiting_at w x + (if linked w i x then {#msg\<lparr>hops := hops msg + 1\<rparr>#} else {#}))"
proof -
  have net: "net_inv s w" "graph_ok w" "fail_thres w = 0" "unat i < length (graph w)"
    and links: "\<And>j. linked w i j \<Longrightarrow> unat j < length (graph w)"
    and nodes: "\<And>j. omap_count (nodes w) j \<longleftrightarrow> unat j < length (graph w)"
    using assms by (auto simp: graph_net_def)
  obtain ns where ns: "bind_res (vec_get (graph w) (unat i)) cuckoo_iter = Inr ns" "distinct ns"
    "\<And>y. y \<in> set ns \<longleftrightarrow> linked w i y"
    using graph_iter_spec [OF net(2,4)] by blast
  have "\<forall>j \<in> set ns. omap_count (nodes w) j \<and> graph_can_send w i j = Inr True"
    using ns(3) links nodes graph_can_send_linked [OF net(2,4)] graph_key [OF net(2)] by auto
  from visit_sends [OF net(1,3) assms(2) this ns(2), of msg] show ?thesis
    by (auto simp: forward_def act_eff_def graph_iter_neighbours_def ns(1,3))
qed

lemma omap_update_same:
  assumes "omap_ok m" "omap_at m i = Some x"
  shows "omap_update i x m = m"
proof -
  have "distinct (map fst m)" using assms(1) by (simp add: omap_ok_def strict_sorted_iff)
  then have "snd p = x" if "p \<in> set m" "fst p = i" for p
    using that assms(2) by (metis map_of_is_SomeI omap_at_def option.inject prod.collapse)
  then show ?thesis unfolding omap_update_def by (intro map_idI) auto
qed

lemma on_node_user:
  assumes "omap_at (nodes w) i = Some nd" "f (user nd) = (u, r)"
  shows "on_node i f w = (w\<lparr>nodes := omap_update i (nd\<lparr>user := u\<rparr>) (nodes w)\<rparr>, r)"
  using assms by (simp add: on_node_def)

lemma on_node_read:
  assumes "net_inv s w" "omap_at (nodes w) i = Some nd"
  shows "on_node i (get_eff f) w = (w, Inr (f (user nd)))"
proof -
  have "omap_ok (nodes w)" using assms(1) by (simp add: net_inv_def wf_nodes_def)
  then show ?thesis using omap_update_same [of "nodes w" i nd] assms(2) by (simp add: on_node_def get_eff_def)
qed

text \<open>A new state for a node, everything else as before.\<close>

lemma set_user:
  fixes u :: miner_state
  assumes "graph_net s w" "omap_at (nodes w) i = Some nd"
  defines "w1 \<equiv> w\<lparr>nodes := omap_update i (nd\<lparr>user := u\<rparr>) (nodes w)\<rparr>"
  shows "graph_net s w1" "omap_at (nodes w1) i = Some (nd\<lparr>user := u\<rparr>)" "waiting_at w1 x = waiting_at w x"
    "linked w1 = linked w"
proof -
  have inv: "net_inv s w" and wf: "wf_nodes (nodes w)" and ok: "omap_ok (nodes w)"
    using assms(1) by (auto simp: graph_net_def net_inv_def wf_nodes_def)
  have at: "omap_at (nodes w1) x = (if x = i then Some (nd\<lparr>user := u\<rparr>) else omap_at (nodes w) x)" for x
    using nodes_map.update_at [OF ok, of i "nd\<lparr>user := u\<rparr>" x] assms(2) by (simp add: w1_def)
  show "omap_at (nodes w1) i = Some (nd\<lparr>user := u\<rparr>)" by (simp add: at)
  show "waiting_at w1 x = waiting_at w x"
    using at assms(2) by (simp add: waiting_at_def waiting_def)
  show l: "linked w1 = linked w" by (simp add: fun_eq_iff linked_def w1_def)
  have "omap_count (nodes w1) x = omap_count (nodes w) x" for x
    using at assms(2) by (simp add: omap_count_at)
  then show "graph_net s w1"
    using assms(1) net_inv_user [OF inv assms(2), of u] l by (simp add: graph_net_def w1_def graph_ok_def)
qed

lemma handle_transaction_run:
  assumes "tx_id tx \<noteq> no_id"
  shows "\<exists>st'. v_handle_transaction tx st = (st', Inr (\<not> satisfies (received_transactions st) (tx_id tx) (\<lambda>t. tx_id t \<noteq> no_id)))
    \<and> satisfies (received_transactions st') (tx_id tx) (\<lambda>t. tx_id t \<noteq> no_id)
    \<and> policy_of st' = policy_of st
    \<and> (satisfies (received_transactions st) (tx_id tx) (\<lambda>t. tx_id t \<noteq> no_id) \<longrightarrow> st' = st)"
proof (cases "satisfies (received_transactions st) (tx_id tx) (\<lambda>t. tx_id t \<noteq> no_id)")
  case True
  then show ?thesis by (simp add: v_handle_transaction_def handle_transaction_def bind_eff_assoc)
next
  case False
  have "tx_id tx \<noteq> - 1" using assms by (simp add: no_id_def)
  from vec_set_ok [OF this, of tx_default "received_transactions st" tx] obtain ts where
    ts: "vec_set tx_default (received_transactions st) (tx_id tx) tx = Inr ts" "unat (tx_id tx) < length ts"
      "ts ! unat (tx_id tx) = tx" by auto
  then have "satisfies ts (tx_id tx) (\<lambda>t. tx_id t \<noteq> no_id)" using assms by (simp add: satisfies_def)
  with ts(1) False show ?thesis
    by (simp add: v_handle_transaction_def handle_transaction_def bind_eff_assoc mod_eff_def)
qed

text \<open>C25: transactions flood the network. A node (not of the selfish group) that gets a
  transaction it has seen before leaves the world as it is. If it is new, the node records it
  and sends exactly one copy, one hop older, to each of its neighbours and to nobody else; so
  every node sends a transaction on at most once.\<close>

theorem transaction_floods:
  assumes "graph_net s w" and "omap_at (nodes w) i = Some nd" and "policy_of (user nd) \<noteq> Selfish_Policy"
    and "msg_data msg = Tx tx" "tx_id tx \<noteq> no_id"
  defines "known_tx \<equiv> (\<lambda>nd. satisfies (received_transactions (user nd)) (tx_id tx) (\<lambda>t. tx_id t \<noteq> no_id))"
  shows "(known_tx nd \<longrightarrow> tiny_handle fuel depth i msg w = (w, None))
    \<and> (\<not> known_tx nd \<longrightarrow> (\<exists>w' nd'. tiny_handle fuel depth i msg w = (w', None)
         \<and> omap_at (nodes w') i = Some nd' \<and> known_tx nd'
         \<and> (\<forall>x. waiting_at w' x =
              waiting_at w x + (if linked w i x then {#msg\<lparr>hops := hops msg + 1\<rparr>#} else {#}))))"
proof -
  let ?known = "satisfies (received_transactions (user nd)) (tx_id tx) (\<lambda>t. tx_id t \<noteq> no_id)"
  obtain u where u: "v_handle_transaction tx (user nd) = (u, Inr (\<not> ?known))"
    "satisfies (received_transactions u) (tx_id tx) (\<lambda>t. tx_id t \<noteq> no_id)"
    "policy_of u = policy_of (user nd)" "?known \<Longrightarrow> u = user nd"
    using handle_transaction_run [OF assms(5), of "user nd"] by blast
  define w1 where "w1 = w\<lparr>nodes := omap_update i (nd\<lparr>user := u\<rparr>) (nodes w)\<rparr>"
  note w1 = set_user [OF assms(1,2), of u, folded w1_def]
  have inv1: "net_inv s w1" using w1(1) by (simp add: graph_net_def)
  have run: "tiny_handle fuel depth i msg w = eff_act (if \<not> ?known then forward i msg else ret_eff ()) w1"
  proof -
    have a: "on_node i (v_handle_transaction tx) w = (w1, Inr (\<not> ?known))"
      using on_node_user [OF assms(2), of "v_handle_transaction tx"] u(1) by (simp add: w1_def)
    have b: "on_node i (get_eff (\<lambda>s. is_miner s \<and> policy_of s = Selfish_Policy)) w1 = (w1, Inr False)"
      using on_node_read [OF inv1 w1(2), of "\<lambda>s. is_miner s \<and> policy_of s = Selfish_Policy"] u(3) assms(3) by simp
    have "node_handle_transaction i tx w = (w1, Inr (\<not> ?known))"
      using a b by (simp add: node_handle_transaction_def
          bind_eff_def [of "on_node i (v_handle_transaction tx)"]
          bind_eff_def [of "on_node i (get_eff (\<lambda>s. is_miner s \<and> policy_of s = Selfish_Policy))"])
    then show ?thesis
      by (simp add: tiny_handle_def assms(4) eff_act_def bind_eff_def [of "node_handle_transaction i tx"])
  qed
  show ?thesis
  proof (cases ?known)
    case True
    have "omap_ok (nodes w)" using assms(1) by (simp add: graph_net_def net_inv_def wf_nodes_def)
    then have "w1 = w" using u(4) [OF True] omap_update_same [of "nodes w" i nd] assms(2) by (simp add: w1_def)
    then show ?thesis using run True by (simp add: known_tx_def eff_act_def)
  next
    case False
    have "omap_count (nodes w1) i" using w1(2) by (simp add: omap_count_at)
    from forward_sends [OF w1(1) this, of msg] obtain w' where
      w': "forward i msg w1 = (w', Inr ())" "same_states w1 w'"
        "\<And>x. waiting_at w' x = waiting_at w1 x + (if linked w1 i x then {#msg\<lparr>hops := hops msg + 1\<rparr>#} else {#})"
      by blast
    have "map_option user (omap_at (nodes w') i) = Some u" using w'(2) w1(2) by (simp add: same_states_def)
    then obtain nd' where "omap_at (nodes w') i = Some nd'" "user nd' = u" by auto
    then show ?thesis using run False w'(1,3) w1(3,4) u(2) by (auto simp: known_tx_def eff_act_def)
  qed
qed

section \<open>Two linked nodes\<close>

definition tiny_unlinked :: world where
  "tiny_unlinked = (graph_hwm.extend (empty_graph 2) (tiny_hwm.fields example_statics (fst (coord_new 0 example_statics))))
     \<lparr>nodes := [(0, node_new 0 (fst (miner_new False No_Policy 0 0 example_statics))),
               (1, node_new 1 (fst (miner_new True Honest_Policy 10 1 example_statics)))]\<rparr>"

definition tiny_pair :: world where "tiny_pair = fst (add_edge False 1 0 tiny_unlinked)"

lemma tiny_unlinked_fields:
  "graph tiny_unlinked = replicate 2 cuckoo_empty" "nodes_queue tiny_unlinked = []" "fail_thres tiny_unlinked = 0"
  "cnts tiny_unlinked = \<lparr>queued_messages = 0, all_messages = 0\<rparr>"
  "nodes tiny_unlinked = [(0, node_new 0 (fst (miner_new False No_Policy 0 0 example_statics))),
     (1, node_new 1 (fst (miner_new True Honest_Policy 10 1 example_statics)))]"
  by (simp_all add: tiny_unlinked_def graph_hwm.defs empty_graph_def graph_hwm_new_def hwm_new_def hwm.defs)

lemma tiny_unlinked_graph: "graph_ok tiny_unlinked" "\<not> linked tiny_unlinked x y"
  using cuckoo_set.emp_inv cuckoo_set.emp_members
  by (auto simp: graph_ok_def linked_def tiny_unlinked_fields list_all_iff)

lemma tiny_pair_eq:
  obtains g where "tiny_pair = tiny_unlinked\<lparr>graph := g\<rparr>" "graph_ok tiny_pair" "length g = 2"
    "\<And>x y. linked tiny_pair x y \<longleftrightarrow> x = 1 \<and> y = 0 \<or> x = 0 \<and> y = 1"
  using add_edge_spec [OF tiny_unlinked_graph(1), of 1 0 False] tiny_unlinked_graph(2)
  by (auto simp: tiny_pair_def tiny_unlinked_fields)

lemma two_small: "unat (j :: u64) < 2 \<longleftrightarrow> j = 0 \<or> j = 1"
proof
  assume "unat j < 2"
  then have "unat j = unat (0 :: u64) \<or> unat j = unat (1 :: u64)" by auto
  then show "j = 0 \<or> j = 1" using unsigned_word_eqI by blast
qed auto

lemma tiny_pair_net: "graph_net (\<lambda>_. 0) tiny_pair"
proof -
  obtain g where g: "tiny_pair = tiny_unlinked\<lparr>graph := g\<rparr>" "graph_ok tiny_pair" "length g = 2"
    "\<And>x y. linked tiny_pair x y \<longleftrightarrow> x = 1 \<and> y = 0 \<or> x = 0 \<and> y = 1"
    using tiny_pair_eq by blast
  have wf: "wf_nodes (nodes tiny_unlinked)"
    by (auto simp: wf_nodes_def omap_ok_def omap_at_def tiny_unlinked_fields node_new_def)
  have zero: "total_waiting (nodes tiny_unlinked) = 0"
    by (simp add: total_waiting_def tiny_unlinked_fields node_new_def waiting_def)
  have none: "waiting_at tiny_pair i = {#}" for i
    by (simp add: waiting_at_def g(1) tiny_unlinked_fields omap_at_def node_new_def waiting_def)
  have "net_inv (\<lambda>_. 0) tiny_pair"
    unfolding net_inv_def none using wf zero by (simp add: g(1)) (simp add: tiny_unlinked_fields)
  moreover have "omap_count (nodes tiny_pair) j \<longleftrightarrow> unat j < length (graph tiny_pair)" for j
    using g(3) by (simp add: g(1) tiny_unlinked_fields omap_count_def two_small)
  moreover have "fail_thres tiny_pair = 0" by (simp add: g(1) tiny_unlinked_fields)
  ultimately show ?thesis using g(2-4) by (auto simp: graph_net_def g(1))
qed

definition tiny_message :: "tiny_data message" where
  "tiny_message = message_new (Tx (tx_default\<lparr>tx_id := 3\<rparr>))"

theorem transaction_floods_witness:
  "\<exists>w'. tiny_handle 1 1 1 tiny_message tiny_pair = (w', None)
    \<and> waiting_at w' 0 = {#tiny_message\<lparr>hops := hops tiny_message + 1\<rparr>#} \<and> waiting_at w' 1 = {#}"
proof -
  obtain g where g: "tiny_pair = tiny_unlinked\<lparr>graph := g\<rparr>"
    "\<And>x y. linked tiny_pair x y \<longleftrightarrow> x = 1 \<and> y = 0 \<or> x = 0 \<and> y = 1"
    using tiny_pair_eq by blast
  have none: "waiting_at tiny_pair i = {#}" for i
    by (simp add: waiting_at_def g(1) tiny_unlinked_fields omap_at_def node_new_def waiting_def)
  let ?nd = "node_new 1 (fst (miner_new True Honest_Policy 10 1 example_statics))"
  have at: "omap_at (nodes tiny_pair) 1 = Some ?nd" by (simp add: g(1) tiny_unlinked_fields omap_at_def)
  have fresh: "policy_of (user ?nd) \<noteq> Selfish_Policy"
    "\<not> satisfies (received_transactions (user ?nd)) (tx_id (tx_default\<lparr>tx_id := 3\<rparr>)) (\<lambda>t. tx_id t \<noteq> no_id)"
    by (simp_all add: node_new_def miner_new_def tiny_new_def blk_new_def Let_def tiny.defs satisfies_def
        example_statics_def miner_state.defs)
  have msg: "msg_data tiny_message = Tx (tx_default\<lparr>tx_id := 3\<rparr>)" "tx_id (tx_default\<lparr>tx_id := 3\<rparr>) \<noteq> no_id"
    by (simp_all add: tiny_message_def message_new_def no_id_def)
  from conjunct2 [OF transaction_floods [OF tiny_pair_net at fresh(1) msg, of 1 1], rule_format, OF fresh(2)] obtain w' where
    "tiny_handle 1 1 1 tiny_message tiny_pair = (w', None)"
    "\<And>x. waiting_at w' x = waiting_at tiny_pair x
       + (if linked tiny_pair 1 x then {#tiny_message\<lparr>hops := hops tiny_message + 1\<rparr>#} else {#})" by (elim exE conjE) simp
  then show ?thesis by (intro exI [of _ w']) (simp add: none g(2))
qed

end
