(* ===== verification/Config.thy ===== *)
theory Config
  imports Sim_Prelude
begin

text \<open>
  Configuration files (\<open>include/config.hpp\<close>): \<open>trim\<close>, the constructor of \<open>Config\<close> line by line,
  \<open>get\<close>, and the conversion \<open>stoll\<close> that \<open>main\<close> hands to it. A file is the list of its lines, or
  \<open>None\<close> if it cannot be opened.
\<close>

section \<open>Reading a file\<close>

type_synonym config = "string \<rightharpoonup> string"

definition blank :: "char \<Rightarrow> bool" where
  "blank c \<longleftrightarrow> c = CHR '' '' \<or> c = CHR 0x09"

text \<open>
  \<open>str.begin()+str.find_first_not_of(...)\<close> is no iterator of the string when every character is
  blank. \<open>c_str\<close> ends at a zero character.
\<close>

definition trim :: "string \<Rightarrow> string res" where
  "trim str0 =
     (let str = filter (\<lambda>c. c \<noteq> CHR '' '') str0 in
      if \<forall>c \<in> set str. blank c then Inl (UB ''erase up to npos'')
      else Inr (takeWhile (\<lambda>c. c \<noteq> CHR 0x00) (dropWhile blank str)))"

definition substr_until :: "char \<Rightarrow> string \<Rightarrow> string" where
  "substr_until c line = takeWhile (\<lambda>x. x \<noteq> c) line"

definition substr_after :: "char \<Rightarrow> string \<Rightarrow> string" where
  "substr_after c line = drop 1 (dropWhile (\<lambda>x. x \<noteq> c) line)"

definition emplace_kv :: "string \<Rightarrow> string \<Rightarrow> config \<Rightarrow> config" where
  "emplace_kv k v kv = (if kv k = None then kv(k \<mapsto> v) else kv)"

fun config_lines :: "string list \<Rightarrow> config \<Rightarrow> config res" where
  "config_lines [] kv = Inr kv"
| "config_lines (l # f) kv =
     bind_res (trim (substr_until (CHR ''#'') l)) (\<lambda>line.
     if line = [] then config_lines f kv
     else if CHR ''='' \<notin> set line then Inr kv
     else bind_res (trim (substr_until (CHR ''='') line)) (\<lambda>k.
          bind_res (trim (substr_after (CHR ''='') line)) (\<lambda>v.
          config_lines f (emplace_kv k v kv))))"

definition config_new :: "string list option \<Rightarrow> config res" where
  "config_new file = (case file of
     None \<Rightarrow> Inl (Runtime_Error ''Could not open config file!'')
   | Some f \<Rightarrow> config_lines f Map.empty)"

definition config_get :: "config \<Rightarrow> string \<Rightarrow> 'a \<Rightarrow> (string \<Rightarrow> 'a res) \<Rightarrow> 'a res" where
  "config_get kv key dv conv = (case kv key of None \<Rightarrow> Inr dv | Some s \<Rightarrow> conv s)"

subsection \<open>Numbers\<close>

definition digit_of :: "char \<Rightarrow> nat" where
  "digit_of c = of_char c - 48"

definition is_digit :: "char \<Rightarrow> bool" where
  "is_digit c \<longleftrightarrow> (48 :: nat) \<le> of_char c \<and> of_char c \<le> (57 :: nat)"

definition digits_value :: "string \<Rightarrow> nat" where
  "digits_value = foldl (\<lambda>n c. 10 * n + digit_of c) 0"

definition c_space :: "char \<Rightarrow> bool" where
  "c_space c \<longleftrightarrow> c = CHR '' '' \<or> (9 :: nat) \<le> of_char c \<and> of_char c \<le> (13 :: nat)"

text \<open>\<open>std::stoll\<close> with base ten: leading white space, a sign, digits, and what follows is ignored.\<close>

definition stoll :: "string \<Rightarrow> int res" where
  "stoll s =
     (let s1 = dropWhile c_space s;
          negative = (s1 \<noteq> [] \<and> hd s1 = CHR ''-'');
          s2 = (if s1 \<noteq> [] \<and> (hd s1 = CHR ''-'' \<or> hd s1 = CHR ''+'') then tl s1 else s1);
          ds = takeWhile is_digit s2;
          n = (if negative then - int (digits_value ds) else int (digits_value ds))
      in if ds = [] then Inl (Runtime_Error ''stoll'')
         else if - (2 ^ 63) \<le> n \<and> n < 2 ^ 63 then Inr n else Inl Out_Of_Range)"

section \<open>Well-formed lines\<close>

text \<open>A word of a key or a value, and the line that sets a key.\<close>

definition word :: "string \<Rightarrow> bool" where
  "word s \<longleftrightarrow> s \<noteq> [] \<and> (\<forall>c \<in> set s. c \<noteq> CHR '' '' \<and> c \<noteq> CHR 0x09 \<and> c \<noteq> CHR ''#'' \<and> c \<noteq> CHR 0x00)"

definition setting :: "string \<Rightarrow> string \<Rightarrow> string \<Rightarrow> string" where
  "setting k v comment = k @ '' = '' @ v @ '' # '' @ comment"

lemma trim_word:
  assumes "word s"
  shows "trim s = Inr s"
proof -
  have "filter (\<lambda>c. c \<noteq> CHR '' '') s = s" using assms by (auto simp: word_def intro: filter_True)
  moreover have "\<not> (\<forall>c \<in> set s. blank c)" using assms by (cases s) (auto simp: word_def blank_def)
  moreover have "dropWhile blank s = s" using assms by (cases s) (auto simp: word_def blank_def)
  moreover have "takeWhile (\<lambda>c. c \<noteq> CHR 0x00) s = s" using assms by (auto simp: word_def takeWhile_eq_all_conv)
  ultimately show ?thesis by (simp add: trim_def Let_def)
qed

lemma trim_spaces: "trim (filter (\<lambda>c. c \<noteq> CHR '' '') s) = trim s"
  by (simp add: trim_def)

lemma trim_setting:
  assumes "word k" "word v"
  shows "trim (substr_until (CHR ''#'') (setting k v c)) = Inr (k @ ''='' @ v)"
proof -
  have "\<forall>x \<in> set (k @ '' = '' @ v @ '' ''). x \<noteq> CHR ''#''" using assms by (auto simp: word_def)
  then have u: "substr_until (CHR ''#'') (setting k v c) = k @ '' = '' @ v @ '' ''"
    unfolding substr_until_def setting_def
    by (simp add: takeWhile_append2 [of "k", simplified] takeWhile_append)
  have "filter (\<lambda>c. c \<noteq> CHR '' '') k = k" "filter (\<lambda>c. c \<noteq> CHR '' '') v = v"
    using assms by (auto simp: word_def intro: filter_True)
  then have f: "filter (\<lambda>c. c \<noteq> CHR '' '') (k @ '' = '' @ v @ '' '') = k @ ''='' @ v" by simp
  have "word (k @ ''='' @ v)" using assms by (auto simp: word_def)
  then have "trim (k @ ''='' @ v) = Inr (k @ ''='' @ v)" by (rule trim_word)
  then show ?thesis unfolding u using trim_spaces [of "k @ '' = '' @ v @ '' ''", unfolded f] by simp
qed

lemma setting_parts:
  assumes "CHR ''='' \<notin> set k"
  shows "substr_until (CHR ''='') (k @ ''='' @ v) = k" "substr_after (CHR ''='') (k @ ''='' @ v) = v"
proof -
  have "\<forall>x \<in> set k. x \<noteq> CHR ''=''" using assms by auto
  then show "substr_until (CHR ''='') (k @ ''='' @ v) = k" "substr_after (CHR ''='') (k @ ''='' @ v) = v"
    by (simp_all add: substr_until_def substr_after_def takeWhile_append2 dropWhile_append2)
qed

lemma config_setting:
  assumes "word k" "CHR ''='' \<notin> set k" "word v"
  shows "config_lines (setting k v c # f) kv = config_lines f (emplace_kv k v kv)"
  using assms trim_setting [OF assms(1,3)] setting_parts [OF assms(2), of v]
  by (simp add: trim_word)

lemma config_settings:
  assumes "\<forall>(k, v, c) \<in> set es. word k \<and> CHR ''='' \<notin> set k \<and> word v"
  shows "config_lines (map (\<lambda>(k, v, c). setting k v c) es @ rest) kv
      = config_lines rest (map_of (map (\<lambda>(k, v, c). (k, v)) es) ++ kv)"
  using assms
proof (induction es arbitrary: kv)
  case (Cons e es)
  obtain k v c where e: "e = (k, v, c)" by (cases e)
  have "map_of (map (\<lambda>(k, v, c). (k, v)) es) ++ emplace_kv k v kv = map_of (map (\<lambda>(k, v, c). (k, v)) (e # es)) ++ kv"
    by (rule ext) (simp add: e emplace_kv_def map_add_def split: option.split)
  then show ?case using Cons e config_setting [of k v c] by (simp add: fun_upd_def del: config_lines.simps)
qed simp

section \<open>Properties\<close>

text \<open>C33: a file of settings \<open>key = value # comment\<close> is read as the map that its entries say, the
  first one for a key that is set twice, up to a line without \<open>=\<close>: what follows that line is not
  read, and no error is raised.\<close>

theorem config_roundtrip:
  assumes "\<forall>(k, v, c) \<in> set es. word k \<and> CHR ''='' \<notin> set k \<and> word v"
    and "word s" and "CHR ''='' \<notin> set s"
  defines "file \<equiv> map (\<lambda>(k, v, c). setting k v c) es" and "entries \<equiv> map_of (map (\<lambda>(k, v, c). (k, v)) es)"
  shows "config_new (Some file) = Inr entries \<and> config_new (Some (file @ s # rest)) = Inr entries"
proof -
  have cut: "config_lines (s # rest) kv = Inr kv" for kv
  proof -
    have "substr_until (CHR ''#'') s = s"
      using assms(2) by (auto simp: substr_until_def word_def takeWhile_eq_all_conv)
    then show ?thesis using assms(2,3) trim_word by (simp add: word_def)
  qed
  show ?thesis
    using config_settings [OF assms(1), of "[]" Map.empty] config_settings [OF assms(1), of "s # rest" Map.empty] cut
    by (simp_all add: config_new_def file_def entries_def)
qed

theorem config_roundtrip_witness:
  "config_new (Some [setting ''seed'' ''1'' [], setting ''nthreads'' ''-1'' ''means find out automatically'',
      setting ''seed'' ''2'' []])
    = Inr (map_of [(''seed'', ''1''), (''nthreads'', ''-1''), (''seed'', ''2'')])"
  using config_roundtrip [of "[(''seed'', ''1'', []), (''nthreads'', ''-1'', ''means find out automatically''),
      (''seed'', ''2'', [])]" "''end''"] by (simp add: word_def)

text \<open>A line that is empty, blank or only a comment is not skipped, as the test of its length
  means to: \<open>trim\<close> already erases up to an iterator that is not one of the string. The sample
  configurations begin with such a line.\<close>

theorem config_blank_line:
  assumes "\<forall>c \<in> set before. blank c" and "comment = [] \<or> hd comment = CHR ''#''"
  shows "config_lines ((before @ comment) # f) kv = Inl (UB ''erase up to npos'')"
proof -
  have "\<forall>x \<in> set before. x \<noteq> CHR ''#''" using assms(1) by (auto simp: blank_def)
  then have "substr_until (CHR ''#'') (before @ comment) = before"
    using assms(2) by (cases comment) (simp_all add: substr_until_def takeWhile_append2 takeWhile_eq_all_conv)
  moreover have "trim before = Inl (UB ''erase up to npos'')" using assms(1) by (simp add: trim_def)
  ultimately show ?thesis by simp
qed

theorem config_blank_line_witness:
  "config_new (Some [''# Kind of network'', ''network_kind = erdos'']) = Inl (UB ''erase up to npos'')"
  using config_blank_line [of "[]" "''# Kind of network''"] by (simp add: config_new_def)

end
