(* ===== verification/Hashpower.thy ===== *)
theory Hashpower
  imports Rng
begin

text \<open>
  The mining powers of the miners (\<open>examples/tinycoin/hashpower.hpp\<close>): one draw for each, then
  replacing weak or strong miners until the selfish ones hold their share up to a percent.
  A \<open>std::multiset\<close> is a sorted list; doubles are real numbers; \<open>std::shuffle\<close> is an argument
  (its order is the library's business, but it only permutes). The loop of the code may go on
  for any number of rounds: \<open>fuel\<close> bounds it.
\<close>

section \<open>Drawing the powers\<close>

definition device_weights :: "u64 list" where
  "device_weights = [32, 64, 72, 76, 78, 79]"

definition get_one :: "xoroshiro \<Rightarrow> (u64 \<times> xoroshiro) res" where
  "get_one g =
     bind_res (choose_weighted g device_weights) (\<lambda>(pw, g1).
     bind_res (rng_range g1 1 10) (\<lambda>(r, g2).
     Inr (r * 10 ^ pw, g2)))"

record powers =
  selfish_weights :: "u64 list"
  honest_weights :: "u64 list"
  selfish_total :: u64
  honest_total :: u64
  power_rng :: xoroshiro

definition add_selfish :: "powers \<Rightarrow> powers res" where
  "add_selfish p = bind_res (get_one (power_rng p)) (\<lambda>(r, g).
     Inr (p\<lparr>selfish_weights := insort r (selfish_weights p), selfish_total := selfish_total p + r, power_rng := g\<rparr>))"

definition add_honest :: "powers \<Rightarrow> powers res" where
  "add_honest p = bind_res (get_one (power_rng p)) (\<lambda>(r, g).
     Inr (p\<lparr>honest_weights := insort r (honest_weights p), honest_total := honest_total p + r, power_rng := g\<rparr>))"

text \<open>\<open>for (unsigned i=0; i<num; i++)\<close>: a 32-bit counter never reaches a larger bound.\<close>

primrec repeat_res :: "nat \<Rightarrow> ('a \<Rightarrow> 'a res) \<Rightarrow> 'a \<Rightarrow> 'a res" where
  "repeat_res 0 f x = Inr x"
| "repeat_res (Suc n) f x = bind_res (f x) (repeat_res n f)"

definition unsigned_loop :: "u64 \<Rightarrow> ('a \<Rightarrow> 'a res) \<Rightarrow> 'a \<Rightarrow> 'a res" where
  "unsigned_loop num f x = (if 2 ^ 32 \<le> unat num then Inl No_Return else repeat_res (unat num) f x)"

section \<open>Adjusting the shares\<close>

definition drop_selfish :: "bool \<Rightarrow> powers \<Rightarrow> powers res" where
  "drop_selfish biggest p =
     (let ws = selfish_weights p in
      if ws = [] then Inl (UB ''element of an empty multiset'')
      else if biggest then Inr (p\<lparr>selfish_total := selfish_total p - last ws, selfish_weights := butlast ws\<rparr>)
      else Inr (p\<lparr>selfish_total := selfish_total p - hd ws, selfish_weights := tl ws\<rparr>))"

definition drop_honest :: "bool \<Rightarrow> powers \<Rightarrow> powers res" where
  "drop_honest biggest p =
     (let ws = honest_weights p in
      if ws = [] then Inl (UB ''element of an empty multiset'')
      else if biggest then Inr (p\<lparr>honest_total := honest_total p - last ws, honest_weights := butlast ws\<rparr>)
      else Inr (p\<lparr>honest_total := honest_total p - hd ws, honest_weights := tl ws\<rparr>))"

definition all_power :: "powers \<Rightarrow> real" where
  "all_power p = real (unat (selfish_total p + honest_total p))"

definition too_low :: "real \<Rightarrow> powers \<Rightarrow> bool" where
  "too_low share p \<longleftrightarrow> real (unat (selfish_total p)) < all_power p * (share - 1 / 100)"

definition too_high :: "real \<Rightarrow> powers \<Rightarrow> bool" where
  "too_high share p \<longleftrightarrow> real (unat (selfish_total p)) > all_power p * (share + 1 / 100)"

definition adjust_one :: "bool \<Rightarrow> powers \<Rightarrow> powers res" where
  "adjust_one low p =
     bind_res (rng_upto (power_rng p) 2) (\<lambda>(c, g).
     let p = p\<lparr>power_rng := g\<rparr> in
     if c \<noteq> 0 then bind_res (drop_selfish (\<not> low) p) add_selfish
     else bind_res (drop_honest low p) add_honest)"

primrec adjust :: "nat \<Rightarrow> real \<Rightarrow> powers \<Rightarrow> powers res" where
  "adjust 0 share p = Inl No_Return"
| "adjust (Suc fuel) share p =
     (if too_low share p then bind_res (adjust_one True p) (adjust fuel share)
      else if too_high share p then bind_res (adjust_one False p) (adjust fuel share)
      else Inr p)"

definition shuffled ::
    "(u64 list \<Rightarrow> xoroshiro \<Rightarrow> u64 list \<times> xoroshiro) \<Rightarrow> powers \<Rightarrow> (u64 list \<times> u64 list) \<times> xoroshiro" where
  "shuffled shuffle p =
     (let (s_ans, g1) = shuffle (selfish_weights p) (power_rng p);
          (h_ans, g2) = shuffle (honest_weights p) g1
      in ((h_ans, s_ans), g2))"

definition get_hashpower ::
    "nat \<Rightarrow> (u64 list \<Rightarrow> xoroshiro \<Rightarrow> u64 list \<times> xoroshiro) \<Rightarrow> u64 \<Rightarrow> u64 \<Rightarrow> real \<Rightarrow> xoroshiro
      \<Rightarrow> ((u64 list \<times> u64 list) \<times> xoroshiro) res" where
  "get_hashpower fuel shuffle num_honest num_selfish share g =
     bind_res (unsigned_loop num_selfish add_selfish
       \<lparr>selfish_weights = [], honest_weights = [], selfish_total = 0, honest_total = 0, power_rng = g\<rparr>) (\<lambda>p1.
     bind_res (unsigned_loop num_honest add_honest p1) (\<lambda>p2.
     if share \<noteq> 0 \<and> num_selfish = 0 then Inl (Runtime_Error ''Invalid selfish_percent!'')
     else bind_res (adjust fuel share p2) (\<lambda>p. Inr (shuffled shuffle p))))"

section \<open>The invariant of the powers\<close>

text \<open>A power is a digit times a power of ten, as the kinds of devices have it.\<close>

definition device_power :: "u64 \<Rightarrow> bool" where
  "device_power x \<longleftrightarrow> (\<exists>d k. 1 \<le> d \<and> d < 10 \<and> k < 6 \<and> x = d * 10 ^ k)"

text \<open>The totals are those of the two multisets, which keep their sizes.\<close>

definition powers_ok :: "nat \<Rightarrow> nat \<Rightarrow> powers \<Rightarrow> bool" where
  "powers_ok ns nh p \<longleftrightarrow> length (selfish_weights p) = ns \<and> length (honest_weights p) = nh
     \<and> selfish_total p = sum_list (selfish_weights p) \<and> honest_total p = sum_list (honest_weights p)
     \<and> (\<forall>x \<in> set (selfish_weights p) \<union> set (honest_weights p). device_power x)"

lemma get_one_ok: "\<exists>r g'. get_one g = Inr (r, g') \<and> device_power r"
proof -
  obtain k g1 r where k: "choose_weighted g device_weights = Inr (k, g1)" "k < length device_weights"
    using choose_weighted_returns [of device_weights g] by (auto simp: device_weights_def)
  obtain d g2 where d: "rng_range g1 1 10 = Inr (d, g2)" "1 \<le> d" "d < 10"
    using rng_range_bounds [of 1 10 g1] by auto
  have "device_power (d * 10 ^ k)" unfolding device_power_def using d(2,3) k(2)
    by (intro exI [of _ d] exI [of _ k]) (simp add: device_weights_def)
  then show ?thesis using k(1) d(1) by (simp add: get_one_def)
qed

lemma sum_list_insort: "sum_list (insort (x :: u64) xs) = x + sum_list xs"
  by (induction xs) (simp_all add: algebra_simps)

lemma add_ok:
  assumes "powers_ok ns nh p"
  shows "\<exists>p'. add_selfish p = Inr p' \<and> powers_ok (Suc ns) nh p'"
    "\<exists>p'. add_honest p = Inr p' \<and> powers_ok ns (Suc nh) p'"
proof -
  obtain r g where r: "get_one (power_rng p) = Inr (r, g)" "device_power r" using get_one_ok by blast
  then show "\<exists>p'. add_selfish p = Inr p' \<and> powers_ok (Suc ns) nh p'"
    "\<exists>p'. add_honest p = Inr p' \<and> powers_ok ns (Suc nh) p'"
    using assms
    by (simp_all add: add_selfish_def add_honest_def powers_ok_def sum_list_insort set_insort_key add.commute)
qed

lemma repeat_add_ok:
  assumes "powers_ok ns nh p"
  shows "\<exists>p'. repeat_res n add_selfish p = Inr p' \<and> powers_ok (n + ns) nh p'"
    "\<exists>p'. repeat_res n add_honest p = Inr p' \<and> powers_ok ns (n + nh) p'"
proof -
  show "\<exists>p'. repeat_res n add_selfish p = Inr p' \<and> powers_ok (n + ns) nh p'"
    using assms
  proof (induction n arbitrary: p ns)
    case (Suc n)
    obtain q where "add_selfish p = Inr q" "powers_ok (Suc ns) nh q" using add_ok(1) [OF Suc.prems] by blast
    with Suc.IH [of "Suc ns" q] show ?case by simp
  qed simp
  show "\<exists>p'. repeat_res n add_honest p = Inr p' \<and> powers_ok ns (n + nh) p'"
    using assms
  proof (induction n arbitrary: p nh)
    case (Suc n)
    obtain q where "add_honest p = Inr q" "powers_ok ns (Suc nh) q" using add_ok(2) [OF Suc.prems] by blast
    with Suc.IH [of "Suc nh" q] show ?case by simp
  qed simp
qed

lemma sum_butlast: "xs \<noteq> [] \<Longrightarrow> sum_list (butlast xs) = sum_list xs - (last xs :: u64)"
  by (induction xs) auto

lemma sum_tl: "xs \<noteq> [] \<Longrightarrow> sum_list (tl xs) = sum_list xs - (hd xs :: u64)"
  by (cases xs) auto

lemma drop_ok:
  assumes "powers_ok ns nh p"
  shows "0 < ns \<Longrightarrow> \<exists>p'. drop_selfish b p = Inr p' \<and> powers_ok (ns - 1) nh p'"
    "0 < nh \<Longrightarrow> \<exists>p'. drop_honest b p = Inr p' \<and> powers_ok ns (nh - 1) p'"
  using assms
  by (auto simp: drop_selfish_def drop_honest_def Let_def powers_ok_def sum_butlast sum_tl
      dest: in_set_butlastD list.set_sel(2))

lemma adjust_one_ok:
  assumes "powers_ok ns nh p" "0 < ns" "0 < nh"
  shows "\<exists>p'. adjust_one low p = Inr p' \<and> powers_ok ns nh p'"
proof -
  obtain c g where c: "rng_upto (power_rng p) 2 = Inr (c, g)"
    using rng_range_bounds [of 0 2 "power_rng p"] by (auto simp: rng_upto_def)
  have p: "powers_ok ns nh (p\<lparr>power_rng := g\<rparr>)" using assms(1) by (simp add: powers_ok_def)
  obtain p1 p2 where d: "drop_selfish (\<not> low) (p\<lparr>power_rng := g\<rparr>) = Inr p1" "powers_ok (ns - 1) nh p1"
    "drop_honest low (p\<lparr>power_rng := g\<rparr>) = Inr p2" "powers_ok ns (nh - 1) p2"
    using drop_ok [OF p] assms(2,3) by meson
  show ?thesis
    using add_ok(1) [OF d(2)] add_ok(2) [OF d(4)] assms(2,3) c d(1,3) by (simp add: adjust_one_def Let_def)
qed

lemma adjust_ok:
  assumes "powers_ok ns nh p" "0 < ns" "0 < nh" "adjust fuel share p = Inr p'"
  shows "powers_ok ns nh p' \<and> \<not> too_low share p' \<and> \<not> too_high share p'"
  using assms
proof (induction fuel arbitrary: p)
  case (Suc fuel)
  obtain q r where "adjust_one True p = Inr q" "powers_ok ns nh q" "adjust_one False p = Inr r" "powers_ok ns nh r"
    using adjust_one_ok [OF Suc.prems(1-3)] by meson
  then show ?case using Suc by (auto split: if_splits)
qed simp

lemma powers_start:
  "powers_ok 0 0 \<lparr>selfish_weights = [], honest_weights = [], selfish_total = 0, honest_total = 0, power_rng = g\<rparr>"
  by (simp add: powers_ok_def)

lemma unsigned_loop_ok:
  assumes "unat n < 2 ^ 32"
  shows "unsigned_loop n f = repeat_res (unat n) f"
  using assms by (intro ext) (simp add: unsigned_loop_def)

text \<open>What is drawn before the adjustment.\<close>

lemma drawn_powers:
  assumes "unat nh < 2 ^ 32" "unat ns < 2 ^ 32"
  obtains p where "powers_ok (unat ns) (unat nh) p"
    "\<forall>fuel shuffle share. get_hashpower fuel shuffle nh ns share g =
      (if share \<noteq> 0 \<and> ns = 0 then Inl (Runtime_Error ''Invalid selfish_percent!'')
       else bind_res (adjust fuel share p) (\<lambda>p. Inr (shuffled shuffle p)))"
proof -
  obtain p1 where p1: "repeat_res (unat ns) add_selfish
      \<lparr>selfish_weights = [], honest_weights = [], selfish_total = 0, honest_total = 0, power_rng = g\<rparr> = Inr p1"
    "powers_ok (unat ns) 0 p1"
    using repeat_add_ok(1) [OF powers_start, of "unat ns" g] by auto
  obtain p2 where "repeat_res (unat nh) add_honest p1 = Inr p2" "powers_ok (unat ns) (unat nh) p2"
    using repeat_add_ok(2) [OF p1(2), of "unat nh"] by auto
  then show thesis
    using p1(1) assms by (intro that [of p2]) (simp_all add: get_hashpower_def unsigned_loop_ok)
qed

lemma device_power_range:
  assumes "device_power x"
  shows "0 < unat x" "unat x \<le> 900000"
proof -
  obtain d k where d: "1 \<le> d" "d < 10" and k: "k < 6" and x: "x = d * 10 ^ k"
    using assms by (auto simp: device_power_def)
  have "1 \<le> unat d" "unat d < 10" using d by (simp_all add: word_le_nat_alt word_less_nat_alt)
  moreover have "d = of_nat (unat d)" by simp
  moreover have "(1 :: nat) \<le> n \<and> n < 10 \<Longrightarrow> n \<in> {1, 2, 3, 4, 5, 6, 7, 8, 9}" for n by auto
  ultimately have "d \<in> {1, 2, 3, 4, 5, 6, 7, 8, 9}" by (metis (no_types, lifting) empty_iff insert_iff of_nat_1 of_nat_numeral)
  moreover have "k \<in> {0, 1, 2, 3, 4, 5}" using k by auto
  ultimately show "0 < unat x" "unat x \<le> 900000" by (auto simp: x)
qed

lemma unat_sum_powers:
  assumes "\<forall>x \<in> set xs. device_power x" "length xs < 2 ^ 32"
  shows "unat (sum_list xs) = sum_list (map unat xs)"
proof -
  have le: "sum_list (map unat ys) \<le> length ys * 900000" if "\<forall>x \<in> set ys. device_power x" for ys
    using that device_power_range(2) by (induction ys) (auto intro: add_mono)
  show ?thesis using assms
  proof (induction xs)
    case (Cons x xs)
    have "unat x + unat (sum_list xs) \<le> length (x # xs) * 900000" using Cons le [of "x # xs"] by simp
    also have "\<dots> < 2 ^ 64" using Cons.prems(2) by simp
    finally show ?case using Cons by (simp add: unat_add_no_wrap)
  qed simp
qed

lemma selfish_positive:
  assumes "powers_ok ns nh p" "0 < ns" "ns < 2 ^ 32"
  shows "0 < unat (selfish_total p)"
proof -
  obtain x xs where xs: "selfish_weights p = x # xs"
    using assms by (cases "selfish_weights p") (auto simp: powers_ok_def)
  have "unat (selfish_total p) = sum_list (map unat (selfish_weights p))"
    using assms unat_sum_powers [of "selfish_weights p"] by (auto simp: powers_ok_def)
  moreover have "0 < unat x" using assms(1) device_power_range(1) [of x] by (auto simp: powers_ok_def xs)
  ultimately show ?thesis by (simp add: xs)
qed

lemma adjust_no_honest:
  assumes "powers_ok ns 0 p" "0 < ns" "ns < 2 ^ 32" "share + 1 / 100 < 1"
  shows "adjust fuel share p = Inl (UB ''element of an empty multiset'') \<or> adjust fuel share p = Inl No_Return"
  using assms(1)
proof (induction fuel arbitrary: p)
  case (Suc fuel)
  have none: "honest_weights p = []" "honest_total p = 0" using Suc.prems by (auto simp: powers_ok_def)
  have all: "all_power p = real (unat (selfish_total p))" by (simp add: all_power_def none)
  have pos: "0 < all_power p"
    using selfish_positive [OF Suc.prems assms(2,3)] unfolding all by (simp only: of_nat_0_less_iff)
  have "all_power p * (share + 1 / 100) < all_power p * 1" "all_power p * (share - 1 / 100) < all_power p * 1"
    using pos assms(4) by (simp_all only: mult_less_cancel_left_pos)
  then have high: "\<not> too_low share p" "too_high share p" using all by (simp_all add: too_low_def too_high_def)
  obtain c g where c: "rng_upto (power_rng p) 2 = Inr (c, g)"
    using rng_range_bounds [of 0 2 "power_rng p"] by (auto simp: rng_upto_def)
  have ok: "powers_ok ns 0 (p\<lparr>power_rng := g\<rparr>)" using Suc.prems by (simp add: powers_ok_def)
  show ?case
  proof (cases "c = 0")
    case True
    then show ?thesis using high c none by (simp add: adjust_one_def drop_honest_def)
  next
    case False
    obtain q where q: "drop_selfish True (p\<lparr>power_rng := g\<rparr>) = Inr q" "powers_ok (ns - 1) 0 q"
      using drop_ok(1) [OF ok assms(2)] by blast
    obtain r where "add_selfish q = Inr r" "powers_ok ns 0 r" using add_ok(1) [OF q(2)] assms(2) by auto
    then show ?thesis using high c False q(1) Suc.IH [of r] by (simp add: adjust_one_def Let_def)
  qed
qed simp

section \<open>Properties\<close>

text \<open>When \<open>get_hashpower\<close> returns for some honest and some selfish miners, there is a power for
  each of them, each a digit times a power of ten, and the selfish ones together hold the
  requested share of the total up to one percent of it.\<close>

theorem get_hashpower_correct:
  assumes "\<And>xs g. mset (fst (shuffle xs g)) = mset xs"
    and "0 < ns" "unat ns < 2 ^ 32" "0 < nh" "unat nh < 2 ^ 32"
    and "get_hashpower fuel shuffle nh ns share g = Inr ((h, s), g')"
  shows "length h = unat nh \<and> length s = unat ns \<and> (\<forall>x \<in> set h \<union> set s. device_power x)
    \<and> real (unat (sum_list s + sum_list h)) * (share - 1 / 100) \<le> real (unat (sum_list s))
    \<and> real (unat (sum_list s)) \<le> real (unat (sum_list s + sum_list h)) * (share + 1 / 100)"
proof -
  obtain p where p: "powers_ok (unat ns) (unat nh) p"
    and run: "\<forall>fuel shuffle share. get_hashpower fuel shuffle nh ns share g =
      (if share \<noteq> 0 \<and> ns = 0 then Inl (Runtime_Error ''Invalid selfish_percent!'')
       else bind_res (adjust fuel share p) (\<lambda>p. Inr (shuffled shuffle p)))"
    using drawn_powers [OF assms(5,3), of g] by blast
  have pos: "0 < unat ns" "0 < unat nh" using assms(2,4) by (simp_all add: word_less_nat_alt)
  have "ns \<noteq> 0" using assms(2) by auto
  have "bind_res (adjust fuel share p) (\<lambda>p. Inr (shuffled shuffle p)) = Inr ((h, s), g')"
    using assms(6) \<open>ns \<noteq> 0\<close> run by simp
  then obtain q where q: "adjust fuel share p = Inr q" and sh: "shuffled shuffle q = ((h, s), g')"
    by (auto simp: res_simps)
  from sh have perm: "s = fst (shuffle (selfish_weights q) (power_rng q))"
    "h = fst (shuffle (honest_weights q) (snd (shuffle (selfish_weights q) (power_rng q))))"
    by (auto simp: shuffled_def Let_def split: prod.splits)
  have ok: "powers_ok (unat ns) (unat nh) q" "\<not> too_low share q" "\<not> too_high share q"
    using adjust_ok [OF p pos q] by simp_all
  have m: "mset s = mset (selfish_weights q)" "mset h = mset (honest_weights q)"
    by (simp_all add: perm assms(1))
  have "sum_list s = sum_list (selfish_weights q)" "sum_list h = sum_list (honest_weights q)"
    by (metis m sum_mset_sum_list)+
  moreover have "length s = unat ns" "length h = unat nh"
    using ok(1) m by (simp_all add: powers_ok_def flip: size_mset)
  moreover have "set s = set (selfish_weights q)" "set h = set (honest_weights q)"
    using m by (metis set_mset_mset)+
  ultimately show ?thesis
    using ok by (auto simp: powers_ok_def too_low_def too_high_def all_power_def)
qed

lemma get_one_zero: "get_one \<lparr>s_0 = 0, s_1 = 0\<rparr> = Inr (1, \<lparr>s_0 = 0, s_1 = 0\<rparr>)"
  by (simp add: get_one_def choose_weighted_def device_weights_def rng_upto_def rng_range_def lower_bound_def
      rng_next_def rotl_def Let_def)

theorem get_hashpower_correct_witness:
  "get_hashpower 1 (\<lambda>xs g. (xs, g)) 2 1 (1 / 3) \<lparr>s_0 = 0, s_1 = 0\<rparr> = Inr (([1, 1], [1]), \<lparr>s_0 = 0, s_1 = 0\<rparr>)
   \<and> device_power 1"
proof -
  have "unat (2 :: u64) = Suc (Suc 0)" by simp
  moreover have "unsigned_loop 2 f = repeat_res (unat (2 :: u64)) f" for f :: "powers \<Rightarrow> powers res"
    by (rule unsigned_loop_ok) simp
  ultimately have two: "unsigned_loop 2 f = repeat_res (Suc (Suc 0)) f" for f :: "powers \<Rightarrow> powers res"
    by (simp only:)
  have run: "get_hashpower 1 (\<lambda>xs g. (xs, g)) 2 1 (1 / 3) \<lparr>s_0 = 0, s_1 = 0\<rparr> = Inr (([1, 1], [1]), \<lparr>s_0 = 0, s_1 = 0\<rparr>)"
    by (simp add: get_hashpower_def two unsigned_loop_ok add_selfish_def add_honest_def get_one_zero shuffled_def
        too_low_def too_high_def all_power_def)
  show ?thesis using get_hashpower_correct [OF _ _ _ _ _ run] run by simp
qed

text \<open>Without honest miners and with a share that leaves more than a percent to them, the
  selfish power is always too high: \<open>get_hashpower\<close> goes on until a draw makes it take the
  smallest of no honest powers, and never returns an answer.\<close>

theorem get_hashpower_no_honest:
  assumes "0 < ns" "unat ns < 2 ^ 32" "share + 1 / 100 < 1"
  shows "get_hashpower fuel shuffle 0 ns share g = Inl (UB ''element of an empty multiset'')
    \<or> get_hashpower fuel shuffle 0 ns share g = Inl No_Return"
proof -
  obtain p where p: "powers_ok (unat ns) 0 p"
    and run: "\<forall>fuel shuffle share. get_hashpower fuel shuffle 0 ns share g =
      (if share \<noteq> 0 \<and> ns = 0 then Inl (Runtime_Error ''Invalid selfish_percent!'')
       else bind_res (adjust fuel share p) (\<lambda>p. Inr (shuffled shuffle p)))"
    using drawn_powers [of 0 ns g] assms(2) by (auto simp del: split_paired_All)
  have "0 < unat ns" "ns \<noteq> 0" using assms(1) by (auto simp: word_less_nat_alt)
  then show ?thesis using adjust_no_honest [OF p _ assms(2,3), of fuel] run by auto
qed

theorem get_hashpower_no_honest_witness:
  "get_hashpower 3 (\<lambda>xs g. (xs, g)) 0 1 (1 / 2) \<lparr>s_0 = 0, s_1 = 0\<rparr> = Inl (UB ''element of an empty multiset'')
   \<or> get_hashpower 3 (\<lambda>xs g. (xs, g)) 0 1 (1 / 2) \<lparr>s_0 = 0, s_1 = 0\<rparr> = Inl No_Return"
  by (rule get_hashpower_no_honest) simp_all

end
