(* ===== verification/Miner_Chooser.thy ===== *)
theory Miner_Chooser
  imports Graph_Gen "HOL-Library.Product_Lexorder"
begin

text \<open>
  Which nodes are miners (\<open>examples/tinycoin/miner_chooser.hpp\<close>): at random, or those with the
  most edges. The result is a pair of sets. \<open>exit(-1)\<close> is \<open>Exit\<close>. The sizes are \<open>int\<close>s of the
  code, converted to 64 bits where the generator takes them.
\<close>

section \<open>The program\<close>

definition add_degree :: "u64 \<Rightarrow> (u64 \<times> u64) list \<Rightarrow> (u64 \<times> u64) list res" where
  "add_degree v degree =
     bind_res (vec_get degree (unat v)) (\<lambda>(d, i). Inr (degree[unat v := (d + 1, i)]))"

definition degrees :: "int \<Rightarrow> edge list \<Rightarrow> (u64 \<times> u64) list res" where
  "degrees N edges =
     (if N < 0 then Inl (Runtime_Error ''vector'')
      else bind_res (fold_res (\<lambda>e degree. bind_res (add_degree (fst e) degree) (add_degree (snd e)))
             edges (replicate (nat N) (0, 0))) (\<lambda>degree.
           Inr (map (\<lambda>(p, i). (fst p, of_nat i)) (zip degree [0..<nat N]))))"

text \<open>\<open>std::sort\<close> with \<open>std::greater\<close>; the second components differ, so the order is total.\<close>

definition by_degree :: "(u64 \<times> u64) list \<Rightarrow> (u64 \<times> u64) list" where
  "by_degree degree = rev (sort degree)"

definition choose_selfish ::
    "xoroshiro \<Rightarrow> int \<Rightarrow> int \<Rightarrow> edge list \<Rightarrow> string \<Rightarrow> (u64 list \<times> xoroshiro) res" where
  "choose_selfish g N num_selfish edges algo =
     (if algo = ''random'' then get_distinct_upto g (of_int num_selfish) (of_int N) []
      else if algo = ''highdegree'' then
        bind_res (degrees N edges) (\<lambda>degree0.
        let degree = by_degree degree0 in
        bind_res (fold_res (\<lambda>i selfish. bind_res (vec_get degree i) (\<lambda>d. Inr (selfish @ [snd d])))
          [0..<nat num_selfish] []) (\<lambda>selfish. Inr (selfish, g)))
      else Inl (Exit (- 1)))"

definition choose_miners ::
    "xoroshiro \<Rightarrow> int \<Rightarrow> int \<Rightarrow> int \<Rightarrow> edge list \<Rightarrow> string \<Rightarrow> ((u64 set \<times> u64 set) \<times> xoroshiro) res" where
  "choose_miners g N num_honest num_selfish edges algo =
     bind_res (choose_selfish g N num_selfish edges algo) (\<lambda>(selfish, g1).
     bind_res (get_distinct_upto g1 (of_int num_honest) (of_int N) selfish) (\<lambda>(honest, g2).
     Inr ((set honest, set selfish), g2)))"

section \<open>Random miners\<close>

lemma unat_int: "0 \<le> z \<Longrightarrow> z < 2 ^ 31 \<Longrightarrow> unat (of_int z :: u64) = nat z"
  by (rule unat_of_int_u64) simp_all

lemma honest_chosen:
  assumes "sorted selfish" "0 \<le> num_honest" "num_honest + int (length selfish) < N" "N < 2 ^ 31"
  shows "\<exists>honest g'. get_distinct_upto g (of_int num_honest) (of_int N) selfish = Inr (honest, g')
    \<and> card (set honest) = nat num_honest \<and> set honest \<inter> set selfish = {} \<and> (\<forall>x \<in> set honest. unat x < nat N)"
proof -
  have n: "unat (of_int num_honest :: u64) = nat num_honest" "unat (of_int N :: u64) = nat N"
    using assms by (intro unat_int; simp)+
  have "unat (of_int num_honest :: u64) + unat (0 :: u64) + length selfish < unat (of_int N :: u64)"
    using assms n by simp
  from get_distinct_returns [OF assms(1) this, of g] obtain ans g' where
    ans: "get_distinct g (of_int num_honest) 0 (of_int N) selfish = Inr (ans, g')" "length ans = nat num_honest"
      "sorted_wrt (<) ans" "set ans \<inter> set selfish = {}" "\<forall>x \<in> set ans. x < of_int N"
    by (auto simp: n)
  have "card (set ans) = nat num_honest" using ans(2,3) by (simp add: strict_sorted_iff distinct_card)
  moreover have "\<forall>x \<in> set ans. unat x < nat N" using ans(5) n by (simp add: word_less_nat_alt)
  ultimately show ?thesis using ans(1,4) by (auto simp: get_distinct_upto_def)
qed

lemma choose_random_returns:
  assumes "0 \<le> num_honest" "0 \<le> num_selfish" "num_honest + num_selfish < N" "N < 2 ^ 31"
  shows "\<exists>honest selfish g'. choose_miners g N num_honest num_selfish edges ''random'' = Inr ((honest, selfish), g')
    \<and> card honest = nat num_honest \<and> card selfish = nat num_selfish \<and> honest \<inter> selfish = {}
    \<and> (\<forall>x \<in> honest \<union> selfish. unat x < nat N)"
proof -
  have n: "unat (of_int num_selfish :: u64) = nat num_selfish" "unat (of_int N :: u64) = nat N"
    using assms by (intro unat_int; simp)+
  have "unat (of_int num_selfish :: u64) + unat (0 :: u64) + length ([] :: u64 list) < unat (of_int N :: u64)"
    using assms n by simp
  from get_distinct_returns [OF _ this, of g] obtain selfish g1 where
    s: "get_distinct g (of_int num_selfish) 0 (of_int N) [] = Inr (selfish, g1)" "length selfish = nat num_selfish"
      "sorted_wrt (<) selfish" "\<forall>x \<in> set selfish. x < of_int N"
    by (auto simp: n)
  have "sorted selfish" "card (set selfish) = nat num_selfish"
    using s(2,3) by (simp_all add: strict_sorted_iff distinct_card)
  moreover have "\<forall>x \<in> set selfish. unat x < nat N" using s(4) n by (simp add: word_less_nat_alt)
  moreover have "num_honest + int (length selfish) < N" using assms s(2) by simp
  moreover note honest_chosen [OF \<open>sorted selfish\<close> assms(1) this assms(4), of g1]
  ultimately show ?thesis using s(1) by (auto simp: choose_miners_def choose_selfish_def get_distinct_upto_def)
qed

text \<open>C39: with room for them, the random choice gives as many honest and as many selfish miners as
  asked for, all of them nodes, and no node is both.\<close>

theorem choose_random_correct:
  assumes "0 \<le> num_honest" "0 \<le> num_selfish" "num_honest + num_selfish < N" "N < 2 ^ 31"
  shows "\<exists>honest selfish g'. choose_miners g N num_honest num_selfish edges ''random'' = Inr ((honest, selfish), g')
    \<and> card honest = nat num_honest \<and> card selfish = nat num_selfish \<and> honest \<inter> selfish = {}
    \<and> (\<forall>x \<in> honest \<union> selfish. unat x < nat N)"
  by (rule choose_random_returns [OF assms])

theorem choose_random_correct_witness:
  "\<exists>honest selfish g'. choose_miners \<lparr>s_0 = 7, s_1 = 9\<rparr> 10 4 3 [] ''random'' = Inr ((honest, selfish), g')
    \<and> card honest = nat 4 \<and> card selfish = nat 3 \<and> honest \<inter> selfish = {} \<and> (\<forall>x \<in> honest \<union> selfish. unat x < nat 10)"
  by (rule choose_random_correct) simp_all

section \<open>Miners of high degree\<close>

lemma example_degrees:
  "degrees 5 [(3, 0), (3, 1), (3, 2), (1, 4)] = Inr [(1, 0), (2, 1), (1, 2), (3, 3), (1, 4)]"
proof -
  have "replicate 5 (0 :: u64, 0 :: u64) = [(0, 0), (0, 0), (0, 0), (0, 0), (0, 0)]" by (simp add: eval_nat_numeral)
  moreover have "[0..<5] = [0, 1, 2, 3, 4 :: nat]" by (simp add: upt_rec)
  ultimately show ?thesis by (simp add: degrees_def add_degree_def)
qed

text \<open>The selfish miners of highest degree are handed to \<open>get_distinct\<close> in the order of their
  degrees, but it skips excluded numbers rightly only when they are sorted: in this network
  nodes 3 and 1 are the selfish ones, and the honest miner that is drawn is node 1 again.\<close>

theorem highdegree_overlaps:
  "choose_miners \<lparr>s_0 = 1, s_1 = 0\<rparr> 5 1 2 [(3, 0), (3, 1), (3, 2), (1, 4)] ''highdegree''
    = Inr (({1}, {1, 3}), snd (rng_next \<lparr>s_0 = 1, s_1 = 0\<rparr>))"
proof -
  have small: "\<not> (3 :: u64) \<le> 1" "\<not> (2 :: u64) \<le> 1" by (simp_all add: word_le_nat_alt)
  have "[0..<2] = [0, 1 :: nat]" by (simp add: upt_rec)
  then have "choose_selfish \<lparr>s_0 = 1, s_1 = 0\<rparr> 5 2 [(3, 0), (3, 1), (3, 2), (1, 4)] ''highdegree''
      = Inr ([3, 1], \<lparr>s_0 = 1, s_1 = 0\<rparr>)"
    by (simp add: choose_selfish_def example_degrees by_degree_def small)
  moreover have "get_distinct_upto \<lparr>s_0 = 1, s_1 = 0\<rparr> 1 5 [3, 1] = Inr ([1], snd (rng_next \<lparr>s_0 = 1, s_1 = 0\<rparr>))"
    by (simp add: get_distinct_upto_def get_distinct_def rng_range_def split_beta
        skip_shifted.simps [of "[3, 1]"] rng_next_def Let_def small)
  ultimately show ?thesis by (auto simp: choose_miners_def)
qed

section \<open>No room\<close>

text \<open>When honest and selfish miners together are to be all the nodes, the honest ones are all the
  nodes, the selfish ones too.\<close>

lemma all_nodes_honest:
  assumes "0 \<le> num_honest" "0 \<le> num_selfish" "num_selfish < N" "N \<le> num_honest + num_selfish" "N < 2 ^ 31"
    and "num_honest < 2 ^ 31"
  shows "\<exists>selfish g'. choose_miners g N num_honest num_selfish edges ''random''
      = Inr ((of_nat ` {0..<nat N}, selfish), g') \<and> card selfish = nat num_selfish \<and> selfish \<subseteq> of_nat ` {0..<nat N}"
proof -
  have n: "unat (of_int num_selfish :: u64) = nat num_selfish" "unat (of_int N :: u64) = nat N"
    "unat (of_int num_honest :: u64) = nat num_honest"
    using assms by (intro unat_int; simp)+
  have "unat (of_int num_selfish :: u64) + unat (0 :: u64) + length ([] :: u64 list) < unat (of_int N :: u64)"
    using assms n by simp
  from get_distinct_returns [OF _ this, of g] obtain selfish g1 where
    s: "get_distinct g (of_int num_selfish) 0 (of_int N) [] = Inr (selfish, g1)" "length selfish = nat num_selfish"
      "sorted_wrt (<) selfish" "\<forall>x \<in> set selfish. x < of_int N"
    by (auto simp: n)
  have len: "unat (of_nat (length selfish) :: u64) = nat num_selfish"
    using assms s(2) by (subst unat_of_nat_u64) simp_all
  have "unat (of_int num_honest + (0 :: u64) + of_nat (length selfish)) = nat num_honest + nat num_selfish"
    using assms n len by (subst unat_add_no_wrap) simp_all
  then have "(of_int N :: u64) \<le> of_int num_honest + 0 + of_nat (length selfish)"
    using assms n by (simp add: word_le_nat_alt)
  from get_distinct_full [OF this, of g1] have
    h: "get_distinct g1 (of_int num_honest) 0 (of_int N) selfish = Inr (map of_nat [0..<nat N], g1)" by (simp add: n)
  have "x \<in> of_nat ` {0..<nat N}" if "x \<in> set selfish" for x
    using s(4) that n by (intro image_eqI [of _ _ "unat x"]) (simp_all add: word_less_nat_alt)
  then show ?thesis using s h
    by (simp add: choose_miners_def choose_selfish_def get_distinct_upto_def strict_sorted_iff distinct_card)
      auto
qed

end
