(* ===== verification/Statistics.thy ===== *)
theory Statistics
  imports Tinycoin_Chain
begin

text \<open>
  What \<open>examples/tinycoin/main.cpp\<close> reads off the blockchain of node 0 at the end: who mined the
  blocks of the main chain, and where the tree splits. The counters are vectors with one entry
  per position of the blockchain; every access can leave them.
\<close>

section \<open>The program\<close>

text \<open>\<open>for (; head != 0; head = blockchain[head].parent) main_chain[head] = true\<close>.\<close>

primrec mark_chain :: "nat \<Rightarrow> block list \<Rightarrow> u64 \<Rightarrow> bool list \<Rightarrow> bool list res" where
  "mark_chain 0 bc h main = Inl No_Return"
| "mark_chain (Suc fuel) bc h main =
     (if h = 0 then Inr main
      else if unat h < length main then
        bind_res (vec_get bc (unat h)) (\<lambda>b. mark_chain fuel bc (parent b) (main[unat h := True]))
      else Inl (UB ''vector index''))"

record split_stats =
  split_num :: "u64 list"
  split_len :: "u64 list"
  honest_blocks :: u64
  selfish_blocks :: u64
  total_splits :: u64
  max_split_len :: u64

definition stats_new :: "nat \<Rightarrow> split_stats" where
  "stats_new n = \<lparr>split_num = replicate n 0, split_len = replicate n 0, honest_blocks = 0,
     selfish_blocks = 0, total_splits = 0, max_split_len = 0\<rparr>"

definition count_owner :: "u64 set \<Rightarrow> u64 set \<Rightarrow> bool list \<Rightarrow> block \<Rightarrow> split_stats \<Rightarrow> split_stats res" where
  "count_owner honest selfish main blk st =
     (let i = unat (blk_id blk) in
      if miner blk \<in> honest then
        bind_res (vec_get main i) (\<lambda>on_main.
        if on_main then Inr (st\<lparr>honest_blocks := honest_blocks st + 1\<rparr>)
        else if miner blk \<in> selfish then
          bind_res (vec_get main i) (\<lambda>on_main.
          Inr (if on_main then st\<lparr>selfish_blocks := selfish_blocks st + 1\<rparr> else st))
        else Inr st)
      else if miner blk \<in> selfish then
        bind_res (vec_get main i) (\<lambda>on_main.
        Inr (if on_main then st\<lparr>selfish_blocks := selfish_blocks st + 1\<rparr> else st))
      else Inr st)"

definition set_len :: "nat \<Rightarrow> u64 \<Rightarrow> split_stats \<Rightarrow> split_stats res" where
  "set_len i l st =
     (if i < length (split_len st)
      then Inr (st\<lparr>split_len := (split_len st)[i := l],
                   max_split_len := (if max_split_len st < l then l else max_split_len st)\<rparr>)
      else Inl (UB ''vector index''))"

definition count_split :: "bool list \<Rightarrow> block \<Rightarrow> split_stats \<Rightarrow> split_stats res" where
  "count_split main blk st =
     (let i = unat (blk_id blk); p = unat (parent blk) in
      bind_res (vec_get (split_num st) p) (\<lambda>n.
      bind_res (if n \<noteq> 0 then map_sum id Not (vec_get main i) else Inr False) (\<lambda>sibling.
      bind_res (if sibling then Inr True
                else bind_res (vec_get main p) (\<lambda>m. if m then map_sum id Not (vec_get main i) else Inr False)) (\<lambda>split.
      bind_res (if split then bind_res (set_len i 1 (st\<lparr>total_splits := total_splits st + 1\<rparr>)) Inr else Inr st) (\<lambda>st.
      let st = st\<lparr>split_num := (split_num st)[p := n + 1]\<rparr> in
      bind_res (vec_get (split_len st) p) (\<lambda>l. if l \<noteq> 0 then set_len i (l + 1) st else Inr st))))))"

definition count_block :: "u64 set \<Rightarrow> u64 set \<Rightarrow> bool list \<Rightarrow> block \<Rightarrow> split_stats \<Rightarrow> split_stats res" where
  "count_block honest selfish main blk st =
     (if blk_id blk = 0 \<or> blk_id blk = no_id then Inr st
      else bind_res (count_owner honest selfish main blk st) (count_split main blk))"

definition statistics :: "nat \<Rightarrow> u64 set \<Rightarrow> u64 set \<Rightarrow> block list \<Rightarrow> u64 \<Rightarrow> split_stats res" where
  "statistics fuel honest selfish bc h =
     bind_res (mark_chain fuel bc h (replicate (length bc) False)) (\<lambda>main.
     fold_res (count_block honest selfish main) bc (stats_new (length bc)))"

section \<open>The main chain\<close>

lemma mark_chain_spec:
  assumes "tree_ok bc ls" "length main = length bc" "known bc (unat h)" "unat h < fuel"
  shows "\<exists>main'. mark_chain fuel bc h main = Inr main' \<and> length main' = length bc
    \<and> (\<forall>i < length bc. main' ! i \<longleftrightarrow> main ! i \<or> i \<in> set (chain bc (unat h)))"
  using assms(2-)
proof (induction fuel arbitrary: h main)
  case (Suc fuel)
  show ?case
  proof (cases "h = 0")
    case False
    then have pos: "0 < unat h" by (simp add: unat_gt_0)
    let ?p = "parent (bc ! unat h)"
    note k = tree_okD [OF assms(1) Suc.prems(2) pos]
    have len: "unat h < length bc" using Suc.prems(2) by (simp add: known_def)
    obtain main' where m: "mark_chain fuel bc ?p (main[unat h := True]) = Inr main'" "length main' = length bc"
      "\<And>i. i < length bc \<Longrightarrow> main' ! i \<longleftrightarrow> main[unat h := True] ! i \<or> i \<in> set (chain bc (unat ?p))"
      using Suc.IH [of "main[unat h := True]" ?p] Suc.prems k by auto
    have "chain bc (unat h) = unat h # chain bc (unat ?p)" using pos k(2) by (simp add: chain.simps [of bc "unat h"])
    then show ?thesis using m len Suc.prems(1) False
      by (intro exI [of _ main']) (auto simp: nth_list_update)
  qed (use Suc.prems in auto)
qed simp

section \<open>What the statistics are\<close>

text \<open>
  The positions below \<open>n\<close> of blocks on the main chain that a set of nodes mined; how many blocks a
  block is away from the main chain; and the blocks where a branch starts: they are off the main
  chain, and their parent is on it, or is the genesis block, or has an earlier child.
\<close>

definition mined_by :: "u64 set \<Rightarrow> block list \<Rightarrow> u64 \<Rightarrow> nat \<Rightarrow> nat set" where
  "mined_by ms bc h n = {k \<in> set (chain bc (unat h)). k < n \<and> miner (bc ! k) \<in> ms}"

definition branch_depth :: "block list \<Rightarrow> u64 \<Rightarrow> nat \<Rightarrow> nat" where
  "branch_depth bc h k = length (filter (\<lambda>j. j \<notin> set (chain bc (unat h))) (chain bc k))"

definition starts_branch :: "block list \<Rightarrow> u64 \<Rightarrow> nat \<Rightarrow> bool" where
  "starts_branch bc h k \<longleftrightarrow> known bc k \<and> 0 < k \<and> k \<notin> set (chain bc (unat h)) \<and>
     (let p = unat (parent (bc ! k)) in
      p = 0 \<or> p \<in> set (chain bc (unat h)) \<or> (\<exists>j < k. 0 < j \<and> known bc j \<and> unat (parent (bc ! j)) = p))"

text \<open>A blockchain as node 0 hands it over when no block waits for its parent.\<close>

definition settled :: "block list \<Rightarrow> bool" where
  "settled bc \<longleftrightarrow> blk_id (bc ! 0) \<noteq> 0 \<and> parent (bc ! 0) = 0 \<and> miner (bc ! 0) = - 1
     \<and> (\<forall>k < length bc. blk_id (bc ! k) \<noteq> pending_id)"

lemma mined_by_Suc:
  "mined_by ms bc h (Suc n) = (if n \<in> set (chain bc (unat h)) \<and> miner (bc ! n) \<in> ms
     then insert n (mined_by ms bc h n) else mined_by ms bc h n)"
  by (auto simp: mined_by_def less_Suc_eq)

lemma mined_by_finite: "finite (mined_by ms bc h n)" "n \<notin> mined_by ms bc h n"
  by (simp_all add: mined_by_def)

lemma chain_pos: "k \<in> set (chain bc n) \<Longrightarrow> 0 < k"
proof (induction n rule: less_induct)
  case (less n)
  then show ?case
    by (cases "unat (parent (bc ! n)) < n"; cases "n = 0") (auto simp: chain.simps [of bc n])
qed

lemma chain_closed:
  "tree_ok bc ls \<Longrightarrow> known bc n \<Longrightarrow> k \<in> set (chain bc n) \<Longrightarrow> set (chain bc k) \<subseteq> set (chain bc n)"
proof (induction n rule: less_induct)
  case (less n)
  show ?case
  proof (cases "k = n")
    case False
    have pos: "0 < n" using less.prems(3) by (cases n) auto
    note t = tree_okD [OF less.prems(1,2) pos]
    have "chain bc n = n # chain bc (unat (parent (bc ! n)))" using pos t(2) by (simp add: chain.simps [of bc n])
    then show ?thesis using less.IH [OF t(2) less.prems(1) t(3)] less.prems(3) False by auto
  qed simp
qed

lemma branch_depth_on: "tree_ok bc ls \<Longrightarrow> known bc (unat h) \<Longrightarrow> k \<in> set (chain bc (unat h)) \<Longrightarrow> branch_depth bc h k = 0"
  using chain_closed [of bc ls "unat h" k] by (auto simp: branch_depth_def filter_empty_conv)

lemma branch_depth_0 [simp]: "branch_depth bc h 0 = 0"
  by (simp add: branch_depth_def)

lemma branch_depth_off:
  assumes "tree_ok bc ls" "known bc k" "0 < k" "k \<notin> set (chain bc (unat h))"
  shows "branch_depth bc h k = Suc (branch_depth bc h (unat (parent (bc ! k))))"
  using tree_okD [OF assms(1-3)] assms(3,4) by (simp add: branch_depth_def chain.simps [of bc k])

lemma branch_depth_le: "branch_depth bc h k \<le> k"
  unfolding branch_depth_def using chain_length [of bc k] length_filter_le le_trans by blast

section \<open>Counting\<close>

definition sized :: "nat \<Rightarrow> split_stats \<Rightarrow> bool" where
  "sized n st \<longleftrightarrow> length (split_num st) = n \<and> length (split_len st) = n"

text \<open>What one block adds, when its indices are in range and it is not its own parent.\<close>

definition split_entry :: "bool list \<Rightarrow> nat \<Rightarrow> nat \<Rightarrow> split_stats \<Rightarrow> bool" where
  "split_entry main i p st \<longleftrightarrow> \<not> main ! i \<and> (split_num st ! p \<noteq> 0 \<or> main ! p)"

lemma set_len_run:
  "i < length (split_len st) \<Longrightarrow> set_len i l st
    = Inr (st\<lparr>split_len := (split_len st)[i := l], max_split_len := max (max_split_len st) l\<rparr>)"
  by (auto simp: set_len_def max_def)

lemma count_split_run:
  assumes "sized n st" "length main = n" "unat (blk_id blk) = i" "unat (parent blk) = p" "i < n" "p < n" "i \<noteq> p"
    "\<not> main ! i \<Longrightarrow> split_len st ! p = 0 \<Longrightarrow> split_num st ! p \<noteq> 0 \<or> main ! p"
    "main ! i \<Longrightarrow> split_len st ! p = 0" "split_len st ! p + 1 \<noteq> 0"
  shows "count_split main blk st = Inr (st\<lparr>
    split_num := (split_num st)[p := split_num st ! p + 1],
    split_len := (if main ! i then split_len st else (split_len st)[i := split_len st ! p + 1]),
    total_splits := (if split_entry main i p st then total_splits st + 1 else total_splits st),
    max_split_len := (if main ! i then max_split_len st else max (max_split_len st) (split_len st ! p + 1))\<rparr>)"
proof -
  have lens: "p < length (split_num st)" "p < length (split_len st)" "i < length (split_len st)"
    "p < length main" "i < length main" using assms(1,2,5,6) by (simp_all add: sized_def)
  have above: "1 \<le> split_len st ! p + 1" using assms(10) by (simp add: word_le_nat_alt unat_gt_0 Suc_le_eq)
  have one_first: "max (max m 1) (split_len st ! p + 1) = max m (split_len st ! p + 1)" for m
    using above by (simp add: max.assoc max_absorb2)
  show ?thesis
  proof (cases "main ! i")
    case True
    then show ?thesis using lens assms(3,4,9)
      by (simp add: count_split_def Let_def split_entry_def)
  next
    case off: False
    show ?thesis
    proof (cases "split_entry main i p st")
      case True
      let ?st1 = "st\<lparr>total_splits := total_splits st + 1, split_len := (split_len st)[i := 1],
        max_split_len := max (max_split_len st) 1\<rparr>"
      let ?st2 = "?st1\<lparr>split_num := (split_num st)[p := split_num st ! p + 1]\<rparr>"
      have "split_num st ! p \<noteq> 0 \<or> main ! p" using True by (simp add: split_entry_def)
      then have "count_split main blk st = (if split_len st ! p \<noteq> 0 then set_len i (split_len st ! p + 1) ?st2 else Inr ?st2)"
        using lens off assms(3,4,7) by (cases "split_num st ! p = 0") (simp_all add: count_split_def Let_def set_len_run)
      then show ?thesis using True lens off one_first [of "max_split_len st"]
        by (cases "split_len st ! p = 0") (simp_all add: set_len_run)
    next
      case False
      then have "split_num st ! p = 0" "\<not> main ! p" "split_len st ! p \<noteq> 0"
        using off assms(8) by (auto simp: split_entry_def)
      then show ?thesis using False lens off assms(3,4) by (simp add: count_split_def Let_def set_len_run)
    qed
  qed
qed

text \<open>What the counters hold when the blocks below position \<open>n\<close> have been counted.\<close>

definition counted_to :: "u64 set \<Rightarrow> u64 set \<Rightarrow> block list \<Rightarrow> u64 \<Rightarrow> nat \<Rightarrow> split_stats \<Rightarrow> bool" where
  "counted_to hs ss bc h n st \<longleftrightarrow> sized (length bc) st
     \<and> honest_blocks st = of_nat (card (mined_by hs bc h n))
     \<and> selfish_blocks st = of_nat (card (mined_by (ss - hs) bc h n))
     \<and> total_splits st = of_nat (card {k. k < n \<and> starts_branch bc h k})
     \<and> (\<forall>p < length bc. unat (split_num st ! p) \<le> n
          \<and> (split_num st ! p \<noteq> 0 \<longleftrightarrow> (\<exists>j < n. known bc j \<and> unat (parent (bc ! j)) = p)))
     \<and> (\<forall>k < length bc. unat (split_len st ! k) = (if k < n \<and> known bc k then branch_depth bc h k else 0))
     \<and> (\<forall>k < n. known bc k \<longrightarrow> branch_depth bc h k \<le> unat (max_split_len st))
     \<and> (max_split_len st = 0 \<or> (\<exists>k < n. known bc k \<and> branch_depth bc h k = unat (max_split_len st)))"

lemma counted_toD:
  assumes "counted_to hs ss bc h n st"
  shows "sized (length bc) st" "honest_blocks st = of_nat (card (mined_by hs bc h n))"
    "selfish_blocks st = of_nat (card (mined_by (ss - hs) bc h n))"
    "total_splits st = of_nat (card {k. k < n \<and> starts_branch bc h k})"
    "p < length bc \<Longrightarrow> unat (split_num st ! p) \<le> n"
    "p < length bc \<Longrightarrow> split_num st ! p \<noteq> 0 \<longleftrightarrow> (\<exists>j < n. known bc j \<and> unat (parent (bc ! j)) = p)"
    "k < length bc \<Longrightarrow> unat (split_len st ! k) = (if k < n \<and> known bc k then branch_depth bc h k else 0)"
    "k < n \<Longrightarrow> known bc k \<Longrightarrow> branch_depth bc h k \<le> unat (max_split_len st)"
    "max_split_len st = 0 \<or> (\<exists>k < n. known bc k \<and> branch_depth bc h k = unat (max_split_len st))"
  using assms unfolding counted_to_def by blast+

lemma counted_to_0: "counted_to hs ss bc h 0 (stats_new (length bc))"
  by (auto simp: counted_to_def stats_new_def sized_def mined_by_def)

lemma card_Suc_if:
  "card {k. k < Suc n \<and> P k} = (if P n then Suc (card {k. k < n \<and> P k}) else card {k. k < n \<and> P k})"
proof -
  have "{k. k < Suc n \<and> P k} = (if P n then insert n {k. k < n \<and> P k} else {k. k < n \<and> P k})"
    by (auto simp: less_Suc_eq)
  then show ?thesis by simp
qed

lemma card_mined_Suc:
  "card (mined_by ms bc h (Suc n)) = (if n \<in> set (chain bc (unat h)) \<and> miner (bc ! n) \<in> ms
     then Suc (card (mined_by ms bc h n)) else card (mined_by ms bc h n))"
  using mined_by_finite(1) [of ms bc h n] mined_by_finite(2) [of n ms bc h] by (simp add: mined_by_Suc)

lemma count_owner_run:
  assumes "unat (blk_id blk) < length main"
  shows "count_owner hs ss main blk st = Inr (
    if main ! unat (blk_id blk) \<and> miner blk \<in> hs then st\<lparr>honest_blocks := honest_blocks st + 1\<rparr>
    else if main ! unat (blk_id blk) \<and> miner blk \<in> ss then st\<lparr>selfish_blocks := selfish_blocks st + 1\<rparr> else st)"
  using assms by (simp add: count_owner_def Let_def)

lemma chain_known: "tree_ok bc ls \<Longrightarrow> known bc n \<Longrightarrow> k \<in> set (chain bc n) \<Longrightarrow> known bc k"
proof (induction n rule: less_induct)
  case (less n)
  show ?case
  proof (cases "k = n")
    case False
    have pos: "0 < n" using less.prems(3) by (cases n) auto
    note t = tree_okD [OF less.prems(1,2) pos]
    have "chain bc n = n # chain bc (unat (parent (bc ! n)))" using pos t(2) by (simp add: chain.simps [of bc n])
    then show ?thesis using less.IH [OF t(2) less.prems(1) t(3)] less.prems(3) False by auto
  qed (use less.prems in simp)
qed

lemma counted_skip:
  assumes "tree_ok bc ls" "known bc (unat h)" "counted_to hs ss bc h n st" "\<not> known bc n"
  shows "counted_to hs ss bc h (Suc n) st"
proof -
  have off: "n \<notin> set (chain bc (unat h))" using chain_known assms by blast
  have nostart: "\<not> starts_branch bc h n" using assms(4) by (simp add: starts_branch_def)
  note c = counted_toD [OF assms(3)]
  have Suc_known: "(\<exists>j < Suc n. known bc j \<and> P j) \<longleftrightarrow> (\<exists>j < n. known bc j \<and> P j)" for P
    using assms(4) by (auto simp: less_Suc_eq)
  have less: "k < Suc n \<and> known bc k \<longleftrightarrow> k < n \<and> known bc k" for k
    using assms(4) by (auto simp: less_Suc_eq)
  have starts: "k < Suc n \<and> starts_branch bc h k \<longleftrightarrow> k < n \<and> starts_branch bc h k" for k
    using nostart by (auto simp: less_Suc_eq)
  show ?thesis
    unfolding counted_to_def Suc_known less starts
    using c(1-4) off c(5,6,7,9)
    by (auto simp: card_mined_Suc less_Suc_eq le_Suc_eq intro: c(8) dest: assms(4) [THEN notE])
qed

lemma count_genesis:
  assumes "settled bc" "known bc 0" "- 1 \<notin> hs \<union> ss" "counted_to hs ss bc h 0 st"
    "length main = length bc" "\<not> main ! 0"
  shows "\<exists>st'. count_block hs ss main (bc ! 0) st = Inr st' \<and> counted_to hs ss bc h (Suc 0) st'"
proof -
  note c = counted_toD [OF assms(4)]
  have len: "0 < length bc" using assms(2) known_less by blast
  have sz: "length (split_num st) = length bc" "length (split_len st) = length bc" using c(1) by (simp_all add: sized_def)
  have zero: "split_num st ! 0 = 0" "split_len st ! 0 = 0"
    using c(6) [OF len] c(7) [OF len] by (simp_all add: unsigned_eq_0_iff)
  have real_id: "blk_id (bc ! 0) \<noteq> no_id" "blk_id (bc ! 0) \<noteq> 0" using assms(1,2) by (simp_all add: settled_def known_def)
  have gen: "parent (bc ! 0) = 0" "miner (bc ! 0) \<notin> hs" "miner (bc ! 0) \<notin> ss"
    using assms(1,3) by (simp_all add: settled_def)
  let ?st = "st\<lparr>split_num := (split_num st)[0 := 1]\<rparr>"
  have run: "count_block hs ss main (bc ! 0) st = Inr ?st"
    using real_id gen zero len sz assms(5,6)
    by (simp add: count_block_def count_owner_def count_split_def Let_def)
  have "counted_to hs ss bc h (Suc 0) ?st"
    unfolding counted_to_def
  proof (intro conjI)
    show "\<forall>p < length bc. unat (split_num ?st ! p) \<le> Suc 0
        \<and> (split_num ?st ! p \<noteq> 0 \<longleftrightarrow> (\<exists>j < Suc 0. known bc j \<and> unat (parent (bc ! j)) = p))"
      using sz len gen assms(2) c(5,6) by (auto simp: nth_list_update less_Suc_eq)
    show "\<forall>k < length bc. unat (split_len ?st ! k) = (if k < Suc 0 \<and> known bc k then branch_depth bc h k else 0)"
      using c(7) by auto
    show "\<forall>k < Suc 0. known bc k \<longrightarrow> branch_depth bc h k \<le> unat (max_split_len ?st)" by simp
    show "max_split_len ?st = 0 \<or> (\<exists>k < Suc 0. known bc k \<and> branch_depth bc h k = unat (max_split_len ?st))"
      using c(9) by simp
    have notin: "0 \<notin> set (chain bc (unat h))" using chain_pos by blast
    have "\<not> starts_branch bc h 0" by (simp add: starts_branch_def)
    then have none: "{k. k < Suc 0 \<and> starts_branch bc h k} = {k. k < 0 \<and> starts_branch bc h k}"
      by (auto simp: less_Suc_eq)
    show "total_splits ?st = of_nat (card {k. k < Suc 0 \<and> starts_branch bc h k})"
      unfolding none using c(4) by simp
    show "honest_blocks ?st = of_nat (card (mined_by hs bc h (Suc 0)))"
      "selfish_blocks ?st = of_nat (card (mined_by (ss - hs) bc h (Suc 0)))"
      using c(2,3) notin by (simp_all add: card_mined_Suc)
    show "sized (length bc) ?st" using c(1) by (simp add: sized_def)
  qed
  then show ?thesis using run by blast
qed

lemma count_known:
  assumes tree: "tree_ok bc ls" "known bc (unat h)" and bc: "settled bc" "known bc n" "0 < n"
    and c0: "counted_to hs ss bc h n st"
    and main: "length main = length bc" "\<And>i. i < length bc \<Longrightarrow> main ! i \<longleftrightarrow> i \<in> set (chain bc (unat h))"
  shows "\<exists>st'. count_block hs ss main (bc ! n) st = Inr st' \<and> counted_to hs ss bc h (Suc n) st'"
proof -
  note c = counted_toD [OF c0]
  note t = tree_okD [OF tree(1) bc(2,3)]
  let ?p = "unat (parent (bc ! n))" and ?M = "set (chain bc (unat h))" and ?d = "branch_depth bc h"
  let ?len = "length bc"
  have len: "n < ?len" "?p < ?len" using t(2) known_less [OF bc(2)] by simp_all
  have small: "?len < 2 ^ 64" using tree(1) by (simp add: tree_ok_def)
  have k0: "known bc 0" using tree(1) by (simp add: tree_ok_def)
  have ids: "blk_id (bc ! n) \<noteq> 0" "blk_id (bc ! n) \<noteq> no_id" using t(1) bc(2,3) by (auto simp: known_def)
  have mn: "main ! n \<longleftrightarrow> n \<in> ?M" "main ! ?p \<longleftrightarrow> ?p \<in> ?M" using main(2) len by blast+
  have lp: "unat (split_len st ! ?p) = ?d ?p" using c(7) [OF len(2)] t(2,3) by simp
  have np: "split_num st ! ?p \<noteq> 0 \<longleftrightarrow> (\<exists>j < n. known bc j \<and> unat (parent (bc ! j)) = ?p)" using c(6) [OF len(2)] .
  have gen: "?p = 0 \<Longrightarrow> split_num st ! ?p \<noteq> 0"
    using np bc(1,3) k0 by (auto simp: settled_def)
  have siblings: "split_num st ! ?p \<noteq> 0 \<longleftrightarrow> ?p = 0 \<or> (\<exists>j < n. 0 < j \<and> known bc j \<and> unat (parent (bc ! j)) = ?p)"
    (is "_ \<longleftrightarrow> _ \<or> ?sib")
  proof
    assume "split_num st ! ?p \<noteq> 0"
    then obtain j where j: "j < n" "known bc j" "unat (parent (bc ! j)) = ?p" using np by blast
    show "?p = 0 \<or> ?sib"
    proof (cases "j = 0")
      case True
      then show ?thesis using j(3) bc(1) by (simp add: settled_def)
    qed (use j in auto)
  next
    assume "?p = 0 \<or> ?sib"
    then show "split_num st ! ?p \<noteq> 0" using gen np by blast
  qed
  have on: "?p \<in> ?M \<or> ?p = 0" if "n \<in> ?M"
  proof -
    have "chain bc n = n # chain bc ?p" using bc(3) t(2) by (simp add: chain.simps [of bc n])
    then have "set (chain bc ?p) \<subseteq> ?M" using chain_closed [OF tree that] by auto
    then show ?thesis by (cases "?p = 0") (auto simp: chain.simps [of bc ?p])
  qed
  have d_on: "?d k = 0" if "k \<in> ?M \<or> k = 0" for k using branch_depth_on [OF tree] that by auto
  have d_n: "?d n = (if n \<in> ?M then 0 else Suc (?d ?p))"
    using d_on branch_depth_off [OF tree(1) bc(2,3)] by simp
  have l1: "unat (split_len st ! ?p + 1) = Suc (?d ?p)"
    using branch_depth_le [of bc h ?p] t(2) len small lp by (subst unat_add_no_wrap) simp_all
  have n1: "unat (split_num st ! ?p + 1) = Suc (unat (split_num st ! ?p))"
    using c(5) [OF len(2)] len small by (subst unat_add_no_wrap) simp_all
  define own where "own = (if n \<in> ?M \<and> miner (bc ! n) \<in> hs then st\<lparr>honest_blocks := honest_blocks st + 1\<rparr>
    else if n \<in> ?M \<and> miner (bc ! n) \<in> ss then st\<lparr>selfish_blocks := selfish_blocks st + 1\<rparr> else st)"
  have own_same: "split_num own = split_num st" "split_len own = split_len st" "total_splits own = total_splits st"
    "max_split_len own = max_split_len st" by (simp_all add: own_def)
  have starts: "split_entry main n ?p own \<longleftrightarrow> starts_branch bc h n"
    unfolding split_entry_def starts_branch_def Let_def mn own_same siblings using bc(2,3) by blast
  let ?st = "own\<lparr>split_num := (split_num own)[?p := split_num own ! ?p + 1],
    split_len := (if main ! n then split_len own else (split_len own)[n := split_len own ! ?p + 1]),
    total_splits := (if split_entry main n ?p own then total_splits own + 1 else total_splits own),
    max_split_len := (if main ! n then max_split_len own else max (max_split_len own) (split_len own ! ?p + 1))\<rparr>"
  have szo: "sized ?len own" using c(1) own_same by (simp add: sized_def)
  have nz: "split_len own ! ?p + 1 \<noteq> 0" using l1 own_same(2) by (metis nat.distinct(1) unat_0)
  have zero_on: "split_len own ! ?p = 0" if "main ! n"
    using that on mn d_on lp own_same by (simp add: unsigned_eq_0_iff)
  have entry: "split_num own ! ?p \<noteq> 0 \<or> main ! ?p" if "split_len own ! ?p = 0"
  proof (cases "?p \<in> ?M")
    case False
    have "?d ?p = 0" using that lp own_same by simp
    then have "?p = 0" using branch_depth_off [OF tree(1) t(3)] False by (cases "?p = 0") auto
    then show ?thesis using gen own_same by simp
  qed (simp add: mn)
  have run: "count_block hs ss main (bc ! n) st = Inr ?st"
  proof -
    have "count_owner hs ss main (bc ! n) st = Inr own"
      using count_owner_run [of "bc ! n" main hs ss st] len main(1) t(1) mn by (simp add: own_def)
    moreover have "count_split main (bc ! n) own = Inr ?st"
      using t(2) by (intro count_split_run [OF szo main(1) t(1) refl len]) (use nz zero_on entry in auto)
    ultimately show ?thesis using ids by (simp add: count_block_def)
  qed
  have "counted_to hs ss bc h (Suc n) ?st"
    unfolding counted_to_def
  proof (intro conjI)
    show "sized ?len ?st" using szo by (simp add: sized_def)
    show "honest_blocks ?st = of_nat (card (mined_by hs bc h (Suc n)))"
      "selfish_blocks ?st = of_nat (card (mined_by (ss - hs) bc h (Suc n)))"
      using c(2,3) by (auto simp: own_def card_mined_Suc)
    show "total_splits ?st = of_nat (card {k. k < Suc n \<and> starts_branch bc h k})"
      using c(4) own_same(3) by (simp add: starts card_Suc_if)
    have "length (split_num st) = ?len" using c(1) by (simp add: sized_def)
    then have count: "split_num ?st ! q = (if q = ?p then split_num st ! ?p + 1 else split_num st ! q)" if "q < ?len" for q
      using that own_same(1) by (simp add: nth_list_update)
    show "\<forall>q < ?len. unat (split_num ?st ! q) \<le> Suc n
        \<and> (split_num ?st ! q \<noteq> 0 \<longleftrightarrow> (\<exists>j < Suc n. known bc j \<and> unat (parent (bc ! j)) = q))"
    proof (intro allI impI)
      fix q
      assume q: "q < ?len"
      show "unat (split_num ?st ! q) \<le> Suc n
        \<and> (split_num ?st ! q \<noteq> 0 \<longleftrightarrow> (\<exists>j < Suc n. known bc j \<and> unat (parent (bc ! j)) = q))"
      proof (cases "q = ?p")
        case True
        have "split_num st ! ?p + 1 \<noteq> 0" using n1 by (metis nat.distinct(1) unat_0)
        then show ?thesis unfolding count [OF q] using True n1 c(5) [OF len(2)] bc(2) by auto
      next
        case False
        then show ?thesis unfolding count [OF q] using c(5,6) [OF q] by (auto simp: less_Suc_eq)
      qed
    qed
    have "length (split_len st) = ?len" using c(1) by (simp add: sized_def)
    then have depth: "split_len ?st ! k = (if k = n \<and> n \<notin> ?M then split_len st ! ?p + 1 else split_len st ! k)"
      if "k < ?len" for k using that own_same(2) mn(1) by (auto simp: nth_list_update)
    show "\<forall>k < ?len. unat (split_len ?st ! k) = (if k < Suc n \<and> known bc k then ?d k else 0)"
    proof (intro allI impI)
      fix k
      assume k: "k < ?len"
      show "unat (split_len ?st ! k) = (if k < Suc n \<and> known bc k then ?d k else 0)"
        unfolding depth [OF k] using c(7) [OF k] l1 d_n bc(2) by (cases "k = n") auto
    qed
    have top: "unat (max_split_len ?st) = max (unat (max_split_len st)) (?d n)"
      using own_same(2,4) l1 d_n by (simp add: mn max_def word_le_nat_alt)
    show "\<forall>k < Suc n. known bc k \<longrightarrow> ?d k \<le> unat (max_split_len ?st)"
      unfolding top using c(8) by (auto simp: less_Suc_eq le_max_iff_disj)
    show "max_split_len ?st = 0 \<or> (\<exists>k < Suc n. known bc k \<and> ?d k = unat (max_split_len ?st))"
    proof (cases "?d n \<le> unat (max_split_len st)")
      case True
      then have "max_split_len ?st = max_split_len st" using top by (simp add: word_unat_eq_iff)
      then show ?thesis using c(9) less_SucI by metis
    next
      case False
      then show ?thesis unfolding top using bc(2) by (intro disjI2 exI [of _ n]) simp
    qed
  qed
  then show ?thesis using run by blast
qed

lemma count_all:
  assumes "tree_ok bc ls" "known bc (unat h)" "settled bc" "- 1 \<notin> hs \<union> ss"
    "length main = length bc" "\<And>i. i < length bc \<Longrightarrow> main ! i \<longleftrightarrow> i \<in> set (chain bc (unat h))"
  shows "n \<le> length bc \<Longrightarrow> \<exists>st. fold_res (count_block hs ss main) (take n bc) (stats_new (length bc)) = Inr st
    \<and> counted_to hs ss bc h n st"
proof (induction n)
  case 0
  then show ?case using counted_to_0 by simp
next
  case (Suc n)
  then obtain st where st: "fold_res (count_block hs ss main) (take n bc) (stats_new (length bc)) = Inr st"
    "counted_to hs ss bc h n st" by auto
  have n: "n < length bc" using Suc.prems by simp
  have "\<exists>st'. count_block hs ss main (bc ! n) st = Inr st' \<and> counted_to hs ss bc h (Suc n) st'"
  proof (cases "known bc n")
    case True
    show ?thesis
    proof (cases "n = 0")
      case True
      have "known bc 0" "\<not> main ! 0"
        using assms(1,6) n True chain_pos [of 0 bc "unat h"] by (auto simp: tree_ok_def)
      then show ?thesis using count_genesis [OF assms(3) _ assms(4) _ assms(5)] st(2) True by simp
    next
      case False
      then show ?thesis using count_known [OF assms(1-3) \<open>known bc n\<close> _ st(2) assms(5,6)] by simp
    qed
  next
    case False
    then have "blk_id (bc ! n) = no_id" using n assms(3) by (simp add: known_def settled_def)
    then show ?thesis using counted_skip [OF assms(1,2) st(2) False] by (simp add: count_block_def)
  qed
  then show ?case using st(1) n by (auto simp: take_Suc_conv_app_nth fold_res_append)
qed

text \<open>C23: once no block waits for its parent, the statistics leave no vector and are what they are
  printed as: how many blocks of the main chain the honest and how many the selfish miners have
  mined, at how many blocks a branch starts, and how long the longest branch is.\<close>

theorem statistics_correct:
  assumes "tree_ok bc ls" "known bc (unat h)" "settled bc" "- 1 \<notin> honest \<union> selfish" "unat h < fuel"
  shows "\<exists>st. statistics fuel honest selfish bc h = Inr st
    \<and> honest_blocks st = of_nat (card {k \<in> set (chain bc (unat h)). miner (bc ! k) \<in> honest})
    \<and> selfish_blocks st = of_nat (card {k \<in> set (chain bc (unat h)). miner (bc ! k) \<in> selfish - honest})
    \<and> total_splits st = of_nat (card {k. k < length bc \<and> starts_branch bc h k})
    \<and> unat (max_split_len st) = Max (branch_depth bc h ` {k. known bc k})"
proof -
  obtain main where m: "mark_chain fuel bc h (replicate (length bc) False) = Inr main" "length main = length bc"
    "\<And>i. i < length bc \<Longrightarrow> main ! i \<longleftrightarrow> i \<in> set (chain bc (unat h))"
    using mark_chain_spec [OF assms(1) _ assms(2,5), of "replicate (length bc) False"] by auto
  obtain st where st: "fold_res (count_block honest selfish main) bc (stats_new (length bc)) = Inr st"
    and c0: "counted_to honest selfish bc h (length bc) st"
    using count_all [OF assms(1-4) m(2,3), of "length bc"] by auto
  note c = counted_toD [OF c0]
  have "mined_by ms bc h (length bc) = {k \<in> set (chain bc (unat h)). miner (bc ! k) \<in> ms}" for ms
    using chain_known [OF assms(1,2)] known_less by (auto simp: mined_by_def)
  moreover have "unat (max_split_len st) = Max (branch_depth bc h ` {k. known bc k})"
  proof (rule Max_eqI [symmetric])
    show "finite (branch_depth bc h ` {k. known bc k})"
      using finite_subset [of "{k. known bc k}" "{..< length bc}"] known_less by auto
    show "y \<le> unat (max_split_len st)" if "y \<in> branch_depth bc h ` {k. known bc k}" for y
      using that c(8) known_less by auto
    have "branch_depth bc h 0 = 0 \<and> known bc 0" using assms(1) by (simp add: tree_ok_def)
    then show "unat (max_split_len st) \<in> branch_depth bc h ` {k. known bc k}" using c(9) by (metis image_eqI mem_Collect_eq unat_0)
  qed
  ultimately show ?thesis using st c(2-4) m(1) by (simp add: statistics_def)
qed

text \<open>A chain of two blocks beside the genesis block, and a branch of one.\<close>

definition example_chain :: "block list" where
  "example_chain =
     [\<lparr>blk_id = 1, parent = 0, miner = - 1, transactions = Some []\<rparr>, blk_default,
      \<lparr>blk_id = 2, parent = 0, miner = 5, transactions = Some []\<rparr>,
      \<lparr>blk_id = 3, parent = 0, miner = 7, transactions = Some []\<rparr>,
      \<lparr>blk_id = 4, parent = 2, miner = 5, transactions = Some []\<rparr>]"

lemma example_chain_ok:
  "tree_ok example_chain [1, 0, 2, 2, 3]" "known example_chain (unat (4 :: u64))" "settled example_chain"
proof -
  have five: "k < 5 \<longleftrightarrow> k = 0 \<or> k = 1 \<or> k = 2 \<or> k = 3 \<or> k = (4 :: nat)" for k by auto
  have len: "length example_chain = 5" by (simp add: example_chain_def)
  have known: "known example_chain k \<longleftrightarrow> k = 0 \<or> k = 2 \<or> k = 3 \<or> k = 4" for k
    unfolding known_def len five
    by (auto simp: example_chain_def no_id_def pending_id_def blk_default_def)
  show "known example_chain (unat (4 :: u64))" by (simp add: known)
  show "tree_ok example_chain [1, 0, 2, 2, 3]"
    unfolding tree_ok_def known len by (auto simp: example_chain_def)
  show "settled example_chain"
    unfolding settled_def len five
    by (auto simp: example_chain_def pending_id_def no_id_def blk_default_def)
qed

theorem statistics_correct_witness:
  "\<exists>st. statistics 10 {5} {7} example_chain 4 = Inr st
    \<and> honest_blocks st = of_nat (card {k \<in> set (chain example_chain (unat (4 :: u64))). miner (example_chain ! k) \<in> {5}})
    \<and> selfish_blocks st = of_nat (card {k \<in> set (chain example_chain (unat (4 :: u64))). miner (example_chain ! k) \<in> {7} - {5}})
    \<and> total_splits st = of_nat (card {k. k < length example_chain \<and> starts_branch example_chain 4 k})
    \<and> unat (max_split_len st) = Max (branch_depth example_chain 4 ` {k. known example_chain k})"
  by (rule statistics_correct [OF example_chain_ok]) simp_all

end
