(* ===== verification/Simulation.thy ===== *)
theory Simulation
  imports Tinycoin_Net Config Hashpower Miner_Chooser Statistics
begin

text \<open>
  The programs: \<open>examples/tinycoin/main.cpp\<close> from the configuration file to the built network,
  one turn of its main loop, and \<open>examples/graph_gen.cpp\<close>. \<open>return -1\<close> from \<open>main\<close> is
  \<open>Exit\<close>. What is printed on the way is not modelled. \<open>std::stod\<close> and \<open>std::shuffle\<close> are the
  parameters \<open>stod\<close> and \<open>shuffle\<close>; the products that give the numbers of miners are those of doubles (theory
  \<open>Doubles\<close>), amounts and rewards are computed exactly.
\<close>

section \<open>The configuration\<close>

definition trunc_ll :: "real \<Rightarrow> int res" where
  "trunc_ll x =
     (let i = (if 0 \<le> x then floor x else ceiling x) in
      if - (2 ^ 63) \<le> i \<and> i < 2 ^ 63 then Inr i else Inl (UB ''conversion to long long''))"

text \<open>The conversion to \<open>int\<close> of an argument.\<close>

definition to_int :: "int \<Rightarrow> int" where
  "to_int i = sint (of_int i :: 32 word)"

definition read_statics :: "(string \<Rightarrow> real res) \<Rightarrow> config \<Rightarrow> statics res" where
  "read_statics stod cfg =
     bind_res (config_get cfg ''delay_per_transaction'' 20 stoll) (\<lambda>per_tx.
     bind_res (config_get cfg ''delay_per_transaction'' 20 stoll) (\<lambda>txd.
     bind_res (config_get cfg ''base_delay'' 100 stoll) (\<lambda>base.
     bind_res (config_get cfg ''block_reward'' 1 stod) (\<lambda>breward.
     bind_res (config_get cfg ''transaction_reward'' (to_double (1 / 100)) stod) (\<lambda>treward.
     bind_res (config_get cfg ''transactions_per_block'' 50 stoll) (\<lambda>per_block.
     Inr \<lparr>next_tx = 1, next_blk = 1, tx_delay = txd, delay_per_transaction = per_tx, base_delay = base,
          block_reward = breward, transaction_reward = treward,
          transactions_per_block = of_int per_block\<rparr>))))))"

definition make_edges :: "string \<Rightarrow> int \<Rightarrow> int \<Rightarrow> xoroshiro \<Rightarrow> (edge list \<times> xoroshiro) res" where
  "make_edges kind netsize connectivity g =
     (if kind = ''erdos'' then gen_conn_erdos g (to_int netsize) (to_int connectivity)
      else if kind = ''barabasi'' then gen_barabasi_albert g (to_int netsize) (to_int connectivity)
      else Inl (Exit (- 1)))"

section \<open>The network\<close>

text \<open>
  The constructor of a node, without a policy, with \<open>MinerPolicy\<close> or with \<open>SelfishPolicy\<close>, which
  registers with the coordinator.
\<close>

definition tiny_ctor ::
    "bool \<Rightarrow> policy \<Rightarrow> u64 \<Rightarrow> node_id \<Rightarrow> world \<Rightarrow> (tiny_data, miner_state) node \<times> world" where
  "tiny_ctor mining pol pwr i w =
     (let (r, g) = rng_next (gen w);
          (st, c) = miner_new mining pol pwr r (stat w)
      in (node_new i st,
          w\<lparr>gen := g, stat := c, coord := (if pol = Selfish_Policy then add_member i (coord w) else coord w)\<rparr>))"

definition new_node :: "bool \<Rightarrow> policy \<Rightarrow> u64 \<Rightarrow> (world, unit) eff" where
  "new_node mining pol pwr = act_eff (graph_add_node (\<lambda>_. ok_act id) (tiny_ctor mining pol pwr))"

definition pop_back :: "'a list \<Rightarrow> ('a \<times> 'a list) res" where
  "pop_back xs = (if xs = [] then Inl (UB ''back of an empty vector'') else Inr (last xs, butlast xs))"

fun create_nodes ::
    "u64 set \<Rightarrow> u64 set \<Rightarrow> node_id list \<Rightarrow> u64 list \<Rightarrow> u64 list \<Rightarrow> u64 list \<Rightarrow> (world, u64 list) eff" where
  "create_nodes honest selfish [] hp sp ps = ret_eff ps"
| "create_nodes honest selfish (i # is) hp sp ps =
     (if i \<in> honest then
        bind_eff (res_eff (pop_back hp)) (\<lambda>(pwr, hp).
        bind_eff (new_node True Honest_Policy pwr) (\<lambda>_. create_nodes honest selfish is hp sp (ps @ [pwr])))
      else if i \<in> selfish then
        bind_eff (res_eff (pop_back sp)) (\<lambda>(pwr, sp).
        bind_eff (new_node True Selfish_Policy pwr) (\<lambda>_. create_nodes honest selfish is hp sp (ps @ [pwr])))
      else bind_eff (new_node False No_Policy 0) (\<lambda>_. create_nodes honest selfish is hp sp (ps @ [0])))"

text \<open>\<open>for (unsigned i=1; i<ps.netsize(); i++) ps[i] += ps[i-1]\<close>\<close>

definition prefix_sums :: "u64 list \<Rightarrow> u64 list" where
  "prefix_sums ps = fold (\<lambda>i ps. ps[i := ps ! i + ps ! (i - 1)]) [1..<length ps] ps"

definition build_network ::
    "u64 set \<Rightarrow> u64 set \<Rightarrow> int \<Rightarrow> u64 list \<Rightarrow> u64 list \<Rightarrow> edge list \<Rightarrow> (world, u64 list) eff" where
  "build_network honest selfish netsize hp sp edges =
     bind_eff (create_nodes honest selfish (map of_nat [0..<nat netsize]) hp sp []) (\<lambda>ps.
     let ps = prefix_sums ps in
     bind_eff (act_eff (each_act (\<lambda>e. add_edge False (fst e) (snd e)) edges)) (\<lambda>_. ret_eff ps))"

record simulation =
  net :: world
  weights :: "u64 list"
  honest_ids :: "u64 set"
  selfish_ids :: "u64 set"

text \<open>The coordinator's constructor, that of the manager, and the loop that adds the nodes.\<close>

definition start_network ::
    "int \<Rightarrow> statics \<Rightarrow> int \<Rightarrow> int \<Rightarrow> xoroshiro \<Rightarrow> world" where
  "start_network hardware_concurrency c threads sd g =
     (let (r, g') = rng_next g; (co, c') = coord_new r c
      in (graph_hwm.extend (graph_hwm_new hardware_concurrency (to_int threads) (of_int sd))
            (tiny_hwm.fields c' co))\<lparr>gen := g'\<rparr>)"

definition choose_network ::
    "(string \<Rightarrow> real res) \<Rightarrow> (u64 list \<Rightarrow> xoroshiro \<Rightarrow> u64 list \<times> xoroshiro) \<Rightarrow> nat \<Rightarrow> int \<Rightarrow> config
      \<Rightarrow> int \<Rightarrow> edge list \<Rightarrow> xoroshiro
      \<Rightarrow> ((u64 set \<times> u64 set) \<times> (u64 list \<times> u64 list) \<times> xoroshiro) res" where
  "choose_network stod shuffle fuel sd cfg netsize edges g1 =
     bind_res (config_get cfg ''miners_percent'' (to_double (1 / 5)) stod) (\<lambda>mp.
     bind_res (trunc_ll (to_double (to_double (real_of_int netsize) * mp))) (\<lambda>num_miners.
     bind_res (config_get cfg ''selfish_percent'' 0 stod) (\<lambda>share.
     bind_res (config_get cfg ''selfish_power_percent'' share stod) (\<lambda>power_share.
     bind_res (trunc_ll (to_double (to_double (real_of_int num_miners) * share))) (\<lambda>num_selfish.
     let num_honest = num_miners - num_selfish in
     bind_res (config_get cfg ''selfish_algo'' ''random'' Inr) (\<lambda>algo.
     bind_res (choose_miners g1 (to_int netsize) (to_int num_honest) (to_int num_selfish) edges algo) (\<lambda>(miners, g2).
     bind_res (get_hashpower fuel shuffle (of_int num_honest) (of_int num_selfish) power_share g2) (\<lambda>(pows, g3).
     Inr (miners, pows, g3)))))))))"

definition simulation_setup ::
    "(string \<Rightarrow> real res) \<Rightarrow> (u64 list \<Rightarrow> xoroshiro \<Rightarrow> u64 list \<times> xoroshiro) \<Rightarrow> nat \<Rightarrow> int \<Rightarrow> config
      \<Rightarrow> simulation res" where
  "simulation_setup stod shuffle fuel hardware_concurrency cfg =
     bind_res (read_statics stod cfg) (\<lambda>c.
     bind_res (config_get cfg ''network_kind'' ''erdos'' Inr) (\<lambda>kind.
     bind_res (config_get cfg ''network_size'' 20 stoll) (\<lambda>netsize.
     bind_res (config_get cfg ''network_connectivity'' 100 stoll) (\<lambda>connectivity.
     bind_res (config_get cfg ''seed'' 0 stoll) (\<lambda>sd.
     bind_res (config_get cfg ''nthreads'' (- 1) stoll) (\<lambda>nt.
     let threads = (if nt = - 1 then hardware_concurrency else nt) in
     bind_res (make_edges kind netsize connectivity \<lparr>s_0 = - 1, s_1 = of_int sd\<rparr>) (\<lambda>(edges, g1).
     bind_res (choose_network stod shuffle fuel sd cfg netsize edges g1) (\<lambda>((honest, selfish), (hp, sp), g2).
     case build_network honest selfish netsize hp sp edges (start_network hardware_concurrency c threads sd g2) of
       (w, Inl e) \<Rightarrow> Inl e
     | (w, Inr ps) \<Rightarrow> Inr \<lparr>net = w, weights = ps, honest_ids = honest, selfish_ids = selfish\<rparr>))))))))"

section \<open>A turn of the main loop\<close>

text \<open>
  When a block is due, a miner is drawn by weight, and anyway a node that makes a transaction. The
  drawn numbers go through an \<open>int\<close>. What the workers do between and during the turns is the
  business of the scheduler.
\<close>

definition make_block :: "nat \<Rightarrow> nat \<Rightarrow> u64 list \<Rightarrow> world act" where
  "make_block fuel depth ps w =
     (case choose_weighted (gen w) ps of
        Inl e \<Rightarrow> (w, Some e)
      | Inr (m, g) \<Rightarrow>
          gen_message (tiny_start fuel depth) (of_int (to_int (int m))) (Blk blk_default) (w\<lparr>gen := g\<rparr>))"

definition make_transaction :: "nat \<Rightarrow> nat \<Rightarrow> world act" where
  "make_transaction fuel depth w =
     (case graph_get_random_node w of
        (Inl e, w') \<Rightarrow> (w', Some e)
      | (Inr i, w') \<Rightarrow> gen_message (tiny_start fuel depth) (of_int (to_int (uint i))) (Tx tx_default) w')"

definition main_turn :: "nat \<Rightarrow> nat \<Rightarrow> u64 list \<Rightarrow> bool \<Rightarrow> world act" where
  "main_turn fuel depth ps due =
     seq_act (if due then make_block fuel depth ps else ok_act id) (make_transaction fuel depth)"

text \<open>What is counted at the end: the blockchain of node 0.\<close>

definition final_statistics :: "nat \<Rightarrow> simulation \<Rightarrow> world \<Rightarrow> split_stats res" where
  "final_statistics fuel sim w =
     bind_res (get_node w 0) (\<lambda>nd.
     statistics fuel (honest_ids sim) (selfish_ids sim) (blockchain (user nd)) (head (user nd)))"

section \<open>The other program\<close>

text \<open>\<open>atoi\<close>, with \<open>stoll\<close>'s reading of digits; what is no number counts as 0.\<close>

definition c_atoi :: "string \<Rightarrow> int res" where
  "c_atoi s =
     (case stoll s of
        Inr i \<Rightarrow> if - (2 ^ 31) \<le> i \<and> i < 2 ^ 31 then Inr i else Inl (UB ''atoi'')
      | Inl Out_Of_Range \<Rightarrow> Inl (UB ''atoi'')
      | Inl e \<Rightarrow> Inr 0)"

text \<open>The list of edges that \<open>graph_gen.cpp\<close> prints; the generator starts in its default state.\<close>

definition graph_gen_main :: "string list \<Rightarrow> edge list res" where
  "graph_gen_main argv =
     (if length argv < 4 then Inl (Exit (- 1))
      else bind_res (c_atoi (argv ! 2)) (\<lambda>N.
           bind_res (c_atoi (argv ! 3)) (\<lambda>par.
           bind_res (if length argv > 4 then c_atoi (argv ! 4) else Inr 0) (\<lambda>S.
           bind_res (make_edges (argv ! 1) N par xoroshiro_default) (\<lambda>(edges, g). Inr edges)))))"

section \<open>Prefix sums\<close>

lemma prefix_sums_upto:
  fixes ps :: "u64 list"
  assumes "n \<le> length ps"
  shows "length (fold (\<lambda>i ps. ps[i := ps ! i + ps ! (i - 1)]) [1..<n] ps) = length ps
    \<and> (\<forall>k < length ps. fold (\<lambda>i ps. ps[i := ps ! i + ps ! (i - 1)]) [1..<n] ps ! k
         = (if k < n then sum_list (take (Suc k) ps) else ps ! k))"
  using assms
proof (induction n)
  case (Suc n)
  show ?case
  proof (cases "n = 0")
    case True
    then show ?thesis using Suc.prems by (cases ps) auto
  next
    case False
    then have "[1..<Suc n] = [1..<n] @ [n]" "n - 1 < length ps" "Suc (n - 1) = n" using Suc.prems by auto
    then show ?thesis using Suc False
      by (auto simp: nth_list_update take_Suc_conv_app_nth less_Suc_eq add.commute)
  qed
qed simp

lemma prefix_sums_spec:
  "length (prefix_sums ps) = length ps"
  "k < length ps \<Longrightarrow> prefix_sums ps ! k = sum_list (take (Suc k) ps)"
  using prefix_sums_upto [of "length ps" ps] by (simp_all add: prefix_sums_def)

lemma last_prefix_sums:
  assumes "ps \<noteq> []"
  shows "last (prefix_sums ps) = sum_list ps"
proof -
  have "prefix_sums ps \<noteq> []" using assms prefix_sums_spec(1) [of ps] by (metis length_0_conv)
  then show ?thesis
    using assms prefix_sums_spec(2) [of "length ps - 1" ps] by (simp add: last_conv_nth prefix_sums_spec(1))
qed

section \<open>Nodes\<close>

text \<open>The policy of a node, and the network after the first \<open>k\<close> nodes have been added.\<close>

definition policy_at :: "u64 set \<Rightarrow> u64 set \<Rightarrow> node_id \<Rightarrow> policy" where
  "policy_at honest selfish i =
     (if i \<in> honest then Honest_Policy else if i \<in> selfish then Selfish_Policy else No_Policy)"

definition fresh_network :: "u64 set \<Rightarrow> u64 set \<Rightarrow> nat \<Rightarrow> world \<Rightarrow> bool" where
  "fresh_network honest selfish k w \<longleftrightarrow> net_inv (\<lambda>_. 0) w \<and> running_threads w = 0 \<and> fail_thres w = 0 \<and> nodes_queue w = []
     \<and> graph w = replicate k cuckoo_empty
     \<and> (\<forall>j. omap_count (nodes w) j \<longleftrightarrow> unat j < k)
     \<and> (\<forall>j nd. omap_at (nodes w) j = Some nd \<longrightarrow> waiting nd = {#}
          \<and> is_miner (user nd) = (j \<in> honest \<union> selfish) \<and> policy_of (user nd) = policy_at honest selfish j)
     \<and> set (members (coord w)) = {j \<in> selfish - honest. unat j < k}"

lemma new_node_run:
  assumes "fresh_network honest selfish k w" "k < 2 ^ 31" "i = of_nat k"
    and "mining = (i \<in> honest \<union> selfish)" "pol = policy_at honest selfish i"
  shows "\<exists>w'. new_node mining pol pwr w = (w', Inr ()) \<and> fresh_network honest selfish (Suc k) w'
    \<and> map_option (\<lambda>nd. power (user nd)) (omap_at (nodes w') i) = Some pwr
    \<and> (\<forall>j. j \<noteq> i \<longrightarrow> omap_at (nodes w') j = omap_at (nodes w) j)"
proof -
  obtain r g where rg: "rng_next (gen w) = (r, g)" by (cases "rng_next (gen w)")
  obtain st c where st: "miner_new mining pol pwr r (stat w) = (st, c)" by (cases "miner_new mining pol pwr r (stat w)")
  have made: "is_miner st = mining" "policy_of st = pol" "power st = pwr"
    using st by (auto simp: miner_new_def Let_def miner_state.defs tiny.defs split: prod.splits)
  let ?co = "if pol = Selfish_Policy then add_member i (coord w) else coord w"
  let ?w1 = "w\<lparr>gen := g, stat := c, coord := ?co\<rparr>"
  let ?ns = "omap_emplace i (node_new i st) (nodes w)"
  let ?w2 = "?w1\<lparr>nodes := ?ns, pausing := False\<rparr>"
  let ?w' = "?w2\<lparr>graph := graph w @ [cuckoo_empty]\<rparr>"
  note f = assms(1) [unfolded fresh_network_def]
  have len: "length (graph w) = k" using f by simp
  have ui: "unat i = k" using assms(2,3) by (simp add: unat_of_nat_u64)
  have new: "omap_at (nodes w) i = None" using f ui by (auto simp: omap_count_at)
  have run: "new_node mining pol pwr w = (?w', Inr ())"
  proof -
    have ctor: "tiny_ctor mining pol pwr i w = (node_new i st, ?w1)" by (simp add: tiny_ctor_def rg st)
    have "running_threads ?w1 = 0" using f by simp
    then have "add_node (\<lambda>_. ok_act id) (node_new i st) ?w1 = (?w2, None)"
      by (subst add_node_idle) (simp_all add: node_new_def catch_std_def ok_act_def)
    then show ?thesis
      using ctor len assms(3)
      by (simp add: new_node_def act_eff_def graph_add_node_def seq_act_def ok_act_def)
  qed
  have "net_inv (\<lambda>_. 0) ?w1" using f by simp
  then have "net_inv (\<lambda>_. 0) (?w1\<lparr>nodes := omap_emplace (nid (node_new i st)) (node_new i st) (nodes ?w1)\<rparr>)"
    using emplace_inv [of "\<lambda>_. 0" ?w1 "node_new i st"] by (simp add: node_new_def waiting_def)
  then have inv: "net_inv (\<lambda>_. 0) ?w'" by (simp add: node_new_def net_inv_def waiting_at_def tokens_def)
  have "omap_ok (nodes w)" using f by (simp add: net_inv_def wf_nodes_def)
  then have at: "omap_at ?ns j = (if j = i then Some (node_new i st) else omap_at (nodes w) j)" for j
    using omap_emplace_at [of "nodes w" i "node_new i st" j] new by (auto simp: omap_at_def)
  have upto: "unat j < Suc k \<longleftrightarrow> j = i \<or> unat j < k" for j
    using ui unsigned_word_eqI [of j i] by (auto simp: less_Suc_eq)
  have "omap_count ?ns j \<longleftrightarrow> unat j < Suc k" for j
    using f at [of j] unfolding upto by (auto simp: omap_count_at)
  moreover have "set (members ?co) = {j \<in> selfish - honest. unat j < Suc k}"
    using f assms(5) unfolding upto by (auto simp: add_member_def policy_at_def)
  moreover have "waiting (node_new i st) = {#}" by (simp add: node_new_def waiting_def)
  ultimately have "fresh_network honest selfish (Suc k) ?w'"
    using f inv at made assms(4,5)
    by (auto simp: fresh_network_def replicate_append_same node_new_def split: if_splits)
  moreover have "map_option (\<lambda>nd. power (user nd)) (omap_at (nodes ?w') i) = Some pwr"
    "\<forall>j. j \<noteq> i \<longrightarrow> omap_at (nodes ?w') j = omap_at (nodes w) j"
    using at made(3) by (simp_all add: node_new_def)
  ultimately show ?thesis using run by blast
qed

text \<open>How many of the nodes from \<open>k\<close> to below \<open>k + d\<close> are in a set.\<close>

definition how_many :: "u64 set \<Rightarrow> nat \<Rightarrow> nat \<Rightarrow> nat" where
  "how_many s k d = length (filter (\<lambda>i. of_nat i \<in> s) [k..<k + d])"

lemma how_many_0 [simp]: "how_many s k 0 = 0"
  by (simp add: how_many_def)

lemma upt_add_Suc: "[k..<k + Suc d] = k # [Suc k..<Suc k + d]"
  by (simp add: upt_conv_Cons)

lemma how_many_Suc: "how_many s k (Suc d) = (if of_nat k \<in> s then 1 else 0) + how_many s (Suc k) d"
  unfolding how_many_def upt_add_Suc by simp

text \<open>
  The power of the node \<open>j\<close> places after \<open>k\<close>, when \<open>hp\<close> and \<open>sp\<close> are what is left at \<open>k\<close>: miners of either kind
  take theirs from the end of their list, in the order of their ids.
\<close>

definition power_of :: "u64 set \<Rightarrow> u64 set \<Rightarrow> u64 list \<Rightarrow> u64 list \<Rightarrow> nat \<Rightarrow> nat \<Rightarrow> u64" where
  "power_of honest selfish hp sp k j =
     (if of_nat (k + j) \<in> honest then rev hp ! how_many honest k j
      else if of_nat (k + j) \<in> selfish then rev sp ! how_many (selfish - honest) k j
      else 0)"

lemma rev_nth_Suc: "length xs = Suc n \<Longrightarrow> rev xs ! Suc m = rev (butlast xs) ! m" "length xs = Suc n \<Longrightarrow> rev xs ! 0 = last xs"
  by (cases xs rule: rev_cases, simp_all)+

lemma pop_back_butlast: "length hp = Suc m \<Longrightarrow> pop_back hp = Inr (last hp, butlast hp)"
  by (auto simp: pop_back_def)

lemma sum_list_butlast:
  fixes xs :: "u64 list"
  assumes "length xs = Suc m"
  shows "last xs + (sum_list (butlast xs) + y) = sum_list xs + y" "last xs + (y + sum_list (butlast xs)) = y + sum_list xs"
  using assms by (cases xs rule: rev_cases, simp_all add: ac_simps)+

lemmas node_steps = policy_at_def pop_back_butlast bind_eff_def [of "res_eff _"] res_eff_def how_many_Suc

lemma create_nodes_first:
  assumes "length hp = how_many honest k (Suc d)" "length sp = how_many (selfish - honest) k (Suc d)"
  shows "\<exists>pwr hp' sp'. create_nodes honest selfish (map of_nat [k..<k + Suc d]) hp sp ps w
      = bind_eff (new_node (of_nat k \<in> honest \<union> selfish) (policy_at honest selfish (of_nat k)) pwr)
          (\<lambda>_. create_nodes honest selfish (map of_nat [Suc k..<Suc k + d]) hp' sp' (ps @ [pwr])) w
    \<and> length hp' = how_many honest (Suc k) d \<and> length sp' = how_many (selfish - honest) (Suc k) d
    \<and> pwr + (sum_list hp' + sum_list sp') = sum_list hp + sum_list sp
    \<and> pwr = power_of honest selfish hp sp k 0
    \<and> (\<forall>j. power_of honest selfish hp' sp' (Suc k) j = power_of honest selfish hp sp k (Suc j))
    \<and> insert pwr (set hp' \<union> set sp') \<subseteq> insert 0 (set hp \<union> set sp)"
proof -
  let ?i = "of_nat k :: u64"
  have popped: "insert (last xs) (set (butlast xs)) \<subseteq> set xs" if "length xs = Suc m" for xs :: "u64 list" and m
    using that by (cases xs rule: rev_cases) auto
  consider "?i \<in> honest" | "?i \<notin> honest" "?i \<in> selfish" | "?i \<notin> honest" "?i \<notin> selfish" by blast
  then show ?thesis
  proof cases
    case 1
    then have len: "length hp = Suc (how_many honest (Suc k) d)" using assms(1) by (simp add: how_many_Suc)
    show ?thesis
      unfolding upt_add_Suc list.map
      by (rule exI [of _ "last hp"], rule exI [of _ "butlast hp"], rule exI [of _ sp])
        (use 1 len assms(2) popped [OF len] sum_list_butlast(1) [OF len] rev_nth_Suc [OF len] in \<open>auto simp: node_steps power_of_def simp del: upt_Suc\<close>)
  next
    case 2
    then have len: "length sp = Suc (how_many (selfish - honest) (Suc k) d)" using assms(2) by (simp add: how_many_Suc)
    show ?thesis
      unfolding upt_add_Suc list.map
      by (rule exI [of _ "last sp"], rule exI [of _ hp], rule exI [of _ "butlast sp"])
        (use 2 len assms(1) popped [OF len] sum_list_butlast(2) [OF len] rev_nth_Suc [OF len] in \<open>auto simp: node_steps power_of_def simp del: upt_Suc\<close>)
  next
    case 3
    show ?thesis
      unfolding upt_add_Suc list.map
      by (rule exI [of _ 0], rule exI [of _ hp], rule exI [of _ sp])
        (use 3 assms in \<open>auto simp: node_steps power_of_def simp del: upt_Suc\<close>)
  qed
qed

lemma create_nodes_run:
  assumes "fresh_network honest selfish k w" "k + d \<le> 2 ^ 31"
    and "length hp = how_many honest k d" "length sp = how_many (selfish - honest) k d"
  shows "\<exists>w' qs. create_nodes honest selfish (map of_nat [k..<k + d]) hp sp ps w = (w', Inr (ps @ qs))
    \<and> fresh_network honest selfish (k + d) w' \<and> sum_list qs = sum_list hp + sum_list sp
    \<and> qs = map (power_of honest selfish hp sp k) [0..<d] \<and> set qs \<subseteq> insert 0 (set hp \<union> set sp)
    \<and> (\<forall>j < d. map_option (\<lambda>nd. power (user nd)) (omap_at (nodes w') (of_nat (k + j))) = Some (qs ! j))
    \<and> (\<forall>x. unat x < k \<longrightarrow> omap_at (nodes w') x = omap_at (nodes w) x)"
  using assms
proof (induction d arbitrary: k w hp sp ps)
  case 0
  then show ?case by (intro exI [of _ w] exI [of _ "[]"]) (simp add: ret_eff_def)
next
  case (Suc d)
  let ?i = "of_nat k :: u64"
  have k: "k < 2 ^ 31" "Suc k + d \<le> 2 ^ 31" using Suc.prems(2) by simp_all
  have ui: "unat ?i = k" using k(1) by (simp add: unat_of_nat_u64)
  obtain pwr hp' sp' where
    step: "create_nodes honest selfish (map of_nat [k..<k + Suc d]) hp sp ps w
      = bind_eff (new_node (?i \<in> honest \<union> selfish) (policy_at honest selfish ?i) pwr)
          (\<lambda>_. create_nodes honest selfish (map of_nat [Suc k..<Suc k + d]) hp' sp' (ps @ [pwr])) w"
    and rest: "length hp' = how_many honest (Suc k) d" "length sp' = how_many (selfish - honest) (Suc k) d"
    and sums: "pwr + (sum_list hp' + sum_list sp') = sum_list hp + sum_list sp"
    and pwr: "pwr = power_of honest selfish hp sp k 0"
      "\<forall>j. power_of honest selfish hp' sp' (Suc k) j = power_of honest selfish hp sp k (Suc j)"
      "insert pwr (set hp' \<union> set sp') \<subseteq> insert 0 (set hp \<union> set sp)"
    using create_nodes_first [OF Suc.prems(3,4), of ps w] by (elim exE conjE) (rule that)
  obtain w1 where w1: "new_node (?i \<in> honest \<union> selfish) (policy_at honest selfish ?i) pwr w = (w1, Inr ())"
    "fresh_network honest selfish (Suc k) w1" "map_option (\<lambda>nd. power (user nd)) (omap_at (nodes w1) ?i) = Some pwr"
    "\<forall>j. j \<noteq> ?i \<longrightarrow> omap_at (nodes w1) j = omap_at (nodes w) j"
    using new_node_run [OF Suc.prems(1) k(1) refl refl refl, of pwr] by blast
  obtain w' qs where run: "create_nodes honest selfish (map of_nat [Suc k..<Suc k + d]) hp' sp' (ps @ [pwr]) w1
      = (w', Inr ((ps @ [pwr]) @ qs))"
    and fin: "fresh_network honest selfish (Suc k + d) w'" "sum_list qs = sum_list hp' + sum_list sp'"
      "qs = map (power_of honest selfish hp' sp' (Suc k)) [0..<d]" "set qs \<subseteq> insert 0 (set hp' \<union> set sp')"
    and at: "\<forall>j < d. map_option (\<lambda>nd. power (user nd)) (omap_at (nodes w') (of_nat (Suc k + j))) = Some (qs ! j)"
      "\<forall>x. unat x < Suc k \<longrightarrow> omap_at (nodes w') x = omap_at (nodes w1) x"
    using Suc.IH [OF w1(2) k(2) rest, of "ps @ [pwr]"] by blast
  have "create_nodes honest selfish (map of_nat [k..<k + Suc d]) hp sp ps w = (w', Inr (ps @ (pwr # qs)))"
    unfolding step bind_eff_def w1(1) prod.case sum.case run by simp
  moreover have "pwr # qs = map (power_of honest selfish hp sp k) [0..<Suc d]"
    using fin(3) pwr(1,2) by (simp add: upt_conv_Cons map_Suc_upt [symmetric] del: upt_Suc)
  moreover have "fresh_network honest selfish (k + Suc d) w'" using fin(1) by simp
  moreover have "set (pwr # qs) \<subseteq> insert 0 (set hp \<union> set sp)" using fin(4) pwr(3) by auto
  moreover have "sum_list (pwr # qs) = sum_list hp + sum_list sp" using fin(2) sums by simp
  moreover have "map_option (\<lambda>nd. power (user nd)) (omap_at (nodes w') (of_nat (k + j))) = Some ((pwr # qs) ! j)"
    if "j < Suc d" for j
    using that at ui w1(3) by (cases j) (simp_all add: add.assoc)
  moreover have "omap_at (nodes w') x = omap_at (nodes w) x" if "unat x < k" for x
    using that at(2) w1(4) ui by (metis less_SucI less_irrefl)
  ultimately show ?case by (intro exI [of _ w'] exI [of _ "pwr # qs"]) blast
qed

lemma how_many_card:
  assumes "\<forall>x \<in> s. unat x < n" "n \<le> 2 ^ 31"
  shows "how_many s 0 n = card s"
proof -
  have "s = of_nat ` set (filter (\<lambda>i. of_nat i \<in> s) [0..<n])" (is "_ = _ ` set ?xs")
    using assms(1) by (force simp: image_iff)
  moreover have "inj_on (of_nat :: nat \<Rightarrow> u64) (set ?xs)"
  proof (rule inj_onI)
    fix i j :: nat
    assume ij: "i \<in> set ?xs" "j \<in> set ?xs" "(of_nat i :: u64) = of_nat j"
    then have "i < 2 ^ 64" "j < 2 ^ 64" using assms(2) by simp_all
    then have "unat (of_nat i :: u64) = i" "unat (of_nat j :: u64) = j" by (simp_all only: unat_of_nat_u64)
    then show "i = j" using ij(3) by metis
  qed
  ultimately have "card s = card (set ?xs)" by (metis card_image)
  also have "\<dots> = length ?xs" by (intro distinct_card) simp
  finally show ?thesis by (simp add: how_many_def)
qed

lemma start_network_fresh: "fresh_network honest selfish 0 (start_network hc c threads sd g)"
  by (auto simp: fresh_network_def start_network_def graph_hwm.defs tiny_hwm.defs graph_hwm_new_def hwm_new_def hwm.defs
      net_inv_def wf_nodes_def omap_ok_def omap_at_def omap_count_def total_waiting_def waiting_at_def tokens_def
      coord_new_def Let_def split: prod.split)

lemma fresh_network_graph:
  assumes "fresh_network honest selfish n w" "n \<le> 2 ^ 31"
  shows "graph_ok w" "\<not> linked w x y" "length (graph w) = n"
  using assms cuckoo_set.emp_inv cuckoo_set.emp_members
  by (auto simp: fresh_network_def graph_ok_def linked_def list_all_iff)

text \<open>The network that was drawn, and the powers of its nodes.\<close>

definition built_as ::
    "u64 set \<Rightarrow> u64 set \<Rightarrow> nat \<Rightarrow> u64 list \<Rightarrow> u64 list \<Rightarrow> edge list \<Rightarrow> world \<Rightarrow> u64 list \<Rightarrow> bool" where
  "built_as honest selfish n hp sp es w ps \<longleftrightarrow> graph_net (\<lambda>_. 0) w \<and> length (graph w) = n \<and> nodes_queue w = []
     \<and> (\<forall>i j. linked w i j \<longleftrightarrow> (i, j) \<in> set es \<or> (j, i) \<in> set es)
     \<and> (\<forall>i. unat i < n \<longrightarrow>
          (\<exists>nd. omap_at (nodes w) i = Some nd \<and> policy_of (user nd) = policy_at honest selfish i
             \<and> power (user nd) = ps ! unat i))
     \<and> set (members (coord w)) = selfish \<and> sum_list ps = sum_list hp + sum_list sp
     \<and> ps = map (power_of honest selfish hp sp 0) [0..<n]
     \<and> set ps \<subseteq> insert 0 (set hp \<union> set sp)"

lemma build_network_run:
  assumes n: "0 \<le> n" "n \<le> 2 ^ 31" and miners: "honest \<inter> selfish = {}" "\<forall>x \<in> honest \<union> selfish. unat x < nat n"
    and pows: "length hp = card honest" "length sp = card selfish"
    and es: "\<forall>e \<in> set es. unat (fst e) < nat n \<and> unat (snd e) < nat n"
  shows "\<exists>w ps. build_network honest selfish n hp sp es (start_network hc c threads sd g) = (w, Inr (prefix_sums ps))
    \<and> built_as honest selfish (nat n) hp sp es w ps"
proof -
  let ?start = "start_network hc c threads sd g"
  have n31: "nat n \<le> 2 ^ 31" using n by (simp add: nat_le_iff)
  have "selfish - honest = selfish" using miners(1) by blast
  then have hm: "length hp = how_many honest 0 (nat n)" "length sp = how_many (selfish - honest) 0 (nat n)"
    using how_many_card [OF _ n31] miners(2) pows by simp_all
  obtain w ps where
    run: "create_nodes honest selfish (map of_nat [0..<nat n]) hp sp [] ?start = (w, Inr ps)"
      "fresh_network honest selfish (nat n) w"
    and ps: "sum_list ps = sum_list hp + sum_list sp" "ps = map (power_of honest selfish hp sp 0) [0..<nat n]"
      "set ps \<subseteq> insert 0 (set hp \<union> set sp)"
    and pows: "\<forall>j < nat n. map_option (\<lambda>nd. power (user nd)) (omap_at (nodes w) (of_nat j)) = Some (ps ! j)"
    using create_nodes_run [OF start_network_fresh _ hm, of "[]" hc c threads sd g] n31 by auto
  note f = run(2) [unfolded fresh_network_def]
  note gr = fresh_network_graph [OF run(2) n31]
  obtain gs where gs: "each_act (\<lambda>e. add_edge False (fst e) (snd e)) es w = (w\<lparr>graph := gs\<rparr>, None)"
    "graph_ok (w\<lparr>graph := gs\<rparr>)" "length gs = length (graph w)"
    "\<And>x y. linked (w\<lparr>graph := gs\<rparr>) x y \<longleftrightarrow> (x, y) \<in> set es \<or> (y, x) \<in> set es"
    using add_edges_spec [of w es False] es gr by auto
  let ?net = "w\<lparr>graph := gs\<rparr>"
  have built: "build_network honest selfish n hp sp es ?start = (?net, Inr (prefix_sums ps))"
    using run(1) gs(1) by (simp add: build_network_def bind_eff_def act_eff_def ret_eff_def Let_def)
  have "net_inv (\<lambda>_. 0) w" using f by blast
  then have "net_inv (\<lambda>_. 0) ?net" by (simp add: net_inv_def waiting_at_def tokens_def)
  then have net: "graph_net (\<lambda>_. 0) ?net"
    using f gs(2-4) gr(3) es by (auto simp: graph_net_def)
  have at: "\<exists>nd. omap_at (nodes ?net) i = Some nd \<and> policy_of (user nd) = policy_at honest selfish i
      \<and> power (user nd) = ps ! unat i" if "unat i < nat n" for i
  proof -
    have "omap_count (nodes w) i" using f that by simp
    then obtain nd where "omap_at (nodes w) i = Some nd" by (auto simp: omap_count_at)
    then show ?thesis using f pows [rule_format, OF that] by simp
  qed
  have "set (members (coord ?net)) = selfish" using f miners by auto
  then have "built_as honest selfish (nat n) hp sp es ?net ps"
    using net gs(3,4) at ps gr(3) f by (simp add: built_as_def)
  then show ?thesis using built by blast
qed

text \<open>C24: when the sets of honest and selfish miners are disjoint and there is a power for each of their
  members, the loop of \<open>main\<close> builds the network that was drawn: node \<open>i\<close> has the policy of the set
  it was chosen for and the power that is its turn's (\<open>power_of\<close>: the last one left of its kind, none if it is no
  miner), the coordinator knows exactly the selfish miners, two nodes can send to each
  other exactly if an edge joins them; the counters, queues and sets of neighbours are
  well formed. The weights are the prefix sums of the nodes' powers.\<close>

theorem build_network_correct:
  assumes "1 \<le> n" "n \<le> 2 ^ 31" and "honest \<inter> selfish = {}" "\<forall>x \<in> honest \<union> selfish. unat x < nat n"
    and "length hp = card honest" "length sp = card selfish"
    and "\<forall>e \<in> set es. unat (fst e) < nat n \<and> unat (snd e) < nat n"
  shows "\<exists>w ps. build_network honest selfish n hp sp es (start_network hc c threads sd g) = (w, Inr ps)
    \<and> graph_net (\<lambda>_. 0) w
    \<and> (\<forall>i j. unat i < nat n \<longrightarrow> unat j < nat n \<longrightarrow>
         graph_can_send w i j = Inr ((i, j) \<in> set es \<or> (j, i) \<in> set es))
    \<and> (\<forall>i. unat i < nat n \<longrightarrow>
         (\<exists>nd. omap_at (nodes w) i = Some nd \<and> policy_of (user nd) = policy_at honest selfish i
            \<and> power (user nd) = power_of honest selfish hp sp 0 (unat i)))
    \<and> set (members (coord w)) = selfish
    \<and> length ps = nat n \<and> last ps = sum_list hp + sum_list sp
    \<and> (\<forall>i < nat n. ps ! i = (\<Sum>j\<leftarrow>[0..<Suc i]. power_of honest selfish hp sp 0 j))"
proof -
  have n0: "0 \<le> n" using assms(1) by simp
  obtain w qs where run: "build_network honest selfish n hp sp es (start_network hc c threads sd g) = (w, Inr (prefix_sums qs))"
    and built: "built_as honest selfish (nat n) hp sp es w qs"
    using build_network_run [OF n0 assms(2-7), of hc c threads sd g] by blast
  note w = built [unfolded built_as_def]
  then have qs: "qs = map (power_of honest selfish hp sp 0) [0..<nat n]" by blast
  have "graph_ok w" using w by (simp add: graph_net_def)
  then have "graph_can_send w i j = Inr ((i, j) \<in> set es \<or> (j, i) \<in> set es)" if "unat i < nat n" "unat j < nat n" for i j
    using that graph_can_send_linked [of w i j] graph_key [of w j] w by simp
  moreover have "last (prefix_sums qs) = sum_list hp + sum_list sp"
    using w qs assms(1) by (subst last_prefix_sums) auto
  moreover have "prefix_sums qs ! i = (\<Sum>j\<leftarrow>[0..<Suc i]. power_of honest selfish hp sp 0 j)" if "i < nat n" for i
    using that qs by (simp add: prefix_sums_spec(2) take_map del: upt_Suc)
  moreover have "\<exists>nd. omap_at (nodes w) i = Some nd \<and> policy_of (user nd) = policy_at honest selfish i
      \<and> power (user nd) = power_of honest selfish hp sp 0 (unat i)" if "unat i < nat n" for i
    using that w by (simp add: qs)
  ultimately show ?thesis using run w qs prefix_sums_spec(1) [of qs] by (intro exI [of _ w] exI [of _ "prefix_sums qs"]) simp
qed

theorem build_network_correct_witness:
  "\<exists>w. build_network {0} {2} 3 [10] [7] [(1, 0), (2, 1)] (start_network 4 example_statics 2 0 xoroshiro_default)
      = (w, Inr [10, 10, 17])
    \<and> graph_net (\<lambda>_. 0) w \<and> graph_can_send w 0 1 = Inr True \<and> graph_can_send w 0 2 = Inr False
    \<and> set (members (coord w)) = {2}"
proof -
  obtain w ps where r: "build_network {0} {2} 3 [10] [7] [(1, 0), (2, 1)] (start_network 4 example_statics 2 0 xoroshiro_default)
      = (w, Inr ps)" "graph_net (\<lambda>_. 0) w" "set (members (coord w)) = {2}" "length ps = 3"
    and link: "\<And>i j. unat i < 3 \<Longrightarrow> unat j < 3 \<Longrightarrow>
      graph_can_send w i j = Inr ((i, j) \<in> set [(1, 0), (2, 1)] \<or> (j, i) \<in> set [(1, 0), (2, 1)])"
    and ps: "\<And>i. i < 3 \<Longrightarrow> ps ! i = (\<Sum>j\<leftarrow>[0..<Suc i]. power_of {0} {2} [10] [7] 0 j)"
    using build_network_correct [of 3 "{0}" "{2}" "[10]" "[7]" "[(1, 0), (2, 1)]" 4 example_statics 2 0 xoroshiro_default] by auto
  have "ps ! 0 = 10" "ps ! 1 = 10" "ps ! 2 = 17"
    using ps [of 0] ps [of 1] ps [of 2] by (simp_all add: power_of_def how_many_def numeral_2_eq_2)
  then have "ps = [10, 10, 17]" using r(4) by (auto simp: list_eq_iff_nth_eq numeral_3_eq_3 numeral_2_eq_2 less_Suc_eq)
  then show ?thesis using r link [of 0 1] link [of 0 2] by auto
qed

section \<open>When every node is to be a miner\<close>

lemma create_nodes_out:
  assumes "fresh_network honest selfish k w" "k + d \<le> 2 ^ 31" "\<forall>i < d. of_nat (k + i) \<in> honest" "length hp < d"
  shows "snd (create_nodes honest selfish (map of_nat [k..<k + d]) hp sp ps w) = Inl (UB ''back of an empty vector'')"
  using assms
proof (induction d arbitrary: k w hp ps)
  case (Suc d)
  let ?i = "of_nat k :: u64"
  have i: "?i \<in> honest" using Suc.prems(3) by force
  show ?case
  proof (cases "hp = []")
    case True
    then show ?thesis unfolding upt_add_Suc list.map using i by (simp add: node_steps pop_back_def)
  next
    case False
    obtain w1 where w1: "new_node True Honest_Policy (last hp) w = (w1, Inr ())" "fresh_network honest selfish (Suc k) w1"
      using new_node_run [OF Suc.prems(1) _ refl refl refl, of "last hp"] Suc.prems(2) i by (auto simp: policy_at_def)
    have "\<forall>j < d. of_nat (Suc k + j) \<in> honest" using Suc.prems(3) by (metis Suc_less_eq add_Suc add_Suc_right)
    moreover have "length (butlast hp) < d" using Suc.prems(4) False by (cases hp rule: rev_cases) auto
    ultimately have "snd (create_nodes honest selfish (map of_nat [Suc k..<Suc k + d]) (butlast hp) sp (ps @ [last hp]) w1)
        = Inl (UB ''back of an empty vector'')"
      using Suc.IH [OF w1(2)] Suc.prems(2) by simp
    then show ?thesis
      unfolding upt_add_Suc list.map using i w1(1) False
      by (simp add: pop_back_def res_eff_def bind_eff_def del: upt_Suc)
  qed
qed simp

text \<open>When the miners asked for are all the nodes and some of them are to be selfish, every
  node counts as honest, the powers of the honest miners run out, and the loop of \<open>main\<close>
  takes the last element of an empty vector.\<close>

theorem all_nodes_miners_run_out:
  assumes "0 \<le> num_honest" "0 < num_selfish" "num_selfish < N" "num_honest < N" "N \<le> num_honest + num_selfish"
    and "N < 2 ^ 31" and "length hp = nat num_honest"
  shows "\<exists>honest selfish g'. choose_miners g N num_honest num_selfish edges ''random'' = Inr ((honest, selfish), g')
    \<and> snd (build_network honest selfish N hp sp edges (start_network hc c threads sd g'))
        = Inl (UB ''back of an empty vector'')"
proof -
  obtain selfish g' where ch: "choose_miners g N num_honest num_selfish edges ''random''
      = Inr ((of_nat ` {0..<nat N}, selfish), g')"
    using all_nodes_honest [of num_honest num_selfish N g edges] assms by auto
  let ?honest = "of_nat ` {0..<nat N} :: u64 set"
  have n: "0 + nat N \<le> 2 ^ 31" "length hp < nat N" using assms by (simp_all add: nat_le_iff)
  have all: "\<forall>i < nat N. of_nat (0 + i) \<in> ?honest" by auto
  have "snd (create_nodes ?honest selfish (map of_nat [0..<nat N]) hp sp [] (start_network hc c threads sd g'))
      = Inl (UB ''back of an empty vector'')"
    using create_nodes_out [OF start_network_fresh n(1) all n(2), of selfish sp "[]" hc c threads sd g'] by simp
  then have "snd (build_network ?honest selfish N hp sp edges (start_network hc c threads sd g'))
      = Inl (UB ''back of an empty vector'')"
    by (auto simp: build_network_def bind_eff_def split: prod.split sum.split)
  then show ?thesis using ch by blast
qed

theorem all_nodes_miners_run_out_witness:
  "\<exists>honest selfish g'. choose_miners xoroshiro_default 4 3 1 [(1, 0)] ''random'' = Inr ((honest, selfish), g')
    \<and> snd (build_network honest selfish 4 [10, 10, 10] [7] [(1, 0)] (start_network 4 example_statics 2 0 g'))
        = Inl (UB ''back of an empty vector'')"
  by (rule all_nodes_miners_run_out) simp_all

lemma to_int_small: "- (2 ^ 31) \<le> i \<Longrightarrow> i < 2 ^ 31 \<Longrightarrow> to_int i = i"
  by (simp add: to_int_def signed_of_int signed_take_bit_int_eq_self)

section \<open>Who mines\<close>

lemma unat_sum_take:
  assumes "sum_list (map unat xs) < 2 ^ 64"
  shows "unat (sum_list (xs :: u64 list)) = sum_list (map unat xs)"
  using assms by (induction xs) (simp_all add: unat_add_no_wrap)

lemma sum_bound: "\<forall>x \<in> set xs. f x \<le> b \<Longrightarrow> sum_list (map f xs) \<le> length xs * (b :: nat)"
  by (induction xs) auto

lemma sum_take_le: "sum_list (take k xs) \<le> sum_list (xs :: nat list)"
  by (metis append_take_drop_id le_add1 sum_list.append)

lemma prefix_sums_sorted:
  assumes "\<forall>x \<in> set qs. unat x \<le> 2 ^ 32" "length qs \<le> 2 ^ 31"
  shows "sorted (prefix_sums qs)" "sum_list (map unat qs) < 2 ^ 64 - 1"
proof -
  have "sum_list (map unat qs) \<le> length qs * 2 ^ 32" by (rule sum_bound [OF assms(1)])
  also have "\<dots> \<le> 2 ^ 31 * 2 ^ 32" using assms(2) by (rule mult_right_mono) simp
  finally show small: "sum_list (map unat qs) < 2 ^ 64 - 1" by simp
  have part: "sum_list (map unat (take k qs)) < 2 ^ 64" for k
    using sum_take_le [of k "map unat qs"] small by (simp add: take_map)
  have take: "unat (sum_list (take k qs)) = sum_list (map unat (take k qs))" for k by (rule unat_sum_take [OF part])
  show "sorted (prefix_sums qs)"
  proof (rule sorted_iff_nth_Suc [THEN iffD2], intro allI impI)
    fix i
    assume i: "Suc i < length (prefix_sums qs)"
    then have "i < length qs" "Suc i < length qs" by (simp_all add: prefix_sums_spec(1))
    moreover from this have "sum_list (map unat (take (Suc i) qs)) \<le> sum_list (map unat (take (Suc (Suc i)) qs))"
      by (simp add: take_Suc_conv_app_nth)
    ultimately show "prefix_sums qs ! i \<le> prefix_sums qs ! Suc i"
      unfolding word_le_nat_alt by (simp add: prefix_sums_spec(2) take)
  qed
qed

text \<open>A block that is due goes to a miner, but when the number drawn is 0 it goes to node 0,
  miner or not; a node without power then makes a transaction instead and the block that the
  loop counts is never mined.\<close>

theorem block_goes_to_miner:
  assumes "1 \<le> n" "n \<le> 2 ^ 31" and "honest \<inter> selfish = {}" "\<forall>x \<in> honest \<union> selfish. unat x < nat n"
    and "length hp = card honest" "length sp = card selfish"
    and "\<forall>e \<in> set es. unat (fst e) < nat n \<and> unat (snd e) < nat n"
    and "build_network honest selfish n hp sp es (start_network hc c threads sd g) = (w, Inr ps)"
    and "\<forall>x \<in> set hp \<union> set sp. unat x \<le> 2 ^ 32"
  shows "\<exists>m r'. choose_weighted r ps = Inr (m, r') \<and> m < nat n \<and> of_int (to_int (int m)) = (of_nat m :: u64)
    \<and> (if fst (rng_next r) mod (sum_list hp + sum_list sp + 1) = 0 then m = 0 else of_nat m \<in> honest \<union> selfish)"
proof -
  have n0: "0 \<le> n" using assms(1) by simp
  obtain qs where ps: "ps = prefix_sums qs" and built: "built_as honest selfish (nat n) hp sp es w qs"
    using build_network_run [OF n0 assms(2-7), of hc c threads sd g] assms(8) by auto
  note b = built [unfolded built_as_def]
  have len: "length qs = nat n" using b by (metis length_map length_upt diff_zero)
  have "set qs \<subseteq> insert 0 (set hp \<union> set sp)" using b by blast
  then have qs: "qs \<noteq> []" "length qs \<le> 2 ^ 31" "\<forall>x \<in> set qs. unat x \<le> 2 ^ 32"
    using len assms(1,2,9) by (auto simp: nat_le_iff)
  note sorted = prefix_sums_sorted [OF qs(3,2)]
  have sum: "sum_list qs = sum_list hp + sum_list sp" using b by (elim conjE)
  have last: "last ps = sum_list hp + sum_list sp" unfolding ps last_prefix_sums [OF qs(1)] by (rule sum)
  have "unat (sum_list qs) < 2 ^ 64 - 1" using unat_sum_take [of qs] sorted(2) by simp
  moreover have "unat (- 1 :: u64) = 2 ^ 64 - 1" by (simp add: unsigned_minus_1_eq_mask mask_eq_exp_minus_1)
  ultimately have "last ps \<noteq> - 1" unfolding last sum [symmetric] by auto
  then obtain m r' where m: "choose_weighted r ps = Inr (m, r')" "m < length ps"
    and draw: "fst (rng_next r) mod (last ps + 1) \<le> ps ! m" "\<forall>j < m. ps ! j < fst (rng_next r) mod (last ps + 1)"
    using choose_weighted_returns [of ps r] sorted(1) qs(1) ps prefix_sums_spec(1) [of qs] by force
  have mn: "m < nat n" using m(2) ps len prefix_sums_spec(1) [of qs] by simp
  let ?d = "fst (rng_next r) mod (sum_list hp + sum_list sp + 1)"
  have "m = 0" if "?d = 0"
    using draw(2) that last by (metis not_less_zero word_not_simps(1) gr_zeroI)
  moreover have "of_nat m \<in> honest \<union> selfish" if "?d \<noteq> 0"
  proof (rule ccontr)
    assume no: "of_nat m \<notin> honest \<union> selfish"
    then have "power_of honest selfish hp sp 0 m = 0" by (simp add: power_of_def)
    moreover have "qs = map (power_of honest selfish hp sp 0) [0..<nat n]" using b by blast
    ultimately have zero: "qs ! m = 0" using mn by simp
    have at: "ps ! m = sum_list (take m qs)" using zero mn len ps by (simp add: prefix_sums_spec(2) take_Suc_conv_app_nth)
    show False
    proof (cases m)
      case 0
      then show ?thesis using at draw(1) last that by simp
    next
      case (Suc k)
      then have "ps ! k = ps ! m" using at mn len ps by (simp add: prefix_sums_spec(2))
      moreover have "ps ! k < ?d" using draw(2) last Suc by simp
      ultimately show ?thesis using draw(1) last by simp
    qed
  qed
  moreover have "of_int (to_int (int m)) = (of_nat m :: u64)"
    using mn assms(2) by (simp add: to_int_small)
  ultimately show ?thesis using m(1) mn by (intro exI [of _ m] exI [of _ r']) simp
qed

text \<open>Three nodes in a row, node 0 an honest miner and node 2 a selfish one.\<close>

lemma small_network:
  obtains w ps where "build_network {0} {2} 3 [10] [7] [(1, 0), (2, 1)] (start_network 4 example_statics 2 0 xoroshiro_default)
    = (w, Inr ps)"
  using build_network_run [of 3 "{0}" "{2}" "[10]" "[7]" "[(1, 0), (2, 1)]" 4 example_statics 2 0 xoroshiro_default] by auto

theorem block_goes_to_miner_witness:
  "\<exists>w ps m r'. build_network {0} {2} 3 [10] [7] [(1, 0), (2, 1)] (start_network 4 example_statics 2 0 xoroshiro_default) = (w, Inr ps)
    \<and> choose_weighted xoroshiro_default ps = Inr (m, r') \<and> m < 3 \<and> (of_nat m :: u64) \<in> {0, 2}"
proof -
  obtain w ps where w: "build_network {0} {2} 3 [10] [7] [(1, 0), (2, 1)] (start_network 4 example_statics 2 0 xoroshiro_default)
    = (w, Inr ps)" by (rule small_network)
  obtain m r' where "choose_weighted xoroshiro_default ps = Inr (m, r')" "m < nat 3"
    "if fst (rng_next xoroshiro_default) mod (sum_list [10] + sum_list [7] + 1) = 0 then m = 0 else of_nat m \<in> {0} \<union> {2 :: u64}"
    using block_goes_to_miner [OF _ _ _ _ _ _ _ w, of xoroshiro_default] by auto
  then show ?thesis using w by (auto simp: xoroshiro_default_def rng_next_def Let_def)
qed

section \<open>From the configuration to a connected network\<close>

lemma get_hashpower_all_honest:
  assumes "\<And>xs g. mset (fst (shuffle xs g)) = mset xs" "unat nh < 2 ^ 32"
  obtains h g' where "get_hashpower (Suc fuel) shuffle nh 0 0 g = Inr ((h, []), g')" "length h = unat nh"
    "\<forall>x \<in> set h. device_power x"
proof -
  obtain p where p: "powers_ok 0 (unat nh) p"
    and run: "\<forall>fuel shuffle share. get_hashpower fuel shuffle nh 0 share g =
      (if share \<noteq> 0 \<and> (0 :: u64) = 0 then Inl (Runtime_Error ''Invalid selfish_percent!'')
       else bind_res (adjust fuel share p) (\<lambda>p. Inr (shuffled shuffle p)))"
    using drawn_powers [OF assms(2), of 0 g] by auto
  have zero: "selfish_weights p = []" "selfish_total p = 0" using p by (auto simp: powers_ok_def)
  have "0 \<le> all_power p" by (simp only: all_power_def of_nat_0_le_iff)
  then have "\<not> too_low 0 p" "\<not> too_high 0 p" using zero(2) by (simp_all add: too_low_def too_high_def)
  then have "adjust (Suc fuel) 0 p = Inr p" by simp
  moreover obtain s g1 where s: "shuffle (selfish_weights p) (power_rng p) = (s, g1)" by (cases "shuffle (selfish_weights p) (power_rng p)")
  moreover obtain h g2 where h: "shuffle (honest_weights p) g1 = (h, g2)" by (cases "shuffle (honest_weights p) g1")
  moreover have ms: "mset s = mset (selfish_weights p)" "mset h = mset (honest_weights p)"
    using assms(1) s h by (metis fst_conv)+
  ultimately have "get_hashpower (Suc fuel) shuffle nh 0 0 g = Inr ((h, []), g2)"
    using run zero by (simp add: shuffled_def del: adjust.simps)
  moreover have "length h = unat nh" "\<forall>x \<in> set h. device_power x"
    using p mset_eq_length [OF ms(2)] mset_eq_setD [OF ms(2)] by (simp_all add: powers_ok_def)
  ultimately show thesis using that by blast
qed

text \<open>C22: a configuration that asks for an Erdos-Renyi network of at most \<open>2 ^ 25\<close> nodes with fewer edges than a
  complete one, for miners that are not all the nodes, and for none that is selfish, is set up without an error: the
  nodes can send to each other along a connected simple graph with the edges asked for, and
  as many nodes are miners as the product of doubles, cut off, says.\<close>

theorem simulation_setup_connected:
  assumes shuffle: "\<And>xs g. mset (fst (shuffle xs g)) = mset xs"
    and cfg: "read_statics stod cfg = Inr c" "config_get cfg ''network_kind'' ''erdos'' Inr = Inr ''erdos''"
      "config_get cfg ''network_size'' 20 stoll = Inr N" "config_get cfg ''network_connectivity'' 100 stoll = Inr M"
      "config_get cfg ''seed'' 0 stoll = Inr sd" "config_get cfg ''nthreads'' (- 1) stoll = Inr nt"
      "config_get cfg ''miners_percent'' (to_double (1 / 5)) stod = Inr mp" "config_get cfg ''selfish_percent'' 0 stod = Inr 0"
      "config_get cfg ''selfish_power_percent'' 0 stod = Inr 0" "config_get cfg ''selfish_algo'' ''random'' Inr = Inr ''random''"
    and bounds: "1 \<le> N" "N \<le> 2 ^ 25" "- (2 ^ 31) \<le> M" "M < 2 ^ 31" "edge_target N M < N * (N - 1) div 2"
      "0 \<le> mp" "to_double (real_of_int N * mp) < real_of_int N"
  shows "\<exists>sim es. simulation_setup stod shuffle (Suc fuel) hc cfg = Inr sim \<and> graph_net (\<lambda>_. 0) (net sim)
    \<and> int (length es) = edge_target N M \<and> distinct es \<and> connected (nat N) es
    \<and> (\<forall>i j. unat i < nat N \<longrightarrow> unat j < nat N \<longrightarrow>
         graph_can_send (net sim) i j = Inr ((i, j) \<in> set es \<or> (j, i) \<in> set es))
    \<and> selfish_ids sim = {} \<and> int (card (honest_ids sim)) = floor (to_double (real_of_int N * mp))"
proof -
  let ?x = "to_double (real_of_int N * mp)"
  let ?nh = "floor ?x"
  have small: "N < 2 ^ 31" using bounds(2) by simp
  have "0 \<le> ?x" using bounds(1,6) by (intro to_double_nonneg) simp
  then have nh: "0 \<le> ?nh" "?nh < N" using bounds(7) by linarith+
  then have nh31: "?nh < 2 ^ 31" "- (2 ^ 31) \<le> ?nh" using small by linarith+
  have dbl: "to_double (real_of_int N) = real_of_int N" "to_double (real_of_int ?nh) = real_of_int ?nh"
    using to_double_int [of "nat N"] to_double_int [of "nat ?nh"] bounds(1,2) nh nh31 by (simp_all add: nat_less_iff)
  have zero: "to_double 0 = 0" by (simp add: to_double_def)
  have N31: "- (2 ^ 31) \<le> N" using bounds(1) by simp
  have ints: "to_int N = N" "to_int M = M" "to_int ?nh = ?nh" "to_int 0 = 0"
    using to_int_small N31 nh31 small bounds(3,4) by simp_all
  have tr: "trunc_ll ?x = Inr ?nh" "trunc_ll 0 = Inr 0"
    using \<open>0 \<le> ?x\<close> nh nh31 by (auto simp: trunc_ll_def)
  obtain es g1 where es: "gen_conn_erdos \<lparr>s_0 = - 1, s_1 = of_int sd\<rparr> N M = Inr (es, g1)" "int (length es) = edge_target N M"
    "distinct es" "\<forall>e \<in> set es. plain_edge (nat N) e" "connected (nat N) es"
    using gen_conn_erdos_returns [OF bounds(1,2,5), of "\<lparr>s_0 = - 1, s_1 = of_int sd\<rparr>"] by blast
  obtain honest selfish g2 where ch: "choose_miners g1 N ?nh 0 es ''random'' = Inr ((honest, selfish), g2)"
    "card honest = nat ?nh" "card selfish = nat 0" "honest \<inter> selfish = {}" "\<forall>x \<in> honest \<union> selfish. unat x < nat N"
    using choose_random_returns [OF nh(1) order_refl _ small, of g1 es] nh(2) by auto
  have "finite selfish" using finite_subset [of selfish UNIV] by (metis finite_code)
  then have none: "selfish = {}" using ch(3) by simp
  have u: "unat (of_int ?nh :: u64) = nat ?nh" using nh(1) nh31(1) by (intro unat_int) simp_all
  have small32: "unat (of_int ?nh :: u64) < 2 ^ 32" using u nh(1) nh31(1) by (simp add: nat_less_iff)
  obtain hp g3 where hp: "get_hashpower (Suc fuel) shuffle (of_int ?nh) 0 0 g2 = Inr ((hp, []), g3)" "length hp = nat ?nh"
    using get_hashpower_all_honest [where shuffle = shuffle and nh = "of_int ?nh" and fuel = fuel and g = g2, OF shuffle] small32 u
    by metis
  let ?threads = "if nt = - 1 then hc else nt"
  have ends: "\<forall>e \<in> set es. unat (fst e) < nat N \<and> unat (snd e) < nat N"
    using es(4) by (auto simp: plain_edge_def word_less_nat_alt)
  obtain w qs where run: "build_network honest {} N hp [] es (start_network hc c ?threads sd g3) = (w, Inr (prefix_sums qs))"
    and built: "built_as honest {} (nat N) hp [] es w qs"
    using build_network_run [of N honest "{}" hp "[]" es hc c ?threads sd g3] bounds(1) small ch(2,5) hp(2) ends none by auto
  let ?sim = "\<lparr>net = w, weights = prefix_sums qs, honest_ids = honest, selfish_ids = {}\<rparr>"
  have chosen: "choose_network stod shuffle (Suc fuel) sd cfg N es g1 = Inr ((honest, {}), (hp, []), g3)"
    using cfg(7-10) tr ch(1) hp(1) none
    by (simp add: choose_network_def ints dbl zero)
  have edges: "make_edges ''erdos'' N M \<lparr>s_0 = - 1, s_1 = of_int sd\<rparr> = Inr (es, g1)"
    using es(1) by (simp add: make_edges_def ints)
  have "simulation_setup stod shuffle (Suc fuel) hc cfg = Inr ?sim"
    using cfg(1-6) edges chosen run by (simp add: simulation_setup_def Let_def)
  moreover have "graph_can_send w i j = Inr ((i, j) \<in> set es \<or> (j, i) \<in> set es)" if "unat i < nat N" "unat j < nat N" for i j
    using that built graph_can_send_linked [of w i j] graph_key [of w j] by (simp add: built_as_def graph_net_def)
  moreover have "graph_net (\<lambda>_. 0) w" using built by (simp add: built_as_def)
  ultimately show ?thesis using es ch(2) nh(1) by (intro exI [of _ ?sim] exI [of _ es]) simp
qed

text \<open>The configuration file that sets nothing: 20 nodes times \<open>0.2\<close>, which is no double.\<close>

lemma fifth: "to_double (20 * to_double (1 / 5)) = 4"
proof -
  have "ceillog2 5 = 3" by (simp add: ceillog2_rec)
  then have e: "exponent \<bar>1 / 5\<bar> - 52 = - 55" by (simp add: exponent_def)
  have "floor (36028797018963968 / 5 :: real) = 7205759403792793" by (rule floor_unique) simp_all
  then have "round_even (1 / 5 / 2 powi (- 55)) = 7205759403792794"
    by (simp add: round_even_def power_int_minus)
  then have f: "to_double (1 / 5) = 7205759403792794 / 36028797018963968"
    unfolding to_double_def e Let_def by (simp add: power_int_minus)
  let ?x = "144115188075855880 / 36028797018963968 :: real"
  have "floor ?x = 4" by (rule floor_unique) simp_all
  then have e2: "exponent \<bar>?x\<bar> - 52 = - 50" by (simp add: exponent_def compute_floorlog)
  have "floor (18014398509481985 / 4 :: real) = 4503599627370496" by (rule floor_unique) simp_all
  then have "round_even (?x / 2 powi (- 50)) = 4503599627370496"
    by (simp add: round_even_def power_int_minus)
  then have "to_double ?x = 4" unfolding to_double_def e2 Let_def by (simp add: power_int_minus)
  then show ?thesis unfolding f by simp
qed

theorem simulation_setup_connected_witness:
  "\<exists>sim es. simulation_setup (\<lambda>_. Inl Out_Of_Range) (\<lambda>xs g. (xs, g)) (Suc 0) 4 Map.empty = Inr sim
    \<and> graph_net (\<lambda>_. 0) (net sim) \<and> length es = 100 \<and> distinct es \<and> connected 20 es
    \<and> selfish_ids sim = {} \<and> card (honest_ids sim) = 4"
proof -
  have b: "(1 :: int) \<le> 20" "(20 :: int) \<le> 2 ^ 25" "- (2 ^ 31) \<le> (100 :: int)" "(100 :: int) < 2 ^ 31"
    "edge_target 20 100 < 20 * (20 - 1) div 2" "0 \<le> to_double (1 / 5)" "to_double (real_of_int 20 * to_double (1 / 5)) < real_of_int 20"
    by (simp_all add: edge_target_def to_double_nonneg fifth)
  have f: "floor (to_double (real_of_int 20 * to_double (1 / 5))) = 4" by (simp add: fifth)
  have "\<exists>sim es. simulation_setup (\<lambda>_. Inl Out_Of_Range) (\<lambda>xs g. (xs, g)) (Suc 0) 4 Map.empty = Inr sim
    \<and> graph_net (\<lambda>_. 0) (net sim) \<and> int (length es) = edge_target 20 100 \<and> distinct es \<and> connected (nat 20) es
    \<and> (\<forall>i j. unat i < nat 20 \<longrightarrow> unat j < nat 20 \<longrightarrow>
         graph_can_send (net sim) i j = Inr ((i, j) \<in> set es \<or> (j, i) \<in> set es))
    \<and> selfish_ids sim = {} \<and> int (card (honest_ids sim)) = floor (to_double (real_of_int 20 * to_double (1 / 5)))"
    by (rule simulation_setup_connected [OF _ _ _ _ _ _ _ _ _ _ _ b])
      (simp_all add: config_get_def read_statics_def)
  then show ?thesis unfolding f by (auto simp: edge_target_def)
qed

text \<open>\<open>graph_gen\<close> reads a seed from its fourth argument and prints the same graph for every seed:
  the generators draw from the global generator, which is in its default state.\<close>

theorem graph_gen_ignores_seed:
  assumes "c_atoi s = Inr S" "c_atoi s' = Inr S'"
  shows "graph_gen_main [prog, kind, n, m, s] = graph_gen_main [prog, kind, n, m, s']
    \<and> graph_gen_main [prog, kind, n, m, s] = graph_gen_main [prog, kind, n, m]"
  using assms by (simp_all add: graph_gen_main_def)

theorem graph_gen_ignores_seed_witness:
  "graph_gen_main [''graph_gen'', ''erdos'', ''3'', ''2'', ''1''] = graph_gen_main [''graph_gen'', ''erdos'', ''3'', ''2'', ''42'']"
proof -
  have "c_atoi ''1'' = Inr 1" "c_atoi ''42'' = Inr 42" by code_simp+
  then show ?thesis by (rule graph_gen_ignores_seed [THEN conjunct1])
qed

end
