(* ===== verification/Queue_Bits.thy ===== *)
theory Queue_Bits
  imports Sim_Prelude
begin

text \<open>
  The arithmetic of the lock-free queue (\<open>include/concurrentqueue.hpp\<close>, namespace \<open>details\<close>) at
  64 bits: the comparison of indices that wrap around, rounding up to a power of two, and the hash of a
  thread's id.
\<close>

unbundle bit_operations_syntax

section \<open>The functions\<close>

definition circular_less_than :: "u64 \<Rightarrow> u64 \<Rightarrow> bool" where
  "circular_less_than a b \<longleftrightarrow> push_bit 63 1 < a - b"

definition smear :: "nat \<Rightarrow> u64 \<Rightarrow> u64" where
  "smear k x = x OR drop_bit k x"

text \<open>The loop runs for \<open>i\<close> = 1, 2 and 4 and shifts by \<open>8 * i\<close>.\<close>

definition ceil_to_pow_2 :: "u64 \<Rightarrow> u64" where
  "ceil_to_pow_2 x0 =
     (let x = x0 - 1; x = smear 1 x; x = smear 2 x; x = smear 4 x;
          x = fold (\<lambda>i. smear (push_bit 3 i)) [1, 2, 4] x
      in x + 1)"

definition xorshift :: "nat \<Rightarrow> u64 \<Rightarrow> u64" where
  "xorshift k h = h XOR drop_bit k h"

definition hash_thread_id :: "u64 \<Rightarrow> u64" where
  "hash_thread_id h0 =
     (let h = xorshift 33 h0; h = h * 0xff51afd7ed558ccd;
          h = xorshift 33 h; h = h * 0xc4ceb9fe1a85ec53
      in xorshift 33 h)"

section \<open>Indices that wrap around\<close>

lemma circular_less_than_ahead:
  assumes "d < 2 ^ 63"
  shows "circular_less_than a (a + of_nat d) \<longleftrightarrow> 0 < d"
proof (cases "d = 0")
  case False
  have "(of_nat (2 ^ 64 - d) :: u64) + of_nat d = of_nat (2 ^ 64 - d + d)" by (simp only: of_nat_add)
  also have "2 ^ 64 - d + d = 2 ^ LENGTH(64)" using assms by simp
  finally have "(of_nat (2 ^ 64 - d) :: u64) + of_nat d = 0" by (simp only: unsigned_of_nat word_of_nat_eq_0_iff) simp
  then have "- of_nat d = (of_nat (2 ^ 64 - d) :: u64)" by (metis add.commute minus_unique)
  moreover have "unat (of_nat (2 ^ 64 - d) :: u64) = 2 ^ 64 - d" using False by (intro unat_of_nat_u64) simp
  ultimately have "unat (- (of_nat d :: u64)) = 2 ^ 64 - d" by (simp only:)
  moreover have "(2 :: nat) ^ 63 < 2 ^ 64 - d" using assms by simp
  ultimately have "2 ^ 63 < unat (- (of_nat d :: u64))" by (simp only:)
  then show ?thesis using False by (simp add: circular_less_than_def word_less_nat_alt)
qed (simp add: circular_less_than_def)

lemma circular_less_than_behind:
  assumes "d \<le> 2 ^ 63"
  shows "\<not> circular_less_than (a + of_nat d) a"
  using assms by (simp add: circular_less_than_def word_less_nat_alt unat_of_nat_u64)

text \<open>The comparison decides the order of two indices less than \<open>2 ^ 63\<close> apart, also when the larger
  one has wrapped around.\<close>

theorem circular_less_than_correct:
  assumes "d < 2 ^ 63"
  shows "(circular_less_than a (a + of_nat d) \<longleftrightarrow> 0 < d) \<and> \<not> circular_less_than (a + of_nat d) a"
  using assms by (simp_all add: circular_less_than_ahead circular_less_than_behind)

theorem circular_less_than_correct_witness:
  "(circular_less_than (- 2) (- 2 + of_nat 5) \<longleftrightarrow> 0 < (5 :: nat)) \<and> \<not> circular_less_than (- 2 + of_nat 5) (- 2)"
  by (rule circular_less_than_correct) simp

section \<open>Powers of two\<close>

lemma smear_bits:
  assumes "\<And>n. bit y n \<longleftrightarrow> (\<exists>m. n \<le> m \<and> m < n + k \<and> bit x m)"
  shows "bit (smear k y) n \<longleftrightarrow> (\<exists>m. n \<le> m \<and> m < n + 2 * k \<and> bit x m)"
proof -
  have "bit (smear k y) n \<longleftrightarrow> bit y n \<or> bit y (k + n)" by (simp add: smear_def bit_or_iff bit_drop_bit_eq)
  also have "\<dots> \<longleftrightarrow> (\<exists>m. n \<le> m \<and> m < n + 2 * k \<and> bit x m)"
  proof
    assume "bit y n \<or> bit y (k + n)"
    then obtain m where "n \<le> m \<and> m < n + k \<and> bit x m \<or> k + n \<le> m \<and> m < k + n + k \<and> bit x m" unfolding assms by blast
    then show "\<exists>m. n \<le> m \<and> m < n + 2 * k \<and> bit x m" by (intro exI [of _ m]) auto
  next
    assume "\<exists>m. n \<le> m \<and> m < n + 2 * k \<and> bit x m"
    then obtain m where m: "n \<le> m" "m < n + 2 * k" "bit x m" by blast
    show "bit y n \<or> bit y (k + n)"
    proof (cases "m < n + k")
      case False
      then show ?thesis unfolding assms using m by (intro disjI2 exI [of _ m]) simp
    qed (use m assms in blast)
  qed
  finally show ?thesis .
qed

lemma ceil_to_pow_2_bits:
  "\<exists>y. ceil_to_pow_2 x = y + 1 \<and> (\<forall>n. bit y n \<longleftrightarrow> (\<exists>m \<ge> n. bit (x - 1) m))"
proof -
  let ?w = "x - 1"
  let ?y = "smear 32 (smear 16 (smear 8 (smear 4 (smear 2 (smear 1 ?w)))))"
  have "bit ?w n \<longleftrightarrow> (\<exists>m. n \<le> m \<and> m < n + 1 \<and> bit ?w m)" for n by (metis Suc_eq_plus1 le_antisym less_Suc_eq_le order_refl)
  note s = smear_bits [OF smear_bits [OF smear_bits [OF smear_bits [OF smear_bits [OF smear_bits [OF this]]]]]]
  have "bit ?y n \<longleftrightarrow> (\<exists>m \<ge> n. bit ?w m)" for n
  proof
    assume "\<exists>m \<ge> n. bit ?w m"
    then obtain m where m: "n \<le> m" "bit ?w m" by blast
    then have "m < 64" using bit_imp_le_length [OF m(2)] by simp
    then show "bit ?y n" using s [of n] m by auto
  qed (use s [of n] in auto)
  moreover have "ceil_to_pow_2 x = ?y + 1" by (simp add: ceil_to_pow_2_def Let_def push_bit_eq_mult)
  ultimately show ?thesis by blast
qed

lemma bit_le_unat: "bit (w :: u64) n \<Longrightarrow> 2 ^ n \<le> unat w"
proof -
  assume "bit w n"
  then have "odd (unat w div 2 ^ n)" by (simp add: bit_iff_odd [symmetric] bit_unsigned_iff)
  then have "unat w div 2 ^ n \<noteq> 0" by (metis even_zero)
  then show ?thesis by (simp add: div_eq_0_iff)
qed

lemma unat_less_bits: "(\<And>n. bit (w :: u64) n \<Longrightarrow> n < k) \<Longrightarrow> unat w < 2 ^ k"
proof -
  assume less: "\<And>n. bit w n \<Longrightarrow> n < k"
  have "take_bit k (unat w) = unat w"
    by (rule bit_eqI) (use less in \<open>auto simp: bit_take_bit_iff bit_unsigned_iff\<close>)
  then show ?thesis by (metis take_bit_nat_less_exp)
qed

text \<open>\<open>ceil_to_pow_2\<close> is the least power of two that is not smaller, where there is one at this width.\<close>

theorem ceil_to_pow_2_correct:
  assumes "0 < x" "x \<le> 2 ^ 63"
  shows "\<exists>k. k < 64 \<and> ceil_to_pow_2 x = 2 ^ k \<and> x \<le> 2 ^ k \<and> (\<forall>j < 64. x \<le> 2 ^ j \<longrightarrow> k \<le> j)"
proof -
  obtain y where y: "ceil_to_pow_2 x = y + 1" "\<And>n. bit y n \<longleftrightarrow> (\<exists>m \<ge> n. bit (x - 1) m)"
    using ceil_to_pow_2_bits [of x] by blast
  let ?S = "{m. bit (x - 1) m}"
  have fin: "?S \<subseteq> {..<64}" using bit_imp_le_length by force
  define k where "k = (if ?S = {} then 0 else Suc (Max ?S))"
  have bits: "bit y n \<longleftrightarrow> n < k" for n
  proof (cases "?S = {}")
    case True
    then show ?thesis by (simp add: y(2) k_def)
  next
    case False
    have "finite ?S" using fin finite_subset by blast
    then have "(\<exists>m \<ge> n. bit (x - 1) m) \<longleftrightarrow> n \<le> Max ?S"
      using False Max_ge [of ?S] Max_in [of ?S] by (metis (mono_tags, lifting) le_trans mem_Collect_eq)
    moreover have "k = Suc (Max ?S)" unfolding k_def using False by (rule if_not_P)
    ultimately show ?thesis by (simp only: y(2) less_Suc_eq_le)
  qed
  have pos: "0 < unat x" using assms(1) by (simp add: word_less_nat_alt)
  have one: "unat (x - 1) = unat x - 1" using pos by (subst unat_sub_le) (simp_all add: word_le_nat_alt)
  have least: "k \<le> j" if "x \<le> 2 ^ j" "j < 64" for j
  proof (rule ccontr)
    assume "\<not> k \<le> j"
    then have S: "?S \<noteq> {}" and j: "j \<le> Max ?S" by (auto simp: k_def split: if_splits)
    have "finite ?S" using fin finite_subset by blast
    then have "bit (x - 1) (Max ?S)" using Max_in [OF _ S] by simp
    then have "2 ^ Max ?S \<le> unat (x - 1)" by (rule bit_le_unat)
    moreover have "(2 :: nat) ^ j \<le> 2 ^ Max ?S" using j by (intro power_increasing) simp_all
    moreover have "unat x \<le> 2 ^ j" using that by (simp add: word_le_nat_alt unat_2p)
    ultimately have "unat x \<le> unat (x - 1)" by linarith
    then show False using one pos by simp
  qed
  have k: "k < 64" using least [of 63] assms(2) by simp
  have "y = mask k" by (rule bit_word_eqI) (use k in \<open>auto simp: bits bit_mask_iff\<close>)
  then have "ceil_to_pow_2 x = 2 ^ k" using y(1) by (simp add: mask_eq_exp_minus_1)
  moreover have "unat (x - 1) < 2 ^ k"
  proof (rule unat_less_bits)
    fix n
    assume "bit (x - 1) n"
    then show "n < k" using bits [of n] y(2) [of n] by blast
  qed
  then have "x \<le> 2 ^ k" using one pos k by (simp add: word_le_nat_alt unat_2p)
  ultimately show ?thesis using k least by blast
qed

theorem ceil_to_pow_2_correct_witness:
  "\<exists>k. k < 64 \<and> ceil_to_pow_2 33 = 2 ^ k \<and> 33 \<le> (2 :: u64) ^ k \<and> (\<forall>j < 64. 33 \<le> (2 :: u64) ^ j \<longrightarrow> k \<le> j)"
  by (rule ceil_to_pow_2_correct) (simp_all add: word_le_nat_alt)

section \<open>The hash\<close>

lemma xorshift_involution: "32 \<le> k \<Longrightarrow> xorshift k (xorshift k h) = h"
proof -
  assume k: "32 \<le> k"
  have "drop_bit k (drop_bit k h) = 0"
    by (rule bit_word_eqI) (use k in \<open>auto simp: bit_drop_bit_eq dest: bit_imp_le_length\<close>)
  then show ?thesis by (simp add: xorshift_def drop_bit_xor xor.assoc)
qed

lemma xorshift_inj: "32 \<le> k \<Longrightarrow> xorshift k x = xorshift k y \<Longrightarrow> x = y"
  by (metis xorshift_involution)

lemma times_inj:
  assumes "(c :: u64) * d = 1" "x * c = y * c"
  shows "x = y"
proof -
  have "x * (c * d) = y * (c * d)" unfolding mult.assoc [symmetric] assms(2) ..
  then show ?thesis unfolding assms(1) by (simp only: mult_1_right)
qed

text \<open>Different threads have different hashes: the finaliser permutes the 64-bit words.\<close>

theorem hash_thread_id_inj: "hash_thread_id x = hash_thread_id y \<longleftrightarrow> x = y"
proof
  assume "hash_thread_id x = hash_thread_id y"
  then have "xorshift 33 (xorshift 33 x * 0xff51afd7ed558ccd) * 0xc4ceb9fe1a85ec53
      = xorshift 33 (xorshift 33 y * 0xff51afd7ed558ccd) * 0xc4ceb9fe1a85ec53"
    unfolding hash_thread_id_def Let_def by (rule xorshift_inj [rotated]) simp
  then have "xorshift 33 (xorshift 33 x * 0xff51afd7ed558ccd) = xorshift 33 (xorshift 33 y * 0xff51afd7ed558ccd)"
    by (rule times_inj [rotated, where d = 11291846944257947611]) simp
  then have "xorshift 33 x * 0xff51afd7ed558ccd = xorshift 33 y * 0xff51afd7ed558ccd"
    by (rule xorshift_inj [rotated]) simp
  then have "xorshift 33 x = xorshift 33 y"
    by (rule times_inj [rotated, where d = 5725274745694666757]) simp
  then show "x = y" by (rule xorshift_inj [rotated]) simp
qed simp

end
