(* ===== verification/Queue_Block.thy ===== *)
theory Queue_Block
  imports Queue_Bits
begin

text \<open>
  A block of the lock-free queue (\<open>struct Block\<close>, \<open>include/concurrentqueue.hpp\<close>): 32 slots and the
  bookkeeping of those already dequeued, a flag per slot or one counter, by the kind of producer.
  The assertions of the code are no branches of the model.
\<close>

section \<open>The block\<close>

definition block_size :: nat where "block_size = 32"
definition counter_threshold :: nat where "counter_threshold = 32"

datatype queue_context = Implicit_Context | Explicit_Context

text \<open>Statements about every kind of producer can be evaluated.\<close>

instantiation queue_context :: enum
begin

definition enum_queue_context :: "queue_context list" where
  "enum_queue_context = [Implicit_Context, Explicit_Context]"
definition enum_all_queue_context :: "(queue_context \<Rightarrow> bool) \<Rightarrow> bool" where
  "enum_all_queue_context P \<longleftrightarrow> P Implicit_Context \<and> P Explicit_Context"
definition enum_ex_queue_context :: "(queue_context \<Rightarrow> bool) \<Rightarrow> bool" where
  "enum_ex_queue_context P \<longleftrightarrow> P Implicit_Context \<or> P Explicit_Context"

instance
proof
  have all: "x = Implicit_Context \<or> x = Explicit_Context" for x by (cases x) simp_all
  show "(UNIV :: queue_context set) = set enum_class.enum" using all by (auto simp: enum_queue_context_def)
  show "distinct (enum_class.enum :: queue_context list)" by (simp add: enum_queue_context_def)
  show "enum_class.enum_all P \<longleftrightarrow> Ball UNIV P" for P :: "queue_context \<Rightarrow> bool"
    by (metis UNIV_I all enum_all_queue_context_def)
  show "enum_class.enum_ex P \<longleftrightarrow> Bex UNIV P" for P :: "queue_context \<Rightarrow> bool"
    by (metis UNIV_I all enum_ex_queue_context_def)
qed

end

text \<open>A slot holds an element between its construction and its destruction.\<close>

record qblock =
  slots :: "u64 option list"
  completely_dequeued :: u64
  empty_flags :: "bool list"
  dynamically_allocated :: bool

definition qblock_new :: qblock where
  "qblock_new = \<lparr>slots = replicate block_size None, completely_dequeued = 0,
     empty_flags = replicate (if block_size \<le> counter_threshold then block_size else 1) False,
     dynamically_allocated = True\<rparr>"

definition slot_of :: "u64 \<Rightarrow> nat" where
  "slot_of i = unat (i AND of_nat (block_size - 1))"

definition by_flags :: "queue_context \<Rightarrow> bool" where
  "by_flags ctx \<longleftrightarrow> ctx = Explicit_Context \<and> block_size \<le> counter_threshold"

definition block_is_empty :: "queue_context \<Rightarrow> qblock \<Rightarrow> bool" where
  "block_is_empty ctx b =
     (if by_flags ctx then \<forall>i \<in> set [0..<block_size]. empty_flags b ! i
      else completely_dequeued b = of_nat block_size)"

definition set_empty :: "queue_context \<Rightarrow> u64 \<Rightarrow> qblock \<Rightarrow> qblock \<times> bool" where
  "set_empty ctx i b =
     (if by_flags ctx then (b\<lparr>empty_flags := (empty_flags b)[block_size - 1 - slot_of i := True]\<rparr>, False)
      else (b\<lparr>completely_dequeued := completely_dequeued b + 1\<rparr>,
            completely_dequeued b = of_nat (block_size - 1)))"

definition set_many_empty :: "queue_context \<Rightarrow> u64 \<Rightarrow> u64 \<Rightarrow> qblock \<Rightarrow> qblock \<times> bool" where
  "set_many_empty ctx i n b =
     (if by_flags ctx then
        (let i = of_nat (block_size - 1) - of_nat (slot_of i) - n + 1 in
         (b\<lparr>empty_flags := fold (\<lambda>j fs. fs[unat (i + of_nat j) := True]) [0..<unat n] (empty_flags b)\<rparr>, False))
      else (b\<lparr>completely_dequeued := completely_dequeued b + n\<rparr>,
            completely_dequeued b + n = of_nat block_size))"

definition set_all_empty :: "queue_context \<Rightarrow> qblock \<Rightarrow> qblock" where
  "set_all_empty ctx b =
     (if by_flags ctx then b\<lparr>empty_flags := fold (\<lambda>i fs. fs[i := True]) [0..<block_size] (empty_flags b)\<rparr>
      else b\<lparr>completely_dequeued := of_nat block_size\<rparr>)"

definition reset_empty :: "queue_context \<Rightarrow> qblock \<Rightarrow> qblock" where
  "reset_empty ctx b =
     (if by_flags ctx then b\<lparr>empty_flags := fold (\<lambda>i fs. fs[i := False]) [0..<block_size] (empty_flags b)\<rparr>
      else b\<lparr>completely_dequeued := 0\<rparr>)"

definition block_put :: "u64 \<Rightarrow> u64 option \<Rightarrow> qblock \<Rightarrow> qblock" where
  "block_put i x b = b\<lparr>slots := (slots b)[slot_of i := x]\<rparr>"

definition block_at :: "qblock \<Rightarrow> u64 \<Rightarrow> u64 option" where
  "block_at b i = slots b ! slot_of i"

section \<open>Slots\<close>

lemma slot_of_mod: "slot_of i = unat i mod 32"
proof -
  have "(of_nat (block_size - 1) :: u64) = mask 5" by (simp add: block_size_def mask_eq_exp_minus_1)
  then have "i AND of_nat (block_size - 1) = take_bit 5 i" by (simp add: take_bit_eq_mask)
  then have "slot_of i = take_bit 5 (unat i)" by (simp only: slot_of_def unsigned_take_bit_eq)
  then show ?thesis by (simp add: take_bit_eq_mod)
qed

lemma slot_of_less [simp]: "slot_of i < block_size" "slot_of i < 32"
  by (simp_all add: slot_of_mod block_size_def)

lemma flags_kind [simp]: "by_flags ctx \<longleftrightarrow> ctx = Explicit_Context"
  by (simp add: by_flags_def block_size_def counter_threshold_def)

definition block_ok :: "qblock \<Rightarrow> bool" where
  "block_ok b \<longleftrightarrow> length (slots b) = block_size \<and> length (empty_flags b) = block_size"

lemma block_ok_flag [simp]: "block_ok (b\<lparr>dynamically_allocated := x\<rparr>) = block_ok b"
  by (simp add: block_ok_def)

lemma qblock_new_ok: "block_ok qblock_new"
  by (simp add: block_ok_def qblock_new_def block_size_def counter_threshold_def)

lemma fold_flags:
  "length (fold (\<lambda>i fs. fs[f i := v]) is fs) = length fs"
  "k < length fs \<Longrightarrow> fold (\<lambda>i fs. fs[f i := v]) is fs ! k = (if k \<in> f ` set is then v else fs ! k)"
  by (induction "is" arbitrary: fs) (auto simp: nth_list_update)

lemma block_ok_kept [simp]:
  "block_ok b \<Longrightarrow> block_ok (fst (set_empty ctx i b))" "block_ok b \<Longrightarrow> block_ok (fst (set_many_empty ctx i n b))"
  "block_ok b \<Longrightarrow> block_ok (reset_empty ctx b)" "block_ok b \<Longrightarrow> block_ok (set_all_empty ctx b)"
  "block_ok b \<Longrightarrow> block_ok (block_put i x b)"
  by (auto simp: block_ok_def set_empty_def set_many_empty_def reset_empty_def set_all_empty_def
      block_put_def Let_def fold_flags(1))

section \<open>Which slots are empty\<close>

text \<open>The blocks in which exactly the slots of a set have been marked, by either kind of bookkeeping.\<close>

definition marked :: "queue_context \<Rightarrow> nat set \<Rightarrow> qblock \<Rightarrow> bool" where
  "marked ctx s b \<longleftrightarrow> block_ok b \<and> s \<subseteq> {..<block_size}
     \<and> (if ctx = Explicit_Context then \<forall>k < block_size. empty_flags b ! k \<longleftrightarrow> block_size - 1 - k \<in> s
        else completely_dequeued b = of_nat (card s))"

lemma marked_reset: "block_ok b \<Longrightarrow> marked ctx {} (reset_empty ctx b)"
  by (auto simp: marked_def block_ok_def reset_empty_def fold_flags)

lemma marked_card: "marked ctx s b \<Longrightarrow> finite s" "marked ctx s b \<Longrightarrow> card s \<le> 32"
  using finite_subset [of s "{..<block_size}"] card_mono [of "{..<block_size}" s]
  by (auto simp: marked_def block_size_def)

lemma marked_empty:
  assumes "marked ctx s b"
  shows "block_is_empty ctx b \<longleftrightarrow> s = {..<block_size}"
proof (cases ctx)
  case Implicit_Context
  have "unat (of_nat (card s) :: u64) = card s" using marked_card(2) [OF assms] by (intro unat_of_nat_u64) simp
  then have "completely_dequeued b = of_nat block_size \<longleftrightarrow> card s = block_size"
    using assms Implicit_Context by (auto simp: marked_def block_size_def word_unat_eq_iff)
  also have "\<dots> \<longleftrightarrow> s = {..<block_size}"
    using assms card_subset_eq [of "{..<block_size}" s] by (auto simp: marked_def)
  finally show ?thesis using Implicit_Context by (simp add: block_is_empty_def)
next
  case Explicit_Context
  have "(\<forall>k < block_size. block_size - 1 - k \<in> s) \<longleftrightarrow> {..<block_size} \<subseteq> s"
  proof
    assume all: "\<forall>k < block_size. block_size - 1 - k \<in> s"
    show "{..<block_size} \<subseteq> s"
    proof
      fix k
      assume "k \<in> {..<block_size}"
      then show "k \<in> s" using all [rule_format, of "block_size - 1 - k"] by simp
    qed
  qed (auto simp: block_size_def)
  then show ?thesis using assms Explicit_Context by (auto simp: block_is_empty_def marked_def)
qed

lemma marked_set_empty:
  assumes "marked ctx s b" "slot_of i \<notin> s"
  shows "marked ctx (insert (slot_of i) s) (fst (set_empty ctx i b))"
    "snd (set_empty ctx i b) \<longleftrightarrow> ctx = Implicit_Context \<and> insert (slot_of i) s = {..<block_size}"
proof -
  let ?s = "insert (slot_of i) s"
  have card: "card ?s = Suc (card s)" using marked_card(1) [OF assms(1)] assms(2) by simp
  show m: "marked ctx ?s (fst (set_empty ctx i b))"
  proof (cases ctx)
    case Implicit_Context
    then show ?thesis using assms(1) card
      by (simp add: marked_def set_empty_def block_ok_def)
  next
    case Explicit_Context
    have "block_size - 1 - k = slot_of i \<longleftrightarrow> k = block_size - 1 - slot_of i" if "k < block_size" for k
      using that slot_of_less(1) [of i] by linarith
    then show ?thesis using assms(1) Explicit_Context
      by (auto simp: marked_def set_empty_def block_ok_def nth_list_update)
  qed
  show "snd (set_empty ctx i b) \<longleftrightarrow> ctx = Implicit_Context \<and> ?s = {..<block_size}"
  proof (cases ctx)
    case Implicit_Context
    have "unat (of_nat (card s) :: u64) = card s" using marked_card(2) [OF assms(1)] by (intro unat_of_nat_u64) simp
    then have "snd (set_empty ctx i b) \<longleftrightarrow> card ?s = block_size"
      using assms(1) Implicit_Context card by (auto simp: marked_def set_empty_def block_size_def word_unat_eq_iff)
    also have "\<dots> \<longleftrightarrow> ?s = {..<block_size}"
      using m card_subset_eq [of "{..<block_size}" ?s] by (auto simp: marked_def)
    finally show ?thesis using Implicit_Context by simp
  qed (simp add: set_empty_def)
qed

definition mark_slots :: "queue_context \<Rightarrow> u64 list \<Rightarrow> qblock \<Rightarrow> qblock" where
  "mark_slots ctx is b = fold (\<lambda>i b. fst (set_empty ctx i b)) is b"

lemma marked_many:
  "block_ok b \<Longrightarrow> distinct (map slot_of is) \<Longrightarrow> marked ctx (slot_of ` set is) (mark_slots ctx is (reset_empty ctx b))"
proof (induction "is" rule: rev_induct)
  case (snoc i "is")
  then show ?case using marked_set_empty(1) [of ctx "slot_of ` set is" _ i] by (auto simp: image_iff mark_slots_def)
qed (simp add: marked_reset mark_slots_def)

text \<open>A block that is reset and then has one slot after the other marked as dequeued is empty
  exactly when every slot has been: the flags of an explicit producer and the counter of an
  implicit one agree, and for the counter it is the last call that says so.\<close>

theorem block_bookkeeping_agrees:
  assumes "block_ok b" "block_ok b'" "distinct (map slot_of (is @ [i]))"
  shows "(block_is_empty Implicit_Context (mark_slots Implicit_Context (is @ [i]) (reset_empty Implicit_Context b))
        \<longleftrightarrow> slot_of ` set (is @ [i]) = {..<block_size})
    \<and> (block_is_empty Explicit_Context (mark_slots Explicit_Context (is @ [i]) (reset_empty Explicit_Context b'))
        \<longleftrightarrow> slot_of ` set (is @ [i]) = {..<block_size})
    \<and> (snd (set_empty Implicit_Context i (mark_slots Implicit_Context is (reset_empty Implicit_Context b)))
        \<longleftrightarrow> slot_of ` set (is @ [i]) = {..<block_size})"
proof -
  have "distinct (map slot_of is)" "slot_of i \<notin> slot_of ` set is" using assms(3) by auto
  then have last: "snd (set_empty Implicit_Context i (mark_slots Implicit_Context is (reset_empty Implicit_Context b)))
      \<longleftrightarrow> slot_of ` set (is @ [i]) = {..<block_size}"
    using marked_set_empty(2) [OF marked_many [OF assms(1)], of "is" i Implicit_Context] by simp
  show ?thesis
    by (intro conjI marked_empty [OF marked_many [OF assms(1,3)]] marked_empty [OF marked_many [OF assms(2,3)]] last)
qed

theorem block_bookkeeping_agrees_witness:
  "block_is_empty Implicit_Context (mark_slots Implicit_Context (map of_nat [0..<31] @ [31]) (reset_empty Implicit_Context qblock_new))"
proof -
  have slots: "map slot_of (map of_nat [0..<n]) = [0..<n]" if "n \<le> 32" for n
    using that by (intro nth_equalityI) (simp_all add: slot_of_mod unat_of_nat_u64)
  have last: "slot_of 31 = 31" by (simp add: slot_of_mod)
  let ?is = "map of_nat [0..<31] @ [31 :: u64]"
  have map: "map slot_of ?is = [0..<31] @ [31]" unfolding map_append using slots [of 31] last by (simp only: list.map)
  have "distinct ([0..<31] @ [31 :: nat])" by (simp only: distinct_append distinct_upt set_upt) simp
  then have dist: "distinct (map slot_of ?is)" unfolding map .
  have "slot_of ` set ?is = set (map slot_of ?is)" by (rule set_map [symmetric])
  also have "\<dots> = {..<block_size}" unfolding map by (simp only: set_append set_upt block_size_def) auto
  finally show ?thesis using block_bookkeeping_agrees [OF qblock_new_ok qblock_new_ok dist] by blast
qed

lemma set_all_empty_new:
  "\<forall>ctx. block_is_empty ctx (set_all_empty ctx qblock_new) \<and> \<not> block_is_empty ctx (reset_empty ctx (set_all_empty ctx qblock_new))"
  by code_simp

lemma slot_of_add:
  assumes "slot_of i + n < 32"
  shows "slot_of (i + of_nat n) = slot_of i + n"
proof -
  have "unat (i + of_nat n) = (unat i + unat (of_nat n :: u64)) mod 2 ^ 64" by (simp add: unat_word_ariths)
  also have "unat (of_nat n :: u64) = n" using assms by (intro unat_of_nat_u64) simp
  finally have "slot_of (i + of_nat n) = (unat i + n) mod 2 ^ 64 mod 32" by (simp only: slot_of_mod)
  also have "\<dots> = (unat i + n) mod 32" by (rule mod_mod_cancel) simp
  also have "\<dots> = (slot_of i + n) mod 32" by (simp add: slot_of_mod mod_simps)
  finally show ?thesis using assms by simp
qed

lemma mark_slots_explicit:
  "mark_slots Explicit_Context is b
    = b\<lparr>empty_flags := fold (\<lambda>i fs. fs[block_size - 1 - slot_of i := True]) is (empty_flags b)\<rparr>"
  unfolding mark_slots_def by (induction "is" arbitrary: b) (simp_all add: set_empty_def)

lemma mark_slots_implicit:
  "mark_slots Implicit_Context is b = b\<lparr>completely_dequeued := completely_dequeued b + of_nat (length is)\<rparr>"
  unfolding mark_slots_def by (induction "is" arbitrary: b) (simp_all add: set_empty_def add.assoc)

lemma marked_range:
  assumes "marked ctx s b" "slot_of i + n \<le> block_size" "{slot_of i..<slot_of i + n} \<inter> s = {}"
  shows "marked ctx (s \<union> {slot_of i..<slot_of i + n}) (mark_slots ctx (map (\<lambda>j. i + of_nat j) [0..<n]) b)"
  using assms(2,3)
proof (induction n)
  case (Suc n)
  have m: "marked ctx (s \<union> {slot_of i..<slot_of i + n}) (mark_slots ctx (map (\<lambda>j. i + of_nat j) [0..<n]) b)"
  proof (rule Suc.IH)
    have "{slot_of i..<slot_of i + n} \<subseteq> {slot_of i..<slot_of i + Suc n}" by auto
    then show "{slot_of i..<slot_of i + n} \<inter> s = {}" using Suc.prems(2) by blast
  qed (use Suc.prems(1) in simp)
  have slot: "slot_of (i + of_nat n) = slot_of i + n" using Suc.prems(1) by (intro slot_of_add) (simp add: block_size_def)
  moreover have "slot_of i + n \<notin> s \<union> {slot_of i..<slot_of i + n}"
    using Suc.prems(2) [unfolded disjoint_iff, rule_format, of "slot_of i + n"] by simp
  moreover have "insert (slot_of i + n) (s \<union> {slot_of i..<slot_of i + n}) = s \<union> {slot_of i..<slot_of i + Suc n}" by auto
  ultimately show ?case using marked_set_empty(1) [OF m, of "i + of_nat n"] by (simp add: mark_slots_def)
qed (simp add: mark_slots_def assms(1))

lemma set_many_empty_marks:
  assumes "block_ok b" "slot_of i + n \<le> block_size" "0 < n"
  shows "fst (set_many_empty ctx i (of_nat n) b) = mark_slots ctx (map (\<lambda>j. i + of_nat j) [0..<n]) b"
proof (cases ctx)
  case Implicit_Context
  then show ?thesis by (simp add: set_many_empty_def mark_slots_implicit)
next
  case Explicit_Context
  have n: "unat (of_nat n :: u64) = n" using assms(2) by (intro unat_of_nat_u64) (simp add: block_size_def)
  define base :: u64 where "base = of_nat (block_size - 1) - of_nat (slot_of i) - of_nat n + 1"
  have base: "base = of_nat (block_size - slot_of i - n)"
  proof -
    have "base + (of_nat (slot_of i) + of_nat n) = of_nat block_size" by (simp add: block_size_def base_def)
    moreover have "(of_nat (block_size - slot_of i - n) :: u64) + (of_nat (slot_of i) + of_nat n) = of_nat block_size"
      using assms(2) by (simp flip: of_nat_add)
    ultimately show ?thesis by (metis add_right_cancel)
  qed
  have at: "unat (base + of_nat j) = block_size - slot_of i - n + j" if "j < n" for j
  proof -
    have "base + of_nat j = of_nat (block_size - slot_of i - n + j)" unfolding base by simp
    moreover have "block_size - slot_of i - n + j < 2 ^ 64" using that assms(2) by (simp add: block_size_def)
    ultimately show ?thesis by (simp only: unat_of_nat_u64)
  qed
  let ?one = "fold (\<lambda>j fs. fs[unat (base + of_nat j) := True]) [0..<n] (empty_flags b)"
  let ?all = "fold (\<lambda>i fs. fs[block_size - 1 - slot_of i := True]) (map (\<lambda>j. i + of_nat j) [0..<n]) (empty_flags b)"
  have "?one = ?all"
  proof (rule nth_equalityI)
    fix k
    assume "k < length ?one"
    then have k: "k < length (empty_flags b)" by (simp add: fold_flags(1))
    have "(\<lambda>j. unat (base + of_nat j)) ` {0..<n} = {block_size - slot_of i - n..<block_size - slot_of i}"
    proof -
      have "(\<lambda>j. unat (base + of_nat j)) ` {0..<n} = (\<lambda>j. block_size - slot_of i - n + j) ` {0..<n}"
        by (rule image_cong) (simp_all add: at)
      also have "\<dots> = {block_size - slot_of i - n..<block_size - slot_of i - n + n}"
        by (simp add: add.commute)
      finally show ?thesis using assms(2) by simp
    qed
    moreover have "(\<lambda>i. block_size - 1 - slot_of i) ` (\<lambda>j. i + of_nat j) ` {0..<n}
        = {block_size - slot_of i - n..<block_size - slot_of i}"
    proof -
      have "slot_of (i + of_nat j) = slot_of i + j" if "j < n" for j
        using that assms(2) by (intro slot_of_add) (simp add: block_size_def)
      then have "(\<lambda>i. block_size - 1 - slot_of i) ` (\<lambda>j. i + of_nat j) ` {0..<n} = (\<lambda>j. block_size - 1 - slot_of i - j) ` {0..<n}"
        unfolding image_image by (intro image_cong) simp_all
      also have "\<dots> = {block_size - slot_of i - n..<block_size - slot_of i}"
      proof (intro equalityI subsetI)
        fix x
        assume x: "x \<in> {block_size - slot_of i - n..<block_size - slot_of i}"
        then show "x \<in> (\<lambda>j. block_size - 1 - slot_of i - j) ` {0..<n}"
          using assms(2) by (intro image_eqI [of _ _ "block_size - 1 - slot_of i - x"]) auto
      qed (use assms(2) in auto)
      finally show ?thesis .
    qed
    ultimately show "?one ! k = ?all ! k" using k by (simp add: fold_flags(2))
  qed (simp add: fold_flags(1))
  then show ?thesis using Explicit_Context n by (simp add: set_many_empty_def mark_slots_explicit Let_def base_def)
qed

text \<open>Marking several slots at once, when they stay within the block, is marking them one after the
  other, with the answer of the last mark.\<close>

theorem set_many_empty_correct:
  assumes "marked ctx s b" "slot_of i + n \<le> block_size" "0 < n" "{slot_of i..<slot_of i + n} \<inter> s = {}"
  shows "fst (set_many_empty ctx i (of_nat n) b) = mark_slots ctx (map (\<lambda>j. i + of_nat j) [0..<n]) b
    \<and> marked ctx (s \<union> {slot_of i..<slot_of i + n}) (fst (set_many_empty ctx i (of_nat n) b))
    \<and> (snd (set_many_empty ctx i (of_nat n) b)
        \<longleftrightarrow> ctx = Implicit_Context \<and> s \<union> {slot_of i..<slot_of i + n} = {..<block_size})"
proof -
  have ok: "block_ok b" using assms(1) by (simp add: marked_def)
  note eq = set_many_empty_marks [OF ok assms(2,3), of ctx]
  have m: "marked ctx (s \<union> {slot_of i..<slot_of i + n}) (fst (set_many_empty ctx i (of_nat n) b))"
    unfolding eq using marked_range [OF assms(1,2,4)] .
  have "snd (set_many_empty ctx i (of_nat n) b) \<longleftrightarrow> ctx = Implicit_Context \<and> block_is_empty ctx (fst (set_many_empty ctx i (of_nat n) b))"
    by (cases ctx) (simp_all add: set_many_empty_def block_is_empty_def)
  then show ?thesis using eq m marked_empty [OF m] by blast
qed

theorem set_many_empty_correct_witness:
  "snd (set_many_empty Implicit_Context 64 (of_nat 32) (reset_empty Implicit_Context qblock_new))"
proof -
  have "slot_of 64 = 0" by (simp add: slot_of_mod)
  then show ?thesis
    using set_many_empty_correct [OF marked_reset [OF qblock_new_ok], of 64 32 Implicit_Context]
    by (auto simp: block_size_def)
qed

end
