(* ===== verification/Queue_Index.thy ===== *)
theory Queue_Index
  imports Queue_Block
begin

text \<open>
  Where the implicit producers of the lock-free queue get their blocks and how they find them again
  (\<open>include/concurrentqueue.hpp\<close>): the pool of blocks that all producers share, and the block index
  of one producer, a ring of entries from the first element of a block to the block. Memory may run out.
  The code is read as one thread executes it. Blocks and entries are numbers, their addresses.
\<close>

section \<open>The pool\<close>

text \<open>
  \<open>mallocs\<close> tells which of the next allocations succeed; after its end all do. \<open>garbage\<close> is what memory
  holds that nobody has written.
\<close>

record pool =
  qblocks :: "qblock list"
  pool_size :: u64
  pool_index :: u64
  free_list :: "nat list"
  mallocs :: "bool list"
  garbage :: "nat option"

datatype alloc_mode = Can_Alloc | Cannot_Alloc

definition alloc :: "pool \<Rightarrow> bool \<times> pool" where
  "alloc m = (case mallocs m of [] \<Rightarrow> (True, m) | b # bs \<Rightarrow> (b, m\<lparr>mallocs := bs\<rparr>))"

definition new_block :: "pool \<Rightarrow> nat option \<times> pool" where
  "new_block m = (case alloc m of (ok, m) \<Rightarrow>
     if ok then (Some (length (qblocks m)), m\<lparr>qblocks := qblocks m @ [qblock_new]\<rparr>) else (None, m))"

definition populate :: "u64 \<Rightarrow> pool \<Rightarrow> pool" where
  "populate n m =
     (if n = 0 then m\<lparr>pool_size := 0\<rparr>
      else (case alloc m of (ok, m) \<Rightarrow>
        if ok then m\<lparr>qblocks := replicate (unat n) (qblock_new\<lparr>dynamically_allocated := False\<rparr>), pool_size := n\<rparr> else m\<lparr>pool_size := 0\<rparr>))"

definition from_initial_pool :: "pool \<Rightarrow> nat option \<times> pool" where
  "from_initial_pool m =
     (if pool_index m \<ge> pool_size m then (None, m)
      else (if pool_index m < pool_size m then Some (unat (pool_index m)) else None, m\<lparr>pool_index := pool_index m + 1\<rparr>))"

definition add_to_free_list :: "nat \<Rightarrow> pool \<Rightarrow> pool" where
  "add_to_free_list b m = m\<lparr>free_list := b # free_list m\<rparr>"

definition from_free_list :: "pool \<Rightarrow> nat option \<times> pool" where
  "from_free_list m = (case free_list m of [] \<Rightarrow> (None, m) | b # bs \<Rightarrow> (Some b, m\<lparr>free_list := bs\<rparr>))"

definition requisition_block :: "alloc_mode \<Rightarrow> pool \<Rightarrow> nat option \<times> pool" where
  "requisition_block mode m =
     (case from_initial_pool m of
        (Some b, m) \<Rightarrow> (Some b, m)
      | (None, m) \<Rightarrow>
          (case from_free_list m of
             (Some b, m) \<Rightarrow> (Some b, m)
           | (None, m) \<Rightarrow> if mode = Can_Alloc then new_block m else (None, m)))"

section \<open>The block index\<close>

record index_entry =
  entry_key :: u64
  entry_value :: "nat option"

text \<open>\<open>hdr_index\<close> are the addresses of entries; two headers share the entries of the older one.\<close>

record index_header =
  hdr_capacity :: u64
  hdr_tail :: u64
  hdr_index :: "nat list"

record producer =
  tail_index :: u64
  head_index :: u64
  optimistic_count :: u64
  overcommit :: u64
  tail_block :: "nat option"
  next_capacity :: u64
  block_index :: "index_header option"
  entries :: "index_entry list"

definition invalid_base :: u64 where "invalid_base = 1"
definition initial_index_size :: u64 where "initial_index_size = 32"

text \<open>The position after \<open>pos\<close> in a ring of \<open>capacity\<close> positions, a power of two.\<close>

definition ring_next :: "index_header \<Rightarrow> u64 \<Rightarrow> u64" where
  "ring_next h pos = (pos + 1) AND (hdr_capacity h - 1)"

text \<open>The addresses in the old index, from the one behind the tail up to the tail.\<close>

fun copy_index :: "nat \<Rightarrow> index_header \<Rightarrow> u64 \<Rightarrow> nat list res" where
  "copy_index 0 h pos = Inl No_Return"
| "copy_index (Suc fuel) h pos =
     (let pos = ring_next h pos; a = hdr_index h ! unat pos in
      if pos = hdr_tail h then Inr [a] else bind_res (copy_index fuel h pos) (\<lambda>as. Inr (a # as)))"

definition new_block_index :: "producer \<Rightarrow> pool \<Rightarrow> (bool \<times> producer \<times> pool) res" where
  "new_block_index p m =
     (let prev_capacity = (case block_index p of None \<Rightarrow> 0 | Some h \<Rightarrow> hdr_capacity h);
          entry_count = (case block_index p of None \<Rightarrow> next_capacity p | Some h \<Rightarrow> prev_capacity) in
      case alloc m of (ok, m) \<Rightarrow>
        if \<not> ok then Inr (False, p, m)
        else bind_res (case block_index p of None \<Rightarrow> Inr []
                       | Some h \<Rightarrow> copy_index (unat (hdr_capacity h)) h (hdr_tail h))
          (\<lambda>old. let a = length (entries p) in
             Inr (True, p\<lparr>entries := entries p @ replicate (unat entry_count) \<lparr>entry_key = invalid_base, entry_value = garbage m\<rparr>,
               block_index := Some \<lparr>hdr_capacity = next_capacity p, hdr_tail = (prev_capacity - 1) AND (next_capacity p - 1),
                 hdr_index = old @ [a..<a + unat entry_count]\<rparr>,
               next_capacity := push_bit 1 (next_capacity p)\<rparr>, m)))"

definition producer_new :: "pool \<Rightarrow> (producer \<times> pool) res" where
  "producer_new m =
     bind_res (new_block_index \<lparr>tail_index = 0, head_index = 0, optimistic_count = 0, overcommit = 0, tail_block = None,
       next_capacity = initial_index_size, block_index = None, entries = []\<rparr> m) (\<lambda>(_, p, m). Inr (p, m))"

definition set_key :: "nat \<Rightarrow> u64 \<Rightarrow> producer \<Rightarrow> producer" where
  "set_key a k p = p\<lparr>entries := (entries p)[a := (entries p ! a)\<lparr>entry_key := k\<rparr>]\<rparr>"

definition set_value :: "nat \<Rightarrow> nat option \<Rightarrow> producer \<Rightarrow> producer" where
  "set_value a v p = p\<lparr>entries := (entries p)[a := (entries p ! a)\<lparr>entry_value := v\<rparr>]\<rparr>"

definition null_index :: exn where "null_index = UB ''null pointer blockIndex''"

text \<open>The entry behind the tail becomes the tail, with the given key.\<close>

definition claim_entry :: "index_header \<Rightarrow> u64 \<Rightarrow> producer \<Rightarrow> nat \<times> producer" where
  "claim_entry h start p =
     (let new_tail = ring_next h (hdr_tail h); a = hdr_index h ! unat new_tail in
      (a, (set_key a start p)\<lparr>block_index := Some (h\<lparr>hdr_tail := new_tail\<rparr>)\<rparr>))"

definition insert_entry :: "alloc_mode \<Rightarrow> u64 \<Rightarrow> producer \<Rightarrow> pool \<Rightarrow> (nat option \<times> producer \<times> pool) res" where
  "insert_entry mode start p m =
     (case block_index p of None \<Rightarrow> Inl null_index
      | Some h \<Rightarrow>
          (let a = hdr_index h ! unat (ring_next h (hdr_tail h)) in
           if entry_key (entries p ! a) = invalid_base \<or> entry_value (entries p ! a) = None
           then (case claim_entry h start p of (a, p) \<Rightarrow> Inr (Some a, p, m))
           else if mode = Cannot_Alloc then Inr (None, p, m)
           else bind_res (new_block_index p m) (\<lambda>(ok, p, m).
             if \<not> ok then Inr (None, p, m)
             else (case block_index p of None \<Rightarrow> Inl null_index
               | Some h \<Rightarrow> (case claim_entry h start p of (a, p) \<Rightarrow> Inr (Some a, p, m))))))"

definition rewind_tail :: "producer \<Rightarrow> producer res" where
  "rewind_tail p = (case block_index p of None \<Rightarrow> Inl null_index
     | Some h \<Rightarrow> Inr (p\<lparr>block_index := Some (h\<lparr>hdr_tail := (hdr_tail h - 1) AND (hdr_capacity h - 1)\<rparr>)\<rparr>))"

text \<open>The index of the first element of the block of an element.\<close>

definition base_of :: "u64 \<Rightarrow> u64" where
  "base_of i = i AND NOT (of_nat (block_size - 1))"

text \<open>\<open>BLOCK_SIZE\<close> is unsigned, so the division is.\<close>

definition index_pos :: "index_header \<Rightarrow> u64 \<Rightarrow> producer \<Rightarrow> u64" where
  "index_pos h i p =
     (let tail_base = entry_key (entries p ! (hdr_index h ! unat (hdr_tail h)));
          offset = (base_of i - tail_base) div of_nat block_size
      in (hdr_tail h + offset) AND (hdr_capacity h - 1))"

definition entry_for :: "u64 \<Rightarrow> producer \<Rightarrow> nat res" where
  "entry_for i p = (case block_index p of None \<Rightarrow> Inl null_index
     | Some h \<Rightarrow> Inr (hdr_index h ! unat (index_pos h i p)))"

section \<open>The index as a list\<close>

text \<open>
  The entries from the tail backwards: the first is that of the newest block. The capacity is a power
  of two and the header names each entry once.
\<close>

definition ring_pos :: "nat \<Rightarrow> nat \<Rightarrow> nat \<Rightarrow> nat" where
  "ring_pos cap tail d = (tail + cap - d) mod cap"

definition addr_at :: "index_header \<Rightarrow> nat \<Rightarrow> nat" where
  "addr_at h d = hdr_index h ! ring_pos (unat (hdr_capacity h)) (unat (hdr_tail h)) d"

definition header_ok :: "index_header \<Rightarrow> producer \<Rightarrow> bool" where
  "header_ok h p \<longleftrightarrow> (\<exists>c. 5 \<le> c \<and> c \<le> 58 \<and> unat (hdr_capacity h) = 2 ^ c \<and> unat (next_capacity p) = 2 ^ Suc c)
     \<and> length (hdr_index h) = unat (hdr_capacity h) \<and> unat (hdr_tail h) < unat (hdr_capacity h)
     \<and> distinct (hdr_index h) \<and> set (hdr_index h) \<subseteq> {..<length (entries p)}"

definition index_view :: "producer \<Rightarrow> index_entry list" where
  "index_view p = (case block_index p of None \<Rightarrow> []
     | Some h \<Rightarrow> map (\<lambda>d. entries p ! addr_at h d) [0..<unat (hdr_capacity h)])"

definition index_ok :: "producer \<Rightarrow> bool" where
  "index_ok p \<longleftrightarrow> (\<exists>h. block_index p = Some h \<and> header_ok h p)"

lemma index_okE:
  assumes "index_ok p"
  obtains h c where "block_index p = Some h" "header_ok h p" "5 \<le> c" "c \<le> 58" "unat (hdr_capacity h) = 2 ^ c"
    "unat (next_capacity p) = 2 ^ Suc c" "length (hdr_index h) = 2 ^ c" "unat (hdr_tail h) < 2 ^ c"
    "distinct (hdr_index h)" "set (hdr_index h) \<subseteq> {..<length (entries p)}"
  using assms unfolding index_ok_def header_ok_def by metis

lemma and_capacity:
  assumes "unat (k :: u64) = 2 ^ c"
  shows "unat (w AND (k - 1)) = unat w mod 2 ^ c"
proof -
  have c: "c < 64"
  proof (rule ccontr)
    assume "\<not> c < 64"
    then have "(2 :: nat) ^ 64 \<le> 2 ^ c" by (intro power_increasing) simp_all
    then show False using assms unat_u64_less [of k] by simp
  qed
  then have "k = 2 ^ c" using assms by (simp add: word_unat_eq_iff unat_2p)
  then have "w AND (k - 1) = take_bit c w" by (simp only: take_bit_eq_mask mask_eq_exp_minus_1)
  moreover have "unat (take_bit c w) = take_bit c (unat w)" by (rule unsigned_take_bit_eq)
  ultimately show ?thesis by (metis take_bit_eq_mod)
qed

lemma ring_pos_less [simp]: "0 < cap \<Longrightarrow> ring_pos cap t d < cap"
  by (simp add: ring_pos_def)

lemma ring_pos_0 [simp]: "t < cap \<Longrightarrow> ring_pos cap t 0 = t"
  by (simp add: ring_pos_def)

lemma ring_pos_inj:
  assumes "ring_pos cap t d = ring_pos cap t e" "d < cap" "e < cap" "t < cap"
  shows "d = e"
proof -
  have pos: "ring_pos cap t d = (if d \<le> t then t - d else t + cap - d)" if "d < cap" for d
  proof (cases "d \<le> t")
    case True
    then have "ring_pos cap t d = (t - d + cap) mod cap" by (simp only: ring_pos_def diff_add_assoc2)
    also have "\<dots> = t - d" by (metis mod_add_self2 mod_less less_imp_diff_less assms(4))
    finally show ?thesis using True by simp
  qed (use that assms(4) in \<open>simp add: ring_pos_def\<close>)
  show ?thesis using assms(1-4) by (auto simp: pos split: if_splits)
qed

lemma addr_at_inj:
  assumes "header_ok h p" "d < unat (hdr_capacity h)" "e < unat (hdr_capacity h)"
  shows "addr_at h d = addr_at h e \<longleftrightarrow> d = e"
  using assms ring_pos_inj [of "unat (hdr_capacity h)" "unat (hdr_tail h)" d e]
  by (auto simp: header_ok_def addr_at_def nth_eq_iff_index_eq)

lemma addr_at_less:
  assumes "header_ok h p" "d < unat (hdr_capacity h)"
  shows "addr_at h d < length (entries p)"
proof -
  have "addr_at h d \<in> set (hdr_index h)"
    unfolding addr_at_def by (rule nth_mem) (use assms in \<open>auto simp: header_ok_def\<close>)
  then show ?thesis using assms(1) by (auto simp: header_ok_def)
qed

lemma index_view_eq:
  assumes "block_index p = Some h"
  shows "length (index_view p) = unat (hdr_capacity h)"
    "d < unat (hdr_capacity h) \<Longrightarrow> index_view p ! d = entries p ! addr_at h d"
  using assms by (simp_all add: index_view_def)

text \<open>Writing an entry of the index changes it in the list.\<close>

lemma view_write:
  assumes "block_index p = Some h" "header_ok h p" "d < unat (hdr_capacity h)"
    and "block_index p' = Some h" "entries p' = (entries p)[addr_at h d := e]" "next_capacity p' = next_capacity p"
  shows "index_view p' = (index_view p)[d := e]" "header_ok h p'"
proof -
  show "index_view p' = (index_view p)[d := e]"
  proof (rule nth_equalityI)
    fix j
    assume "j < length (index_view p')"
    then have j: "j < unat (hdr_capacity h)" using index_view_eq(1) [OF assms(4)] by simp
    then show "index_view p' ! j = (index_view p)[d := e] ! j"
      using index_view_eq [OF assms(1)] index_view_eq(2) [OF assms(4) j] addr_at_inj [OF assms(2,3) j]
        addr_at_less [OF assms(2) j] assms(3,5)
      by (auto simp: nth_list_update)
  qed (simp add: index_view_eq [OF assms(1)] index_view_eq [OF assms(4)])
  show "header_ok h p'" using assms by (simp add: header_ok_def)
qed

lemma set_value_view:
  assumes "index_ok p" "block_index p = Some h" "d < length (index_view p)"
  shows "index_ok (set_value (addr_at h d) v p)" "block_index (set_value (addr_at h d) v p) = Some h"
    "index_view (set_value (addr_at h d) v p) = (index_view p)[d := (index_view p ! d)\<lparr>entry_value := v\<rparr>]"
proof -
  have h: "header_ok h p" and d: "d < unat (hdr_capacity h)"
    using assms index_view_eq(1) [OF assms(2)] by (auto simp: index_ok_def)
  let ?p = "set_value (addr_at h d) v p"
  have p: "block_index ?p = Some h" "next_capacity ?p = next_capacity p"
    "entries ?p = (entries p)[addr_at h d := (index_view p ! d)\<lparr>entry_value := v\<rparr>]"
    using assms(2) index_view_eq(2) [OF assms(2) d] by (simp_all add: set_value_def)
  note w = view_write [OF assms(2) h d p(1,3,2)]
  show "index_ok ?p" "block_index ?p = Some h" "index_view ?p = (index_view p)[d := (index_view p ! d)\<lparr>entry_value := v\<rparr>]"
    using w p(1) by (auto simp: index_ok_def)
qed

text \<open>Moving the tail turns the list.\<close>

lemma ring_pos_turn:
  assumes "t < cap" "d < cap"
  shows "ring_pos cap (Suc t mod cap) (Suc d mod cap) = ring_pos cap t d"
proof (cases "Suc d = cap")
  case True
  then have "t + cap - d = Suc t" by linarith
  then show ?thesis using assms True by (simp add: ring_pos_def)
next
  case False
  show ?thesis
  proof (cases "Suc t = cap")
    case True
    then have "t + cap - d = cap - Suc d + cap" using assms by linarith
    then have "ring_pos cap t d = (cap - Suc d) mod cap" by (simp only: ring_pos_def mod_add_self2)
    then show ?thesis using True False assms by (simp add: ring_pos_def)
  next
    case t: False
    then show ?thesis using False assms by (simp add: ring_pos_def)
  qed
qed

lemma ring_next_unat:
  assumes "header_ok h p"
  shows "unat (ring_next h pos) = Suc (unat pos) mod unat (hdr_capacity h)"
proof -
  obtain c where c: "unat (hdr_capacity h) = 2 ^ c" "c \<le> 58" using assms by (auto simp: header_ok_def)
  have "unat (pos + 1) mod 2 ^ c = Suc (unat pos) mod 2 ^ c"
  proof -
    have "unat (pos + 1) = Suc (unat pos) mod 2 ^ 64" by (simp add: unat_word_ariths)
    moreover have "(2 :: nat) ^ c dvd 2 ^ 64" using c(2) by (intro le_imp_power_dvd) simp
    ultimately show ?thesis by (metis mod_mod_cancel)
  qed
  then show ?thesis using and_capacity [OF c(1), of "pos + 1"] c(1) by (simp add: ring_next_def)
qed

lemma rewind_unat:
  assumes "header_ok h p"
  shows "unat ((hdr_tail h - 1) AND (hdr_capacity h - 1)) = ring_pos (unat (hdr_capacity h)) (unat (hdr_tail h)) 1"
proof -
  obtain c where c: "unat (hdr_capacity h) = 2 ^ c" "c \<le> 58" using assms by (auto simp: header_ok_def)
  have t: "unat (hdr_tail h) < 2 ^ c" using assms c(1) by (simp add: header_ok_def)
  show ?thesis
  proof (cases "hdr_tail h = 0")
    case True
    have "0 < unat (hdr_capacity h)" using c(1) by simp
    then have "unat (hdr_capacity h - 1) = 2 ^ c - 1" using c(1) by (metis unat_gt_0 unat_minus_one)
    then show ?thesis using True c(1) by (simp add: ring_pos_def)
  next
    case False
    then have "unat (hdr_tail h - 1) = unat (hdr_tail h) - 1" "0 < unat (hdr_tail h)"
      by (simp_all add: unat_minus_one unat_gt_0)
    moreover have "(unat (hdr_tail h) - 1 + 2 ^ c) mod 2 ^ c = unat (hdr_tail h) - 1"
      using t by simp
    ultimately show ?thesis
      using and_capacity [OF c(1), of "hdr_tail h - 1"] c(1) t by (simp add: ring_pos_def)
  qed
qed

text \<open>Claiming the entry behind the tail: the oldest entry becomes the newest.\<close>

lemma claim_addr:
  assumes "header_ok h p" "d < unat (hdr_capacity h)"
  defines "h' \<equiv> h\<lparr>hdr_tail := ring_next h (hdr_tail h)\<rparr>"
  shows "addr_at h' (Suc d mod unat (hdr_capacity h)) = addr_at h d" "header_ok h' p"
proof -
  have t: "unat (hdr_tail h) < unat (hdr_capacity h)" using assms(1) by (simp add: header_ok_def)
  show "addr_at h' (Suc d mod unat (hdr_capacity h)) = addr_at h d"
    using ring_pos_turn [OF t assms(2)] ring_next_unat [OF assms(1), of "hdr_tail h"]
    by (simp add: addr_at_def h'_def)
  show "header_ok h' p"
    using assms(1) t ring_next_unat [OF assms(1), of "hdr_tail h"] by (auto simp: header_ok_def h'_def)
qed

lemma claim_view:
  assumes "index_ok p" "block_index p = Some h" "claim_entry h k p = (a, p')"
  shows "index_ok p' \<and> a = addr_at h (unat (hdr_capacity h) - 1)
    \<and> index_view p' = (last (index_view p))\<lparr>entry_key := k\<rparr> # butlast (index_view p)
    \<and> (\<exists>h'. block_index p' = Some h' \<and> addr_at h' 0 = a)"
proof -
  have ok: "header_ok h p" using assms(1,2) by (auto simp: index_ok_def)
  define cap where "cap = unat (hdr_capacity h)"
  let ?h = "h\<lparr>hdr_tail := ring_next h (hdr_tail h)\<rparr>"
  have cap: "0 < cap" using ok by (auto simp: header_ok_def cap_def)
  have a: "a = addr_at ?h 0" and p': "p' = (set_key a k p)\<lparr>block_index := Some ?h\<rparr>"
    using assms(3) ring_next_unat [OF ok, of "hdr_tail h"] cap
    by (auto simp: claim_entry_def Let_def addr_at_def cap_def)
  note turn = claim_addr [OF ok, folded cap_def]
  have last: "addr_at ?h 0 = addr_at h (cap - 1)" using turn(1) [of "cap - 1"] cap by simp
  have shifted: "addr_at ?h (Suc d) = addr_at h d" if "Suc d < cap" for d using turn(1) [of d] that by simp
  have ok': "header_ok ?h p" using turn(2) [of 0] cap by simp
  let ?q = "p\<lparr>block_index := Some ?h\<rparr>"
  have q: "block_index ?q = Some ?h" "header_ok ?h ?q" "0 < unat (hdr_capacity ?h)"
    "block_index p' = Some ?h" "entries p' = (entries ?q)[addr_at ?h 0 := (entries p ! a)\<lparr>entry_key := k\<rparr>]"
    "next_capacity p' = next_capacity ?q"
    using ok' cap by (simp_all add: p' a set_key_def header_ok_def cap_def)
  note w = view_write [OF q]
  have "index_view ?q = last (index_view p) # butlast (index_view p)"
  proof (rule nth_equalityI)
    have len: "length (index_view p) = cap" using index_view_eq(1) [OF assms(2)] by (simp add: cap_def)
    show "length (index_view ?q) = length (last (index_view p) # butlast (index_view p))"
      using index_view_eq(1) [OF q(1)] cap len by (simp add: cap_def)
    fix d
    assume "d < length (index_view ?q)"
    then have d: "d < cap" using index_view_eq(1) [OF q(1)] by (simp add: cap_def)
    have "last (index_view p) = entries p ! addr_at h (cap - 1)"
      using len cap index_view_eq(2) [OF assms(2), of "cap - 1"] by (subst last_conv_nth) (auto simp: cap_def)
    then show "index_view ?q ! d = (last (index_view p) # butlast (index_view p)) ! d"
      using index_view_eq(2) [OF q(1), of d] index_view_eq(2) [OF assms(2), of "d - 1"] d last shifted [of "d - 1"] len
      by (cases d) (simp_all add: cap_def nth_butlast)
  qed
  moreover have "entries p ! a = last (index_view p)"
    using calculation index_view_eq(2) [OF q(1,3)] a by simp
  ultimately have "index_view p' = (last (index_view p))\<lparr>entry_key := k\<rparr> # butlast (index_view p)"
    using w(1) by simp
  moreover have "index_ok p'" using w(2) q(4) by (auto simp: index_ok_def)
  moreover have "a = addr_at h (cap - 1)" using a last by simp
  moreover have "\<exists>h'. block_index p' = Some h' \<and> addr_at h' 0 = a" using q(4) a by simp
  ultimately show ?thesis by (simp add: cap_def)
qed

text \<open>Rewinding the tail undoes the turn.\<close>

lemma rewind_view:
  assumes "index_ok p"
  shows "\<exists>p'. rewind_tail p = Inr p' \<and> index_ok p' \<and> index_view p' = rotate1 (index_view p)
    \<and> (\<exists>h. block_index p' = Some h \<and> p' = p\<lparr>block_index := Some h\<rparr>
         \<and> addr_at h (length (index_view p) - 1) = addr_at (the (block_index p)) 0)"
proof -
  obtain h where h: "block_index p = Some h" "header_ok h p" using assms by (auto simp: index_ok_def)
  define cap where "cap = unat (hdr_capacity h)"
  let ?h = "h\<lparr>hdr_tail := (hdr_tail h - 1) AND (hdr_capacity h - 1)\<rparr>" and ?t = "unat (hdr_tail h)"
  let ?p = "p\<lparr>block_index := Some ?h\<rparr>"
  have cap: "0 < cap" "?t < cap" using h(2) by (auto simp: header_ok_def cap_def)
  have t: "unat ((hdr_tail h - 1) AND (hdr_capacity h - 1)) = ring_pos cap ?t 1"
    using rewind_unat [OF h(2)] by (simp add: cap_def)
  have again: "Suc (ring_pos cap ?t 1) mod cap = ?t"
  proof (cases ?t)
    case (Suc k)
    then have "ring_pos cap ?t 1 = (k + cap) mod cap" by (simp add: ring_pos_def)
    then have "ring_pos cap ?t 1 = k" using Suc cap by simp
    then show ?thesis using Suc cap by simp
  qed (use cap in \<open>simp add: ring_pos_def\<close>)
  have turn: "addr_at ?h d = addr_at h (Suc d mod cap)"
    if "d < cap" for d
    using ring_pos_turn [of "ring_pos cap ?t 1" cap d] that cap(1) again t by (simp add: addr_at_def cap_def)
  have ok: "index_ok ?p"
    using h(2) t cap(1) by (auto simp: index_ok_def header_ok_def cap_def)
  have "index_view ?p = rotate1 (index_view p)"
  proof (rule nth_equalityI)
    have len: "length (index_view ?p) = cap" "length (index_view p) = cap"
      using index_view_eq(1) [OF h(1)] index_view_eq(1) [of ?p ?h] by (simp_all add: cap_def)
    then show "length (index_view ?p) = length (rotate1 (index_view p))" by simp
    fix d
    assume "d < length (index_view ?p)"
    then have d: "d < cap" using len by simp
    then show "index_view ?p ! d = rotate1 (index_view p) ! d"
      using turn [OF d] index_view_eq(2) [of ?p ?h d] index_view_eq(2) [OF h(1), of "Suc d mod cap"] len
      by (simp add: nth_rotate1 cap_def)
  qed
  moreover have "addr_at ?h (length (index_view p) - 1) = addr_at h 0"
    using turn [of "cap - 1"] cap(1) index_view_eq(1) [OF h(1)] by (simp add: cap_def)
  ultimately show ?thesis using ok h(1) by (auto simp: rewind_tail_def)
qed

text \<open>The entry of the block that holds the element \<open>n\<close>, \<open>d\<close> blocks behind the newest.\<close>

lemma base_of_nat: "base_of (of_nat n) = of_nat (32 * (n div 32))"
proof -
  have m: "(of_nat (block_size - 1) :: u64) = mask 5" by (simp add: block_size_def mask_eq_exp_minus_1)
  have "(of_nat n :: u64) AND mask 5 = take_bit 5 (of_nat n)" by (simp only: take_bit_eq_mask)
  also have "\<dots> = of_nat (take_bit 5 n)" by (rule take_bit_of_nat)
  also have "take_bit 5 n = n mod 32" by (simp add: take_bit_eq_mod)
  finally have low: "(of_nat n :: u64) AND mask 5 = of_nat (n mod 32)" .
  have "((of_nat n :: u64) AND NOT (mask 5)) + (of_nat n AND mask 5) = (of_nat n AND NOT (mask 5)) OR (of_nat n AND mask 5)"
    by (rule disjunctive_add) (simp add: bit_simps)
  also have "\<dots> = of_nat n" by (rule bit_eqI) (auto simp: bit_and_iff bit_or_iff bit_not_iff)
  finally have "(of_nat n :: u64) AND NOT (mask 5) = of_nat n - of_nat (n mod 32)"
    using low by (simp add: eq_diff_eq)
  also have "\<dots> = of_nat (32 * (n div 32) + n mod 32) - of_nat (n mod 32)" by simp
  also have "\<dots> = of_nat (32 * (n div 32))" by (simp only: of_nat_add add_diff_cancel_right')
  finally show ?thesis unfolding base_of_def m .
qed

text \<open>The distance between two blocks, forwards or backwards, as the ring counts it.\<close>

lemma block_offset:
  "int (unat ((of_nat (32 * g) - of_nat (32 * e) :: u64) div of_nat block_size)) = (int g - int e) mod 2 ^ 59"
proof -
  have "(of_nat (32 * g) - of_nat (32 * e) :: u64) = of_int (32 * (int g - int e))" by simp
  then have "int (unat (of_nat (32 * g) - of_nat (32 * e) :: u64)) = (32 * (int g - int e)) mod 2 ^ 64"
    by (simp only: uint_nat [symmetric] uint_word_of_int) simp
  also have "\<dots> = 32 * ((int g - int e) mod 2 ^ 59)"
    using mult_mod_right [of 32 "int g - int e" "2 ^ 59"] by simp
  finally have "int (unat (of_nat (32 * g) - of_nat (32 * e) :: u64)) = 32 * ((int g - int e) mod 2 ^ 59)" .
  then show ?thesis by (simp add: unat_div block_size_def zdiv_int)
qed

lemma index_pos_run:
  assumes "header_ok h p" "entry_key (entries p ! (hdr_index h ! unat (hdr_tail h))) = of_nat (32 * e)"
  shows "int (unat (index_pos h (of_nat n) p)) = (int (unat (hdr_tail h)) + int (n div 32) - int e) mod int (unat (hdr_capacity h))"
proof -
  obtain c where c: "unat (hdr_capacity h) = 2 ^ c" "c \<le> 58" using assms(1) by (auto simp: header_ok_def)
  let ?w = "(of_nat (32 * (n div 32)) - of_nat (32 * e) :: u64) div of_nat block_size"
  have dvd: "(2 :: int) ^ c dvd 2 ^ 64" "(2 :: int) ^ c dvd 2 ^ 59" by (rule le_imp_power_dvd, use c(2) in simp)+
  have "int (unat (hdr_tail h + ?w)) = (int (unat (hdr_tail h)) + int (unat ?w)) mod 2 ^ 64"
    by (simp add: unat_word_ariths zmod_int)
  then have "int (unat (hdr_tail h + ?w)) mod 2 ^ c = (int (unat (hdr_tail h)) + int (unat ?w)) mod 2 ^ c"
    using mod_mod_cancel [OF dvd(1)] by simp
  also have "\<dots> = (int (unat (hdr_tail h)) + (int (n div 32) - int e) mod 2 ^ 59 mod 2 ^ c) mod 2 ^ c"
    unfolding block_offset by (simp only: mod_add_right_eq)
  also have "\<dots> = (int (unat (hdr_tail h)) + (int (n div 32) - int e)) mod 2 ^ c"
    unfolding mod_mod_cancel [OF dvd(2)] by (simp only: mod_add_right_eq)
  finally show ?thesis
    using and_capacity [OF c(1), of "hdr_tail h + ?w"] c(1) assms(2)
    by (simp add: index_pos_def base_of_nat zmod_int add_diff_eq)
qed

lemma ring_pos_int: "d \<le> t + cap \<Longrightarrow> int (ring_pos cap t d) = (int t - int d) mod int cap"
  by (simp add: ring_pos_def zmod_int of_nat_diff)
    (metis add.commute add_diff_eq mod_add_self1)

lemma entry_for_view:
  assumes "index_ok p" "block_index p = Some h" "d < length (index_view p)"
    and "entry_key (index_view p ! 0) = of_nat (32 * (n div 32 + d))"
  shows "entry_for (of_nat n) p = Inr (addr_at h d)"
    "unat (index_pos h (of_nat n) p) = ring_pos (unat (hdr_capacity h)) (unat (hdr_tail h)) d"
proof -
  have ok: "header_ok h p" using assms(1,2) by (auto simp: index_ok_def)
  let ?t = "unat (hdr_tail h)" and ?cap = "unat (hdr_capacity h)"
  have t: "?t < ?cap" and d: "d < ?cap" using ok assms(3) index_view_eq(1) [OF assms(2)] by (auto simp: header_ok_def)
  have key: "entry_key (entries p ! (hdr_index h ! ?t)) = of_nat (32 * (n div 32 + d))"
    using assms(4) index_view_eq(2) [OF assms(2), of 0] t by (simp add: addr_at_def)
  have "int (unat (index_pos h (of_nat n) p)) = int (ring_pos ?cap ?t d)"
    using index_pos_run [OF ok key, of n] ring_pos_int [of d ?t ?cap] d by simp
  then show "unat (index_pos h (of_nat n) p) = ring_pos ?cap ?t d" by (simp only: of_nat_eq_iff)
  then show "entry_for (of_nat n) p = Inr (addr_at h d)" using assms(2) by (simp add: entry_for_def addr_at_def)
qed

section \<open>A larger index\<close>

text \<open>The loop that copies the addresses ends, since it comes round to the tail.\<close>

lemma copy_index_run:
  assumes "header_ok h p" "j < unat (hdr_capacity h)" "fuel = unat (hdr_capacity h) - j"
    and "unat pos = (unat (hdr_tail h) + j) mod unat (hdr_capacity h)"
  shows "copy_index fuel h pos
    = Inr (map (\<lambda>i. hdr_index h ! ((unat (hdr_tail h) + Suc i) mod unat (hdr_capacity h))) [j..<unat (hdr_capacity h)])"
  using assms(2-)
proof (induction fuel arbitrary: j pos)
  case (Suc fuel)
  let ?t = "unat (hdr_tail h)" and ?cap = "unat (hdr_capacity h)"
  have t: "?t < ?cap" using assms(1) by (simp add: header_ok_def)
  have pos: "unat (ring_next h pos) = (?t + Suc j) mod ?cap"
    using ring_next_unat [OF assms(1), of pos] Suc.prems(3) by (simp add: mod_Suc_eq)
  show ?case
  proof (cases "Suc j = ?cap")
    case True
    then have "[j..<?cap] = [j]" by (simp flip: True)
    moreover have round: "(?t + Suc j) mod ?cap = ?t" unfolding True using t by simp
    moreover have "ring_next h pos = hdr_tail h" using pos round by (simp add: word_unat_eq_iff)
    ultimately show ?thesis by (simp add: Let_def)
  next
    case False
    then have j: "Suc j < ?cap" using Suc.prems(1) by simp
    have "(?t + Suc j) mod ?cap \<noteq> ?t"
    proof (cases "?t + Suc j < ?cap")
      case wraps: False
      then have "(?t + Suc j) mod ?cap = (?t + Suc j - ?cap) mod ?cap" by (intro le_mod_geq) simp
      also have "\<dots> = ?t + Suc j - ?cap" by (rule mod_less) (use j t in linarith)
      finally have "(?t + Suc j) mod ?cap = ?t + Suc j - ?cap" .
      moreover have "?t + Suc j - ?cap < ?t" using j t wraps by linarith
      ultimately show ?thesis by linarith
    qed simp
    then have "ring_next h pos \<noteq> hdr_tail h" using pos by metis
    moreover have "[j..<?cap] = j # [Suc j..<?cap]" using Suc.prems(1) by (simp add: upt_conv_Cons)
    moreover have "fuel = ?cap - Suc j" using Suc.prems(2) by linarith
    ultimately show ?thesis using Suc.IH [OF j _ pos] pos by (simp add: Let_def)
  qed
qed simp

lemma alloc_frame: "alloc m = (ok, m') \<Longrightarrow> m' = m\<lparr>mallocs := mallocs m'\<rparr>"
  by (auto simp: alloc_def split: list.splits)

lemma new_block_index_view:
  assumes "index_ok p" "length (index_view p) < 2 ^ 58" "alloc m = (True, m')"
  shows "\<exists>p'. new_block_index p m = Inr (True, p', m') \<and> index_ok p'
    \<and> index_view p' = index_view p @ replicate (length (index_view p)) \<lparr>entry_key = invalid_base, entry_value = garbage m'\<rparr>
    \<and> (\<exists>h es c. block_index p' = Some h \<and> p' = p\<lparr>entries := es, block_index := Some h, next_capacity := c\<rparr>)"
proof -
  obtain h c where h: "block_index p = Some h" "header_ok h p" and c: "5 \<le> c" "c \<le> 58" "unat (hdr_capacity h) = 2 ^ c"
    "unat (next_capacity p) = 2 ^ Suc c" and idx: "length (hdr_index h) = 2 ^ c" "unat (hdr_tail h) < 2 ^ c"
    "distinct (hdr_index h)" "set (hdr_index h) \<subseteq> {..<length (entries p)}"
    using index_okE [OF assms(1)] by metis
  have "(2 :: nat) ^ c < 2 ^ 58" using assms(2) unfolding index_view_eq(1) [OF h(1)] c(3) .
  then have c58: "c < 58" by (rule power_less_imp_less_exp [rotated]) simp
  let ?t = "unat (hdr_tail h)" and ?a = "length (entries p)"
  define old where "old = map (\<lambda>i. hdr_index h ! ((?t + Suc i) mod 2 ^ c)) [0..<2 ^ c]"
  have old: "copy_index (unat (hdr_capacity h)) h (hdr_tail h) = Inr old"
  proof -
    have "unat (hdr_tail h) = (?t + 0) mod unat (hdr_capacity h)" using idx(2) c(3) by simp
    from copy_index_run [OF h(2) _ _ this] show ?thesis unfolding old_def c(3) by simp
  qed
  let ?fresh = "\<lparr>entry_key = invalid_base, entry_value = garbage m'\<rparr>"
  define h' where "h' = \<lparr>hdr_capacity = next_capacity p, hdr_tail = (hdr_capacity h - 1) AND (next_capacity p - 1),
      hdr_index = old @ [?a..<?a + 2 ^ c]\<rparr>"
  define p' where "p' = p\<lparr>entries := entries p @ replicate (2 ^ c) ?fresh, block_index := Some h',
      next_capacity := push_bit 1 (next_capacity p)\<rparr>"
  have run: "new_block_index p m = Inr (True, p', m')"
    using assms(3) h(1) old c(3) by (simp add: new_block_index_def Let_def p'_def h'_def)
  have pos: "(?t + Suc i) mod 2 ^ c = ring_pos (2 ^ c) ?t (2 ^ c - Suc i)" if "i < 2 ^ c" for i
    using that by (simp add: ring_pos_def)
  have old_nth: "old ! (2 ^ c - Suc d) = addr_at h d" if "d < 2 ^ c" for d
    using that pos [of "2 ^ c - Suc d"] c(3) by (simp add: old_def addr_at_def Suc_diff_Suc)
  have cap': "unat (next_capacity p) = 2 ^ c + 2 ^ c" using c(4) by simp
  have "0 < unat (hdr_capacity h)" using c(3) by simp
  then have "unat (hdr_capacity h - 1) = 2 ^ c - 1" using c(3) by (metis unat_gt_0 unat_minus_one)
  then have tail: "unat ((hdr_capacity h - 1) AND (next_capacity p - 1)) = 2 ^ c - 1"
    using and_capacity [OF c(4), of "hdr_capacity h - 1"] mod_less [of "2 ^ c - 1" "2 ^ Suc c :: nat"]
    by (simp add: less_imp_diff_less)
  have len: "length (hdr_index h') = 2 ^ c + 2 ^ c" by (simp add: h'_def old_def)
  have fields: "hdr_capacity h' = next_capacity p" "unat (hdr_tail h') = 2 ^ c - 1"
    "hdr_index h' = old @ [?a..<?a + 2 ^ c]" "length old = 2 ^ c"
    using tail by (simp_all add: h'_def old_def)
  have near: "addr_at h' d = addr_at h d" if "d < 2 ^ c" for d
  proof -
    have "ring_pos (2 ^ c + 2 ^ c) (2 ^ c - 1) d = 2 ^ c - Suc d"
    proof -
      have "2 ^ c - 1 + (2 ^ c + 2 ^ c) - d = 2 ^ c - Suc d + (2 ^ c + 2 ^ c)" using that by linarith
      then have "ring_pos (2 ^ c + 2 ^ c) (2 ^ c - 1) d = (2 ^ c - Suc d) mod (2 ^ c + 2 ^ c)"
        by (simp only: ring_pos_def mod_add_self2)
      moreover have "2 ^ c - Suc d < (2 ^ c + 2 ^ c :: nat)" using that by linarith
      ultimately show ?thesis using mod_less by metis
    qed
    then show ?thesis using old_nth [OF that] that fields cap' by (simp add: addr_at_def nth_append)
  qed
  have far: "\<exists>k < 2 ^ c. addr_at h' d = ?a + k" if "2 ^ c \<le> d" "d < 2 ^ c + 2 ^ c" for d
  proof -
    define x where "x = 2 ^ c - 1 + (2 ^ c + 2 ^ c) - d"
    have x: "2 ^ c \<le> x" "x - 2 ^ c < 2 ^ c" "x < 2 ^ c + 2 ^ c" using that unfolding x_def by linarith+
    then have "ring_pos (2 ^ c + 2 ^ c) (2 ^ c - 1) d = x" by (simp add: ring_pos_def x_def)
    then have "addr_at h' d = ?a + (x - 2 ^ c)"
      using x fields cap' by (simp add: addr_at_def nth_append)
    then show ?thesis using x(2) by blast
  qed
  have old_in: "set old \<subseteq> set (hdr_index h)" using idx(1) by (auto simp: old_def)
  have old_distinct: "distinct old"
  proof (rule distinct_conv_nth [THEN iffD2], intro allI impI)
    fix i j
    assume "i < length old" "j < length old" "i \<noteq> j"
    then have ij: "i < 2 ^ c" "j < 2 ^ c" "2 ^ c - Suc i \<noteq> 2 ^ c - Suc j" using fields(4) by linarith+
    then have "old ! i = addr_at h (2 ^ c - Suc i)" "old ! j = addr_at h (2 ^ c - Suc j)"
      using old_nth [of "2 ^ c - Suc i"] old_nth [of "2 ^ c - Suc j"] by (simp_all add: Suc_diff_Suc)
    then show "old ! i \<noteq> old ! j" using addr_at_inj [OF h(2), of "2 ^ c - Suc i" "2 ^ c - Suc j"] ij c(3) by simp
  qed
  have ok': "header_ok h' p'"
  proof -
    have "unat (push_bit 1 (next_capacity p)) = 2 ^ Suc (Suc c)"
    proof -
      have "(2 :: nat) ^ Suc (Suc c) \<le> 2 ^ 59" using c58 by (intro power_increasing) simp_all
      then show ?thesis using c(4) by (simp add: unat_word_ariths push_bit_eq_mult)
    qed
    moreover have "distinct (hdr_index h')" using old_distinct old_in idx(4) fields(3) by auto
    moreover have "set (hdr_index h') \<subseteq> {..<?a + 2 ^ c}" using old_in idx(4) fields(3) by fastforce
    moreover have "unat (hdr_tail h') < 2 ^ c + 2 ^ c"
    proof -
      have "(0 :: nat) < 2 ^ c" by simp
      then show ?thesis unfolding fields(2) by linarith
    qed
    ultimately show ?thesis
      using c58 c(1,4) fields(1,3,4) len cap' unfolding header_ok_def p'_def by (auto intro!: exI [of _ "Suc c"])
  qed
  have view_len: "length (index_view p) = 2 ^ c" using index_view_eq(1) [OF h(1)] c(3) by simp
  have p'_index: "block_index p' = Some h'" by (simp add: p'_def)
  have view: "index_view p' = index_view p @ replicate (length (index_view p)) ?fresh"
  proof (rule nth_equalityI)
    have len': "length (index_view p') = 2 ^ c + 2 ^ c" using index_view_eq(1) [OF p'_index] fields(1) cap' by simp
    then show "length (index_view p') = length (index_view p @ replicate (length (index_view p)) ?fresh)" using view_len by simp
    fix d
    assume d: "d < length (index_view p')"
    have v: "index_view p' ! d = entries p' ! addr_at h' d"
      using index_view_eq(2) [OF p'_index, of d] d index_view_eq(1) [OF p'_index] by simp
    show "index_view p' ! d = (index_view p @ replicate (length (index_view p)) ?fresh) ! d"
    proof (cases "d < 2 ^ c")
      case True
      then show ?thesis
        using v near [OF True] addr_at_less [OF h(2), of d] index_view_eq(2) [OF h(1), of d] view_len c(3)
        by (simp add: p'_def nth_append)
    next
      case False
      then obtain k where "k < 2 ^ c" "addr_at h' d = ?a + k" using far [of d] d len' by auto
      then show ?thesis using v False d len' view_len by (simp add: p'_def nth_append)
    qed
  qed
  show ?thesis using run ok' view p'_index by (auto simp: index_ok_def p'_def)
qed

section \<open>Inserting a block\<close>

definition claimable :: "index_entry \<Rightarrow> bool" where
  "claimable e \<longleftrightarrow> entry_key e = invalid_base \<or> entry_value e = None"

text \<open>What the operations on the index leave alone.\<close>

definition same_queue :: "producer \<Rightarrow> producer \<Rightarrow> bool" where
  "same_queue p q \<longleftrightarrow> tail_index q = tail_index p \<and> head_index q = head_index p
     \<and> optimistic_count q = optimistic_count p \<and> overcommit q = overcommit p \<and> tail_block q = tail_block p"

lemma same_queue_refl [simp]: "same_queue p p"
  by (simp add: same_queue_def)

lemma same_queue_trans: "same_queue p q \<Longrightarrow> same_queue q r \<Longrightarrow> same_queue p r"
  by (simp add: same_queue_def)

lemma same_queue_set_value [simp]: "same_queue p (set_value a v q) = same_queue p q"
  by (simp add: same_queue_def set_value_def)

lemma claim_same: "claim_entry h k p = (a, q) \<Longrightarrow> same_queue p q"
  by (auto simp: claim_entry_def Let_def set_key_def same_queue_def)

lemma last_claimed:
  assumes "index_ok p" "block_index p = Some h"
  shows "entries p ! (hdr_index h ! unat (ring_next h (hdr_tail h))) = last (index_view p)"
proof -
  let ?cap = "unat (hdr_capacity h)"
  have ok: "header_ok h p" using assms by (auto simp: index_ok_def)
  then have cap: "0 < ?cap" by (auto simp: header_ok_def)
  have "hdr_index h ! unat (ring_next h (hdr_tail h)) = addr_at h (?cap - 1)"
    using claim_view [OF assms, of 0] by (auto simp: claim_entry_def Let_def)
  moreover have "index_view p ! (?cap - 1) = entries p ! addr_at h (?cap - 1)"
    by (rule index_view_eq(2) [OF assms(2)]) (use cap in simp)
  moreover have "last (index_view p) = index_view p ! (?cap - 1)"
    using index_view_eq(1) [OF assms(2)] cap by (subst last_conv_nth) auto
  ultimately show ?thesis by simp
qed

definition inserted :: "u64 \<Rightarrow> producer \<Rightarrow> nat \<Rightarrow> producer \<Rightarrow> bool" where
  "inserted k p a p' \<longleftrightarrow> index_ok p' \<and> same_queue p p'
     \<and> (\<exists>ext. list_all claimable ext \<and> claimable (last (index_view p @ ext))
          \<and> index_view p' = (last (index_view p @ ext))\<lparr>entry_key := k\<rparr> # butlast (index_view p @ ext))
     \<and> (\<exists>h. block_index p' = Some h \<and> addr_at h 0 = a)"

lemma insert_entry_view:
  assumes "index_ok p" "\<not> claimable (last (index_view p)) \<Longrightarrow> length (index_view p) < 2 ^ 58"
  shows "\<exists>r p' ms. insert_entry mode k p m = Inr (r, p', m\<lparr>mallocs := ms\<rparr>)
    \<and> (case r of None \<Rightarrow> p' = p \<and> (mode = Can_Alloc \<longrightarrow> False \<in> set (mallocs m)) | Some a \<Rightarrow> inserted k p a p')
    \<and> set ms \<subseteq> set (mallocs m)"
proof -
  obtain h where h: "block_index p = Some h" using assms(1) by (auto simp: index_ok_def)
  have all: "m\<lparr>mallocs := mallocs m\<rparr> = m" by simp
  note last = last_claimed [OF assms(1) h]
  show ?thesis
  proof (cases "claimable (last (index_view p))")
    case True
    obtain a p' where c: "claim_entry h k p = (a, p')" by (cases "claim_entry h k p")
    have "inserted k p a p'"
      using claim_view [OF assms(1) h c] claim_same [OF c] True
      by (auto simp: inserted_def intro!: exI [of _ "[]"])
    then show ?thesis using h c last True all
      by (intro exI [of _ "Some a"] exI [of _ p'] exI [of _ "mallocs m"])
        (simp add: insert_entry_def Let_def claimable_def)
  next
    case False
    note small = assms(2) [OF False]
    obtain ok m' where a: "alloc m = (ok, m')" by (cases "alloc m")
    have ms: "m' = m\<lparr>mallocs := mallocs m'\<rparr>" "set (mallocs m') \<subseteq> set (mallocs m)"
      using a alloc_frame by (auto simp: alloc_def split: list.splits)
    consider (never) "mode = Cannot_Alloc" | (fails) "mode = Can_Alloc" "\<not> ok" | (works) "mode = Can_Alloc" ok
      by (cases mode) auto
    then show ?thesis
    proof cases
      case never
      then show ?thesis using h last False all
        by (intro exI [of _ None] exI [of _ p] exI [of _ "mallocs m"])
          (auto simp: insert_entry_def Let_def claimable_def)
    next
      case fails
      have "False \<in> set (mallocs m)" using a fails by (auto simp: alloc_def split: list.splits)
      then show ?thesis using h last False fails a ms
        by (intro exI [of _ None] exI [of _ p] exI [of _ "mallocs m'"])
          (auto simp: insert_entry_def Let_def claimable_def new_block_index_def)
    next
      case works
      let ?fresh = "\<lparr>entry_key = invalid_base, entry_value = garbage m'\<rparr>"
      let ?ext = "replicate (length (index_view p)) ?fresh"
      obtain q h' where q: "new_block_index p m = Inr (True, q, m')" "index_ok q" "index_view q = index_view p @ ?ext"
          "block_index q = Some h'" "same_queue p q"
        using new_block_index_view [OF assms(1) small] a works(2) by (fastforce simp: same_queue_def)
      have fresh: "claimable ?fresh" by (simp add: claimable_def)
      have "0 < length (index_view p)" using index_view_eq(1) [OF h] assms(1) h by (auto simp: index_ok_def header_ok_def)
      then have "last (index_view p @ ?ext) = ?fresh" by simp
      moreover obtain b p' where c: "claim_entry h' k q = (b, p')" by (cases "claim_entry h' k q")
      ultimately have "inserted k p b p'"
        using claim_view [OF q(2,4) c] same_queue_trans [OF q(5) claim_same [OF c]] q(3) fresh
        by (auto simp: inserted_def list_all_length intro!: exI [of _ ?ext])
      then show ?thesis using h last False works q(1,4) c ms
        by (intro exI [of _ "Some b"] exI [of _ p'] exI [of _ "mallocs m'"])
          (auto simp: insert_entry_def Let_def claimable_def)
    qed
  qed
qed

end
