(* ===== verification/Queue_Interface.thy ===== *)
theory Queue_Interface
  imports Sim_Prelude
begin

text \<open>
  What a queue promises its client: \<open>bag_queue\<close> only that each element comes out once, \<open>fifo_queue\<close> also
  the order, \<open>bulk_queue\<close> also what it does with many elements in a call. The operations may refuse an element;
  the promises hold up to a number of elements.
\<close>

datatype 'x queue_op = Put 'x | Take
datatype 'x queue_outcome = Stored bool | Took "'x option"

text \<open>A sequence of operations, with what each returns.\<close>

fun queue_trace :: "('x \<Rightarrow> 's \<Rightarrow> (bool \<times> 's) res) \<Rightarrow> ('s \<Rightarrow> ('x option \<times> 's) res) \<Rightarrow> 'x queue_op list \<Rightarrow> 's
    \<Rightarrow> ('x queue_outcome list \<times> 's) res" where
  "queue_trace put get [] s = Inr ([], s)"
| "queue_trace put get (Put x # ops) s =
     bind_res (put x s) (\<lambda>(ok, s). bind_res (queue_trace put get ops s) (\<lambda>(os, s). Inr (Stored ok # os, s)))"
| "queue_trace put get (Take # ops) s =
     bind_res (get s) (\<lambda>(r, s). bind_res (queue_trace put get ops s) (\<lambda>(os, s). Inr (Took r # os, s)))"

text \<open>The outcomes of a list that grows at its end and shrinks at its front; what is left of it.\<close>

fun fifo_after :: "'x list \<Rightarrow> ('x queue_op \<times> 'x queue_outcome) list \<Rightarrow> 'x list option" where
  "fifo_after xs [] = Some xs"
| "fifo_after xs ((Put x, Stored ok) # es) = fifo_after (if ok then xs @ [x] else xs) es"
| "fifo_after [] ((Take, Took r) # es) = (if r = None then fifo_after [] es else None)"
| "fifo_after (x # xs) ((Take, Took r) # es) = (if r = Some x then fifo_after xs es else None)"
| "fifo_after xs (e # es) = None"

text \<open>The outcomes of a bag.\<close>

fun bag_after :: "'x multiset \<Rightarrow> ('x queue_op \<times> 'x queue_outcome) list \<Rightarrow> 'x multiset option" where
  "bag_after M [] = Some M"
| "bag_after M ((Put x, Stored ok) # es) = bag_after (if ok then add_mset x M else M) es"
| "bag_after M ((Take, Took None) # es) = (if M = {#} then bag_after M es else None)"
| "bag_after M ((Take, Took (Some x)) # es) = (if x \<in># M then bag_after (M - {#x#}) es else None)"
| "bag_after M (e # es) = None"

text \<open>With \<open>n\<close> elements at first, there are never more than \<open>r\<close>, however long the sequence is.\<close>

fun fits :: "nat \<Rightarrow> nat \<Rightarrow> 'x queue_op list \<Rightarrow> bool" where
  "fits r n [] \<longleftrightarrow> n \<le> r"
| "fits r n (Put x # ops) \<longleftrightarrow> n < r \<and> fits r (Suc n) ops"
| "fits r n (Take # ops) \<longleftrightarrow> n \<le> r \<and> fits r (n - 1) ops"

lemma fits_length: "n + length ops \<le> r \<Longrightarrow> fits r n ops"
  by (induction r n ops rule: fits.induct) auto

locale bag_queue =
  fixes holds :: "'s \<Rightarrow> 'x multiset \<Rightarrow> bool" and put :: "'x \<Rightarrow> 's \<Rightarrow> (bool \<times> 's) res"
    and get :: "'s \<Rightarrow> ('x option \<times> 's) res" and sure :: "'s \<Rightarrow> bool" and room :: nat
  assumes put_holds: "holds s M \<Longrightarrow> size M < room \<Longrightarrow>
      \<exists>ok s'. put x s = Inr (ok, s') \<and> holds s' (if ok then add_mset x M else M) \<and> (sure s \<longrightarrow> ok \<and> sure s')"
    and get_none: "holds s {#} \<Longrightarrow> \<exists>s'. get s = Inr (None, s') \<and> holds s' {#} \<and> (sure s \<longrightarrow> sure s')"
    and get_some: "holds s M \<Longrightarrow> M \<noteq> {#} \<Longrightarrow> size M \<le> room \<Longrightarrow>
      \<exists>x s'. get s = Inr (Some x, s') \<and> x \<in># M \<and> holds s' (M - {#x#}) \<and> (sure s \<longrightarrow> sure s')"
begin

lemma trace_is_bag:
  "holds s M \<Longrightarrow> size M \<le> n \<Longrightarrow> fits room n ops \<Longrightarrow>
   \<exists>os s' M'. queue_trace put get ops s = Inr (os, s') \<and> length os = length ops
     \<and> bag_after M (zip ops os) = Some M' \<and> holds s' M' \<and> (sure s \<longrightarrow> Stored False \<notin> set os)"
proof (induction ops arbitrary: s M n)
  case (Cons p ops)
  show ?case
  proof (cases p)
    case (Put x)
    obtain ok s1 where 1: "put x s = Inr (ok, s1)" "holds s1 (if ok then add_mset x M else M)"
        "sure s \<Longrightarrow> ok \<and> sure s1"
      using put_holds [OF Cons.prems(1), of x] Cons.prems(2,3) Put by auto
    obtain os s' M' where "queue_trace put get ops s1 = Inr (os, s')" "length os = length ops"
        "bag_after (if ok then add_mset x M else M) (zip ops os) = Some M'" "holds s' M'" "sure s1 \<Longrightarrow> Stored False \<notin> set os"
    proof -
      have "size (if ok then add_mset x M else M) \<le> Suc n" "fits room (Suc n) ops"
        using Cons.prems(2,3) Put by (cases ok; simp)+
      then show thesis using Cons.IH [OF 1(2)] that by blast
    qed
    then show ?thesis using 1 Put by (intro exI [of _ "Stored ok # os"]) simp
  next
    case Take
    show ?thesis
    proof (cases "M = {#}")
      case True
      then obtain s1 where 1: "get s = Inr (None, s1)" "holds s1 {#}" "sure s \<Longrightarrow> sure s1" using get_none Cons.prems(1) by blast
      obtain os s' M' where "queue_trace put get ops s1 = Inr (os, s')" "length os = length ops"
          "bag_after {#} (zip ops os) = Some M'" "holds s' M'" "sure s1 \<Longrightarrow> Stored False \<notin> set os"
        using Cons.IH [OF 1(2), of "n - 1"] Cons.prems(3) Take by auto
      then show ?thesis using 1 Take True by (intro exI [of _ "Took None # os"]) simp
    next
      case False
      then obtain x s1 where 1: "get s = Inr (Some x, s1)" "x \<in># M" "holds s1 (M - {#x#})" "sure s \<Longrightarrow> sure s1"
        using get_some [OF Cons.prems(1) False] Cons.prems(2,3) Take by auto
      obtain os s' M' where "queue_trace put get ops s1 = Inr (os, s')" "length os = length ops"
          "bag_after (M - {#x#}) (zip ops os) = Some M'" "holds s' M'" "sure s1 \<Longrightarrow> Stored False \<notin> set os"
      proof -
        have "size (M - {#x#}) \<le> n - 1" "fits room (n - 1) ops"
          using Cons.prems(2,3) 1(2) Take by (simp_all add: size_Diff_singleton)
        then show thesis using Cons.IH [OF 1(3)] that by blast
      qed
      then show ?thesis using 1 Take by (intro exI [of _ "Took (Some x) # os"]) simp
    qed
  qed
qed simp

end

locale fifo_queue =
  fixes rep :: "'s \<Rightarrow> 'x list \<Rightarrow> bool" and put :: "'x \<Rightarrow> 's \<Rightarrow> (bool \<times> 's) res"
    and get :: "'s \<Rightarrow> ('x option \<times> 's) res" and sure :: "'s \<Rightarrow> bool" and room :: nat
  assumes put_rep: "rep s xs \<Longrightarrow> length xs < room \<Longrightarrow>
      \<exists>ok s'. put x s = Inr (ok, s') \<and> rep s' (if ok then xs @ [x] else xs) \<and> (sure s \<longrightarrow> ok \<and> sure s')"
    and get_nil: "rep s [] \<Longrightarrow> \<exists>s'. get s = Inr (None, s') \<and> rep s' [] \<and> (sure s \<longrightarrow> sure s')"
    and get_cons: "rep s (x # xs) \<Longrightarrow> length (x # xs) \<le> room \<Longrightarrow>
      \<exists>s'. get s = Inr (Some x, s') \<and> rep s' xs \<and> (sure s \<longrightarrow> sure s')"
begin

lemma trace_is_fifo:
  "rep s xs \<Longrightarrow> length xs \<le> n \<Longrightarrow> fits room n ops \<Longrightarrow>
   \<exists>os s' ys. queue_trace put get ops s = Inr (os, s') \<and> length os = length ops
     \<and> fifo_after xs (zip ops os) = Some ys \<and> rep s' ys \<and> (sure s \<longrightarrow> Stored False \<notin> set os)"
proof (induction ops arbitrary: s xs n)
  case (Cons p ops)
  show ?case
  proof (cases p)
    case (Put x)
    obtain ok s1 where 1: "put x s = Inr (ok, s1)" "rep s1 (if ok then xs @ [x] else xs)"
        "sure s \<Longrightarrow> ok \<and> sure s1"
      using put_rep [OF Cons.prems(1), of x] Cons.prems(2,3) Put by auto
    obtain os s' ys where "queue_trace put get ops s1 = Inr (os, s')" "length os = length ops"
        "fifo_after (if ok then xs @ [x] else xs) (zip ops os) = Some ys" "rep s' ys" "sure s1 \<Longrightarrow> Stored False \<notin> set os"
    proof -
      have "length (if ok then xs @ [x] else xs) \<le> Suc n" "fits room (Suc n) ops"
        using Cons.prems(2,3) Put by (cases ok; simp)+
      then show thesis using Cons.IH [OF 1(2)] that by blast
    qed
    then show ?thesis using 1 Put by (intro exI [of _ "Stored ok # os"]) simp
  next
    case Take
    show ?thesis
    proof (cases xs)
      case Nil
      then obtain s1 where 1: "get s = Inr (None, s1)" "rep s1 []" "sure s \<Longrightarrow> sure s1" using get_nil Cons.prems(1) by blast
      obtain os s' ys where "queue_trace put get ops s1 = Inr (os, s')" "length os = length ops"
          "fifo_after [] (zip ops os) = Some ys" "rep s' ys" "sure s1 \<Longrightarrow> Stored False \<notin> set os"
        using Cons.IH [OF 1(2), of "n - 1"] Cons.prems(3) Take by auto
      then show ?thesis using 1 Take Nil by (intro exI [of _ "Took None # os"]) simp
    next
      case (Cons x zs)
      then obtain s1 where 1: "get s = Inr (Some x, s1)" "rep s1 zs" "sure s \<Longrightarrow> sure s1"
        using get_cons [of s x zs] Cons.prems Take by auto
      obtain os s' ys where "queue_trace put get ops s1 = Inr (os, s')" "length os = length ops"
          "fifo_after zs (zip ops os) = Some ys" "rep s' ys" "sure s1 \<Longrightarrow> Stored False \<notin> set os"
      proof -
        have "length zs \<le> n - 1" "fits room (n - 1) ops" using Cons.prems(2,3) Cons Take by simp_all
        then show thesis using Cons.IH [OF 1(2)] that by blast
      qed
      then show ?thesis using 1 Take Cons by (intro exI [of _ "Took (Some x) # os"]) simp
    qed
  qed
qed simp

end

sublocale fifo_queue \<subseteq> bag: bag_queue "\<lambda>s M. \<exists>xs. rep s xs \<and> mset xs = M" put get sure room
proof
  fix s M x
  assume "\<exists>xs. rep s xs \<and> mset xs = M" "size M < room"
  then obtain xs where xs: "rep s xs" "mset xs = M" "length xs < room" by (metis size_mset)
  obtain ok s' where "put x s = Inr (ok, s')" "rep s' (if ok then xs @ [x] else xs)" "sure s \<longrightarrow> ok \<and> sure s'"
    using put_rep [OF xs(1,3), of x] by blast
  then show "\<exists>ok s'. put x s = Inr (ok, s') \<and> (\<exists>xs. rep s' xs \<and> mset xs = (if ok then add_mset x M else M))
      \<and> (sure s \<longrightarrow> ok \<and> sure s')"
    using xs(2) by (intro exI [of _ ok] exI [of _ s'] conjI exI [of _ "if ok then xs @ [x] else xs"]) simp_all
next
  fix s
  assume "\<exists>xs. rep s xs \<and> mset xs = {#}"
  then show "\<exists>s'. get s = Inr (None, s') \<and> (\<exists>xs. rep s' xs \<and> mset xs = {#}) \<and> (sure s \<longrightarrow> sure s')"
    using get_nil by auto
next
  fix s M
  assume "\<exists>xs. rep s xs \<and> mset xs = M" "M \<noteq> {#}" "size M \<le> room"
  then obtain x xs where xs: "rep s (x # xs)" "mset (x # xs) = M" "length (x # xs) \<le> room"
    by (metis list.exhaust mset_zero_iff size_mset)
  then show "\<exists>x s'. get s = Inr (Some x, s') \<and> x \<in># M \<and> (\<exists>xs. rep s' xs \<and> mset xs = M - {#x#}) \<and> (sure s \<longrightarrow> sure s')"
    using get_cons [OF xs(1,3)] by auto
qed

section \<open>Several elements at once\<close>

datatype 'x bulk_op = One "'x queue_op" | Put_Many "'x list" | Take_Many u64
datatype 'x bulk_outcome = Single "'x queue_outcome" | Stored_All bool | Took_Many "'x list"

fun bulk_trace :: "('x \<Rightarrow> 's \<Rightarrow> (bool \<times> 's) res) \<Rightarrow> ('s \<Rightarrow> ('x option \<times> 's) res) \<Rightarrow> ('x list \<Rightarrow> 's \<Rightarrow> (bool \<times> 's) res)
    \<Rightarrow> (u64 \<Rightarrow> 's \<Rightarrow> ('x list \<times> 's) res) \<Rightarrow> 'x bulk_op list \<Rightarrow> 's \<Rightarrow> ('x bulk_outcome list \<times> 's) res" where
  "bulk_trace put get puts gets [] s = Inr ([], s)"
| "bulk_trace put get puts gets (One p # ops) s =
     bind_res (queue_trace put get [p] s) (\<lambda>(o1, s).
       bind_res (bulk_trace put get puts gets ops s) (\<lambda>(os, s). Inr (map Single o1 @ os, s)))"
| "bulk_trace put get puts gets (Put_Many xs # ops) s =
     bind_res (puts xs s) (\<lambda>(ok, s). bind_res (bulk_trace put get puts gets ops s) (\<lambda>(os, s). Inr (Stored_All ok # os, s)))"
| "bulk_trace put get puts gets (Take_Many k # ops) s =
     bind_res (gets k s) (\<lambda>(xs, s). bind_res (bulk_trace put get puts gets ops s) (\<lambda>(os, s). Inr (Took_Many xs # os, s)))"

text \<open>All the elements of a call are put, in their order, or none; as many are taken as there are, up to the limit.\<close>

fun bulk_after :: "'x list \<Rightarrow> ('x bulk_op \<times> 'x bulk_outcome) list \<Rightarrow> 'x list option" where
  "bulk_after xs [] = Some xs"
| "bulk_after xs ((One p, Single r) # es) = (case fifo_after xs [(p, r)] of None \<Rightarrow> None | Some ys \<Rightarrow> bulk_after ys es)"
| "bulk_after xs ((Put_Many ys, Stored_All ok) # es) = bulk_after (if ok then xs @ ys else xs) es"
| "bulk_after xs ((Take_Many k, Took_Many ys) # es) =
     (if ys = List.take (unat k) xs then bulk_after (drop (unat k) xs) es else None)"
| "bulk_after xs (e # es) = None"

fun bulk_fits :: "nat \<Rightarrow> nat \<Rightarrow> 'x bulk_op list \<Rightarrow> bool" where
  "bulk_fits r n [] \<longleftrightarrow> n \<le> r"
| "bulk_fits r n (One (Put x) # ops) \<longleftrightarrow> n < r \<and> bulk_fits r (Suc n) ops"
| "bulk_fits r n (One Take # ops) \<longleftrightarrow> n \<le> r \<and> bulk_fits r (n - 1) ops"
| "bulk_fits r n (Put_Many xs # ops) \<longleftrightarrow> n + length xs \<le> r \<and> bulk_fits r (n + length xs) ops"
| "bulk_fits r n (Take_Many k # ops) \<longleftrightarrow> n \<le> r \<and> bulk_fits r (n - unat k) ops"

lemma bulk_fits_room: "bulk_fits r n ops \<Longrightarrow> n \<le> r"
  by (cases "(r, n, ops)" rule: bulk_fits.cases) simp_all

lemma bulk_fits_less: "bulk_fits r n ops \<Longrightarrow> k \<le> n \<Longrightarrow> bulk_fits r k ops"
proof (induction r n ops arbitrary: k rule: bulk_fits.induct)
  case (4 r n xs ops)
  then show ?case using "4.IH" [of "k + length xs"] by simp
next
  case (5 r n j ops)
  then show ?case using "5.IH" [of "k - unat j"] by (simp add: diff_le_mono)
qed (auto simp: diff_le_mono)

locale bulk_queue = fifo_queue rep put get sure room
  for rep :: "'s \<Rightarrow> 'x list \<Rightarrow> bool" and put :: "'x \<Rightarrow> 's \<Rightarrow> (bool \<times> 's) res"
    and get :: "'s \<Rightarrow> ('x option \<times> 's) res" and sure :: "'s \<Rightarrow> bool" and room :: nat +
  fixes puts :: "'x list \<Rightarrow> 's \<Rightarrow> (bool \<times> 's) res" and gets :: "u64 \<Rightarrow> 's \<Rightarrow> ('x list \<times> 's) res"
  assumes puts_rep: "rep s xs \<Longrightarrow> length (xs @ ys) \<le> room \<Longrightarrow>
      \<exists>ok s'. puts ys s = Inr (ok, s') \<and> rep s' (if ok then xs @ ys else xs) \<and> (sure s \<longrightarrow> ok \<and> sure s')"
    and gets_rep: "rep s xs \<Longrightarrow> length xs \<le> room \<Longrightarrow>
      \<exists>s'. gets k s = Inr (List.take (unat k) xs, s') \<and> rep s' (drop (unat k) xs) \<and> (sure s \<longrightarrow> sure s')"
begin

lemma one_rep:
  assumes "rep s xs" "bulk_fits room (length xs) (One p # ops)"
  shows "\<exists>r s' ys. queue_trace put get [p] s = Inr ([r], s') \<and> fifo_after xs [(p, r)] = Some ys \<and> rep s' ys
    \<and> bulk_fits room (length ys) ops \<and> (sure s \<longrightarrow> sure s' \<and> r \<noteq> Stored False)"
proof (cases p)
  case (Put x)
  obtain ok s1 where 1: "put x s = Inr (ok, s1)" "rep s1 (if ok then xs @ [x] else xs)" "sure s \<longrightarrow> ok \<and> sure s1"
    using put_rep [OF assms(1), of x] assms(2) Put by auto
  have "bulk_fits room (length (if ok then xs @ [x] else xs)) ops"
    using assms(2) Put bulk_fits_less [of room "Suc (length xs)" ops "length xs"] by auto
  then show ?thesis using 1 Put by auto
next
  case Take
  show ?thesis
  proof (cases xs)
    case Nil
    then show ?thesis using get_nil [of s] assms Take by auto
  next
    case (Cons x zs)
    then show ?thesis using get_cons [of s x zs] assms bulk_fits_room [of room "length zs" ops] Take by auto
  qed
qed

lemma bulk_trace_is_fifo:
  "rep s xs \<Longrightarrow> bulk_fits room (length xs) ops \<Longrightarrow>
   \<exists>os s' ys. bulk_trace put get puts gets ops s = Inr (os, s') \<and> length os = length ops \<and> bulk_after xs (zip ops os) = Some ys
     \<and> rep s' ys \<and> (sure s \<longrightarrow> Stored_All False \<notin> set os \<and> Single (Stored False) \<notin> set os)"
proof (induction ops arbitrary: s xs)
  case (Cons p ops)
  note run = Cons.IH
  show ?case
  proof (cases p)
    case (One q)
    obtain r s1 ys where 1: "queue_trace put get [q] s = Inr ([r], s1)" "fifo_after xs [(q, r)] = Some ys" "rep s1 ys"
        "bulk_fits room (length ys) ops" "sure s \<longrightarrow> sure s1 \<and> r \<noteq> Stored False"
      using one_rep [of s xs q ops] Cons.prems One by blast
    then show ?thesis using run [OF 1(3,4)] One by (auto simp: Let_def simp del: queue_trace.simps fifo_after.simps)
  next
    case (Put_Many ys)
    obtain ok s1 where 1: "puts ys s = Inr (ok, s1)" "rep s1 (if ok then xs @ ys else xs)" "sure s \<longrightarrow> ok \<and> sure s1"
      using puts_rep [OF Cons.prems(1), of ys] Cons.prems(2) Put_Many by auto
    have "bulk_fits room (length (if ok then xs @ ys else xs)) ops"
      using Cons.prems(2) Put_Many bulk_fits_less [of room "length xs + length ys" ops "length xs"] by auto
    then show ?thesis using run [OF 1(2)] 1 Put_Many by fastforce
  next
    case (Take_Many k)
    obtain s1 where 1: "gets k s = Inr (List.take (unat k) xs, s1)" "rep s1 (drop (unat k) xs)" "sure s \<longrightarrow> sure s1"
      using gets_rep [OF Cons.prems(1), of k] Cons.prems(2) Take_Many by auto
    have "bulk_fits room (length (drop (unat k) xs)) ops" using Cons.prems(2) Take_Many by simp
    then show ?thesis using run [OF 1(2)] 1 Take_Many by fastforce
  qed
qed simp

end

end
