(* ===== verification/Queue_Producer.thy ===== *)
theory Queue_Producer
  imports Queue_Index Queue_Interface
begin

text \<open>
  The sub-queue of one implicit producer (\<open>struct ProducerBase\<close> and \<open>struct ImplicitProducer\<close>,
  \<open>include/concurrentqueue.hpp\<close>) over the shared pool of blocks, as one thread at a time runs it. The
  elements are 64-bit numbers, whose construction and assignment cannot throw.
\<close>

section \<open>The operations\<close>

definition traits_max_subqueue_size :: u64 where "traits_max_subqueue_size = - 1"

definition max_subqueue_size :: u64 where
  "max_subqueue_size =
     (if - 1 - traits_max_subqueue_size < of_nat block_size then - 1
      else (traits_max_subqueue_size + (of_nat block_size - 1)) div of_nat block_size * of_nat block_size)"

definition size_approx :: "producer \<Rightarrow> u64" where
  "size_approx p = (if circular_less_than (head_index p) (tail_index p) then tail_index p - head_index p else 0)"

definition on_block :: "nat \<Rightarrow> (qblock \<Rightarrow> qblock) \<Rightarrow> pool \<Rightarrow> pool" where
  "on_block b f m = m\<lparr>qblocks := (qblocks m)[b := f (qblocks m ! b)]\<rparr>"

text \<open>No room for a block that begins at the index \<open>base\<close>.\<close>

definition subqueue_full :: "u64 \<Rightarrow> producer \<Rightarrow> bool" where
  "subqueue_full base p \<longleftrightarrow>
     \<not> circular_less_than (head_index p) (base + of_nat block_size)
     \<or> max_subqueue_size \<noteq> - 1 \<and> (max_subqueue_size = 0 \<or> max_subqueue_size - of_nat block_size < base - head_index p)"

text \<open>A new block that begins at the index \<open>base\<close>, in the block index and as the tail block.\<close>

definition insert_block :: "alloc_mode \<Rightarrow> u64 \<Rightarrow> producer \<Rightarrow> pool \<Rightarrow> (nat option \<times> producer \<times> pool) res" where
  "insert_block mode base p m =
     bind_res (insert_entry mode base p m) (\<lambda>(entry, p, m).
       case entry of None \<Rightarrow> Inr (None, p, m)
       | Some a \<Rightarrow>
           (case requisition_block mode m of
              (None, m) \<Rightarrow> bind_res (rewind_tail p) (\<lambda>p. Inr (None, set_value a None p, m))
            | (Some b, m) \<Rightarrow> Inr (Some b, (set_value a (Some b) p)\<lparr>tail_block := Some b\<rparr>,
                on_block b (reset_empty Implicit_Context) m)))"

definition put_element :: "u64 \<Rightarrow> producer \<Rightarrow> pool \<Rightarrow> (bool \<times> producer \<times> pool) res" where
  "put_element x p m = (case tail_block p of None \<Rightarrow> Inl (UB ''null pointer tailBlock'')
     | Some b \<Rightarrow> Inr (True, p\<lparr>tail_index := 1 + tail_index p\<rparr>, on_block b (block_put (tail_index p) (Some x)) m))"

definition iq_enqueue :: "alloc_mode \<Rightarrow> u64 \<Rightarrow> producer \<Rightarrow> pool \<Rightarrow> (bool \<times> producer \<times> pool) res" where
  "iq_enqueue mode x p m =
     (if tail_index p AND (of_nat block_size - 1) = 0 then
        if subqueue_full (tail_index p) p then Inr (False, p, m)
        else bind_res (insert_block mode (tail_index p) p m) (\<lambda>(block, p, m).
          case block of None \<Rightarrow> Inr (False, p, m) | Some b \<Rightarrow> put_element x p m)
      else put_element x p m)"

definition iq_dequeue :: "producer \<Rightarrow> pool \<Rightarrow> (u64 option \<times> producer \<times> pool) res" where
  "iq_dequeue p m =
     (let over = overcommit p in
      if circular_less_than (optimistic_count p - over) (tail_index p) then
        (let my_count = optimistic_count p; p = p\<lparr>optimistic_count := my_count + 1\<rparr> in
         if circular_less_than (my_count - over) (tail_index p) then
           (let i = head_index p; p = p\<lparr>head_index := i + 1\<rparr> in
            bind_res (entry_for i p) (\<lambda>a.
              case entry_value (entries p ! a) of None \<Rightarrow> Inl (UB ''null pointer block'')
              | Some b \<Rightarrow>
                  (case block_at (qblocks m ! b) i of None \<Rightarrow> Inl (UB ''no element in the slot'')
                   | Some x \<Rightarrow>
                       (let m = on_block b (block_put i None) m;
                            empty = snd (set_empty Implicit_Context i (qblocks m ! b));
                            m = on_block b (fst \<circ> set_empty Implicit_Context i) m
                        in Inr (Some x, if empty then (set_value a None p, add_to_free_list b m) else (p, m))))))
         else Inr (None, p\<lparr>overcommit := overcommit p + 1\<rparr>, m))
      else Inr (None, p, m))"

section \<open>The pool\<close>

text \<open>Every block is free, still in the initial pool, or used by a producer, and only one of these.\<close>

definition unused :: "pool \<Rightarrow> nat set" where
  "unused m = {unat (pool_index m)..<unat (pool_size m)}"

definition pool_inv :: "pool \<Rightarrow> nat set \<Rightarrow> bool" where
  "pool_inv m used \<longleftrightarrow> distinct (free_list m) \<and> set (free_list m) \<inter> used = {} \<and> unused m \<inter> used = {}
     \<and> unused m \<inter> set (free_list m) = {} \<and> used \<union> set (free_list m) \<union> unused m = {..<length (qblocks m)}
     \<and> list_all block_ok (qblocks m) \<and> (\<forall>b \<in> unused m. \<not> dynamically_allocated (qblocks m ! b))"

definition pool_extends :: "pool \<Rightarrow> pool \<Rightarrow> bool" where
  "pool_extends m m' \<longleftrightarrow> (\<exists>bs. qblocks m' = qblocks m @ bs) \<and> set (mallocs m') \<subseteq> set (mallocs m)"

lemma pool_inv_used: "pool_inv m used \<Longrightarrow> b \<in> used \<Longrightarrow> b < length (qblocks m) \<and> block_ok (qblocks m ! b)"
  by (auto simp: pool_inv_def list_all_length)

lemma requisition_spec:
  assumes "pool_inv m used"
  shows "\<exists>r m'. requisition_block mode m = (r, m') \<and> pool_extends m m'
    \<and> (case r of None \<Rightarrow> pool_inv m' used \<and> (mode = Can_Alloc \<longrightarrow> False \<in> set (mallocs m))
       | Some b \<Rightarrow> b \<notin> used \<and> pool_inv m' (insert b used))"
proof (cases "pool_index m < pool_size m")
  case True
  have "unat (pool_index m) < unat (pool_size m)" using True by (simp add: word_less_nat_alt)
  moreover from this have "unat (pool_index m) + 1 < 2 ^ 64"
    using unat_u64_less_power [of "pool_size m"] by linarith
  ultimately have "unat (pool_index m + 1) = Suc (unat (pool_index m))"
    using unat_add_no_wrap [of "pool_index m" 1] by simp
  then have "unused m = insert (unat (pool_index m)) (unused (m\<lparr>pool_index := pool_index m + 1\<rparr>))"
    "unat (pool_index m) \<notin> unused (m\<lparr>pool_index := pool_index m + 1\<rparr>)"
    using \<open>unat (pool_index m) < unat (pool_size m)\<close> by (auto simp: unused_def)
  then show ?thesis using assms True
    by (auto simp: requisition_block_def from_initial_pool_def pool_inv_def pool_extends_def)
next
  case False
  show ?thesis
  proof (cases "free_list m")
    case (Cons b bs)
    then show ?thesis using assms False
      by (auto simp: requisition_block_def from_initial_pool_def from_free_list_def pool_inv_def pool_extends_def unused_def)
  next
    case Nil
    obtain ok ms where a: "alloc m = (ok, m\<lparr>mallocs := ms\<rparr>)" "set ms \<subseteq> set (mallocs m)" "\<not> ok \<Longrightarrow> False \<in> set (mallocs m)"
    proof (cases "mallocs m")
      case Nil
      then show thesis using that [of True "[]"] by (simp add: alloc_def)
    next
      case (Cons c cs)
      then show thesis using that [of c cs] by (auto simp: alloc_def)
    qed
    have "unused m = {}" using False by (auto simp: unused_def word_less_nat_alt)
    then show ?thesis using assms False Nil a
      by (cases ok) (auto simp: requisition_block_def from_initial_pool_def from_free_list_def new_block_def
          pool_inv_def pool_extends_def qblock_new_ok unused_def)
  qed
qed

section \<open>A first-in first-out queue\<close>

text \<open>
  The counters are natural numbers that have wrapped around: \<open>h\<close> elements have been taken, \<open>t\<close> put, and
  \<open>xs\<close> are the others. \<open>L\<close> are the blocks that hold them, the newest first.
\<close>

definition blocks_upto :: "nat \<Rightarrow> nat" where
  "blocks_upto t = (t + 31) div 32"

lemma blocks_upto_simps:
  "blocks_upto (Suc t) = Suc (t div 32)"
  "t mod 32 \<noteq> 0 \<Longrightarrow> blocks_upto t = Suc (t div 32)"
  "t mod 32 = 0 \<Longrightarrow> blocks_upto t = t div 32"
proof -
  have b: "blocks_upto t = t div 32 + (t mod 32 + 31) div 32" for t
    by (simp add: blocks_upto_def div_add1_eq [of t 31])
  show "t mod 32 = 0 \<Longrightarrow> blocks_upto t = t div 32" by (simp add: b)
  show "blocks_upto t = Suc (t div 32)" if "t mod 32 \<noteq> 0"
  proof -
    have "t mod 32 + 31 = t mod 32 - 1 + 32" using that by simp
    then have "(t mod 32 + 31) div 32 = Suc ((t mod 32 - 1) div 32)" by simp
    moreover have "t mod 32 - 1 < 32" using mod_less_divisor [of 32 t] by linarith
    ultimately show ?thesis by (simp add: b)
  qed
  show "blocks_upto (Suc t) = Suc (t div 32)" by (simp add: blocks_upto_def)
qed

definition view_ok :: "nat \<Rightarrow> nat list \<Rightarrow> index_entry list \<Rightarrow> bool" where
  "view_ok kt L V \<longleftrightarrow> length L \<le> length V \<and> length L \<le> kt
     \<and> (\<forall>d < length L. V ! d = \<lparr>entry_key = of_nat (32 * (kt - 1 - d)), entry_value = Some (L ! d)\<rparr>)
     \<and> (\<forall>d < length V. length L \<le> d \<longrightarrow> claimable (V ! d))"

definition counters_ok :: "nat \<Rightarrow> nat \<Rightarrow> producer \<Rightarrow> bool" where
  "counters_ok h t p \<longleftrightarrow> head_index p = of_nat h \<and> tail_index p = of_nat t \<and> optimistic_count p - overcommit p = of_nat h"

definition contents_ok :: "nat \<Rightarrow> nat \<Rightarrow> nat \<Rightarrow> u64 list \<Rightarrow> nat list \<Rightarrow> qblock list \<Rightarrow> bool" where
  "contents_ok kt h t xs L B \<longleftrightarrow>
     (\<forall>i. h \<le> i \<longrightarrow> i < t \<longrightarrow> block_at (B ! (L ! (kt - 1 - i div 32))) (of_nat i) = Some (xs ! (i - h)))
     \<and> (\<forall>d < length L. completely_dequeued (B ! (L ! d)) = of_nat (if Suc d = length L then h mod 32 else 0))"

definition queue_with :: "nat \<Rightarrow> nat \<Rightarrow> nat \<Rightarrow> u64 list \<Rightarrow> nat list \<Rightarrow> producer \<Rightarrow> qblock list \<Rightarrow> bool" where
  "queue_with kt h t xs L p B \<longleftrightarrow> t = h + length xs \<and> counters_ok h t p \<and> index_ok p
     \<and> view_ok kt L (index_view p) \<and> length L = kt - h div 32 \<and> distinct L
     \<and> (L \<noteq> [] \<longrightarrow> tail_block p = Some (hd L)) \<and> contents_ok kt h t xs L B"

abbreviation fifo :: "nat \<Rightarrow> nat \<Rightarrow> u64 list \<Rightarrow> nat list \<Rightarrow> producer \<Rightarrow> qblock list \<Rightarrow> bool" where
  "fifo h t \<equiv> queue_with (blocks_upto t) h t"

lemma slot_of_nat [simp]: "slot_of (of_nat n) = n mod 32"
proof -
  have "unat (of_nat n :: u64) mod 32 = n mod 32" by (simp add: unsigned_of_nat take_bit_eq_mod mod_mod_cancel)
  then show ?thesis by (simp add: slot_of_mod)
qed

lemma block_puts:
  assumes "block_ok b"
  shows "block_at (block_put i x b) j = (if slot_of j = slot_of i then x else block_at b j)"
    "completely_dequeued (block_put i x b) = completely_dequeued b"
  using assms by (auto simp: block_at_def block_put_def block_ok_def)

lemma reset_at [simp]: "block_at (reset_empty Implicit_Context b) i = block_at b i"
  "completely_dequeued (reset_empty Implicit_Context b) = 0"
  by (simp_all add: reset_empty_def block_at_def)

lemma empty_at [simp]: "block_at (fst (set_empty Implicit_Context i b)) j = block_at b j"
  "completely_dequeued (fst (set_empty Implicit_Context i b)) = completely_dequeued b + 1"
  "snd (set_empty Implicit_Context i b) \<longleftrightarrow> completely_dequeued b = 31"
  by (simp_all add: set_empty_def block_at_def block_size_def)

text \<open>Only the blocks of \<open>L\<close> matter.\<close>

lemma live_block:
  assumes "length L = kt - h div 32" "h \<le> i" "i < t" "blocks_upto t \<le> kt"
  shows "kt - 1 - i div 32 < length L" "i div 32 < kt"
  using assms by (auto simp: blocks_upto_def)

lemma contents_other_blocks:
  assumes "contents_ok kt h t xs L B" "length L = kt - h div 32" "blocks_upto t \<le> kt"
    "\<And>b. b \<in> set L \<Longrightarrow> B' ! b = B ! b"
  shows "contents_ok kt h t xs L B'"
  using assms(1,4) live_block(1) [OF assms(2) _ _ assms(3)] by (simp add: contents_ok_def)

lemma fifo_other_blocks:
  assumes "fifo h t xs L p B" "\<And>b. b \<in> set L \<Longrightarrow> B' ! b = B ! b"
  shows "fifo h t xs L p B'"
  using assms contents_other_blocks [OF _ _ order_refl] unfolding queue_with_def by blast

lemma on_block_nth: "b < length (qblocks m) \<Longrightarrow> qblocks (on_block b f m) ! c = (if c = b then f (qblocks m ! b) else qblocks m ! c)"
  by (simp add: on_block_def nth_list_update)

lemma on_block_frame [simp]: "length (qblocks (on_block b f m)) = length (qblocks m)" "mallocs (on_block b f m) = mallocs m"
  "free_list (on_block b f m) = free_list m" "unused (on_block b f m) = unused m"
  by (simp_all add: on_block_def unused_def)

lemma on_block_inv:
  assumes "pool_inv m used" "b \<in> used" "\<And>c. block_ok c \<Longrightarrow> block_ok (f c)"
  shows "pool_inv (on_block b f m) used"
  using assms pool_inv_used [OF assms(1,2)]
  by (auto simp: pool_inv_def list_all_length on_block_nth)

text \<open>One element more, in its slot.\<close>

lemma contents_put:
  assumes C: "contents_ok kt h t xs L B" and L: "distinct L" "length L = kt - h div 32" and t: "t = h + length xs" "t div 32 < kt"
    and b: "b = L ! (kt - 1 - t div 32)" "b < length B" "block_ok (B ! b)"
  shows "contents_ok kt h (Suc t) (xs @ [x]) L (B[b := block_put (of_nat t) (Some x) (B ! b)])"
  unfolding contents_ok_def
proof (intro conjI allI impI)
  fix i
  assume i: "h \<le> i" "i < Suc t"
  let ?d = "\<lambda>i. kt - 1 - i div 32"
  have ht: "h div 32 \<le> i div 32" "i div 32 \<le> t div 32" using i by (simp_all add: div_le_mono)
  then have len: "?d t < length L" "?d i < length L" using L(2) t(2) by linarith+
  have at: "L ! ?d i = b \<longleftrightarrow> i div 32 = t div 32"
  proof -
    have "?d i = ?d t \<longleftrightarrow> i div 32 = t div 32" using ht(2) t(2) by linarith
    then show ?thesis using nth_eq_iff_index_eq [OF L(1) len(2,1)] b(1) by simp
  qed
  show "block_at (B[b := block_put (of_nat t) (Some x) (B ! b)] ! (L ! ?d i)) (of_nat i) = Some ((xs @ [x]) ! (i - h))"
  proof (cases "i = t")
    case True
    have "t - h = length xs" using t(1) by simp
    moreover have "L ! ?d i = b" using at True by simp
    ultimately show ?thesis using True b by (simp add: block_puts)
  next
    case False
    then have "block_at (B ! (L ! ?d i)) (of_nat i) = Some (xs ! (i - h))" using C i by (simp add: contents_ok_def)
    moreover have "i div 32 = t div 32 \<Longrightarrow> i mod 32 \<noteq> t mod 32" using False by (metis div_mult_mod_eq)
    moreover have "i - h < length xs" using False i t(1) by linarith
    then have "(xs @ [x]) ! (i - h) = xs ! (i - h)" by (simp add: nth_append)
    ultimately show ?thesis using b(2,3) at by (cases "i div 32 = t div 32") (simp_all add: block_puts nth_list_update)
  qed
next
  fix d
  assume "d < length L"
  then have "completely_dequeued (B ! (L ! d)) = of_nat (if Suc d = length L then h mod 32 else 0)"
    using C by (simp add: contents_ok_def)
  then show "completely_dequeued (B[b := block_put (of_nat t) (Some x) (B ! b)] ! (L ! d)) = of_nat (if Suc d = length L then h mod 32 else 0)"
    using b(2,3) by (cases "L ! d = b") (simp_all add: block_puts)
qed

text \<open>With the block of the next element in place, the element is put behind the others.\<close>

lemma put_element_run:
  assumes q: "queue_with (blocks_upto (Suc t)) h t xs L p (qblocks m)" "pool_inv m used" "set L \<subseteq> used"
  shows "\<exists>p' m'. put_element x p m = Inr (True, p', m') \<and> fifo h (Suc t) (xs @ [x]) L p' (qblocks m')
    \<and> pool_inv m' used \<and> (\<forall>b. b \<notin> set L \<longrightarrow> qblocks m' ! b = qblocks m ! b) \<and> mallocs m' = mallocs m"
proof -
  let ?kt = "blocks_upto (Suc t)"
  have kt: "?kt = Suc (t div 32)" by (simp add: blocks_upto_def)
  have len: "length L = ?kt - h div 32" "t = h + length xs" using q(1) by (simp_all add: queue_with_def)
  then have "h div 32 \<le> t div 32" by (simp add: div_le_mono)
  then have L: "L \<noteq> []" using len(1) kt by auto
  define b where "b = hd L"
  have b: "tail_block p = Some b" "b \<in> used" "b = L ! (?kt - 1 - t div 32)" using q(1,3) L hd_in_set [OF L]
    by (auto simp: queue_with_def b_def hd_conv_nth blocks_upto_simps(1))
  note bl = pool_inv_used [OF q(2) b(2)]
  have cnt: "tail_index p = of_nat t" using q(1) by (simp add: queue_with_def counters_ok_def)
  let ?p = "p\<lparr>tail_index := 1 + tail_index p\<rparr>" and ?m = "on_block b (block_put (tail_index p) (Some x)) m"
  have C: "contents_ok ?kt h t xs L (qblocks m)" "distinct L" using q(1) unfolding queue_with_def by blast+
  have "contents_ok ?kt h (Suc t) (xs @ [x]) L (qblocks ?m)"
    using contents_put [OF C len, of b x] b(3) bl by (simp add: on_block_def cnt kt)
  then have "fifo h (Suc t) (xs @ [x]) L ?p (qblocks ?m)"
    using q(1) by (auto simp: queue_with_def counters_ok_def index_ok_def header_ok_def index_view_def)
  moreover have "pool_inv ?m used" using on_block_inv [OF q(2) b(2)] by simp
  moreover have "\<forall>c. c \<notin> set L \<longrightarrow> qblocks ?m ! c = qblocks m ! c"
    using bl L by (auto simp: on_block_nth b_def)
  ultimately show ?thesis using b(1) by (simp add: put_element_def)
qed

lemma base_not_invalid: "of_nat (32 * n) \<noteq> invalid_base"
proof
  assume "of_nat (32 * n) = invalid_base"
  then have "slot_of (of_nat (32 * n)) = 1" by (simp add: invalid_base_def slot_of_mod)
  then have "32 * n mod 32 = 1" by (simp only: slot_of_nat)
  then show False by simp
qed

lemma view_ok_shorter:
  assumes "view_ok kt L V" "claimable (last V)" "V \<noteq> []"
  shows "length L < length V"
proof (rule ccontr)
  assume "\<not> length L < length V"
  then have "length L = length V" using assms(1) by (simp add: view_ok_def)
  moreover from this have "last V = V ! (length L - 1)" "length L - 1 < length L"
    using assms(3) by (simp_all add: last_conv_nth)
  ultimately have "entry_key (last V) = of_nat (32 * (kt - 1 - (length L - 1)))" "entry_value (last V) \<noteq> None"
    using assms(1) unfolding view_ok_def by fastforce+
  then show False using assms(2) base_not_invalid by (simp only: claimable_def) metis
qed

lemma view_ok_more: "view_ok kt L V \<Longrightarrow> list_all claimable ext \<Longrightarrow> view_ok kt L (V @ ext)"
  by (auto simp: view_ok_def nth_append list_all_length)

lemma view_ok_insert:
  assumes "view_ok kt L V" "length L < length V"
  shows "view_ok (Suc kt) (b # L) (\<lparr>entry_key = of_nat (32 * kt), entry_value = Some b\<rparr> # butlast V)"
  using assms by (auto simp: view_ok_def nth_Cons nth_butlast split: nat.splits)

lemma view_ok_rewind:
  assumes "view_ok kt L V" "length L < length V" "claimable e"
  shows "view_ok kt L (butlast V @ [e])"
  using assms by (auto simp: view_ok_def nth_append nth_butlast)

lemma index_view_nonempty: "index_ok p \<Longrightarrow> index_view p \<noteq> []"
  using index_view_eq(1) by (fastforce simp: index_ok_def header_ok_def)

text \<open>What an operation of one producer does to the blocks and the rest of the pool.\<close>

definition pool_step :: "nat set \<Rightarrow> nat list \<Rightarrow> pool \<Rightarrow> nat list \<Rightarrow> pool \<Rightarrow> bool" where
  "pool_step used L m L' m' \<longleftrightarrow> pool_inv m' ((used - set L) \<union> set L') \<and> set L' \<inter> (used - set L) = {}
     \<and> (\<forall>b \<in> used - set L. qblocks m' ! b = qblocks m ! b) \<and> set (mallocs m') \<subseteq> set (mallocs m)"

lemma not_full:
  assumes "head_index p = of_nat h" "h \<le> k" "k < h + 2 ^ 62"
  shows "\<not> subqueue_full (of_nat k) p"
proof -
  have "(of_nat k :: u64) + of_nat block_size = of_nat (h + (k - h + 32))"
    unfolding block_size_def of_nat_add [symmetric] using assms(2) by simp
  then have "(of_nat k :: u64) + of_nat block_size = head_index p + of_nat (k - h + 32)" using assms(1) by (simp only: of_nat_add)
  then have "circular_less_than (head_index p) (of_nat k + of_nat block_size)"
    using circular_less_than_ahead [of "k - h + 32" "head_index p"] assms(2,3) by (simp del: of_nat_add)
  moreover have "max_subqueue_size = - 1"
    by (simp add: max_subqueue_size_def traits_max_subqueue_size_def block_size_def)
  ultimately show ?thesis by (simp add: subqueue_full_def)
qed

lemma at_block_end:
  assumes "tail_index p = of_nat t"
  shows "tail_index p AND (of_nat block_size - 1) = 0 \<longleftrightarrow> t mod 32 = 0"
proof -
  have "(of_nat block_size - 1 :: u64) = of_nat (block_size - 1)" by (simp add: block_size_def)
  then have "unat (tail_index p AND (of_nat block_size - 1)) = t mod 32"
    using slot_of_nat [of t] assms by (simp add: slot_of_def)
  then show ?thesis by (metis unsigned_0 word_unat_eq_iff)
qed

lemma enqueue_in_block:
  assumes "fifo h t xs L p (qblocks m)" "pool_inv m used" "set L \<subseteq> used" "t mod 32 \<noteq> 0"
  shows "\<exists>p' m'. iq_enqueue mode x p m = Inr (True, p', m') \<and> fifo h (Suc t) (xs @ [x]) L p' (qblocks m')
    \<and> pool_step used L m L m'"
proof -
  have "blocks_upto t = blocks_upto (Suc t)" using blocks_upto_simps(2) [OF assms(4)] by (simp add: blocks_upto_simps)
  then have "queue_with (blocks_upto (Suc t)) h t xs L p (qblocks m)" using assms(1) by simp
  note put = put_element_run [OF this assms(2,3), of x]
  have "tail_index p AND (of_nat block_size - 1) \<noteq> 0"
    using at_block_end [of p t] assms(1,4) by (simp add: queue_with_def counters_ok_def)
  then show ?thesis using put assms(3) by (auto simp: iq_enqueue_def pool_step_def Un_absorb2)
qed

lemma view_room:
  assumes "view_ok kt L V" "length L = kt - h div 32" "32 * kt \<le> h + 2 ^ 62 + 32" "\<not> claimable (last V)" "V \<noteq> []"
  shows "length V < 2 ^ 58"
proof -
  have "\<not> length L < length V"
  proof
    assume l: "length L < length V"
    then have "claimable (V ! (length V - 1))" using assms(1) by (simp add: view_ok_def)
    then show False using assms(4,5) by (simp add: last_conv_nth)
  qed
  moreover have "h < 32 * (h div 32) + 32" using mod_less_divisor [of 32 h] by (metis div_mult_mod_eq mult.commute nat_add_left_cancel_less zero_less_numeral)
  then have "32 * length L \<le> 2 ^ 62 + 64" using assms(2,3) by linarith
  ultimately show ?thesis by simp
qed

text \<open>The index with a new block, and with the entry given back.\<close>

lemma inserted_value:
  assumes "inserted k p a p'" "index_ok p" "view_ok kt L (index_view p)" "k = of_nat (32 * kt)"
  shows "index_ok (set_value a (Some b) p') \<and> view_ok (Suc kt) (b # L) (index_view (set_value a (Some b) p'))"
    "\<exists>q. rewind_tail p' = Inr q \<and> index_ok (set_value a None q) \<and> view_ok kt L (index_view (set_value a None q))
       \<and> same_queue p (set_value a None q)"
proof -
  obtain ext h where i: "index_ok p'" "same_queue p p'" "list_all claimable ext" "claimable (last (index_view p @ ext))"
      "index_view p' = (last (index_view p @ ext))\<lparr>entry_key := k\<rparr> # butlast (index_view p @ ext)"
      "block_index p' = Some h" "addr_at h 0 = a"
    using assms(1) by (auto simp: inserted_def)
  define V where "V = index_view p @ ext"
  have V: "view_ok kt L V" "index_view p' = (last V)\<lparr>entry_key := k\<rparr> # butlast V" "claimable (last V)" "V \<noteq> []"
    using view_ok_more [OF assms(3) i(3)] i(4,5) index_view_nonempty [OF assms(2)] by (simp_all add: V_def)
  note room = view_ok_shorter [OF V(1,3,4)]
  have both: "e\<lparr>entry_key := k, entry_value := v\<rparr> = \<lparr>entry_key = k, entry_value = v\<rparr>" for e v
    by (cases e) simp
  have "index_view (set_value a (Some b) p') = \<lparr>entry_key = k, entry_value = Some b\<rparr> # butlast V"
    using set_value_view(3) [OF i(1,6), of 0 "Some b"] V(2) i(7) both by simp
  moreover have "index_ok (set_value a (Some b) p')"
    using set_value_view(1) [OF i(1,6), of 0 "Some b"] V(2) i(7) by simp
  ultimately show "index_ok (set_value a (Some b) p') \<and> view_ok (Suc kt) (b # L) (index_view (set_value a (Some b) p'))"
    using view_ok_insert [OF V(1) room, of b] assms(4) by simp
  obtain q h' where q: "rewind_tail p' = Inr q" "index_ok q" "index_view q = rotate1 (index_view p')"
      "block_index q = Some h'" "q = p'\<lparr>block_index := Some h'\<rparr>" "addr_at h' (length (index_view p') - 1) = a"
    using rewind_view [OF i(1)] i(6,7) by auto
  have w: "index_view q = butlast V @ [(last V)\<lparr>entry_key := k\<rparr>]" "length (index_view p') - 1 < length (index_view q)"
    "length (index_view p') - 1 = length (butlast V)"
    using q(3) V(2) by simp_all
  have a: "addr_at h' (length (butlast V)) = a" using q(6) unfolding w(3) .
  have "index_view (set_value a None q) = butlast V @ [\<lparr>entry_key = k, entry_value = None\<rparr>]"
    using set_value_view(3) [OF q(2,4) w(2), of None]
    unfolding w(1) w(3) a by (simp only: list_update_length nth_append_length both)
  then have "view_ok kt L (index_view (set_value a None q))"
    using view_ok_rewind [OF V(1) room, of "\<lparr>entry_key = k, entry_value = None\<rparr>"] by (simp add: claimable_def)
  moreover have "index_ok (set_value a None q)" using set_value_view(1) [OF q(2,4) w(2), of None] q(6) by simp
  moreover have "same_queue p (set_value a None q)"
    using i(2) q(5) by (simp add: same_queue_def set_value_def)
  ultimately show "\<exists>q. rewind_tail p' = Inr q \<and> index_ok (set_value a None q)
      \<and> view_ok kt L (index_view (set_value a None q)) \<and> same_queue p (set_value a None q)"
    using q(1) by blast
qed

text \<open>A block more: it is the newest, and none of its slots is used yet.\<close>

lemma contents_new_block:
  assumes C: "contents_ok kt h t xs L B" and len: "length L = kt - h div 32" and kt: "blocks_upto t \<le> kt" "h \<le> 32 * kt"
    and b: "b \<notin> set L" "completely_dequeued (B' ! b) = 0" "\<And>c. c \<in> set L \<Longrightarrow> B' ! c = B ! c"
  shows "contents_ok (Suc kt) h t xs (b # L) B'"
  unfolding contents_ok_def
proof (intro conjI allI impI)
  fix i
  assume i: "h \<le> i" "i < t"
  note live = live_block [OF len i kt(1)]
  have "Suc kt - 1 - i div 32 = Suc (kt - 1 - i div 32)" using live(2) by linarith
  then have "(b # L) ! (Suc kt - 1 - i div 32) = L ! (kt - 1 - i div 32)" by (simp only: nth_Cons_Suc)
  moreover have "L ! (kt - 1 - i div 32) \<in> set L" using live(1) by simp
  ultimately show "block_at (B' ! ((b # L) ! (Suc kt - 1 - i div 32))) (of_nat i) = Some (xs ! (i - h))"
    using C i b(3) by (simp add: contents_ok_def)
next
  fix d
  assume d: "d < length (b # L)"
  show "completely_dequeued (B' ! ((b # L) ! d)) = of_nat (if Suc d = length (b # L) then h mod 32 else 0)"
  proof (cases d)
    case 0
    have "h mod 32 = 0" if "L = []"
    proof -
      have "kt \<le> h div 32" using that len by simp
      then have "32 * kt \<le> 32 * (h div 32)" by simp
      moreover have "32 * (h div 32) + h mod 32 = h" by simp
      ultimately show ?thesis using kt(2) by linarith
    qed
    then show ?thesis using 0 b(2) by simp
  next
    case (Suc d')
    then have "L ! d' \<in> set L" using d by simp
    then show ?thesis using Suc d C b(3) by (simp add: contents_ok_def)
  qed
qed

lemma insert_block_run:
  assumes q: "queue_with kt h t xs L p (qblocks m)" "pool_inv m used" "set L \<subseteq> used"
    and kt: "blocks_upto t \<le> kt" "h \<le> 32 * kt" "32 * kt \<le> h + 2 ^ 62 + 32"
  shows "\<exists>r p' m'. insert_block mode (of_nat (32 * kt)) p m = Inr (r, p', m')
    \<and> head_index p' = head_index p \<and> tail_index p' = tail_index p
    \<and> (case r of
         None \<Rightarrow> queue_with kt h t xs L p' (qblocks m') \<and> pool_step used L m L m' \<and> tail_block p' = tail_block p
           \<and> (mode = Can_Alloc \<longrightarrow> False \<in> set (mallocs m))
       | Some b \<Rightarrow> b \<notin> used \<and> queue_with (Suc kt) h t xs (b # L) p' (qblocks m') \<and> pool_step used L m (b # L) m')"
proof -
  have t: "t = h + length xs" "counters_ok h t p" "index_ok p" "view_ok kt L (index_view p)" "length L = kt - h div 32"
    "distinct L" "contents_ok kt h t xs L (qblocks m)"
    using q(1) unfolding queue_with_def by blast+
  obtain r p1 ms where ins: "insert_entry mode (of_nat (32 * kt)) p m = Inr (r, p1, m\<lparr>mallocs := ms\<rparr>)"
      "case r of None \<Rightarrow> p1 = p \<and> (mode = Can_Alloc \<longrightarrow> False \<in> set (mallocs m)) | Some a \<Rightarrow> inserted (of_nat (32 * kt)) p a p1"
      "set ms \<subseteq> set (mallocs m)"
    using insert_entry_view [OF t(3) view_room [OF t(4,5) kt(3) _ index_view_nonempty [OF t(3)]], of mode "of_nat (32 * kt)" m]
    by blast
  let ?m = "m\<lparr>mallocs := ms\<rparr>"
  have inv1: "pool_inv ?m used" using q(2) by (simp add: pool_inv_def unused_def)
  show ?thesis
  proof (cases r)
    case None
    then show ?thesis using ins inv1 q(1,3) by (auto simp: insert_block_def pool_step_def Un_absorb2)
  next
    case (Some a)
    then have i: "inserted (of_nat (32 * kt)) p a p1" using ins(2) by simp
    then have same: "same_queue p p1" by (simp add: inserted_def)
    note iv = inserted_value [OF i t(3,4) refl]
    obtain rb m2 where rb: "requisition_block mode ?m = (rb, m2)" "pool_extends ?m m2"
        "case rb of None \<Rightarrow> pool_inv m2 used \<and> (mode = Can_Alloc \<longrightarrow> False \<in> set (mallocs ?m))
         | Some b \<Rightarrow> b \<notin> used \<and> pool_inv m2 (insert b used)"
      using requisition_spec [OF inv1, of mode] by blast
    have old: "qblocks m2 ! b = qblocks m ! b" if "b \<in> used" for b
      using rb(2) that pool_inv_used [OF inv1 that] by (auto simp: pool_extends_def nth_append)
    have ms2: "set (mallocs m2) \<subseteq> set (mallocs m)" using rb(2) ins(3) by (auto simp: pool_extends_def)
    show ?thesis
    proof (cases rb)
      case None
      obtain p2 where p2: "rewind_tail p1 = Inr p2" "index_ok (set_value a None p2)"
          "view_ok kt L (index_view (set_value a None p2))" "same_queue p (set_value a None p2)"
        using iv(2) by blast
      have "contents_ok kt h t xs L (qblocks m2)"
        by (rule contents_other_blocks [OF t(7,5) kt(1)]) (use q(3) old in auto)
      then have "queue_with kt h t xs L (set_value a None p2) (qblocks m2)"
        using q(1) p2(2-4) by (auto simp: queue_with_def counters_ok_def same_queue_def)
      moreover have "pool_step used L m L m2" using rb(3) None q(3) old ms2 by (auto simp: pool_step_def Un_absorb2)
      ultimately show ?thesis using ins(1,3) Some rb(1,3) None p2(1,4)
        by (intro exI [of _ None] exI [of _ "set_value a None p2"] exI [of _ m2]) (auto simp: insert_block_def same_queue_def)
    next
      case (Some b)
      then have b: "b \<notin> used" "pool_inv m2 (insert b used)" using rb(3) by simp_all
      let ?p = "(set_value a (Some b) p1)\<lparr>tail_block := Some b\<rparr>"
      let ?m3 = "on_block b (reset_empty Implicit_Context) m2"
      have b2: "b < length (qblocks m2)" "b \<notin> set L" using pool_inv_used [OF b(2)] b(1) q(3) by auto
      have inv3: "pool_inv ?m3 (insert b used)" using on_block_inv [OF b(2)] by simp
      have blocks: "qblocks ?m3 ! c = qblocks m ! c" if "c \<in> used" for c
        using that b(1) b2(1) old by (auto simp: on_block_nth)
      have "index_ok ?p" "view_ok (Suc kt) (b # L) (index_view ?p)" "counters_ok h t ?p"
        using iv(1) [of b] t(2) same
        by (auto simp: index_ok_def header_ok_def index_view_def counters_ok_def same_queue_def set_value_def)
      moreover have "h div 32 \<le> kt" using kt(2) by (metis div_le_mono nonzero_mult_div_cancel_left zero_neq_numeral)
      then have "length (b # L) = Suc kt - h div 32" using t(5) by (simp add: Suc_diff_le)
      moreover have "contents_ok (Suc kt) h t xs (b # L) (qblocks ?m3)"
      proof (rule contents_new_block [OF t(7,5) kt(1,2) b2(2)])
        show "completely_dequeued (qblocks ?m3 ! b) = 0" using b2(1) by (simp add: on_block_nth)
        show "qblocks ?m3 ! c = qblocks m ! c" if "c \<in> set L" for c using that q(3) blocks by blast
      qed
      ultimately have "queue_with (Suc kt) h t xs (b # L) ?p (qblocks ?m3)" using t(1,6) b2 by (simp add: queue_with_def)
      moreover have "pool_step used L m (b # L) ?m3"
      proof -
        have "(used - set L) \<union> set (b # L) = insert b used" using q(3) by auto
        then show ?thesis using inv3 blocks b(1) ms2 by (auto simp: pool_step_def)
      qed
      ultimately show ?thesis using ins(1) \<open>r = Some a\<close> Some rb(1) b(1) same
        by (intro exI [of _ "Some b"] exI [of _ ?p] exI [of _ ?m3]) (simp add: insert_block_def same_queue_def set_value_def)
    qed
  qed
qed

lemma pool_step_trans:
  assumes "pool_step used L m L' m'" "pool_step (used - set L \<union> set L') L' m' L'' m''" "set L \<subseteq> used"
  shows "pool_step used L m L'' m''"
proof -
  have "used - set L \<union> set L' - set L' = used - set L" using assms(1) by (auto simp: pool_step_def)
  then show ?thesis using assms by (auto simp: pool_step_def)
qed

lemma enqueue_new_block:
  assumes q: "fifo h t xs L p (qblocks m)" "pool_inv m used" "set L \<subseteq> used" "t mod 32 = 0" "length xs < 2 ^ 62"
  shows "\<exists>ok p' m' L'. iq_enqueue mode x p m = Inr (ok, p', m') \<and> pool_step used L m L' m'
    \<and> (if ok then fifo h (Suc t) (xs @ [x]) L' p' (qblocks m') else fifo h t xs L' p' (qblocks m'))
    \<and> (mode = Can_Alloc \<longrightarrow> False \<notin> set (mallocs m) \<longrightarrow> ok)"
proof -
  have t: "t = h + length xs" "counters_ok h t p" using q(1) unfolding queue_with_def by blast+
  have kt: "blocks_upto t = t div 32" "blocks_upto (Suc t) = Suc (blocks_upto t)" and t32: "t = 32 * (t div 32)"
    using q(4) by (auto simp: blocks_upto_simps)
  have key: "tail_index p = of_nat (32 * blocks_upto t)" using t(2) t32 kt(1) by (simp only: counters_ok_def)
  have start: "tail_index p AND (of_nat block_size - 1) = 0" "\<not> subqueue_full (tail_index p) p"
    using at_block_end [of p t] t q(4,5) not_full [of p h t] by (auto simp: counters_ok_def)
  obtain r p1 m1 where ins: "insert_block mode (tail_index p) p m = Inr (r, p1, m1)"
      "case r of
         None \<Rightarrow> fifo h t xs L p1 (qblocks m1) \<and> pool_step used L m L m1 \<and> tail_block p1 = tail_block p
           \<and> (mode = Can_Alloc \<longrightarrow> False \<in> set (mallocs m))
       | Some b \<Rightarrow> b \<notin> used \<and> queue_with (Suc (blocks_upto t)) h t xs (b # L) p1 (qblocks m1) \<and> pool_step used L m (b # L) m1"
    using insert_block_run [OF q(1-3) order_refl, of mode] t(1) q(5) t32 kt(1) key by auto
  show ?thesis
  proof (cases r)
    case None
    then show ?thesis using start ins
      by (intro exI [of _ False] exI [of _ p1] exI [of _ m1] exI [of _ L]) (simp add: iq_enqueue_def)
  next
    case (Some b)
    then have b: "queue_with (blocks_upto (Suc t)) h t xs (b # L) p1 (qblocks m1)" "pool_step used L m (b # L) m1"
      using ins(2) kt(2) by simp_all
    let ?used = "used - set L \<union> set (b # L)"
    obtain p4 m4 where put: "put_element x p1 m1 = Inr (True, p4, m4)" "fifo h (Suc t) (xs @ [x]) (b # L) p4 (qblocks m4)"
        "pool_inv m4 ?used" "\<forall>c. c \<notin> set (b # L) \<longrightarrow> qblocks m4 ! c = qblocks m1 ! c" "mallocs m4 = mallocs m1"
      using put_element_run [OF b(1), of ?used x] b(2) by (auto simp: pool_step_def)
    have "?used - set (b # L) \<union> set (b # L) = ?used" by auto
    then have "pool_step ?used (b # L) m1 (b # L) m4" using put(3-5) unfolding pool_step_def by auto
    then have "pool_step used L m (b # L) m4" by (rule pool_step_trans [OF b(2) _ q(3)])
    then show ?thesis using start ins(1) Some put(1,2)
      by (intro exI [of _ True] exI [of _ p4] exI [of _ m4] exI [of _ "b # L"]) (simp add: iq_enqueue_def)
  qed
qed

text \<open>\<open>enqueue\<close> puts the element behind the others, or memory has run out and nothing has changed.\<close>

lemma enqueue_run:
  assumes "fifo h t xs L p (qblocks m)" "pool_inv m used" "set L \<subseteq> used" "length xs < 2 ^ 62"
  shows "\<exists>ok p' m' L'. iq_enqueue mode x p m = Inr (ok, p', m') \<and> pool_step used L m L' m'
    \<and> (if ok then fifo h (Suc t) (xs @ [x]) L' p' (qblocks m') else fifo h t xs L' p' (qblocks m'))
    \<and> (mode = Can_Alloc \<longrightarrow> False \<notin> set (mallocs m) \<longrightarrow> ok)"
proof (cases "t mod 32 = 0")
  case True
  show ?thesis by (rule enqueue_new_block [OF assms(1-3) True assms(4)])
next
  case False
  show ?thesis using enqueue_in_block [OF assms(1-3) False, of mode x] by fastforce
qed

section \<open>Taking an element\<close>

lemma view_ok_drop:
  assumes "view_ok kt L V" "L \<noteq> []"
  shows "view_ok kt (butlast L) (V[length L - 1 := (V ! (length L - 1))\<lparr>entry_value := None\<rparr>])"
  using assms by (auto simp: view_ok_def nth_butlast nth_list_update claimable_def)

text \<open>The bookkeeping of the oldest block.\<close>

lemma div_Suc_32:
  "(Suc h) div 32 = (if h mod 32 = 31 then Suc (h div 32) else h div 32)"
  "(Suc h) mod 32 = (if h mod 32 = 31 then 0 else Suc (h mod 32))"
  by (simp_all add: div_Suc mod_Suc)

lemma contents_after_take:
  assumes C: "contents_ok kt h t (x # ys) L B" and L: "L \<noteq> []" "distinct L" "length L = kt - h div 32" "blocks_upto t \<le> kt"
    and b: "last L < length B" "list_all block_ok B"
    and B': "\<And>c. B' ! c = (if c = last L then fst (set_empty Implicit_Context (of_nat h) (block_put (of_nat h) None (B ! last L))) else B ! c)"
  shows "contents_ok kt (Suc h) t ys (if h mod 32 = 31 then butlast L else L) B'"
proof -
  have last: "last L = L ! (length L - 1)" using L(1) by (rule last_conv_nth)
  have okb: "block_ok (B ! last L)" using b by (simp add: list_all_length)
  let ?L = "if h mod 32 = 31 then butlast L else L"
  show ?thesis
    unfolding contents_ok_def
  proof (intro conjI allI impI)
    fix i
    assume i: "Suc h \<le> i" "i < t"
    let ?d = "kt - 1 - i div 32"
    have d: "?d < length L" "i div 32 < kt" using live_block [OF L(3) _ i(2) L(4)] i(1) by auto
    have "Suc h div 32 \<le> i div 32" using i(1) by (rule div_le_mono)
    have nth: "?L ! ?d = L ! ?d"
    proof (cases "h mod 32 = 31")
      case True
      then have "?d < length (butlast L)" using \<open>Suc h div 32 \<le> i div 32\<close> d L(3) unfolding div_Suc_32 length_butlast by simp linarith
      then show ?thesis using True nth_butlast by simp
    qed simp
    have old: "block_at (B ! (L ! ?d)) (of_nat i) = Some (ys ! (i - Suc h))"
    proof -
      have "i - h = Suc (i - Suc h)" using i(1) by simp
      then show ?thesis using C i by (simp add: contents_ok_def)
    qed
    show "block_at (B' ! (?L ! ?d)) (of_nat i) = Some (ys ! (i - Suc h))"
    proof (cases "L ! ?d = last L")
      case True
      then have "?d = length L - 1" using nth_eq_iff_index_eq [OF L(2) d(1), of "length L - 1"] L(1) last by simp
      then have "i div 32 = h div 32" using d(2) L(1,3) by (cases L) simp_all
      then have "i mod 32 \<noteq> h mod 32" using i(1) by (metis div_mult_mod_eq Suc_n_not_le_n)
      then show ?thesis using True nth old okb by (simp add: B' block_puts)
    next
      case False
      then show ?thesis using nth old by (simp add: B')
    qed
  next
    fix d
    assume d: "d < length ?L"
    then have nth: "?L ! d = L ! d" "d < length L" by (auto simp: nth_butlast split: if_splits)
    have old: "completely_dequeued (B ! (L ! d)) = of_nat (if Suc d = length L then h mod 32 else 0)"
      using C nth(2) by (simp add: contents_ok_def)
    have at: "L ! d = last L \<longleftrightarrow> Suc d = length L"
      using nth_eq_iff_index_eq [OF L(2) nth(2), of "length L - 1"] L(1) last by auto
    show "completely_dequeued (B' ! (?L ! d)) = of_nat (if Suc d = length ?L then Suc h mod 32 else 0)"
    proof (cases "h mod 32 = 31")
      case True
      then have "Suc d \<noteq> length L" using d by simp
      then show ?thesis using True old at nth by (simp add: B' div_Suc_32)
    next
      case False
      then show ?thesis using old at nth okb
        by (cases "Suc d = length L") (auto simp: B' div_Suc_32 block_puts)
    qed
  qed
qed

lemma dequeue_run:
  assumes q: "fifo h t (x # ys) L p (qblocks m)" "pool_inv m used" "set L \<subseteq> used" "length (x # ys) \<le> 2 ^ 62"
  shows "\<exists>p' m' L'. iq_dequeue p m = Inr (Some x, p', m') \<and> fifo (Suc h) t ys L' p' (qblocks m') \<and> pool_step used L m L' m'"
proof -
  define kt where "kt = blocks_upto t"
  have t: "t = h + length (x # ys)" "counters_ok h t p" "index_ok p" "view_ok kt L (index_view p)"
    "length L = kt - h div 32" "distinct L" "L \<noteq> [] \<Longrightarrow> tail_block p = Some (hd L)" "contents_ok kt h t (x # ys) L (qblocks m)"
    using q(1) unfolding queue_with_def kt_def by blast+
  have ht: "h < t" using t(1) by simp
  have d: "kt - 1 - h div 32 < length L" "h div 32 < kt"
    using live_block [OF t(5) order_refl ht] by (simp_all add: kt_def)
  then have L: "L \<noteq> []" "kt - 1 - h div 32 = length L - 1" using t(5) by auto
  define b where "b = last L"
  have b: "b \<in> used" "L ! (length L - 1) = b" "b < length (qblocks m)" "block_ok (qblocks m ! b)"
  proof -
    show "b \<in> used" using q(3) last_in_set [OF L(1)] by (auto simp: b_def)
    then show "b < length (qblocks m)" "block_ok (qblocks m ! b)" using pool_inv_used [OF q(2)] by simp_all
    show "L ! (length L - 1) = b" using last_conv_nth [OF L(1)] by (simp add: b_def)
  qed
  define p2 where "p2 = p\<lparr>optimistic_count := optimistic_count p + 1, head_index := head_index p + 1\<rparr>"
  have same: "index_view p2 = index_view p" "block_index p2 = block_index p" "entries p2 = entries p"
    by (simp_all add: p2_def index_view_def split: option.split)
  have ok2: "index_ok p2" using t(3) by (simp add: index_ok_def header_ok_def p2_def)
  obtain hd' where hd': "block_index p2 = Some hd'" using ok2 by (auto simp: index_ok_def)
  define a where "a = addr_at hd' (length L - 1)"
  have dV: "length L - 1 < length (index_view p2)" "length L - 1 < length L" using t(4) L(1) by (cases L; simp add: view_ok_def same)+
  have entry: "index_view p2 ! (length L - 1) = \<lparr>entry_key = of_nat (32 * (kt - 1 - (length L - 1))), entry_value = Some b\<rparr>"
    "entry_key (index_view p2 ! 0) = of_nat (32 * (h div 32 + (length L - 1)))"
  proof -
    have all: "index_view p ! j = \<lparr>entry_key = of_nat (32 * (kt - 1 - j)), entry_value = Some (L ! j)\<rparr>" if "j < length L" for j
      using t(4) that by (simp only: view_ok_def)
    show "index_view p2 ! (length L - 1) = \<lparr>entry_key = of_nat (32 * (kt - 1 - (length L - 1))), entry_value = Some b\<rparr>"
      using all [OF dV(2)] by (simp only: same b(2))
    have "kt - 1 - 0 = h div 32 + (length L - 1)" using L(2) d(2) by linarith
    then show "entry_key (index_view p2 ! 0) = of_nat (32 * (h div 32 + (length L - 1)))"
      using all [of 0] L(1) by (simp only: same length_greater_0_conv index_entry.select_convs not_False_eq_True simp_thms)
  qed
  have "entry_for (of_nat h) p2 = Inr a"
    unfolding a_def by (rule entry_for_view(1) [OF ok2 hd' dV(1) entry(2)])
  moreover have val: "entry_value (entries p2 ! a) = Some b"
    using index_view_eq(1) [OF hd'] index_view_eq(2) [OF hd', of "length L - 1"] dV(1) entry(1) by (simp add: a_def)
  moreover have head: "head_index p = of_nat h" "tail_index p = of_nat t" "optimistic_count p - overcommit p = of_nat h"
    using t(2) by (simp_all add: counters_ok_def)
  moreover have "circular_less_than (of_nat h) (of_nat t)"
    using circular_less_than_ahead [of "length (x # ys)" "of_nat h"] q(4) t(1) by (simp add: add.left_commute)
  moreover have x: "block_at (qblocks m ! b) (of_nat h) = Some x"
    using t(8) ht b(2) L(2) by (auto simp: contents_ok_def)
  define m2 where "m2 = on_block b (fst \<circ> set_empty Implicit_Context (of_nat h)) (on_block b (block_put (of_nat h) None) m)"
  define full where "full \<longleftrightarrow> h mod 32 = 31"
  have full: "snd (set_empty Implicit_Context (of_nat h) (block_put (of_nat h) None (qblocks m ! b))) = full"
  proof -
    have "completely_dequeued (qblocks m ! b) = of_nat (h mod 32)"
      using t(8) dV(2) b(2) by (auto simp: contents_ok_def)
    moreover have "of_nat (h mod 32) = (31 :: u64) \<longleftrightarrow> h mod 32 = 31"
      using unat_of_nat_u64 [of "h mod 32"] by (auto simp: word_unat_eq_iff)
    ultimately show ?thesis using b(4) by (simp add: full_def block_puts)
  qed
  define L' where "L' = (if full then butlast L else L)"
  define p' where "p' = (if full then set_value a None p2 else p2)"
  define m' where "m' = (if full then add_to_free_list b m2 else m2)"
  ultimately have run: "iq_dequeue p m = Inr (Some x, p', m')"
    using full b(3) x by (simp add: iq_dequeue_def Let_def p2_def m2_def p'_def m'_def on_block_nth del: empty_at)
  have m2: "pool_inv m2 used" unfolding m2_def
    by (intro on_block_inv) (use q(2) b(1) in auto)
  have blocks: "qblocks m' ! c = (if c = b then fst (set_empty Implicit_Context (of_nat h) (block_put (of_nat h) None (qblocks m ! b)))
      else qblocks m ! c)" for c
    using b(3) by (simp add: m'_def m2_def add_to_free_list_def on_block_nth)
  have "contents_ok kt (Suc h) t ys L' (qblocks m')"
    unfolding L'_def full_def
    by (rule contents_after_take [OF t(8) L(1) t(6,5)]) (use b q(2) blocks in \<open>auto simp: kt_def b_def pool_inv_def\<close>)
  moreover have "index_ok p'" "view_ok kt L' (index_view p')"
  proof -
    note sv = set_value_view [OF ok2 hd' dV(1), of None, folded a_def]
    show "index_ok p'" using ok2 sv(1) by (simp add: p'_def)
    show "view_ok kt L' (index_view p')"
      using t(4) view_ok_drop [OF t(4) L(1)] sv(3) by (simp add: p'_def L'_def same)
  qed
  moreover have "counters_ok (Suc h) t p'" "tail_block p' = tail_block p"
    using head by (simp_all add: counters_ok_def p'_def p2_def set_value_def algebra_simps)
  moreover have "length L' = kt - Suc h div 32" "distinct L'"
    using t(5,6) by (simp_all add: L'_def full_def div_Suc_32 distinct_butlast)
  moreover have "hd L' = hd L" if "L' \<noteq> []"
    using that L(1) by (cases L) (auto simp: L'_def)
  ultimately have "fifo (Suc h) t ys L' p' (qblocks m')"
    using t(1,7) L(1) by (auto simp: queue_with_def kt_def)
  moreover have "pool_step used L m L' m'"
  proof -
    have "L = butlast L @ [b]" using L(1) by (simp add: b_def)
    then have sets: "set L = insert b (set (butlast L))" "b \<notin> set (butlast L)"
      using t(6) by (metis set_append list.set Un_insert_right Un_empty_right, metis distinct_append not_distinct_conv_prefix distinct.simps(2) IntI empty_iff list.set_intros(1))
    have "pool_inv m' (used - set L \<union> set L')"
    proof (cases full)
      case True
      have "used - set L \<union> set L' = used - {b}" using True sets q(3) by (auto simp: L'_def)
      then show ?thesis
        using m2 b(1) True by (auto simp: m'_def add_to_free_list_def pool_inv_def unused_def)
    next
      case False
      then have "used - set L \<union> set L' = used" using q(3) by (auto simp: L'_def)
      then show ?thesis using m2 False by (simp add: m'_def)
    qed
    moreover have "set L' \<subseteq> set L" by (auto simp: L'_def dest: in_set_butlastD)
    moreover have "b \<in> set L" using sets by simp
    ultimately show ?thesis
      using blocks by (auto simp: pool_step_def m'_def m2_def add_to_free_list_def)
  qed
  ultimately show ?thesis using run by blast
qed

lemma dequeue_empty:
  assumes "fifo h t [] L p B"
  shows "iq_dequeue p m = Inr (None, p, m)"
proof -
  have "optimistic_count p - overcommit p = of_nat h" "tail_index p = of_nat h"
    using assms by (simp_all add: queue_with_def counters_ok_def)
  moreover have "\<not> circular_less_than (of_nat h) (of_nat h :: u64)"
    using circular_less_than_ahead [of 0 "of_nat h"] by simp
  ultimately show ?thesis by (simp add: iq_dequeue_def)
qed

section \<open>The sub-queue is a queue\<close>

text \<open>A producer that holds the elements of a list, among others that use the same pool.\<close>

definition holds_list :: "producer \<times> pool \<Rightarrow> u64 list \<Rightarrow> bool" where
  "holds_list s xs \<longleftrightarrow> (\<exists>h L used. fifo h (h + length xs) xs L (fst s) (qblocks (snd s))
     \<and> pool_inv (snd s) used \<and> set L \<subseteq> used)"

definition iq_put :: "alloc_mode \<Rightarrow> u64 \<Rightarrow> producer \<times> pool \<Rightarrow> (bool \<times> producer \<times> pool) res" where
  "iq_put mode x s = iq_enqueue mode x (fst s) (snd s)"

definition iq_get :: "producer \<times> pool \<Rightarrow> (u64 option \<times> producer \<times> pool) res" where
  "iq_get s = iq_dequeue (fst s) (snd s)"

lemma fifo_length: "fifo h t xs L p B \<Longrightarrow> t = h + length xs"
  by (simp add: queue_with_def)

text \<open>Memory does not run out.\<close>

definition enough_memory :: "alloc_mode \<Rightarrow> pool \<Rightarrow> bool" where
  "enough_memory mode m \<longleftrightarrow> mode = Can_Alloc \<and> False \<notin> set (mallocs m)"

interpretation subqueue: fifo_queue holds_list "iq_put mode" iq_get "\<lambda>s. enough_memory mode (snd s)" "2 ^ 62" for mode
proof
  fix s :: "producer \<times> pool" and xs x
  assume "holds_list s xs" "length xs < 2 ^ 62"
  then obtain h L used where q: "fifo h (h + length xs) xs L (fst s) (qblocks (snd s))" "pool_inv (snd s) used" "set L \<subseteq> used"
    by (auto simp: holds_list_def)
  obtain ok p' m' L' where e: "iq_enqueue mode x (fst s) (snd s) = Inr (ok, p', m')" "pool_step used L (snd s) L' m'"
      "if ok then fifo h (Suc (h + length xs)) (xs @ [x]) L' p' (qblocks m') else fifo h (h + length xs) xs L' p' (qblocks m')"
      "mode = Can_Alloc \<longrightarrow> False \<notin> set (mallocs (snd s)) \<longrightarrow> ok"
    using enqueue_run [OF q \<open>length xs < 2 ^ 62\<close>, of mode x] by blast
  have "holds_list (p', m') (if ok then xs @ [x] else xs)"
    unfolding holds_list_def
    by (rule exI [of _ h], rule exI [of _ L'], rule exI [of _ "(used - set L) \<union> set L'"])
      (use e(2,3) in \<open>auto simp: pool_step_def split: if_splits\<close>)
  moreover have "enough_memory mode (snd s) \<longrightarrow> ok \<and> enough_memory mode m'"
    using e(2,4) by (auto simp: enough_memory_def pool_step_def)
  ultimately show "\<exists>ok s'. iq_put mode x s = Inr (ok, s') \<and> holds_list s' (if ok then xs @ [x] else xs)
      \<and> (enough_memory mode (snd s) \<longrightarrow> ok \<and> enough_memory mode (snd s'))"
    using e(1) by (auto simp: iq_put_def)
next
  fix s :: "producer \<times> pool"
  assume "holds_list s []"
  then show "\<exists>s'. iq_get s = Inr (None, s') \<and> holds_list s' []
      \<and> (enough_memory mode (snd s) \<longrightarrow> enough_memory mode (snd s'))"
    using dequeue_empty by (cases s) (fastforce simp: iq_get_def holds_list_def)
next
  fix s :: "producer \<times> pool" and x xs
  assume "holds_list s (x # xs)" "length (x # xs) \<le> 2 ^ 62"
  then obtain h L used where q: "fifo h (h + length (x # xs)) (x # xs) L (fst s) (qblocks (snd s))"
      "pool_inv (snd s) used" "set L \<subseteq> used"
    by (auto simp: holds_list_def)
  obtain p' m' L' where d: "iq_dequeue (fst s) (snd s) = Inr (Some x, p', m')" "pool_step used L (snd s) L' m'"
      "fifo (Suc h) (h + length (x # xs)) xs L' p' (qblocks m')"
    using dequeue_run [OF q \<open>length (x # xs) \<le> 2 ^ 62\<close>] by blast
  have "holds_list (p', m') xs"
    unfolding holds_list_def
    by (rule exI [of _ "Suc h"], rule exI [of _ L'], rule exI [of _ "(used - set L) \<union> set L'"])
      (use d(2,3) in \<open>auto simp: pool_step_def\<close>)
  moreover have "enough_memory mode (snd s) \<longrightarrow> enough_memory mode m'"
    using d(2) by (auto simp: enough_memory_def pool_step_def)
  ultimately show "\<exists>s'. iq_get s = Inr (Some x, s') \<and> holds_list s' xs
      \<and> (enough_memory mode (snd s) \<longrightarrow> enough_memory mode (snd s'))"
    using d(1) by (auto simp: iq_get_def)
qed

subsection \<open>A new producer\<close>

definition pool_new :: "bool list \<Rightarrow> nat option \<Rightarrow> pool" where
  "pool_new ms junk = \<lparr>qblocks = [], pool_size = 0, pool_index = 0, free_list = [], mallocs = ms, garbage = junk\<rparr>"

lemma pool_new_inv: "pool_inv (pool_new ms junk) {}"
  by (simp add: pool_inv_def pool_new_def unused_def)

lemma populate_inv:
  assumes "qblocks m = []" "free_list m = []" "pool_index m = 0"
  shows "pool_inv (populate n m) {}"
  using assms
  by (auto simp: populate_def alloc_def pool_inv_def unused_def list_all_length qblock_new_ok atLeast0LessThan split: list.splits)

lemma producer_new_run:
  assumes "fst (alloc m)"
  shows "\<exists>p ms. producer_new m = Inr (p, m\<lparr>mallocs := ms\<rparr>) \<and> fifo 0 0 [] [] p B \<and> set ms \<subseteq> set (mallocs m)"
proof -
  obtain ms where a: "alloc m = (True, m\<lparr>mallocs := ms\<rparr>)" "set ms \<subseteq> set (mallocs m)"
  proof (cases "mallocs m")
    case Nil
    then show thesis using that [of "[]"] by (simp add: alloc_def)
  next
    case (Cons c cs)
    then show thesis using that [of cs] assms by (auto simp: alloc_def)
  qed
  let ?fresh = "\<lparr>entry_key = invalid_base, entry_value = garbage m\<rparr>"
  define p where "p = \<lparr>tail_index = 0, head_index = 0, optimistic_count = 0, overcommit = 0, tail_block = None,
    next_capacity = 64, block_index = Some \<lparr>hdr_capacity = 32, hdr_tail = 31, hdr_index = [0..<32]\<rparr>, entries = replicate 32 ?fresh\<rparr>"
  have "(- 1 :: u64) AND 31 = 31" "push_bit (Suc 0) (32 :: u64) = 64" by simp_all
  then have run: "producer_new m = Inr (p, m\<lparr>mallocs := ms\<rparr>)"
    using a(1) by (simp add: producer_new_def new_block_index_def initial_index_size_def p_def)
  have "index_ok p" by (auto simp: index_ok_def header_ok_def p_def intro!: exI [of _ 5])
  moreover have "view_ok 0 [] (index_view p)"
  proof -
    have "index_view p ! d = ?fresh" if "d < 32" for d
      using that addr_at_less [of _ p d] by (simp add: index_view_def p_def addr_at_def ring_pos_def)
    then show ?thesis by (simp add: view_ok_def claimable_def index_view_def p_def)
  qed
  ultimately have "fifo 0 0 [] [] p B"
    by (simp add: queue_with_def counters_ok_def contents_ok_def blocks_upto_def) (simp add: p_def)
  then show ?thesis using run a(2) by blast
qed

lemma new_holds_nil:
  assumes "pool_inv m used" "fst (alloc m)"
  shows "\<exists>p m0. producer_new m = Inr (p, m0) \<and> holds_list (p, m0) [] \<and> (enough_memory mode m \<longrightarrow> enough_memory mode m0)"
proof -
  obtain p ms where p: "producer_new m = Inr (p, m\<lparr>mallocs := ms\<rparr>)" "set ms \<subseteq> set (mallocs m)"
      "fifo 0 0 [] [] p (qblocks m)"
    using producer_new_run [OF assms(2), of "qblocks m"] by blast
  have "pool_inv (m\<lparr>mallocs := ms\<rparr>) used" using assms(1) by (simp add: pool_inv_def unused_def)
  then have "holds_list (p, m\<lparr>mallocs := ms\<rparr>) []"
    using p(3) by (auto simp: holds_list_def intro!: exI [of _ 0] exI [of _ "[]"])
  then show ?thesis using p(1,2) by (auto simp: enough_memory_def)
qed

section \<open>Properties\<close>

text \<open>C4: Whatever elements are put into a new sub-queue and taken from it, in whatever order, provided that the
  memory for its first block index could be had when it was made, and whether memory runs out after that or not: they come out first in, first out, an attempt to take fails exactly when
  nothing is left, and with enough memory no element is refused. The counters may wrap around.
\<close>

theorem implicit_producer_is_fifo:
  assumes "pool_inv m used" "fst (alloc m)" "fits (2 ^ 62) 0 ops"
  shows "\<exists>p m0 os s ys. producer_new m = Inr (p, m0) \<and> queue_trace (iq_put mode) iq_get ops (p, m0) = Inr (os, s)
    \<and> length os = length ops \<and> fifo_after [] (zip ops os) = Some ys \<and> holds_list s ys
    \<and> (enough_memory mode m \<longrightarrow> Stored False \<notin> set os)"
proof -
  obtain p m0 where new: "producer_new m = Inr (p, m0)" "holds_list (p, m0) []" "enough_memory mode m \<longrightarrow> enough_memory mode m0"
    using new_holds_nil [OF assms(1,2)] by blast
  then show ?thesis using subqueue.trace_is_fifo [of "(p, m0)" "[]" 0 ops mode] assms(3) by auto
qed

theorem implicit_producer_is_fifo_witness:
  "\<exists>p m0 os s. producer_new (pool_new [True, False] None) = Inr (p, m0)
    \<and> queue_trace (iq_put Can_Alloc) iq_get [Take, Put 7, Take] (p, m0) = Inr (os, s)
    \<and> (\<exists>ys. fifo_after [] (zip [Take, Put 7, Take] os) = Some ys)"
  using implicit_producer_is_fifo [OF pool_new_inv, of "[True, False]" None "[Take, Put 7, Take]" Can_Alloc]
  by (fastforce simp: alloc_def pool_new_def)

end
