(* ===== verification/Queue_Hash.thy ===== *)
theory Queue_Hash
  imports Queue_Producer
begin

text \<open>
  The table from thread ids to implicit producers (\<open>struct ImplicitProducerHash\<close> and the loops of
  \<open>get_or_add_implicit_producer\<close>, \<open>include/concurrentqueue.hpp\<close>): open addressing with linear probing in
  a table whose capacity is a power of two. Nothing is ever removed, since the program is built without the
  notification of threads that end.
\<close>

section \<open>A table\<close>

record hash_table =
  table_capacity :: u64
  table_entries :: "(u64 \<times> nat option) list"

definition invalid_thread :: u64 where "invalid_thread = 0"
definition initial_hash_size :: u64 where "initial_hash_size = 32"

definition table_new :: "u64 \<Rightarrow> hash_table" where
  "table_new n = \<lparr>table_capacity = n, table_entries = replicate (unat n) (invalid_thread, None)\<rparr>"

definition masked :: "hash_table \<Rightarrow> u64 \<Rightarrow> u64" where
  "masked t i = i AND (table_capacity t - 1)"

definition key_at :: "hash_table \<Rightarrow> u64 \<Rightarrow> u64" where
  "key_at t i = fst (table_entries t ! unat i)"

text \<open>The position of a key, or \<open>None\<close> at the first free position.\<close>

fun probe :: "nat \<Rightarrow> hash_table \<Rightarrow> u64 \<Rightarrow> u64 \<Rightarrow> u64 option res" where
  "probe 0 t k i = Inl No_Return"
| "probe (Suc fuel) t k i =
     (let i = masked t i in
      if key_at t i = k then Inr (Some i)
      else if key_at t i = invalid_thread then Inr None
      else probe fuel t k (i + 1))"

fun claim_slot :: "nat \<Rightarrow> hash_table \<Rightarrow> u64 \<Rightarrow> nat option \<Rightarrow> u64 \<Rightarrow> hash_table res" where
  "claim_slot 0 t k v i = Inl No_Return"
| "claim_slot (Suc fuel) t k v i =
     (let i = masked t i in
      if key_at t i = invalid_thread then Inr (t\<lparr>table_entries := (table_entries t)[unat i := (k, v)]\<rparr>)
      else claim_slot fuel t k v (i + 1))"

definition table_fuel :: "hash_table \<Rightarrow> nat" where
  "table_fuel t = unat (table_capacity t)"

definition table_find :: "hash_table \<Rightarrow> u64 \<Rightarrow> u64 option res" where
  "table_find t k = probe (table_fuel t) t k (hash_thread_id k)"

definition table_put :: "u64 \<Rightarrow> nat option \<Rightarrow> hash_table \<Rightarrow> hash_table res" where
  "table_put k v t = claim_slot (table_fuel t) t k v (hash_thread_id k)"

section \<open>Probing\<close>

definition slot :: "hash_table \<Rightarrow> u64 \<Rightarrow> nat \<Rightarrow> nat" where
  "slot t h i = (unat h + i) mod unat (table_capacity t)"

definition table_keys :: "hash_table \<Rightarrow> u64 set" where
  "table_keys t = fst ` set (table_entries t) - {invalid_thread}"

text \<open>
  The capacity is a power of two, no key is stored twice, and no free position lies between where a key
  hashes to and where it is stored.
\<close>

definition table_ok :: "hash_table \<Rightarrow> bool" where
  "table_ok t \<longleftrightarrow> (\<exists>c. c < 64 \<and> unat (table_capacity t) = 2 ^ c) \<and> length (table_entries t) = unat (table_capacity t)
     \<and> distinct (filter (\<lambda>k. k \<noteq> invalid_thread) (map fst (table_entries t)))
     \<and> (\<forall>j < length (table_entries t). fst (table_entries t ! j) \<noteq> invalid_thread \<longrightarrow>
          (\<exists>i < length (table_entries t). slot t (hash_thread_id (fst (table_entries t ! j))) i = j
             \<and> (\<forall>i' < i. fst (table_entries t ! slot t (hash_thread_id (fst (table_entries t ! j))) i') \<noteq> invalid_thread)))"

lemma masked_slot:
  assumes "table_ok t" "unat w mod unat (table_capacity t) = slot t h i"
  shows "unat (masked t w) = slot t h i" "unat (masked t w + 1) mod unat (table_capacity t) = slot t h (Suc i)"
proof -
  obtain c where c: "c < 64" "unat (table_capacity t) = 2 ^ c" using assms(1) by (auto simp: table_ok_def)
  show m: "unat (masked t w) = slot t h i"
    using and_capacity [OF c(2), of w] assms(2) c(2) by (simp add: masked_def)
  have "(2 :: nat) ^ c dvd 2 ^ 64" using c(1) by (intro le_imp_power_dvd) simp
  moreover have "unat (masked t w + 1) = Suc (slot t h i) mod 2 ^ 64" using m by (simp add: unat_word_ariths)
  ultimately have "unat (masked t w + 1) mod 2 ^ c = Suc (slot t h i) mod 2 ^ c" by (metis mod_mod_cancel)
  then show "unat (masked t w + 1) mod unat (table_capacity t) = slot t h (Suc i)"
    using c(2) by (simp add: slot_def mod_Suc_eq)
qed

lemma slot_less: "table_ok t \<Longrightarrow> slot t h i < length (table_entries t)"
  by (auto simp: table_ok_def slot_def)

lemma slot_cover:
  assumes "table_ok t" "j < length (table_entries t)"
  shows "\<exists>i < length (table_entries t). slot t h i = j"
proof -
  let ?n = "length (table_entries t)" and ?h = "unat h mod length (table_entries t)"
  have n: "?n = unat (table_capacity t)" "0 < ?n" using assms by (auto simp: table_ok_def)
  let ?i = "(j + ?n - ?h) mod ?n"
  have "?h < ?n" using n by simp
  have "(unat h + ?i) mod ?n = (?h + (j + ?n - ?h)) mod ?n" by (simp add: mod_add_left_eq mod_add_right_eq)
  also have "?h + (j + ?n - ?h) = j + ?n" using \<open>?h < ?n\<close> by simp
  finally have "slot t h ?i = j" using assms(2) n by (simp add: slot_def)
  then show ?thesis using n by (intro exI [of _ ?i]) simp
qed

text \<open>The first position, from where a key hashes to, that is free or holds the key.\<close>

definition stops_at :: "hash_table \<Rightarrow> u64 \<Rightarrow> nat \<Rightarrow> bool" where
  "stops_at t k i \<longleftrightarrow> i < length (table_entries t)
     \<and> fst (table_entries t ! slot t (hash_thread_id k) i) \<in> {k, invalid_thread}
     \<and> (\<forall>i' < i. fst (table_entries t ! slot t (hash_thread_id k) i') \<notin> {k, invalid_thread})"

lemma stops_somewhere:
  assumes "table_ok t" "invalid_thread \<in> fst ` set (table_entries t)"
  shows "\<exists>i. stops_at t k i"
proof -
  obtain j where j: "j < length (table_entries t)" "fst (table_entries t ! j) = invalid_thread"
    using assms(2) by (auto simp: in_set_conv_nth)
  obtain i where i: "i < length (table_entries t)" "slot t (hash_thread_id k) i = j"
    using slot_cover [OF assms(1) j(1)] by blast
  let ?P = "\<lambda>i. fst (table_entries t ! slot t (hash_thread_id k) i) \<in> {k, invalid_thread}"
  have "\<exists>i. ?P i" using i j by (intro exI [of _ i]) simp
  then obtain l where l: "?P l" "\<forall>i' < l. \<not> ?P i'" using exists_least_iff [of ?P] by blast
  moreover have "l \<le> i" using l(2) i j by (metis insertI1 insertI2 not_le_imp_less)
  ultimately show ?thesis using i(1) unfolding stops_at_def by (intro exI [of _ l]) simp
qed

lemma probe_run:
  assumes "table_ok t" "stops_at t k i" "j \<le> i" "unat w mod unat (table_capacity t) = slot t (hash_thread_id k) j"
    "i - j < fuel"
  shows "probe fuel t k w =
    Inr (if fst (table_entries t ! slot t (hash_thread_id k) i) = k then Some (of_nat (slot t (hash_thread_id k) i)) else None)"
  using assms(3-)
proof (induction fuel arbitrary: j w)
  case (Suc fuel)
  note m = masked_slot [OF assms(1) Suc.prems(2)]
  have m': "masked t w = of_nat (slot t (hash_thread_id k) j)" by (simp flip: m(1))
  show ?case
  proof (cases "j = i")
    case True
    then show ?thesis using assms(2) m by (auto simp: stops_at_def key_at_def Let_def m')
  next
    case False
    then have "fst (table_entries t ! slot t (hash_thread_id k) j) \<notin> {k, invalid_thread}"
      using assms(2) Suc.prems(1) by (simp add: stops_at_def)
    then show ?thesis using Suc.IH [OF _ m(2)] Suc.prems False m(1) by (simp add: key_at_def Let_def)
  qed
qed simp

lemma claim_slot_run:
  assumes "table_ok t" "stops_at t k i" "k \<noteq> invalid_thread" "k \<notin> table_keys t" "j \<le> i"
    "unat w mod unat (table_capacity t) = slot t (hash_thread_id k) j" "i - j < fuel"
  shows "claim_slot fuel t k v w =
    Inr (t\<lparr>table_entries := (table_entries t)[slot t (hash_thread_id k) i := (k, v)]\<rparr>)"
  using assms(5-)
proof (induction fuel arbitrary: j w)
  case (Suc fuel)
  note m = masked_slot [OF assms(1) Suc.prems(2)]
  have in_keys: "fst (table_entries t ! slot t (hash_thread_id k) i) \<noteq> k"
    using assms(3,4) imageI [OF nth_mem [OF slot_less [OF assms(1)]], of fst "hash_thread_id k" i]
    by (auto simp only: table_keys_def)
  show ?case
  proof (cases "j = i")
    case True
    then show ?thesis using assms(2) m in_keys by (auto simp: stops_at_def key_at_def Let_def)
  next
    case False
    then have "fst (table_entries t ! slot t (hash_thread_id k) j) \<noteq> invalid_thread"
      using assms(2) Suc.prems(1) by (simp add: stops_at_def)
    then show ?thesis using Suc.IH [OF _ m(2)] Suc.prems False m(1) by (simp add: key_at_def Let_def)
  qed
qed simp

lemma start_slot: "unat (hash_thread_id k) mod unat (table_capacity t) = slot t (hash_thread_id k) 0"
  by (simp add: slot_def)

lemma table_find_run:
  assumes "table_ok t" "invalid_thread \<in> fst ` set (table_entries t)" "k \<noteq> invalid_thread"
  shows "\<exists>r. table_find t k = Inr r \<and> (case r of None \<Rightarrow> k \<notin> table_keys t
    | Some i \<Rightarrow> unat i < length (table_entries t) \<and> fst (table_entries t ! unat i) = k)"
proof -
  obtain i where i: "stops_at t k i" using stops_somewhere [OF assms(1,2)] by blast
  let ?s = "slot t (hash_thread_id k)"
  have "i < table_fuel t" using i assms(1) by (simp add: stops_at_def table_ok_def table_fuel_def)
  then have run: "table_find t k = Inr (if fst (table_entries t ! ?s i) = k then Some (of_nat (?s i)) else None)"
    unfolding table_find_def by (intro probe_run [OF assms(1) i _ start_slot]) simp_all
  have less: "?s i < length (table_entries t)" "unat (of_nat (?s i) :: u64) = ?s i"
  proof -
    show l: "?s i < length (table_entries t)" by (rule slot_less [OF assms(1)])
    have "length (table_entries t) = unat (table_capacity t)" using assms(1) by (simp add: table_ok_def)
    then show "unat (of_nat (?s i) :: u64) = ?s i"
      using l unat_u64_less_power [of "table_capacity t"] by (intro unat_of_nat_u64) linarith
  qed
  show ?thesis
  proof (cases "fst (table_entries t ! ?s i) = k")
    case True
    then show ?thesis using run less by auto
  next
    case False
    then have free: "fst (table_entries t ! ?s i) = invalid_thread" using i by (simp add: stops_at_def)
    have "k \<notin> table_keys t"
    proof
      assume "k \<in> table_keys t"
      then obtain j where j: "j < length (table_entries t)" "fst (table_entries t ! j) = k"
        by (auto simp: table_keys_def in_set_conv_nth)
      then obtain i' where i': "i' < length (table_entries t)" "?s i' = j"
          "\<forall>i'' < i'. fst (table_entries t ! ?s i'') \<noteq> invalid_thread"
        using assms(1,3) unfolding table_ok_def by metis
      have "\<not> i < i'" using i'(3) free by blast
      moreover have "i \<noteq> i'" using False i' j by blast
      ultimately have "i' < i" by simp
      then show False using i i'(2) j(2) by (auto simp: stops_at_def)
    qed
    then show ?thesis using run False by simp
  qed
qed

lemma distinct_filter_update:
  "distinct (filter P ks) \<Longrightarrow> j < length ks \<Longrightarrow> \<not> P (ks ! j) \<Longrightarrow> k \<notin> set ks \<Longrightarrow> distinct (filter P (ks[j := k]))"
proof (induction ks arbitrary: j)
  case (Cons a ks)
  show ?case
  proof (cases j)
    case (Suc i)
    have "a \<notin> set (ks[i := k])" if "P a"
      using Cons.prems that set_update_subset_insert [of ks i k] by auto
    then show ?thesis using Cons.IH [of i] Cons.prems Suc by (auto split: if_splits)
  qed (use Cons.prems in auto)
qed simp

lemma in_set_update: "j < length xs \<Longrightarrow> y \<noteq> xs ! j \<Longrightarrow> y \<in> set (xs[j := x]) \<longleftrightarrow> y = x \<or> y \<in> set xs"
  by (induction xs arbitrary: j) (auto simp: nth_Cons split: nat.splits)

lemma table_put_run:
  assumes "table_ok t" "invalid_thread \<in> fst ` set (table_entries t)" "k \<noteq> invalid_thread" "k \<notin> table_keys t"
  shows "\<exists>t'. table_put k v t = Inr t' \<and> table_ok t' \<and> table_capacity t' = table_capacity t
    \<and> table_keys t' = insert k (table_keys t)
    \<and> (\<forall>k' v'. k' \<noteq> invalid_thread \<longrightarrow> (k', v') \<in> set (table_entries t') \<longleftrightarrow> (k', v') = (k, v) \<or> (k', v') \<in> set (table_entries t))"
proof -
  obtain i where i: "stops_at t k i" using stops_somewhere [OF assms(1,2)] by blast
  let ?s = "slot t (hash_thread_id k)" and ?es = "table_entries t"
  have "i < table_fuel t" using i assms(1) by (simp add: stops_at_def table_ok_def table_fuel_def)
  then have run: "table_put k v t = Inr (t\<lparr>table_entries := ?es[?s i := (k, v)]\<rparr>)"
    unfolding table_put_def by (intro claim_slot_run [OF assms(1) i assms(3,4) _ start_slot]) simp_all
  have less: "?s i < length ?es" by (rule slot_less [OF assms(1)])
  have no_k: "fst (?es ! j) \<noteq> k" if "j < length ?es" for j
    using assms(3,4) imageI [OF nth_mem [OF that], of fst] by (auto simp only: table_keys_def)
  have free: "fst (?es ! ?s i) = invalid_thread" using i no_k [OF less] by (simp add: stops_at_def)
  let ?t = "t\<lparr>table_entries := ?es[?s i := (k, v)]\<rparr>"
  have ok: "table_ok ?t"
  proof -
    have "distinct (filter (\<lambda>k. k \<noteq> invalid_thread) (map fst (?es[?s i := (k, v)])))"
    proof -
      have "k \<notin> set (map fst ?es)" using assms(3,4) by (auto simp: table_keys_def)
      then show ?thesis using assms(1) less free
          distinct_filter_update [of "\<lambda>k. k \<noteq> invalid_thread" "map fst ?es" "?s i" k]
        by (simp add: table_ok_def map_update)
    qed
    moreover have "\<exists>i'' < length ?es. slot t (hash_thread_id (fst (?es[?s i := (k, v)] ! j))) i'' = j
        \<and> (\<forall>i' < i''. fst (?es[?s i := (k, v)] ! slot t (hash_thread_id (fst (?es[?s i := (k, v)] ! j))) i') \<noteq> invalid_thread)"
      if j: "j < length ?es" "fst (?es[?s i := (k, v)] ! j) \<noteq> invalid_thread" for j
    proof (cases "j = ?s i")
      case True
      then show ?thesis using i less assms(3) by (intro exI [of _ i]) (auto simp: stops_at_def nth_list_update)
    next
      case False
      then obtain i'' where "i'' < length ?es" "slot t (hash_thread_id (fst (?es ! j))) i'' = j"
          "\<forall>i' < i''. fst (?es ! slot t (hash_thread_id (fst (?es ! j))) i') \<noteq> invalid_thread"
        using assms(1) j unfolding table_ok_def by (metis nth_list_update_neq)
      then show ?thesis using False assms(3) less by (intro exI [of _ i'']) (auto simp: nth_list_update)
    qed
    ultimately show ?thesis using assms(1) by (simp add: table_ok_def slot_def)
  qed
  have others: "(k', v') \<in> set (table_entries ?t) \<longleftrightarrow> (k', v') = (k, v) \<or> (k', v') \<in> set ?es"
    if "k' \<noteq> invalid_thread" for k' v'
    using in_set_update [OF less, of "(k', v')"] free that by (cases "?es ! ?s i") simp
  have "table_keys ?t = insert k (table_keys t)"
  proof -
    have keys: "k' \<in> table_keys u \<longleftrightarrow> k' \<noteq> invalid_thread \<and> (\<exists>v'. (k', v') \<in> set (table_entries u))" for k' u
      by (force simp: table_keys_def)
    show ?thesis using others assms(3) by (intro set_eqI) (simp add: keys, blast)
  qed
  then show ?thesis using run ok others by (intro exI [of _ ?t]) simp
qed

lemma free_position:
  assumes "table_ok t" "card (table_keys t) < unat (table_capacity t)"
  shows "invalid_thread \<in> fst ` set (table_entries t)"
proof (rule ccontr)
  assume n: "invalid_thread \<notin> fst ` set (table_entries t)"
  then have "filter (\<lambda>k. k \<noteq> invalid_thread) (map fst (table_entries t)) = map fst (table_entries t)"
    by (intro filter_True) (metis list.set_map)
  then have "distinct (map fst (table_entries t))" "table_keys t = set (map fst (table_entries t))"
    using assms(1) n by (simp_all add: table_ok_def table_keys_def)
  then have "card (table_keys t) = length (table_entries t)" by (metis distinct_card length_map)
  then show False using assms by (simp add: table_ok_def)
qed

section \<open>Properties\<close>

text \<open>C29: Adding a key to a table that is less than full keeps it well formed: its size stays, no key is
  stored twice, and the search for a key meets no free position before the key, so that it finds
  the new entry.
\<close>

theorem hash_table_stays_ok:
  assumes "table_ok t" "Suc (card (table_keys t)) < unat (table_capacity t)" "k \<noteq> invalid_thread" "k \<notin> table_keys t"
  shows "\<exists>t' i. table_put k v t = Inr t' \<and> table_ok t' \<and> table_capacity t' = table_capacity t
    \<and> table_keys t' = insert k (table_keys t) \<and> table_find t' k = Inr (Some i) \<and> table_entries t' ! unat i = (k, v)"
proof -
  obtain t' where t': "table_put k v t = Inr t'" "table_ok t'" "table_capacity t' = table_capacity t"
      "table_keys t' = insert k (table_keys t)"
      "\<forall>k' v'. k' \<noteq> invalid_thread \<longrightarrow> (k', v') \<in> set (table_entries t') \<longleftrightarrow> (k', v') = (k, v) \<or> (k', v') \<in> set (table_entries t)"
    using table_put_run [OF assms(1) free_position [OF assms(1)] assms(3,4), of v] assms(2) by auto
  have fin: "finite (table_keys t)" by (simp add: table_keys_def)
  have "invalid_thread \<in> fst ` set (table_entries t')"
    by (rule free_position [OF t'(2)]) (use fin assms(2,4) t'(3,4) in simp)
  then obtain r where r: "table_find t' k = Inr r"
      "case r of None \<Rightarrow> k \<notin> table_keys t' | Some i \<Rightarrow> unat i < length (table_entries t') \<and> fst (table_entries t' ! unat i) = k"
    using table_find_run [OF t'(2) _ assms(3)] by blast
  then obtain i where i: "r = Some i" "unat i < length (table_entries t')" "fst (table_entries t' ! unat i) = k"
    using t'(4) by (cases r) auto
  have "(k, snd (table_entries t' ! unat i)) \<in> set (table_entries t')" using i(3) nth_mem [OF i(2)] by (metis prod.collapse)
  moreover have "(k, w) \<notin> set (table_entries t)" for w
    using assms(3,4) by (force simp: table_keys_def)
  ultimately have "snd (table_entries t' ! unat i) = v" using t'(5) assms(3) by auto
  then have "table_entries t' ! unat i = (k, v)" using i(3) by (cases "table_entries t' ! unat i") simp
  then show ?thesis using t'(1-4) r(1) i(1) by blast
qed

theorem hash_table_stays_ok_witness:
  "\<exists>t' i. table_put 7 (Some 0) (table_new 32) = Inr t' \<and> table_find t' 7 = Inr (Some i) \<and> table_entries t' ! unat i = (7, Some 0)"
proof -
  have "table_ok (table_new 32)" by (auto simp: table_ok_def table_new_def intro: exI [of _ 5])
  moreover have "table_keys (table_new 32) = {}" by (auto simp: table_keys_def table_new_def)
  moreover have "table_capacity (table_new 32) = 32" by (simp add: table_new_def)
  ultimately show ?thesis using hash_table_stays_ok [of "table_new 32" 7 "Some 0"] by (fastforce simp: invalid_thread_def)
qed

end
