(* ===== verification/Concurrent_Queue.thy ===== *)
theory Concurrent_Queue
  imports Queue_Hash
begin

text \<open>
  The lock-free queue as a whole (\<open>class ConcurrentQueue\<close>, \<open>include/concurrentqueue.hpp\<close>): one implicit
  producer for each thread that has put an element, found through a chain of hash tables, and consumers
  that look for the fullest of the first producers. Each operation is read as one thread executes it while
  no other is inside the queue. There are no tokens, and threads do not tell the queue when they end:
  the program uses none of this.
\<close>

section \<open>The queue\<close>

text \<open>
  A producer stands with whether it is inactive; the latest is the last. The latest table is the first.
\<close>

record cqueue =
  cq_pool :: pool
  cq_producers :: "(bool \<times> producer) list"
  producer_count :: "32 word"
  cq_tables :: "hash_table list"
  hash_count :: u64

definition initial_blocks :: "u64 \<Rightarrow> u64" where
  "initial_blocks capacity =
     capacity div of_nat block_size + (if capacity AND (of_nat block_size - 1) = 0 then 0 else 1)"

definition default_capacity :: u64 where "default_capacity = 6 * of_nat block_size"

definition cq_new :: "u64 \<Rightarrow> bool list \<Rightarrow> nat option \<Rightarrow> cqueue" where
  "cq_new capacity ms junk =
     \<lparr>cq_pool = populate (initial_blocks capacity) (pool_new ms junk), cq_producers = [], producer_count = 0,
      cq_tables = [table_new initial_hash_size], hash_count = 0\<rparr>"

subsection \<open>The producer of a thread\<close>

text \<open>The number of the first table that has the key, from the latest, and the producer.\<close>

fun find_in_tables :: "nat \<Rightarrow> hash_table list \<Rightarrow> u64 \<Rightarrow> (nat \<times> nat option) option res" where
  "find_in_tables d [] k = Inr None"
| "find_in_tables d (t # ts) k = bind_res (table_find t k) (\<lambda>r. case r of
     Some i \<Rightarrow> Inr (Some (d, snd (table_entries t ! unat i)))
   | None \<Rightarrow> find_in_tables (Suc d) ts k)"

fun grown_capacity :: "nat \<Rightarrow> u64 \<Rightarrow> u64 \<Rightarrow> u64 res" where
  "grown_capacity 0 count' n = Inl No_Return"
| "grown_capacity (Suc fuel) count' n =
     (if count' \<ge> drop_bit 1 n then grown_capacity fuel count' (push_bit 1 n) else Inr n)"

definition no_table :: exn where "no_table = UB ''null pointer implicitProducerHash''"

definition grow_tables :: "u64 \<Rightarrow> cqueue \<Rightarrow> (bool \<times> cqueue) res" where
  "grow_tables count' q = (case cq_tables q of [] \<Rightarrow> Inl no_table
     | t # ts \<Rightarrow>
         if count' \<ge> drop_bit 1 (table_capacity t)
         then bind_res (grown_capacity 64 count' (push_bit 1 (table_capacity t))) (\<lambda>n.
           case alloc (cq_pool q) of (ok, m) \<Rightarrow>
             if ok then Inr (True, q\<lparr>cq_pool := m, cq_tables := table_new n # t # ts\<rparr>)
             else Inr (False, q\<lparr>cq_pool := m\<rparr>))
         else Inr (True, q))"

definition add_producer :: "producer \<Rightarrow> cqueue \<Rightarrow> nat \<times> cqueue" where
  "add_producer p q = (length (cq_producers q),
     q\<lparr>producer_count := producer_count q + 1, cq_producers := cq_producers q @ [(False, p)]\<rparr>)"

definition recycle_or_create :: "cqueue \<Rightarrow> (nat option \<times> bool \<times> cqueue) res" where
  "recycle_or_create q = (case find (\<lambda>i. fst (cq_producers q ! i)) (rev [0..<length (cq_producers q)]) of
       Some i \<Rightarrow> Inr (Some i, True, q\<lparr>cq_producers := (cq_producers q)[i := (False, snd (cq_producers q ! i))]\<rparr>)
     | None \<Rightarrow> (case alloc (cq_pool q) of (ok, m) \<Rightarrow>
         if \<not> ok then Inr (None, False, q\<lparr>cq_pool := m\<rparr>)
         else bind_res (producer_new m) (\<lambda>(p, m).
           case add_producer p (q\<lparr>cq_pool := m\<rparr>) of (i, q) \<Rightarrow> Inr (Some i, False, q))))"

definition into_main :: "u64 \<Rightarrow> nat option \<Rightarrow> cqueue \<Rightarrow> cqueue res" where
  "into_main k v q = (case cq_tables q of [] \<Rightarrow> Inl no_table
     | t # ts \<Rightarrow> bind_res (table_put k v t) (\<lambda>t. Inr (q\<lparr>cq_tables := t # ts\<rparr>)))"

definition count_down :: "cqueue \<Rightarrow> cqueue" where
  "count_down q = q\<lparr>hash_count := hash_count q - 1\<rparr>"

fun register_thread :: "nat \<Rightarrow> u64 \<Rightarrow> u64 \<Rightarrow> cqueue \<Rightarrow> (nat option \<times> cqueue) res" where
  "register_thread 0 k count' q = Inl No_Return"
| "register_thread (Suc fuel) k count' q = bind_res (grow_tables count' q) (\<lambda>(ok, q).
     if \<not> ok then Inr (None, count_down q)
     else (case cq_tables q of [] \<Rightarrow> Inl no_table
       | t # _ \<Rightarrow>
           if count' < drop_bit 1 (table_capacity t) + drop_bit 2 (table_capacity t)
           then bind_res (recycle_or_create q) (\<lambda>(r, recycled, q). case r of
               None \<Rightarrow> Inr (None, count_down q)
             | Some i \<Rightarrow> bind_res (into_main k (Some i) (if recycled then count_down q else q)) (\<lambda>q. Inr (Some i, q)))
           else register_thread fuel k count' q))"

definition get_or_add_producer :: "u64 \<Rightarrow> cqueue \<Rightarrow> (nat option \<times> cqueue) res" where
  "get_or_add_producer k q = bind_res (find_in_tables 0 (cq_tables q) k) (\<lambda>r. case r of
       Some (d, v) \<Rightarrow> if d \<noteq> 0 then bind_res (into_main k v q) (\<lambda>q. Inr (v, q)) else Inr (v, q)
     | None \<Rightarrow> register_thread 1 k (1 + hash_count q) (q\<lparr>hash_count := hash_count q + 1\<rparr>))"

subsection \<open>The operations\<close>

definition update_producer :: "nat \<Rightarrow> producer \<Rightarrow> pool \<Rightarrow> cqueue \<Rightarrow> cqueue" where
  "update_producer i p m q =
     q\<lparr>cq_producers := (cq_producers q)[i := (fst (cq_producers q ! i), p)], cq_pool := m\<rparr>"

text \<open>\<open>k\<close> is the id of the calling thread.\<close>

definition inner_enqueue :: "alloc_mode \<Rightarrow> u64 \<Rightarrow> u64 \<Rightarrow> cqueue \<Rightarrow> (bool \<times> cqueue) res" where
  "inner_enqueue mode k x q = bind_res (get_or_add_producer k q) (\<lambda>(r, q). case r of
       None \<Rightarrow> Inr (False, q)
     | Some i \<Rightarrow> bind_res (iq_enqueue mode x (snd (cq_producers q ! i)) (cq_pool q)) (\<lambda>(ok, p, m).
         Inr (ok, update_producer i p m q)))"

definition cq_enqueue :: "u64 \<Rightarrow> u64 \<Rightarrow> cqueue \<Rightarrow> (bool \<times> cqueue) res" where
  "cq_enqueue k x q = (if initial_hash_size = 0 then Inr (False, q) else inner_enqueue Can_Alloc k x q)"

definition cq_try_enqueue :: "u64 \<Rightarrow> u64 \<Rightarrow> cqueue \<Rightarrow> (bool \<times> cqueue) res" where
  "cq_try_enqueue k x q = (if initial_hash_size = 0 then Inr (False, q) else inner_enqueue Cannot_Alloc k x q)"

definition dequeue_from :: "nat \<Rightarrow> cqueue \<Rightarrow> (u64 option \<times> cqueue) res" where
  "dequeue_from i q = bind_res (iq_dequeue (snd (cq_producers q ! i)) (cq_pool q)) (\<lambda>(r, p, m).
     Inr (r, update_producer i p m q))"

definition producer_list :: "cqueue \<Rightarrow> nat list" where
  "producer_list q = rev [0..<length (cq_producers q)]"

text \<open>How many of the first producers are not empty, up to three, and the fullest of them.\<close>

fun score_producers :: "cqueue \<Rightarrow> nat list \<Rightarrow> u64 \<Rightarrow> nat option \<Rightarrow> u64 \<Rightarrow> u64 \<times> nat option" where
  "score_producers q [] n best best_size = (n, best)"
| "score_producers q (i # is) n best best_size =
     (if n < 3 then
        (let s = size_approx (snd (cq_producers q ! i)) in
         if s > 0 then (if s > best_size then score_producers q is (n + 1) (Some i) s
                        else score_producers q is (n + 1) best best_size)
         else score_producers q is n best best_size)
      else (n, best))"

fun dequeue_first :: "nat list \<Rightarrow> cqueue \<Rightarrow> (u64 option \<times> cqueue) res" where
  "dequeue_first [] q = Inr (None, q)"
| "dequeue_first (i # is) q = bind_res (dequeue_from i q) (\<lambda>(r, q).
     if r \<noteq> None then Inr (r, q) else dequeue_first is q)"

definition try_dequeue :: "cqueue \<Rightarrow> (u64 option \<times> cqueue) res" where
  "try_dequeue q = (case score_producers q (producer_list q) 0 None 0 of (n, best) \<Rightarrow>
     if n > 0 then (case best of None \<Rightarrow> Inl (UB ''null pointer best'')
       | Some b \<Rightarrow> bind_res (dequeue_from b q) (\<lambda>(r, q).
           if r \<noteq> None then Inr (r, q) else dequeue_first (filter (\<lambda>i. i \<noteq> b) (producer_list q)) q))
     else Inr (None, q))"

definition try_dequeue_non_interleaved :: "cqueue \<Rightarrow> (u64 option \<times> cqueue) res" where
  "try_dequeue_non_interleaved q = dequeue_first (producer_list q) q"

definition cq_size_approx :: "cqueue \<Rightarrow> u64" where
  "cq_size_approx q = foldl (\<lambda>s i. s + size_approx (snd (cq_producers q ! i))) 0 (producer_list q)"

section \<open>Lanes\<close>

text \<open>
  What the queue promises: each thread has a lane, first in, first out, and an attempt to take an element
  takes the first of some lane and fails only if all are empty.
\<close>

datatype cq_op = Enqueue u64 u64 | Dequeue

inductive lane_step :: "(u64 \<Rightarrow> u64 list) \<Rightarrow> cq_op \<Rightarrow> u64 queue_outcome \<Rightarrow> (u64 \<Rightarrow> u64 list) \<Rightarrow> bool" where
  put_lane: "lane_step F (Enqueue k x) (Stored True) (F(k := F k @ [x]))"
| take_lane: "F k = x # xs \<Longrightarrow> lane_step F Dequeue (Took (Some x)) (F(k := xs))"
| all_empty: "\<forall>k. F k = [] \<Longrightarrow> lane_step F Dequeue (Took None) F"

inductive lane_steps :: "(u64 \<Rightarrow> u64 list) \<Rightarrow> (cq_op \<times> u64 queue_outcome) list \<Rightarrow> (u64 \<Rightarrow> u64 list) \<Rightarrow> bool" where
  no_steps: "lane_steps F [] F"
| more_steps: "lane_step F p r F' \<Longrightarrow> lane_steps F' es F'' \<Longrightarrow> lane_steps F ((p, r) # es) F''"

inductive_cases lane_steps_cases: "lane_steps F [] F'" "lane_steps F (e # es) F'"
inductive_simps lane_step_simps: "lane_step F (Enqueue k x) r F'" "lane_step F Dequeue r F'"

section \<open>The invariant\<close>

text \<open>
  Thread \<open>ids ! i\<close> owns producer \<open>i\<close>, which holds the elements of its lane \<open>F (ids ! i)\<close> in the blocks
  \<open>L i\<close>; \<open>h i\<close> elements have left it.
\<close>

definition lanes_ok :: "u64 list \<Rightarrow> (u64 \<Rightarrow> u64 list) \<Rightarrow> (nat \<Rightarrow> nat) \<Rightarrow> (nat \<Rightarrow> nat list) \<Rightarrow> cqueue \<Rightarrow> bool" where
  "lanes_ok ids F h L q \<longleftrightarrow> length (cq_producers q) = length ids
     \<and> (\<forall>i < length ids. \<not> fst (cq_producers q ! i)
          \<and> fifo (h i) (h i + length (F (ids ! i))) (F (ids ! i)) (L i) (snd (cq_producers q ! i)) (qblocks (cq_pool q)))
     \<and> (\<forall>i < length ids. \<forall>j < length ids. i \<noteq> j \<longrightarrow> set (L i) \<inter> set (L j) = {})
     \<and> pool_inv (cq_pool q) (\<Union>i < length ids. set (L i))"

definition entries_ok :: "u64 list \<Rightarrow> hash_table \<Rightarrow> bool" where
  "entries_ok ids t \<longleftrightarrow> table_ok t \<and> invalid_thread \<in> fst ` set (table_entries t)
     \<and> (\<forall>k v. (k, v) \<in> set (table_entries t) \<longrightarrow> k \<noteq> invalid_thread \<longrightarrow> (\<exists>i < length ids. ids ! i = k \<and> v = Some i))"

definition tables_ok :: "u64 list \<Rightarrow> cqueue \<Rightarrow> bool" where
  "tables_ok ids q \<longleftrightarrow> cq_tables q \<noteq> [] \<and> hash_count q = of_nat (length ids) \<and> distinct ids \<and> invalid_thread \<notin> set ids
     \<and> length ids < unat (table_capacity (hd (cq_tables q))) div 2
     \<and> (\<forall>t \<in> set (cq_tables q). entries_ok ids t) \<and> (\<forall>k \<in> set ids. \<exists>t \<in> set (cq_tables q). k \<in> table_keys t)"

text \<open>The threads are among \<open>K\<close>, and memory does not run out.\<close>

definition cq_with :: "u64 set \<Rightarrow> u64 list \<Rightarrow> (u64 \<Rightarrow> u64 list) \<Rightarrow> (nat \<Rightarrow> nat) \<Rightarrow> (nat \<Rightarrow> nat list) \<Rightarrow> cqueue \<Rightarrow> bool" where
  "cq_with K ids F h L q \<longleftrightarrow> False \<notin> set (mallocs (cq_pool q)) \<and> finite K \<and> card K < 2 ^ 57 \<and> invalid_thread \<notin> K
     \<and> set ids \<subseteq> K \<and> lanes_ok ids F h L q \<and> tables_ok ids q \<and> (\<forall>k. k \<notin> set ids \<longrightarrow> F k = [])"

definition cq_holds :: "u64 set \<Rightarrow> cqueue \<Rightarrow> (u64 \<Rightarrow> u64 list) \<Rightarrow> bool" where
  "cq_holds K q F \<longleftrightarrow> (\<exists>ids h L. cq_with K ids F h L q)"

subsection \<open>The lanes\<close>

text \<open>An operation on one producer changes its lane and leaves the others alone.\<close>

lemma lanes_step:
  assumes "lanes_ok ids F h L q" "distinct ids" "i < length ids"
    "pool_step (\<Union>i < length ids. set (L i)) (L i) (cq_pool q) L' m'"
    "fifo h' (h' + length xs) xs L' p' (qblocks m')"
  shows "lanes_ok ids (F(ids ! i := xs)) (h(i := h')) (L(i := L')) (update_producer i p' m' q)"
proof -
  let ?used = "\<Union>i < length ids. set (L i)" and ?L = "L(i := L')"
  have disj: "set (L a) \<inter> set (L b) = {}" if "a < length ids" "b < length ids" "a \<noteq> b" for a b
    using assms(1) that by (simp add: lanes_ok_def)
  have other: "set (L j) \<subseteq> ?used - set (L i)" if "j < length ids" "j \<noteq> i" for j
    using that disj [OF that(1) assms(3) that(2)] by blast
  have ids: "ids ! j = ids ! i \<longleftrightarrow> j = i" if "j < length ids" for j
    using assms(2,3) that by (simp add: nth_eq_iff_index_eq)
  have used: "(\<Union>j < length ids. set (?L j)) = ?used - set (L i) \<union> set L'"
  proof -
    have "(\<Union>j < length ids. set (?L j)) = set L' \<union> (\<Union>j \<in> {..<length ids} - {i}. set (L j))"
      using assms(3) by (auto split: if_splits)
    moreover have "(\<Union>j \<in> {..<length ids} - {i}. set (L j)) = ?used - set (L i)"
      using other by fastforce
    ultimately show ?thesis by blast
  qed
  have len: "length (cq_producers q) = length ids" using assms(1) by (simp add: lanes_ok_def)
  have "\<not> fst (cq_producers (update_producer i p' m' q) ! j)
      \<and> fifo ((h(i := h')) j) ((h(i := h')) j + length ((F(ids ! i := xs)) (ids ! j))) ((F(ids ! i := xs)) (ids ! j))
          (?L j) (snd (cq_producers (update_producer i p' m' q) ! j)) (qblocks m')" if j: "j < length ids" for j
  proof (cases "j = i")
    case True
    then show ?thesis using assms(1,5) j len by (simp add: lanes_ok_def update_producer_def)
  next
    case False
    have old: "\<not> fst (cq_producers q ! j)"
      "fifo (h j) (h j + length (F (ids ! j))) (F (ids ! j)) (L j) (snd (cq_producers q ! j)) (qblocks (cq_pool q))"
      using assms(1) j by (simp_all add: lanes_ok_def)
    have "qblocks m' ! b = qblocks (cq_pool q) ! b" if "b \<in> set (L j)" for b
      using assms(4) other [OF j False] that by (auto simp: pool_step_def)
    then show ?thesis using fifo_other_blocks [OF old(2)] old(1) False ids [OF j] by (simp add: update_producer_def)
  qed
  moreover have "set (?L a) \<inter> set (?L b) = {}" if ab: "a < length ids" "b < length ids" "a \<noteq> b" for a b
  proof -
    have "set L' \<inter> (?used - set (L i)) = {}" using assms(4) by (simp add: pool_step_def)
    then show ?thesis using other [OF ab(1)] other [OF ab(2)] disj [OF ab] ab(3) by (cases "a = i"; cases "b = i") auto
  qed
  moreover have "pool_inv m' (\<Union>j < length ids. set (?L j))"
    unfolding used using assms(4) by (simp only: pool_step_def)
  ultimately show ?thesis using len unfolding lanes_ok_def by (simp add: update_producer_def)
qed

lemma lanes_new:
  assumes "lanes_ok ids F h L q" "F k = []" "fifo 0 0 [] [] p (qblocks (cq_pool q))"
    "cq_producers q' = cq_producers q @ [(False, p)]" "cq_pool q' = (cq_pool q)\<lparr>mallocs := ms\<rparr>"
  shows "lanes_ok (ids @ [k]) F (h(length ids := 0)) (L(length ids := [])) q'"
proof -
  have len: "length (cq_producers q) = length ids" using assms(1) by (simp add: lanes_ok_def)
  have "(\<Union>i < Suc (length ids). set ((L(length ids := [])) i)) = (\<Union>i < length ids. set (L i))"
    by (auto simp: less_Suc_eq split: if_splits)
  moreover have "pool_inv (cq_pool q') used = pool_inv (cq_pool q) used" for used
    by (simp add: assms(5) pool_inv_def unused_def)
  ultimately show ?thesis
    using assms(1-3) len by (auto simp: lanes_ok_def assms(4,5) nth_append less_Suc_eq)
qed

subsection \<open>The tables\<close>

lemma unat_half: "unat (drop_bit 1 (w :: u64)) = unat w div 2"
  by (simp add: drop_bit_eq_div unat_div)

lemma unat_double: "2 * unat (w :: u64) < 2 ^ 64 \<Longrightarrow> unat (push_bit 1 w) = 2 * unat w"
  by (simp add: push_bit_eq_mult unat_word_ariths)

lemma table_new_ok:
  assumes "unat n = 2 ^ c" "c < 64"
  shows "table_ok (table_new n)" "table_keys (table_new n) = {}" "entries_ok ids (table_new n)"
proof -
  show "table_ok (table_new n)" using assms by (auto simp: table_ok_def table_new_def)
  moreover show "table_keys (table_new n) = {}" by (auto simp: table_keys_def table_new_def)
  moreover have "0 < unat n" using assms by simp
  ultimately show "entries_ok ids (table_new n)" by (simp add: entries_ok_def table_new_def)
qed

lemma entries_okD:
  assumes "entries_ok ids t" "k \<noteq> invalid_thread" "j < length (table_entries t)" "fst (table_entries t ! j) = k" "distinct ids"
    "i < length ids" "ids ! i = k"
  shows "snd (table_entries t ! j) = Some i"
proof -
  have "(k, snd (table_entries t ! j)) \<in> set (table_entries t)" using assms(3,4) nth_mem by fastforce
  then obtain i' where "i' < length ids" "ids ! i' = k" "snd (table_entries t ! j) = Some i'"
    using assms(1,2) by (auto simp: entries_ok_def)
  then show ?thesis using assms(5-7) nth_eq_iff_index_eq by metis
qed

lemma entries_ok_keys: "entries_ok ids t \<Longrightarrow> table_keys t \<subseteq> set ids"
  by (fastforce simp: entries_ok_def table_keys_def)

lemma find_in_tables_run:
  assumes "\<forall>t \<in> set ts. entries_ok ids t" "distinct ids" "k \<noteq> invalid_thread"
  shows "(\<forall>t \<in> set ts. k \<notin> table_keys t) \<Longrightarrow> find_in_tables d ts k = Inr None"
    "\<lbrakk>\<exists>t \<in> set ts. k \<in> table_keys t; i < length ids; ids ! i = k\<rbrakk> \<Longrightarrow>
      \<exists>e. find_in_tables d ts k = Inr (Some (e, Some i)) \<and> d \<le> e \<and> (d < e \<longrightarrow> k \<notin> table_keys (hd ts))"
proof -
  have run: "\<exists>r. table_find t k = Inr r \<and> (case r of None \<Rightarrow> k \<notin> table_keys t
      | Some j \<Rightarrow> unat j < length (table_entries t) \<and> fst (table_entries t ! unat j) = k)" if "t \<in> set ts" for t
    using assms(1,3) that table_find_run [of t k] by (simp add: entries_ok_def)
  have none: "table_find t k = Inr None" if t: "t \<in> set ts" "k \<notin> table_keys t" for t
  proof -
    have "False" if "unat j < length (table_entries t)" "fst (table_entries t ! unat j) = k" for j :: u64
      using that t(2) assms(3) imageI [OF nth_mem [OF that(1)], of fst] by (simp add: table_keys_def)
    moreover obtain r where "table_find t k = Inr r"
        "case r of None \<Rightarrow> k \<notin> table_keys t | Some j \<Rightarrow> unat j < length (table_entries t) \<and> fst (table_entries t ! unat j) = k"
      using run [OF t(1)] by blast
    ultimately show ?thesis by (cases r) auto
  qed
  show "find_in_tables d ts k = Inr None" if "\<forall>t \<in> set ts. k \<notin> table_keys t"
    using that none by (induction ts arbitrary: d) simp_all
  show "\<exists>e. find_in_tables d ts k = Inr (Some (e, Some i)) \<and> d \<le> e \<and> (d < e \<longrightarrow> k \<notin> table_keys (hd ts))"
    if "\<exists>t \<in> set ts. k \<in> table_keys t" "i < length ids" "ids ! i = k"
    using that(1) assms(1) run none
  proof (induction ts arbitrary: d)
    case (Cons t ts)
    show ?case
    proof (cases "k \<in> table_keys t")
      case True
      then obtain j where j: "table_find t k = Inr (Some j)" "unat j < length (table_entries t)" "fst (table_entries t ! unat j) = k"
        using Cons.prems(3) [of t] by (auto split: option.splits)
      have "snd (table_entries t ! unat j) = Some i"
        by (rule entries_okD [OF _ assms(3) j(2,3) assms(2) that(2,3)]) (use Cons.prems(2) in simp)
      then show ?thesis using j(1) by simp
    next
      case False
      have "table_find t k = Inr None" using Cons.prems(4) [of t] False by simp
      moreover have "\<exists>e. find_in_tables (Suc d) ts k = Inr (Some (e, Some i)) \<and> Suc d \<le> e \<and> (Suc d < e \<longrightarrow> k \<notin> table_keys (hd ts))"
        by (rule Cons.IH) (use Cons.prems False in auto)
      ultimately show ?thesis using False by auto
    qed
  qed simp
qed

text \<open>The key of a thread goes into the latest table.\<close>

lemma into_main_run:
  assumes "cq_tables q = t # ts" "entries_ok ids t" "k \<notin> table_keys t" "k \<noteq> invalid_thread"
    "i < length ids" "ids ! i = k" "length ids < unat (table_capacity t) div 2"
  shows "\<exists>t'. into_main k (Some i) q = Inr (q\<lparr>cq_tables := t' # ts\<rparr>) \<and> entries_ok ids t'
    \<and> table_capacity t' = table_capacity t \<and> table_keys t' = insert k (table_keys t)"
proof -
  have t: "table_ok t" "invalid_thread \<in> fst ` set (table_entries t)" using assms(2) by (simp_all add: entries_ok_def)
  obtain t' where t': "table_put k (Some i) t = Inr t'" "table_ok t'" "table_capacity t' = table_capacity t"
      "table_keys t' = insert k (table_keys t)"
      "\<forall>k' v'. k' \<noteq> invalid_thread \<longrightarrow> (k', v') \<in> set (table_entries t') \<longleftrightarrow> (k', v') = (k, Some i) \<or> (k', v') \<in> set (table_entries t)"
    using table_put_run [OF t assms(4,3), of "Some i"] by blast
  have "table_keys t' \<subseteq> set ids" using entries_ok_keys [OF assms(2)] t'(4) assms(5,6) by auto
  then have "card (table_keys t') \<le> length ids" by (meson List.finite_set card_length card_mono le_trans)
  then have "invalid_thread \<in> fst ` set (table_entries t')" using t'(2,3) assms(7) by (intro free_position) simp_all
  then have "entries_ok ids t'" using t'(2,5) assms(2,5,6) by (auto simp: entries_ok_def)
  then show ?thesis using assms(1) t'(1,3,4) by (intro exI [of _ t']) (simp add: into_main_def)
qed

subsection \<open>The producer of a thread\<close>

lemma lanes_same: "cq_producers q' = cq_producers q \<Longrightarrow> cq_pool q' = cq_pool q \<Longrightarrow> lanes_ok ids F h L q' = lanes_ok ids F h L q"
  by (simp add: lanes_ok_def)

lemma alloc_ok:
  assumes "False \<notin> set (mallocs m)"
  shows "\<exists>ms. alloc m = (True, m\<lparr>mallocs := ms\<rparr>) \<and> False \<notin> set ms"
proof (cases "mallocs m")
  case Nil
  then show ?thesis by (intro exI [of _ "[]"]) (simp add: alloc_def)
next
  case (Cons b bs)
  then show ?thesis using assms by (intro exI [of _ bs]) (auto simp: alloc_def)
qed

lemma grow_tables_run:
  assumes "cq_tables q = t # ts" "unat (table_capacity t) = 2 ^ c" "n < 2 ^ c div 2" "n < 2 ^ 57"
    "False \<notin> set (mallocs (cq_pool q))"
  shows "\<exists>ts' ms. grow_tables (of_nat (Suc n)) q = Inr (True, q\<lparr>cq_pool := (cq_pool q)\<lparr>mallocs := ms\<rparr>, cq_tables := ts'\<rparr>)
    \<and> False \<notin> set ms \<and> (ts' = t # ts \<and> Suc n < 2 ^ c div 2
        \<or> (\<exists>n'. ts' = table_new n' # t # ts \<and> unat n' = 2 ^ Suc c \<and> Suc c < 64 \<and> Suc n < 2 ^ c))"
proof -
  have n: "unat (of_nat (Suc n) :: u64) = Suc n" using assms(4) by (intro unat_of_nat_u64) simp
  have ge: "drop_bit 1 (table_capacity t) \<le> of_nat (Suc n) \<longleftrightarrow> 2 ^ c div 2 \<le> Suc n"
    by (simp only: word_le_nat_alt unat_half n assms(2))
  show ?thesis
  proof (cases "2 ^ c div 2 \<le> Suc n")
    case False
    then show ?thesis using assms(1,5) ge
      by (intro exI [of _ "t # ts"] exI [of _ "mallocs (cq_pool q)"]) (simp add: grow_tables_def)
  next
    case True
    obtain b where b: "c = Suc b" using assms(3) by (cases c) simp_all
    have sn: "Suc n = 2 ^ b" using True assms(3) b by simp
    have "(2 :: nat) ^ b \<le> 2 ^ 57" using sn assms(4) by linarith
    then have b57: "b \<le> 57" by (rule power_le_imp_le_exp [rotated]) simp
    let ?n = "push_bit 1 (table_capacity t)"
    have "2 * unat (table_capacity t) = 2 ^ (b + 2)" using assms(2) b by simp
    moreover have "(2 :: nat) ^ (b + 2) < 2 ^ 64" using b57 by (intro power_strict_increasing) simp_all
    ultimately have n': "unat ?n = 2 ^ Suc c" using unat_double [of "table_capacity t"] b by simp
    have "\<not> drop_bit 1 ?n \<le> of_nat (Suc n)"
      by (simp only: word_le_nat_alt unat_half n n') (simp add: sn b)
    then have "grown_capacity 64 (of_nat (Suc n)) ?n = Inr ?n"
      using grown_capacity.simps(2) [of 63 "of_nat (Suc n)" ?n] by (simp del: grown_capacity.simps)
    moreover obtain ms where "alloc (cq_pool q) = (True, (cq_pool q)\<lparr>mallocs := ms\<rparr>)" "False \<notin> set ms"
      using alloc_ok [OF assms(5)] by blast
    ultimately show ?thesis using assms(1) ge True n' sn b b57
      by (intro exI [of _ "table_new ?n # t # ts"] exI [of _ ms])
        (auto simp: grow_tables_def simp del: of_nat_Suc push_bit_Suc)
  qed
qed

lemma recycle_or_create_run:
  assumes "lanes_ok ids F h L q" "False \<notin> set (mallocs (cq_pool q))"
  shows "\<exists>p ms. recycle_or_create q = Inr (Some (length ids), False, q\<lparr>cq_pool := (cq_pool q)\<lparr>mallocs := ms\<rparr>,
      producer_count := producer_count q + 1, cq_producers := cq_producers q @ [(False, p)]\<rparr>)
    \<and> False \<notin> set ms \<and> fifo 0 0 [] [] p (qblocks (cq_pool q))"
proof -
  have len: "length (cq_producers q) = length ids" using assms(1) by (simp add: lanes_ok_def)
  have "find (\<lambda>i. fst (cq_producers q ! i)) (rev [0..<length (cq_producers q)]) = None"
    using assms(1) len by (auto simp: find_None_iff lanes_ok_def)
  moreover obtain ms where ms: "alloc (cq_pool q) = (True, (cq_pool q)\<lparr>mallocs := ms\<rparr>)" "False \<notin> set ms"
    using alloc_ok [OF assms(2)] by blast
  moreover have "fst (alloc ((cq_pool q)\<lparr>mallocs := ms\<rparr>))"
    using alloc_ok [of "(cq_pool q)\<lparr>mallocs := ms\<rparr>"] ms(2) by auto
  then obtain p ms' where "producer_new ((cq_pool q)\<lparr>mallocs := ms\<rparr>) = Inr (p, (cq_pool q)\<lparr>mallocs := ms'\<rparr>)"
      "fifo 0 0 [] [] p (qblocks (cq_pool q))" "set ms' \<subseteq> set ms"
    using producer_new_run [of "(cq_pool q)\<lparr>mallocs := ms\<rparr>" "qblocks (cq_pool q)"] by auto
  ultimately show ?thesis using len
    by (intro exI [of _ p] exI [of _ ms']) (auto simp: recycle_or_create_def add_producer_def)
qed

text \<open>A thread that comes for the first time gets a new producer.\<close>

lemma register_thread_run:
  assumes "cq_with K ids F h L q" "k \<in> K" "k \<notin> set ids"
  shows "\<exists>q'. register_thread 1 k (1 + hash_count q) (q\<lparr>hash_count := hash_count q + 1\<rparr>) = Inr (Some (length ids), q')
    \<and> cq_with K (ids @ [k]) F (h(length ids := 0)) (L(length ids := [])) q'"
proof -
  have w: "False \<notin> set (mallocs (cq_pool q))" "finite K" "card K < 2 ^ 57" "set ids \<subseteq> K" "k \<noteq> invalid_thread"
    "lanes_ok ids F h L q" "tables_ok ids q" "F k = []"
    using assms by (auto simp: cq_with_def)
  obtain t ts where t: "cq_tables q = t # ts" using w(7) by (cases "cq_tables q") (auto simp: tables_ok_def)
  have ok: "entries_ok ids t" "\<forall>u \<in> set (t # ts). entries_ok ids u" "distinct ids" "hash_count q = of_nat (length ids)"
    "\<forall>k \<in> set ids. \<exists>t \<in> set (t # ts). k \<in> table_keys t" "invalid_thread \<notin> set ids"
    using w(7) t by (auto simp: tables_ok_def)
  obtain c where c: "c < 64" "unat (table_capacity t) = 2 ^ c" using ok(1) by (auto simp: entries_ok_def table_ok_def)
  have n: "length ids < 2 ^ c div 2" using w(7) t c by (simp add: tables_ok_def)
  have n57: "length ids < 2 ^ 57"
    using card_mono [OF w(2,4)] w(3) distinct_card [OF ok(3)] by linarith
  let ?q0 = "q\<lparr>hash_count := hash_count q + 1\<rparr>" and ?count = "of_nat (Suc (length ids)) :: u64"
  obtain ts' ms where grow: "grow_tables ?count ?q0 = Inr (True, ?q0\<lparr>cq_pool := (cq_pool q)\<lparr>mallocs := ms\<rparr>, cq_tables := ts'\<rparr>)"
      "False \<notin> set ms" "ts' = t # ts \<and> Suc (length ids) < 2 ^ c div 2
        \<or> (\<exists>n'. ts' = table_new n' # t # ts \<and> unat n' = 2 ^ Suc c \<and> Suc c < 64 \<and> Suc (length ids) < 2 ^ c)"
    using grow_tables_run [of ?q0 t ts c "length ids"] t c(2) n n57 w(1) by auto
  let ?q1 = "?q0\<lparr>cq_pool := (cq_pool q)\<lparr>mallocs := ms\<rparr>, cq_tables := ts'\<rparr>"
  let ?ids = "ids @ [k]"
  have more: "entries_ok ?ids u" if "entries_ok ids u" for u
    using that unfolding entries_ok_def by (metis length_append_singleton less_SucI nth_append)
  obtain t1 ts1 where t1: "ts' = t1 # ts1" "entries_ok ids t1" "k \<notin> table_keys t1" "set (t # ts) \<subseteq> set ts'"
      "\<forall>u \<in> set ts'. entries_ok ids u" "Suc (length ids) < unat (table_capacity t1) div 2"
  proof -
    consider (same) "ts' = t # ts" "Suc (length ids) < 2 ^ c div 2"
      | (grown) n' where "ts' = table_new n' # t # ts" "unat n' = 2 ^ Suc c" "Suc c < 64" "Suc (length ids) < 2 ^ c"
      using grow(3) by blast
    then show thesis
    proof cases
      case same
      have "k \<notin> table_keys t" using entries_ok_keys [OF ok(1)] assms(3) by blast
      then show thesis using that [of t ts] ok(1,2) same c(2) by auto
    next
      case grown
      note new = table_new_ok [OF grown(2,3)]
      have "table_capacity (table_new n') = n'" by (simp add: table_new_def)
      then show thesis using that [of "table_new n'" "t # ts"] ok(2) grown new by auto
    qed
  qed
  have "unat (drop_bit 1 (table_capacity t1) + drop_bit 2 (table_capacity t1))
      = unat (table_capacity t1) div 2 + unat (table_capacity t1) div 4"
  proof -
    have "unat (drop_bit 2 (table_capacity t1)) = unat (table_capacity t1) div 4"
      by (simp add: drop_bit_eq_div unat_div)
    moreover have "unat (table_capacity t1) div 2 + unat (table_capacity t1) div 4 < 2 ^ 64"
      using unat_u64_less_power [of "table_capacity t1"] by linarith
    ultimately show ?thesis
      using unat_add_no_wrap [of "drop_bit 1 (table_capacity t1)" "drop_bit 2 (table_capacity t1)"] by (simp only: unat_half)
  qed
  moreover have "unat ?count = Suc (length ids)" using n57 by (intro unat_of_nat_u64) simp
  ultimately have less: "?count < drop_bit 1 (table_capacity t1) + drop_bit 2 (table_capacity t1)"
    using t1(6) by (simp only: word_less_nat_alt)
  have "lanes_ok ids F h L ?q1"
    using w(6) by (simp add: lanes_ok_def pool_inv_def unused_def)
  then obtain p ms' where p: "recycle_or_create ?q1 = Inr (Some (length ids), False,
        ?q1\<lparr>cq_pool := (cq_pool ?q1)\<lparr>mallocs := ms'\<rparr>, producer_count := producer_count ?q1 + 1, cq_producers := cq_producers ?q1 @ [(False, p)]\<rparr>)"
      "False \<notin> set ms'" "fifo 0 0 [] [] p (qblocks (cq_pool q))"
    using recycle_or_create_run [of ids F h L ?q1] grow(2) by auto
  define q2 where "q2 = ?q1\<lparr>cq_pool := (cq_pool ?q1)\<lparr>mallocs := ms'\<rparr>, producer_count := producer_count ?q1 + 1,
      cq_producers := cq_producers ?q1 @ [(False, p)]\<rparr>"
  have t2: "cq_tables q2 = t1 # ts1" by (simp add: q2_def t1(1))
  obtain t' where t': "into_main k (Some (length ids)) q2 = Inr (q2\<lparr>cq_tables := t' # ts1\<rparr>)" "entries_ok ?ids t'"
      "table_capacity t' = table_capacity t1" "table_keys t' = insert k (table_keys t1)"
    using into_main_run [OF t2 more [OF t1(2)] t1(3) w(5), of "length ids"] t1(6) by auto
  have count: "1 + hash_count q = ?count" by (simp add: ok(4))
  have run: "register_thread 1 k (1 + hash_count q) ?q0 = Inr (Some (length ids), q2\<lparr>cq_tables := t' # ts1\<rparr>)"
    unfolding count One_nat_def using grow(1) less p(1) t'(1) t1(1)
    by (simp add: q2_def del: of_nat_Suc)
  have "lanes_ok ?ids F (h(length ids := 0)) (L(length ids := [])) (q2\<lparr>cq_tables := t' # ts1\<rparr>)"
    by (rule lanes_new [OF w(6,8) p(3), where ms = ms']) (simp_all add: q2_def)
  moreover have "tables_ok ?ids (q2\<lparr>cq_tables := t' # ts1\<rparr>)"
  proof -
    have "\<exists>u \<in> set (t' # ts1). j \<in> table_keys u" if j: "j \<in> set ?ids" for j
    proof (cases "j = k")
      case False
      then obtain u where "u \<in> set (t # ts)" "j \<in> table_keys u" using j ok(5) by auto
      then show ?thesis using t1(1,4) t'(4) by auto
    qed (simp add: t'(4))
    moreover have "\<forall>u \<in> set (t' # ts1). entries_ok ?ids u" using t'(2) t1(1,5) more by simp
    moreover have "hash_count q2 = of_nat (length ?ids)" by (simp add: q2_def ok(4))
    moreover have "length ?ids < unat (table_capacity t') div 2" using t1(6) t'(3) by simp
    ultimately show ?thesis using ok(3,6) assms(3) w(5) unfolding tables_ok_def by simp
  qed
  moreover have "False \<notin> set (mallocs (cq_pool (q2\<lparr>cq_tables := t' # ts1\<rparr>)))" using p(2) by (simp add: q2_def)
  ultimately show ?thesis using run assms by (auto simp: cq_with_def)
qed

lemma get_or_add_run:
  assumes "cq_with K ids F h L q" "k \<in> K"
  shows "\<exists>ids' h' L' i q'. get_or_add_producer k q = Inr (Some i, q') \<and> i < length ids' \<and> ids' ! i = k \<and> cq_with K ids' F h' L' q'"
proof -
  have w: "lanes_ok ids F h L q" "tables_ok ids q" "k \<noteq> invalid_thread" using assms by (auto simp: cq_with_def)
  obtain t ts where t: "cq_tables q = t # ts" using w(2) by (cases "cq_tables q") (auto simp: tables_ok_def)
  have ok: "\<forall>u \<in> set (cq_tables q). entries_ok ids u" "distinct ids" "length ids < unat (table_capacity t) div 2"
    "\<forall>k \<in> set ids. \<exists>t \<in> set (cq_tables q). k \<in> table_keys t"
    using w(2) t by (simp_all add: tables_ok_def)
  note find = find_in_tables_run [OF ok(1,2) w(3)]
  show ?thesis
  proof (cases "k \<in> set ids")
    case False
    then have "\<forall>u \<in> set (cq_tables q). k \<notin> table_keys u" using ok(1) entries_ok_keys by blast
    then have "find_in_tables 0 (cq_tables q) k = Inr None" by (rule find(1))
    then show ?thesis using register_thread_run [OF assms False]
      by (fastforce simp: get_or_add_producer_def intro!: exI [of _ "ids @ [k]"])
  next
    case True
    then obtain i where i: "i < length ids" "ids ! i = k" by (auto simp: in_set_conv_nth)
    obtain e where e: "find_in_tables 0 (cq_tables q) k = Inr (Some (e, Some i))" "0 < e \<longrightarrow> k \<notin> table_keys t"
      using find(2) [OF _ i, of 0] ok(4) True t by auto
    show ?thesis
    proof (cases "e = 0")
      case True
      then show ?thesis using e(1) i assms(1)
        by (intro exI [of _ ids] exI [of _ h] exI [of _ L] exI [of _ i] exI [of _ q]) (simp add: get_or_add_producer_def)
    next
      case False
      then obtain t' where t': "into_main k (Some i) q = Inr (q\<lparr>cq_tables := t' # ts\<rparr>)" "entries_ok ids t'"
          "table_capacity t' = table_capacity t" "table_keys t' = insert k (table_keys t)"
        using into_main_run [OF t _ _ w(3) i] ok(1,3) e(2) t by auto
      let ?q = "q\<lparr>cq_tables := t' # ts\<rparr>"
      have "tables_ok ids ?q" using w(2) t t'(2-4) unfolding tables_ok_def by auto
      then have "cq_with K ids F h L ?q" using assms(1) lanes_same [of ?q q] by (simp add: cq_with_def)
      then show ?thesis using e(1) False t'(1) i
        by (intro exI [of _ ids] exI [of _ h] exI [of _ L] exI [of _ i] exI [of _ ?q]) (simp add: get_or_add_producer_def)
    qed
  qed
qed

subsection \<open>The operations\<close>

lemma tables_update [simp]: "tables_ok ids (update_producer i p m q) = tables_ok ids q"
  by (simp add: tables_ok_def update_producer_def)

lemma cq_with_fifo:
  assumes "cq_with K ids F h L q" "i < length ids"
  shows "fifo (h i) (h i + length (F (ids ! i))) (F (ids ! i)) (L i) (snd (cq_producers q ! i)) (qblocks (cq_pool q))"
    "pool_inv (cq_pool q) (\<Union>i < length ids. set (L i))" "set (L i) \<subseteq> (\<Union>i < length ids. set (L i))"
    "i < length (cq_producers q)"
  using assms by (auto simp: cq_with_def lanes_ok_def)

lemma cq_with_step:
  assumes "cq_with K ids F h L q" "i < length ids"
    "pool_step (\<Union>i < length ids. set (L i)) (L i) (cq_pool q) L' m'"
    "fifo h' (h' + length xs) xs L' p' (qblocks m')"
  shows "cq_with K ids (F(ids ! i := xs)) (h(i := h')) (L(i := L')) (update_producer i p' m' q)"
proof -
  have w: "lanes_ok ids F h L q" "tables_ok ids q" using assms(1) by (simp_all add: cq_with_def)
  then have "lanes_ok ids (F(ids ! i := xs)) (h(i := h')) (L(i := L')) (update_producer i p' m' q)"
    using lanes_step [OF w(1) _ assms(2-4)] by (simp add: tables_ok_def)
  moreover have "False \<notin> set (mallocs m')" using assms(1,3) by (auto simp: cq_with_def pool_step_def)
  moreover have "cq_pool (update_producer i p' m' q) = m'" by (simp add: update_producer_def)
  ultimately show ?thesis using assms(1,2) w(2) by (auto simp: cq_with_def)
qed

lemma inner_enqueue_run:
  assumes "cq_holds K q F" "k \<in> K" "length (F k) < 2 ^ 62"
  shows "\<exists>ok q'. inner_enqueue mode k x q = Inr (ok, q') \<and> cq_holds K q' (if ok then F(k := F k @ [x]) else F)
    \<and> (mode = Can_Alloc \<longrightarrow> ok)"
proof -
  obtain ids h L i q1 where 1: "get_or_add_producer k q = Inr (Some i, q1)" "i < length ids" "ids ! i = k" "cq_with K ids F h L q1"
    using assms(1,2) get_or_add_run unfolding cq_holds_def by blast
  note c = cq_with_fifo [OF 1(4,2)]
  have "False \<notin> set (mallocs (cq_pool q1))" using 1(4) by (simp add: cq_with_def)
  then obtain ok p m L' where e: "iq_enqueue mode x (snd (cq_producers q1 ! i)) (cq_pool q1) = Inr (ok, p, m)"
      "pool_step (\<Union>i < length ids. set (L i)) (L i) (cq_pool q1) L' m"
      "if ok then fifo (h i) (Suc (h i + length (F k))) (F k @ [x]) L' p (qblocks m)
       else fifo (h i) (h i + length (F k)) (F k) L' p (qblocks m)" "mode = Can_Alloc \<longrightarrow> ok"
    using enqueue_run [OF c(1-3), of mode x] assms(3) 1(3) by auto
  have "fifo (h i) (h i + length (if ok then F k @ [x] else F k)) (if ok then F k @ [x] else F k) L' p (qblocks m)"
    using e(3) by simp
  then have "cq_holds K (update_producer i p m q1) (F(k := if ok then F k @ [x] else F k))"
    using cq_with_step [OF 1(4,2) e(2)] 1(3) unfolding cq_holds_def by blast
  then show ?thesis using 1(1) e(1,4)
    by (intro exI [of _ ok] exI [of _ "update_producer i p m q1"]) (cases ok; simp add: inner_enqueue_def)
qed

lemma cq_enqueue_run:
  assumes "cq_holds K q F" "k \<in> K" "length (F k) < 2 ^ 62"
  shows "\<exists>q'. cq_enqueue k x q = Inr (True, q') \<and> cq_holds K q' (F(k := F k @ [x]))"
  using inner_enqueue_run [OF assms, of Can_Alloc x] by (auto simp: cq_enqueue_def initial_hash_size_def)

lemma dequeue_from_run:
  assumes "cq_with K ids F h L q" "i < length ids"
  shows "F (ids ! i) = [] \<Longrightarrow> dequeue_from i q = Inr (None, q)"
    "F (ids ! i) = x # xs \<Longrightarrow> length (F (ids ! i)) \<le> 2 ^ 62 \<Longrightarrow>
      \<exists>q'. dequeue_from i q = Inr (Some x, q') \<and> cq_holds K q' (F(ids ! i := xs))"
proof -
  note c = cq_with_fifo [OF assms]
  show "dequeue_from i q = Inr (None, q)" if e: "F (ids ! i) = []"
  proof -
    have "iq_dequeue (snd (cq_producers q ! i)) (cq_pool q) = Inr (None, snd (cq_producers q ! i), cq_pool q)"
      using c(1) unfolding e by (rule dequeue_empty)
    then show ?thesis by (simp add: dequeue_from_def update_producer_def)
  qed
  assume x: "F (ids ! i) = x # xs" "length (F (ids ! i)) \<le> 2 ^ 62"
  have "fifo (h i) (h i + length (x # xs)) (x # xs) (L i) (snd (cq_producers q ! i)) (qblocks (cq_pool q))"
    using c(1) unfolding x(1) .
  then obtain p m L' where d: "iq_dequeue (snd (cq_producers q ! i)) (cq_pool q) = Inr (Some x, p, m)"
      "fifo (Suc (h i)) (h i + length (x # xs)) xs L' p (qblocks m)"
      "pool_step (\<Union>i < length ids. set (L i)) (L i) (cq_pool q) L' m"
    using dequeue_run [OF _ c(2,3)] x(2) unfolding x(1) by blast
  have "fifo (Suc (h i)) (Suc (h i) + length xs) xs L' p (qblocks m)" using d(2) by simp
  then have "cq_holds K (update_producer i p m q) (F(ids ! i := xs))"
    using cq_with_step [OF assms d(3)] unfolding cq_holds_def by blast
  then show "\<exists>q'. dequeue_from i q = Inr (Some x, q') \<and> cq_holds K q' (F(ids ! i := xs))"
    using d(1) by (simp add: dequeue_from_def)
qed

lemma size_approx_exact:
  assumes "fifo h t xs L p B" "length xs \<le> 2 ^ 62"
  shows "size_approx p = of_nat (length xs)"
proof -
  have "head_index p = of_nat h" "tail_index p = of_nat h + of_nat (length xs)"
    using assms(1) by (simp_all add: queue_with_def counters_ok_def)
  moreover have "circular_less_than (of_nat h) (of_nat h + of_nat (length xs)) \<longleftrightarrow> 0 < length xs"
    by (rule circular_less_than_ahead, rule le_less_trans [OF assms(2)]) simp
  ultimately show ?thesis by (simp add: size_approx_def)
qed

lemma score_run:
  assumes "\<forall>i \<in> set is. 0 < size_approx (snd (cq_producers q ! i)) \<longleftrightarrow> P i" "n \<le> 3"
    "n = 0 \<Longrightarrow> best = None \<and> bs = 0" "n \<noteq> 0 \<Longrightarrow> \<exists>b. best = Some b \<and> P b \<and> b \<in> B" "set is \<subseteq> B"
  shows "\<exists>n' best'. score_producers q is n best bs = (n', best')
    \<and> (if n = 0 \<and> (\<forall>i \<in> set is. \<not> P i) then n' = 0 else n' \<noteq> 0 \<and> (\<exists>b. best' = Some b \<and> P b \<and> b \<in> B))"
  using assms
proof (induction "is" arbitrary: n best bs)
  case (Cons i "is")
  let ?s = "size_approx (snd (cq_producers q ! i))"
  note IH = Cons.IH [OF _ _ _ _ order.trans [OF _ Cons.prems(5)]]
  have i: "0 < ?s \<longleftrightarrow> P i" "i \<in> B" "\<forall>j \<in> set is. 0 < size_approx (snd (cq_producers q ! j)) \<longleftrightarrow> P j" "set is \<subseteq> B"
    using Cons.prems(1,5) by simp_all
  show ?case
  proof (cases "n < 3")
    case False
    then show ?thesis using Cons.prems by auto
  next
    case less: True
    show ?thesis
    proof (cases "P i")
      case False
      then show ?thesis using Cons.IH [OF i(3) Cons.prems(2-4) i(4)] i(1) less by simp
    next
      case True
      have "unat n < 3" using less by (simp add: word_less_nat_alt)
      then have "unat (n + 1) = Suc (unat n)" using unat_add_no_wrap [of n 1] by simp
      then have n: "n + 1 \<noteq> 0" "n + 1 \<le> 3" using \<open>unat n < 3\<close> by (auto simp: word_le_nat_alt word_unat_eq_iff)
      show ?thesis
      proof (cases "?s > bs")
        case gt: True
        have "\<exists>n' best'. score_producers q is (n + 1) (Some i) ?s = (n', best')
            \<and> (if n + 1 = 0 \<and> (\<forall>i \<in> set is. \<not> P i) then n' = 0 else n' \<noteq> 0 \<and> (\<exists>b. best' = Some b \<and> P b \<and> b \<in> B))"
          by (rule Cons.IH [OF i(3) n(2) _ _ i(4)]) (use n(1) True i(2) in simp_all)
        then show ?thesis using i(1) less True gt n(1) by (simp add: Let_def)
      next
        case False
        have "n \<noteq> 0" using False Cons.prems(3) i(1) True by auto
        have "\<exists>n' best'. score_producers q is (n + 1) best bs = (n', best')
            \<and> (if n + 1 = 0 \<and> (\<forall>i \<in> set is. \<not> P i) then n' = 0 else n' \<noteq> 0 \<and> (\<exists>b. best' = Some b \<and> P b \<and> b \<in> B))"
          by (rule Cons.IH [OF i(3) n(2) _ _ i(4)]) (use n(1) Cons.prems(4) \<open>n \<noteq> 0\<close> in simp_all)
        then show ?thesis using i(1) less True False n(1) by (simp add: Let_def)
      qed
    qed
  qed
qed auto

lemma dequeue_first_run:
  assumes "cq_with K ids F h L q" "\<forall>k. length (F k) \<le> 2 ^ 62" "set is \<subseteq> {..<length ids}"
  shows "if \<forall>i \<in> set is. F (ids ! i) = [] then dequeue_first is q = Inr (None, q)
    else \<exists>i \<in> set is. \<exists>x xs q'. dequeue_first is q = Inr (Some x, q') \<and> F (ids ! i) = x # xs \<and> cq_holds K q' (F(ids ! i := xs))"
  using assms(3)
proof (induction "is")
  case (Cons i "is")
  then have i: "i < length ids" by simp
  show ?case
  proof (cases "F (ids ! i)")
    case Nil
    then have same: "dequeue_first (i # is) q = dequeue_first is q"
      using dequeue_from_run(1) [OF assms(1) i Nil] by simp
    have "set is \<subseteq> {..<length ids}" using Cons.prems by simp
    then show ?thesis using Cons.IH Nil unfolding same by (simp split: if_splits del: fun_upd_apply)
  next
    case (Cons x xs)
    then obtain q' where "dequeue_from i q = Inr (Some x, q')" "cq_holds K q' (F(ids ! i := xs))"
      using dequeue_from_run(2) [OF assms(1) i Cons] assms(2) by blast
    then show ?thesis using Cons by auto
  qed
qed simp

definition takes_one :: "u64 set \<Rightarrow> cqueue \<Rightarrow> (u64 \<Rightarrow> u64 list) \<Rightarrow> (u64 option \<times> cqueue) res \<Rightarrow> bool" where
  "takes_one K q F r \<longleftrightarrow> (if \<forall>k. F k = [] then r = Inr (None, q)
     else \<exists>k x xs q'. r = Inr (Some x, q') \<and> F k = x # xs \<and> cq_holds K q' (F(k := xs)))"

lemma cq_with_empty:
  assumes "cq_with K ids F h L q"
  shows "(\<forall>k. F k = []) \<longleftrightarrow> (\<forall>i < length ids. F (ids ! i) = [])" "set (producer_list q) = {..<length ids}"
  using assms by (auto simp: cq_with_def lanes_ok_def producer_list_def in_set_conv_nth) metis

lemma dequeue_non_interleaved_run:
  assumes "cq_holds K q F" "\<forall>k. length (F k) \<le> 2 ^ 62"
  shows "takes_one K q F (try_dequeue_non_interleaved q)"
proof -
  obtain ids h L where w: "cq_with K ids F h L q" using assms(1) by (auto simp: cq_holds_def)
  note e = cq_with_empty [OF w]
  show ?thesis
    using dequeue_first_run [OF w assms(2) equalityD1 [OF e(2)]]
    unfolding takes_one_def try_dequeue_non_interleaved_def e by (auto split: if_splits)
qed

lemma try_dequeue_run:
  assumes "cq_holds K q F" "\<forall>k. length (F k) \<le> 2 ^ 62"
  shows "takes_one K q F (try_dequeue q)"
proof -
  obtain ids h L where w: "cq_with K ids F h L q" using assms(1) by (auto simp: cq_holds_def)
  note e = cq_with_empty [OF w]
  have size: "0 < size_approx (snd (cq_producers q ! i)) \<longleftrightarrow> F (ids ! i) \<noteq> []" if "i < length ids" for i
  proof -
    have "size_approx (snd (cq_producers q ! i)) = of_nat (length (F (ids ! i)))"
      by (rule size_approx_exact [OF cq_with_fifo(1) [OF w that]]) (use assms(2) in simp)
    moreover have "unat (of_nat (length (F (ids ! i))) :: u64) = length (F (ids ! i))"
      by (rule unat_of_nat_u64) (use assms(2) [rule_format, of "ids ! i"] in simp)
    ultimately show ?thesis by (simp add: word_less_nat_alt)
  qed
  have all: "(\<forall>i \<in> set (producer_list q). \<not> F (ids ! i) \<noteq> []) \<longleftrightarrow> (\<forall>i < length ids. F (ids ! i) = [])"
    by (auto simp: e(2))
  have "\<exists>n best. score_producers q (producer_list q) 0 None 0 = (n, best)
      \<and> (if (0 :: u64) = 0 \<and> (\<forall>i \<in> set (producer_list q). \<not> F (ids ! i) \<noteq> []) then n = 0
         else n \<noteq> 0 \<and> (\<exists>b. best = Some b \<and> F (ids ! b) \<noteq> [] \<and> b \<in> {..<length ids}))"
    by (rule score_run) (use size e(2) in auto)
  then obtain n best where s: "score_producers q (producer_list q) 0 None 0 = (n, best)"
      "if \<forall>i < length ids. F (ids ! i) = [] then n = 0
       else n \<noteq> 0 \<and> (\<exists>b. best = Some b \<and> F (ids ! b) \<noteq> [] \<and> b < length ids)"
    unfolding all lessThan_iff by auto
  show ?thesis
  proof (cases "\<forall>i < length ids. F (ids ! i) = []")
    case True
    then show ?thesis using s unfolding takes_one_def e(1) by (simp add: try_dequeue_def)
  next
    case False
    then obtain b where b: "best = Some b" "F (ids ! b) \<noteq> []" "b < length ids" "n \<noteq> 0"
      using s(2) unfolding if_not_P [OF False] by blast
    then obtain x xs where x: "F (ids ! b) = x # xs" by (cases "F (ids ! b)") auto
    obtain q' where "dequeue_from b q = Inr (Some x, q')" "cq_holds K q' (F(ids ! b := xs))"
      using dequeue_from_run(2) [OF w b(3) x] assms(2) by blast
    then show ?thesis using s(1) b x False unfolding takes_one_def e(1)
      by (auto simp: try_dequeue_def word_gt_0)
  qed
qed

subsection \<open>A new queue\<close>

lemma cq_new_holds:
  assumes "False \<notin> set ms" "finite K" "card K < 2 ^ 57" "invalid_thread \<notin> K"
  shows "cq_holds K (cq_new capacity ms junk) (\<lambda>_. [])"
proof -
  have "pool_inv (populate (initial_blocks capacity) (pool_new ms junk)) {}"
    by (rule populate_inv) (simp_all add: pool_new_def)
  moreover have "False \<notin> set (mallocs (populate (initial_blocks capacity) (pool_new ms junk)))"
    using assms(1) by (auto simp: populate_def pool_new_def alloc_def split: list.splits)
  moreover have "entries_ok [] (table_new initial_hash_size)"
    by (rule table_new_ok(3) [of _ 5]) (simp_all add: initial_hash_size_def)
  moreover have "table_capacity (table_new initial_hash_size) = 32" by (simp add: table_new_def initial_hash_size_def)
  ultimately have "cq_with K [] (\<lambda>_. []) (\<lambda>_. 0) (\<lambda>_. []) (cq_new capacity ms junk)"
    using assms by (simp add: cq_with_def lanes_ok_def tables_ok_def cq_new_def)
  then show ?thesis unfolding cq_holds_def by blast
qed

section \<open>What the queue promises\<close>

fun cq_run :: "cq_op list \<Rightarrow> cqueue \<Rightarrow> (u64 queue_outcome list \<times> cqueue) res" where
  "cq_run [] q = Inr ([], q)"
| "cq_run (Enqueue k x # ops) q =
     bind_res (cq_enqueue k x q) (\<lambda>(ok, q). bind_res (cq_run ops q) (\<lambda>(os, q). Inr (Stored ok # os, q)))"
| "cq_run (Dequeue # ops) q =
     bind_res (try_dequeue q) (\<lambda>(r, q). bind_res (cq_run ops q) (\<lambda>(os, q). Inr (Took r # os, q)))"

fun op_threads :: "cq_op list \<Rightarrow> u64 set" where
  "op_threads [] = {}"
| "op_threads (Enqueue k x # ops) = insert k (op_threads ops)"
| "op_threads (Dequeue # ops) = op_threads ops"

lemma op_threads_finite: "finite (op_threads ops)"
  by (induction ops rule: op_threads.induct) simp_all

lemma lane_le_total:
  assumes "cq_holds K q F"
  shows "length (F k) \<le> size (\<Sum>k \<in> K. mset (F k))"
proof (cases "k \<in> K")
  case True
  have "finite K" using assms by (auto simp: cq_holds_def cq_with_def)
  then have "length (F k) \<le> (\<Sum>k \<in> K. length (F k))" using True by (intro member_le_sum) simp_all
  then show ?thesis by (simp add: size_multiset_sum)
next
  case False
  then have "F k = []" using assms by (auto simp: cq_holds_def cq_with_def)
  then show ?thesis by simp
qed

lemma sum_lane_update:
  assumes "finite K" "k \<in> K"
  shows "(\<Sum>j \<in> K. mset ((F(k := F k @ [x])) j)) = add_mset x (\<Sum>j \<in> K. mset (F j))"
    "F k = x # xs \<Longrightarrow> (\<Sum>j \<in> K. mset (F j)) = add_mset x (\<Sum>j \<in> K. mset ((F(k := xs)) j))"
  using assms by (simp_all add: sum.remove [OF assms])

lemma sum_lane_lengths:
  assumes "finite K" "k \<in> K"
  shows "(\<Sum>j \<in> K. length ((F(k := ys)) j)) + length (F k) = (\<Sum>j \<in> K. length (F j)) + length ys"
proof -
  have "(\<Sum>j \<in> K - {k}. length ((F(k := ys)) j)) = (\<Sum>j \<in> K - {k}. length (F j))" by (rule sum.cong) simp_all
  then show ?thesis by (simp add: sum.remove [OF assms])
qed

fun as_queue_op :: "cq_op \<Rightarrow> u64 queue_op" where
  "as_queue_op (Enqueue k x) = Put x"
| "as_queue_op Dequeue = Take"

lemma cq_holds_outside: "cq_holds K q F \<Longrightarrow> F k \<noteq> [] \<Longrightarrow> k \<in> K" "cq_holds K q F \<Longrightarrow> finite K"
  by (auto simp: cq_holds_def cq_with_def)

lemma lane_le_sum: "cq_holds K q F \<Longrightarrow> length (F k) \<le> (\<Sum>k \<in> K. length (F k))"
  using lane_le_total [of K q F k] by (simp add: size_multiset_sum)

lemma cq_op_lanes:
  assumes "cq_holds K q F" "op_threads [p] \<subseteq> K" "(\<Sum>k \<in> K. length (F k)) \<le> n" "fits (2 ^ 62) n [as_queue_op p]"
  shows "\<exists>r q1 F1. lane_step F p r F1 \<and> cq_holds K q1 F1
      \<and> (\<forall>ops. cq_run (p # ops) q = bind_res (cq_run ops q1) (\<lambda>(os, q). Inr (r # os, q)))
      \<and> (\<Sum>k \<in> K. length (F1 k)) \<le> (case p of Enqueue k x \<Rightarrow> Suc n | Dequeue \<Rightarrow> n - 1)"
proof -
  note total = lane_le_sum [OF assms(1)] and fin = cq_holds_outside(2) [OF assms(1)]
  show ?thesis
  proof (cases p)
    case (Enqueue k x)
    then have k: "k \<in> K" "n < 2 ^ 62" using assms(2,4) by simp_all
    then have "length (F k) < 2 ^ 62" using total [of k] assms(3) by linarith
    then obtain q1 where q1: "cq_enqueue k x q = Inr (True, q1)" "cq_holds K q1 (F(k := F k @ [x]))"
      using cq_enqueue_run [OF assms(1) k(1)] by blast
    have "(\<Sum>j \<in> K. length ((F(k := F k @ [x])) j)) = Suc (\<Sum>j \<in> K. length (F j))"
      using sum_lane_lengths [OF fin k(1), of F "F k @ [x]"] by (simp del: fun_upd_apply)
    then show ?thesis using Enqueue q1 put_lane [of F k x] assms(3)
      by (intro exI [of _ "Stored True"] exI [of _ q1] exI [of _ "F(k := F k @ [x])"]) (simp del: fun_upd_apply)
  next
    case Dequeue
    then have "n \<le> 2 ^ 62" using assms(4) by simp
    then have "\<forall>k. length (F k) \<le> 2 ^ 62" using total assms(3) by (meson le_trans)
    then have take': "takes_one K q F (try_dequeue q)" by (rule try_dequeue_run [OF assms(1)])
    show ?thesis
    proof (cases "\<forall>k. F k = []")
      case True
      then have "try_dequeue q = Inr (None, q)" using take' by (simp add: takes_one_def)
      moreover have "(\<Sum>k \<in> K. length (F k)) = 0" using True by simp
      ultimately show ?thesis using Dequeue all_empty [OF True] assms(1)
        by (intro exI [of _ "Took None"] exI [of _ q] exI [of _ F]) (simp del: sum_eq_0_iff)
    next
      case False
      then obtain k x xs q1 where 1: "try_dequeue q = Inr (Some x, q1)" "F k = x # xs" "cq_holds K q1 (F(k := xs))"
        using take' unfolding takes_one_def if_not_P [OF False] by blast
      then have "k \<in> K" using cq_holds_outside(1) [OF assms(1), of k] by simp
      then have "(\<Sum>j \<in> K. length (F j)) = Suc (\<Sum>j \<in> K. length ((F(k := xs)) j))"
        using sum_lane_lengths [OF fin, of k F xs] 1(2) by (simp del: fun_upd_apply)
      then show ?thesis using Dequeue 1(1,3) take_lane [of F k x xs, OF 1(2)] assms(3)
        by (intro exI [of _ "Took (Some x)"] exI [of _ q1] exI [of _ "F(k := xs)"]) (simp del: fun_upd_apply)
    qed
  qed
qed

lemma cq_run_lanes:
  "\<lbrakk>cq_holds K q F; op_threads ops \<subseteq> K; (\<Sum>k \<in> K. length (F k)) \<le> n; fits (2 ^ 62) n (map as_queue_op ops)\<rbrakk> \<Longrightarrow>
   \<exists>os q' F'. cq_run ops q = Inr (os, q') \<and> length os = length ops \<and> lane_steps F (zip ops os) F' \<and> cq_holds K q' F'"
proof (induction ops arbitrary: q F n)
  case Nil
  then show ?case by (auto intro: no_steps)
next
  case (Cons p ops)
  define n' where "n' = (case p of Enqueue k x \<Rightarrow> Suc n | Dequeue \<Rightarrow> n - 1)"
  have rest: "fits (2 ^ 62) n' (map as_queue_op ops) \<and> op_threads [p] \<subseteq> K \<and> op_threads ops \<subseteq> K \<and> fits (2 ^ 62) n [as_queue_op p]"
    using Cons.prems(2,4) by (cases p) (auto simp: n'_def)
  obtain r q1 F1 where 1: "lane_step F p r F1" "cq_holds K q1 F1"
      "cq_run (p # ops) q = bind_res (cq_run ops q1) (\<lambda>(os, q). Inr (r # os, q))" "(\<Sum>k \<in> K. length (F1 k)) \<le> n'"
    using cq_op_lanes [OF Cons.prems(1) _ Cons.prems(3), of p] rest unfolding n'_def by blast
  obtain os q' F' where "cq_run ops q1 = Inr (os, q')" "length os = length ops" "lane_steps F1 (zip ops os) F'" "cq_holds K q' F'"
    using Cons.IH [OF 1(2) _ 1(4)] rest by blast
  then show ?case using 1(1,3) more_steps
    by (intro exI [of _ "r # os"] exI [of _ q'] exI [of _ F']) auto
qed

text \<open>What a state holds, with the threads that will put the next elements.\<close>

definition thread_bag :: "(nat \<Rightarrow> u64) \<times> cqueue \<Rightarrow> u64 multiset \<Rightarrow> bool" where
  "thread_bag s M \<longleftrightarrow> (\<exists>K F. range (fst s) \<subseteq> K \<and> cq_holds K (snd s) F \<and> M = (\<Sum>k \<in> K. mset (F k)))"

definition cq_put :: "u64 \<Rightarrow> (nat \<Rightarrow> u64) \<times> cqueue \<Rightarrow> (bool \<times> (nat \<Rightarrow> u64) \<times> cqueue) res" where
  "cq_put x s = bind_res (cq_enqueue (fst s 0) x (snd s)) (\<lambda>(ok, q). Inr (ok, \<lambda>n. fst s (Suc n), q))"

definition cq_get :: "(nat \<Rightarrow> u64) \<times> cqueue \<Rightarrow> (u64 option \<times> (nat \<Rightarrow> u64) \<times> cqueue) res" where
  "cq_get s = bind_res (try_dequeue (snd s)) (\<lambda>(r, q). Inr (r, fst s, q))"

interpretation shared_queue: bag_queue thread_bag cq_put cq_get "\<lambda>_. True" "2 ^ 62"
proof
  fix s :: "(nat \<Rightarrow> u64) \<times> cqueue" and M x
  assume "thread_bag s M" "size M < 2 ^ 62"
  then obtain K F where w: "range (fst s) \<subseteq> K" "cq_holds K (snd s) F" "M = (\<Sum>k \<in> K. mset (F k))" "size M < 2 ^ 62"
    by (auto simp: thread_bag_def)
  have k: "fst s 0 \<in> K" "finite K" using w(1,2) by (auto simp: cq_holds_def cq_with_def)
  have "length (F (fst s 0)) < 2 ^ 62" using lane_le_total [OF w(2)] w(3,4) le_less_trans by blast
  then obtain q where q: "cq_enqueue (fst s 0) x (snd s) = Inr (True, q)" "cq_holds K q (F(fst s 0 := F (fst s 0) @ [x]))"
    using cq_enqueue_run [OF w(2) k(1)] by blast
  have "thread_bag (\<lambda>n. fst s (Suc n), q) (add_mset x M)"
    unfolding thread_bag_def w(3)
    by (rule exI [of _ K], rule exI [of _ "F(fst s 0 := F (fst s 0) @ [x])"])
      (use w(1) q(2) sum_lane_update(1) [OF k(2,1), of F x] in \<open>auto simp del: fun_upd_apply\<close>)
  then show "\<exists>ok s'. cq_put x s = Inr (ok, s') \<and> thread_bag s' (if ok then add_mset x M else M) \<and> (True \<longrightarrow> ok \<and> True)"
    using q(1) by (intro exI [of _ True] exI [of _ "(\<lambda>n. fst s (Suc n), q)"]) (simp add: cq_put_def)
next
  fix s :: "(nat \<Rightarrow> u64) \<times> cqueue"
  assume "thread_bag s {#}"
  then obtain K F where w: "cq_holds K (snd s) F" "{#} = (\<Sum>k \<in> K. mset (F k))" by (auto simp: thread_bag_def)
  have "F k = []" for k using lane_le_total [OF w(1), of k] by (simp flip: w(2))
  then have "try_dequeue (snd s) = Inr (None, snd s)"
    using try_dequeue_run [OF w(1)] by (simp add: takes_one_def)
  then show "\<exists>s'. cq_get s = Inr (None, s') \<and> thread_bag s' {#} \<and> (True \<longrightarrow> True)"
    using \<open>thread_bag s {#}\<close> by (intro exI [of _ s]) (simp add: cq_get_def)
next
  fix s :: "(nat \<Rightarrow> u64) \<times> cqueue" and M
  assume "thread_bag s M" "M \<noteq> {#}" "size M \<le> 2 ^ 62"
  then obtain K F where w: "range (fst s) \<subseteq> K" "cq_holds K (snd s) F" "M = (\<Sum>k \<in> K. mset (F k))" "M \<noteq> {#}" "size M \<le> 2 ^ 62"
    by (auto simp: thread_bag_def)
  have fin: "finite K" and out: "F k \<noteq> [] \<Longrightarrow> k \<in> K" for k
    using w(2) by (auto simp: cq_holds_def cq_with_def)
  have "\<forall>k. length (F k) \<le> 2 ^ 62" using lane_le_total [OF w(2)] w(3,5) order.trans by blast
  then have "takes_one K (snd s) F (try_dequeue (snd s))" by (rule try_dequeue_run [OF w(2)])
  moreover have "\<not> (\<forall>k. F k = [])"
  proof
    assume "\<forall>k. F k = []"
    then have "M = {#}" by (simp add: w(3))
    then show False using w(4) by simp
  qed
  ultimately obtain k x xs q where q: "try_dequeue (snd s) = Inr (Some x, q)" "F k = x # xs" "cq_holds K q (F(k := xs))"
    unfolding takes_one_def by (auto split: if_splits)
  have "k \<in> K" using out q(2) by simp
  then have M: "M = add_mset x (\<Sum>j \<in> K. mset ((F(k := xs)) j))"
    using sum_lane_update(2) [OF fin, of k F x xs] q(2) w(3) by (simp del: fun_upd_apply)
  have "thread_bag (fst s, q) (M - {#x#})"
    unfolding thread_bag_def M by (rule exI [of _ K], rule exI [of _ "F(k := xs)"]) (use w(1) q(3) in simp)
  then show "\<exists>x s'. cq_get s = Inr (Some x, s') \<and> x \<in># M \<and> thread_bag s' (M - {#x#}) \<and> (True \<longrightarrow> True)"
    using q(1) M by (intro exI [of _ x] exI [of _ "(fst s, q)"]) (simp add: cq_get_def)
qed

subsection \<open>One thread\<close>

text \<open>With one thread the lanes are one first-in first-out queue.\<close>

lemma one_lane_fifo:
  "\<lbrakk>lane_steps F es F'; \<forall>j. j \<noteq> k \<longrightarrow> F j = []; op_threads (map fst es) \<subseteq> {k}\<rbrakk>
   \<Longrightarrow> fifo_after (F k) (map (\<lambda>(p, r). (as_queue_op p, r)) es) = Some (F' k)"
proof (induction rule: lane_steps.induct)
  case (more_steps F p r F1 es F2)
  show ?case
  proof (cases p)
    case (Enqueue j x)
    then have "j = k" "r = Stored True" "F1 = F(k := F k @ [x])"
      using more_steps.hyps(1) more_steps.prems(2) by (auto simp: lane_step_simps)
    then show ?thesis using more_steps Enqueue by simp
  next
    case Dequeue
    then consider (took) j x xs where "F j = x # xs" "r = Took (Some x)" "F1 = F(j := xs)"
      | (none) "\<forall>j. F j = []" "r = Took None" "F1 = F"
      using more_steps.hyps(1) by (auto simp: lane_step_simps)
    then show ?thesis
    proof cases
      case took
      then have "j = k" using more_steps.prems(1) by (metis list.distinct(1))
      then show ?thesis using more_steps took Dequeue by simp
    next
      case none
      then show ?thesis using more_steps Dequeue by simp
    qed
  qed
qed simp

section \<open>Properties\<close>

text \<open>C2: While memory lasts, whatever the threads put into a new queue and take from it, one operation at a
  time and each thread's operations in whatever order: nothing is refused, the elements of one thread come out in the order
  in which it put them, no element comes out twice or is lost, and taking fails only if the queue is empty.
\<close>

theorem concurrent_queue_keeps_lanes:
  assumes "False \<notin> set ms" "fits (2 ^ 62) 0 (map as_queue_op ops)" "card (op_threads ops) < 2 ^ 57"
    "invalid_thread \<notin> op_threads ops"
  shows "\<exists>os q F. cq_run ops (cq_new capacity ms junk) = Inr (os, q) \<and> length os = length ops
    \<and> lane_steps (\<lambda>_. []) (zip ops os) F \<and> cq_holds (op_threads ops) q F"
proof -
  have "cq_holds (op_threads ops) (cq_new capacity ms junk) (\<lambda>_. [])"
    using cq_new_holds assms(1,3,4) op_threads_finite by blast
  then show ?thesis using cq_run_lanes [OF _ subset_refl _ assms(2)] by simp
qed

theorem concurrent_queue_keeps_lanes_witness:
  "\<exists>os q F. cq_run [Enqueue 7 1, Enqueue 9 2, Dequeue, Dequeue, Dequeue] (cq_new default_capacity [True, True] None) = Inr (os, q)
    \<and> lane_steps (\<lambda>_. []) (zip [Enqueue 7 1, Enqueue 9 2, Dequeue, Dequeue, Dequeue] os) F"
  using concurrent_queue_keeps_lanes [of "[True, True]" "[Enqueue 7 1, Enqueue 9 2, Dequeue, Dequeue, Dequeue]"
      default_capacity None]
  by (simp add: invalid_thread_def) blast

text \<open>A thread that is alone with the queue gets back what it put, in the same order.\<close>

theorem one_thread_is_fifo:
  assumes "False \<notin> set ms" "fits (2 ^ 62) 0 (map as_queue_op ops)" "op_threads ops \<subseteq> {k}" "k \<noteq> invalid_thread"
  shows "\<exists>os q ys. cq_run ops (cq_new capacity ms junk) = Inr (os, q)
    \<and> fifo_after [] (zip (map as_queue_op ops) os) = Some ys"
proof -
  have "cq_holds {k} (cq_new capacity ms junk) (\<lambda>_. [])"
    using assms(1,4) by (intro cq_new_holds) simp_all
  then obtain os q F where run: "cq_run ops (cq_new capacity ms junk) = Inr (os, q)" "length os = length ops"
      "lane_steps (\<lambda>_. []) (zip ops os) F"
    using cq_run_lanes [OF _ assms(3) _ assms(2)] by fastforce
  have "map fst (zip ops os) = ops" using run(2) by simp
  then have "fifo_after [] (map (\<lambda>(p, r). (as_queue_op p, r)) (zip ops os)) = Some (F k)"
    using one_lane_fifo [OF run(3), of k] assms(3) by simp
  moreover have "map (\<lambda>(p, r). (as_queue_op p, r)) (zip ops os) = zip (map as_queue_op ops) os"
    by (simp add: zip_map1)
  ultimately show ?thesis using run(1) by auto
qed

theorem one_thread_is_fifo_witness:
  "\<exists>os q ys. cq_run [Enqueue 7 1, Dequeue] (cq_new default_capacity [] None) = Inr (os, q)
    \<and> fifo_after [] (zip (map as_queue_op [Enqueue 7 1, Dequeue]) os) = Some ys"
  by (rule one_thread_is_fifo [of _ _ 7]) (simp_all add: invalid_thread_def)

text \<open>While nobody is inside the queue, the estimate of its size is exact, whatever was put into it and
  taken from it before.
\<close>

theorem size_approx_is_exact:
  assumes "cq_holds K q F" "(\<Sum>k \<in> K. length (F k)) \<le> 2 ^ 62"
  shows "cq_size_approx q = of_nat (\<Sum>k \<in> K. length (F k))"
proof -
  obtain ids h L where w: "cq_with K ids F h L q" using assms(1) by (auto simp: cq_holds_def)
  have ids: "distinct ids" "set ids \<subseteq> K" "finite K" "\<forall>k \<in> K - set ids. F k = []" "length (cq_producers q) = length ids"
    using w by (auto simp: cq_with_def tables_ok_def lanes_ok_def)
  have len: "length (F k) \<le> 2 ^ 62" for k
    using lane_le_total [OF assms(1), of k] assms(2) by (simp add: size_multiset_sum)
  have "size_approx (snd (cq_producers q ! i)) = of_nat (length (F (ids ! i)))" if "i < length ids" for i
    by (rule size_approx_exact [OF cq_with_fifo(1) [OF w that] len])
  then have "cq_size_approx q = foldl (\<lambda>s i. s + of_nat (length (F (ids ! i)))) 0 (producer_list q)"
    unfolding cq_size_approx_def using ids(5) by (intro foldl_cong) (auto simp: producer_list_def)
  also have "\<dots> = of_nat (\<Sum>i < length ids. length (F (ids ! i)))"
  proof -
    have "foldl (\<lambda>s i. s + of_nat (g i)) a is = a + of_nat (sum_list (map g is))" for g :: "nat \<Rightarrow> nat" and a :: u64 and "is"
      by (induction "is" arbitrary: a) (simp_all add: algebra_simps)
    moreover have "sum_list (map g (rev [0..<n])) = sum g {..<n}" for g :: "nat \<Rightarrow> nat" and n
      by (simp add: rev_map sum_list_rev interv_sum_list_conv_sum_set_nat atLeast0LessThan flip: rev_map)
    ultimately show ?thesis by (simp add: producer_list_def ids(5))
  qed
  also have "(\<Sum>i < length ids. length (F (ids ! i))) = (\<Sum>k \<in> set ids. length (F k))"
    using ids(1) by (simp add: sum.list_conv_set_nth sum_list_distinct_conv_sum_set flip: sum_list_distinct_conv_sum_set atLeast0LessThan)
  also have "\<dots> = (\<Sum>k \<in> K. length (F k))"
    using ids by (intro sum.mono_neutral_left) auto
  finally show ?thesis .
qed

theorem size_approx_is_exact_witness:
  "\<exists>q. cq_enqueue 7 5 (cq_new default_capacity [] None) = Inr (True, q) \<and> cq_size_approx q = 1"
proof -
  have "cq_holds {7} (cq_new default_capacity [] None) (\<lambda>_. [])"
    by (rule cq_new_holds) (simp_all add: invalid_thread_def)
  then obtain q where q: "cq_enqueue 7 5 (cq_new default_capacity [] None) = Inr (True, q)"
      "cq_holds {7} q ((\<lambda>_. [])(7 := [] @ [5]))"
    using cq_enqueue_run [of "{7}" "cq_new default_capacity [] None" "\<lambda>_. []" 7 5] by auto
  have "cq_size_approx q = 1" using size_approx_is_exact [OF q(2)] by simp
  then show ?thesis using q(1) by blast
qed

text \<open>C36: When memory runs out between a new producer and its block index, the enqueue that wanted the
  producer does not report that it failed: it follows a null pointer.
\<close>

theorem enqueue_without_index_crashes:
  assumes "k \<noteq> invalid_thread"
  shows "cq_enqueue k x (cq_new default_capacity [True, True, False] junk) = Inl null_index"
proof -
  let ?t = "table_new initial_hash_size" and ?q = "cq_new default_capacity [True, True, False] junk"
  have t: "table_capacity ?t = 32" "entries_ok [] ?t" "table_keys ?t = {}"
    using table_new_ok [of initial_hash_size 5] by (simp_all add: initial_hash_size_def table_new_def)
  have "find_in_tables 0 [?t] k = Inr None"
    by (rule find_in_tables_run(1) [of _ "[]"]) (use t assms in simp_all)
  moreover obtain t' where "table_put k (Some 0) ?t = Inr t'"
    using table_put_run [of ?t k "Some 0"] t assms by (auto simp: entries_ok_def)
  moreover have "iq_enqueue Can_Alloc x \<lparr>tail_index = 0, head_index = 0, optimistic_count = 0, overcommit = 0,
      tail_block = None, next_capacity = initial_index_size, block_index = None, entries = []\<rparr> m = Inl null_index" for m
    by (simp add: iq_enqueue_def insert_block_def insert_entry_def not_full [where h = 0 and k = 0, simplified])
  moreover have pos: "initial_hash_size \<noteq> 0" "drop_bit 1 (32 :: u64) = 16" "drop_bit 2 (32 :: u64) = 8" "\<not> (16 :: u64) \<le> 1"
    by (simp_all add: initial_hash_size_def drop_bit_eq_div word_le_nat_alt)
  ultimately show ?thesis
    by (simp add: cq_enqueue_def inner_enqueue_def get_or_add_producer_def cq_new_def grow_tables_def recycle_or_create_def
        into_main_def populate_def alloc_def pool_new_def producer_new_def new_block_index_def add_producer_def t(1)
        initial_blocks_def default_capacity_def block_size_def register_thread.simps(2) [of 0, folded One_nat_def] pos
        del: One_nat_def)
qed

theorem enqueue_without_index_crashes_witness:
  "cq_enqueue 7 5 (cq_new default_capacity [True, True, False] None) = Inl null_index"
  by (rule enqueue_without_index_crashes) (simp add: invalid_thread_def)

end
