(* ===== verification/Queue_Scheduler.thy ===== *)
theory Queue_Scheduler
  imports Concurrent_Queue Scheduler
begin

text \<open>
  The queue between the threads (\<open>nodes_queue\<close> of \<open>include/hardware_manager.hpp\<close>): the scheduler's model keeps
  the ids in a list, adds one with \<open>push_token\<close> and takes one from any position with \<open>take_id\<close>. The lock-free
  queue is an implementation of it: what its operations return, the operations on the list can return.
\<close>

section \<open>What the list can do\<close>

inductive world_steps :: "('d, 's, 'z) hwm_scheme \<Rightarrow> (node_id queue_op \<times> node_id queue_outcome) list
    \<Rightarrow> ('d, 's, 'z) hwm_scheme \<Rightarrow> bool" where
  world_done: "world_steps w [] w"
| world_push: "world_steps (push_token i w) es w' \<Longrightarrow> world_steps w ((Put i, Stored True) # es) w'"
| world_take: "\<lbrakk>pos < length (nodes_queue w); nodes_queue w ! pos = i; world_steps (take_id pos w) es w'\<rbrakk>
    \<Longrightarrow> world_steps w ((Take, Took (Some i)) # es) w'"
| world_none: "\<lbrakk>nodes_queue w = []; world_steps w es w'\<rbrakk> \<Longrightarrow> world_steps w ((Take, Took None) # es) w'"

inductive_cases world_steps_cases: "world_steps w ((Put i, r) # es) w'" "world_steps w ((Take, r) # es) w'"

lemma push_token_bag: "mset (nodes_queue (push_token i w)) = add_mset i (mset (nodes_queue w))"
  by (simp add: push_token_def)

lemma take_id_bag:
  assumes "pos < length (nodes_queue w)"
  shows "mset (nodes_queue (take_id pos w)) = mset (nodes_queue w) - {#nodes_queue w ! pos#}"
proof -
  have "mset (nodes_queue w) = mset (take pos (nodes_queue w)) + mset (drop pos (nodes_queue w))"
    by (simp flip: mset_append)
  also have "drop pos (nodes_queue w) = nodes_queue w ! pos # drop (pos + 1) (nodes_queue w)"
    using Cons_nth_drop_Suc [OF assms] by simp
  finally show ?thesis by (simp add: take_id_def)
qed

lemma bag_after_world:
  "\<lbrakk>bag_after (mset (nodes_queue w)) es = Some M; Stored False \<notin> snd ` set es\<rbrakk>
   \<Longrightarrow> \<exists>w'. world_steps w es w' \<and> mset (nodes_queue w') = M"
proof (induction "mset (nodes_queue w)" es arbitrary: w rule: bag_after.induct)
  case 1
  then show ?case using world_done by auto
next
  case (2 x ok es)
  then have "ok" by (cases ok) auto
  moreover have "\<exists>w'. world_steps (push_token x w) es w' \<and> mset (nodes_queue w') = M"
    by (rule 2(1)) (use 2(2,3) \<open>ok\<close> in \<open>auto simp: push_token_bag\<close>)
  ultimately show ?case by (auto intro: world_push)
next
  case (3 es)
  then have "nodes_queue w = []" by (auto split: if_splits)
  then show ?case using 3 world_none by (fastforce split: if_splits)
next
  case (4 x es)
  then have "x \<in># mset (nodes_queue w)" by (auto split: if_splits)
  then obtain pos where pos: "pos < length (nodes_queue w)" "nodes_queue w ! pos = x"
    by (auto simp: in_set_conv_nth)
  have "\<exists>w'. world_steps (take_id pos w) es w' \<and> mset (nodes_queue w') = M"
    by (rule 4(1)) (use 4(2,3) pos in \<open>auto simp: take_id_bag split: if_splits\<close>)
  then show ?case using world_take [OF pos] by blast
qed auto

section \<open>The implementation\<close>

text \<open>C11: While memory lasts, and when its operations follow one another, the lock-free queue implements the list of ids
  that the scheduler's model works on, for fewer than \<open>2 ^ 57\<close> threads and up to \<open>2 ^ 62\<close> elements: whichever
  thread puts which id and whenever ids are taken, what a new queue returns is what \<open>push_token\<close> and
  \<open>take_id\<close>, at some position, return, and a worker finds no id only if there is none.
\<close>

theorem queue_implements_nodes_queue:
  assumes "False \<notin> set ms" "finite (range threads)" "card (range threads) < 2 ^ 57" "invalid_thread \<notin> range threads"
    "fits (2 ^ 62) 0 ops" "nodes_queue w = []"
  shows "\<exists>os s w'. queue_trace cq_put cq_get ops (threads, cq_new capacity ms junk) = Inr (os, s)
    \<and> world_steps w (zip ops os) w' \<and> thread_bag s (mset (nodes_queue w'))"
proof -
  have "cq_holds (range threads) (cq_new capacity ms junk) (\<lambda>_. [])" by (rule cq_new_holds [OF assms(1-4)])
  then have "thread_bag (threads, cq_new capacity ms junk) {#}"
    unfolding thread_bag_def by (intro exI [of _ "range threads"] exI [of _ "\<lambda>_. []"]) simp
  then obtain os s M where 1: "queue_trace cq_put cq_get ops (threads, cq_new capacity ms junk) = Inr (os, s)"
      "length os = length ops" "bag_after {#} (zip ops os) = Some M" "thread_bag s M" "Stored False \<notin> set os"
    using shared_queue.trace_is_bag [of "(threads, cq_new capacity ms junk)" "{#}" 0 ops] assms(5) by auto
  have "snd ` set (zip ops os) \<subseteq> set os" by (auto dest: set_zip_rightD)
  then have "\<exists>w'. world_steps w (zip ops os) w' \<and> mset (nodes_queue w') = M"
    using 1(3,5) assms(6) by (intro bag_after_world) auto
  then show ?thesis using 1(1,4) by blast
qed

theorem queue_implements_nodes_queue_witness:
  "\<exists>os s w'. queue_trace cq_put cq_get [Put 3, Take, Take] (\<lambda>_. 7, cq_new default_capacity [True] None) = Inr (os, s)
    \<and> world_steps two_nodes (zip [Put 3, Take, Take] os) w' \<and> thread_bag s (mset (nodes_queue w'))"
  by (rule queue_implements_nodes_queue) (simp_all add: invalid_thread_def two_nodes_def hwm_new_def)

end
