(* ===== verification/Free_List.thy ===== *)
theory Free_List
  imports Queue_Bits
begin

text \<open>
  The lock-free list of free blocks (\<open>struct FreeList\<close>, \<open>include/concurrentqueue.hpp\<close>), with any
  number of threads adding and taking blocks at the same time. One step is one access to a shared
  variable; the accesses are sequentially consistent. A block is a number; it is free for reuse
  when its count of references, whose top bit says that it should be on the list, allows it.
\<close>

section \<open>The program\<close>

definition refs_mask :: "32 word" where "refs_mask = 0x7FFFFFFF"
definition should_be_on_list :: "32 word" where "should_be_on_list = 0x80000000"

text \<open>
  What follows \<open>add_knowing_refcount_is_zero\<close>: the return from \<open>add\<close>, or the loop of \<open>try_get\<close>
  with the head it has read.
\<close>

datatype cont = Stop | Again "nat option"

text \<open>
  Where a thread stands: before the access that the constructor is named after. The arguments are its
  local variables: \<open>node\<close>, \<open>head\<close> or \<open>prevHead\<close>, \<open>refs\<close> and \<open>next\<close>.
\<close>

datatype fl_pc = Idle
  | Add_Fetch nat
  | Load_Head nat cont | Store_Next nat "nat option" cont | Store_Refs nat "nat option" cont
  | Cas_Head nat "nat option" cont | Add_Failed nat "nat option" cont
  | Get_Load | Get_Refs nat | Get_Inc nat "32 word" | Get_Next nat | Get_Cas nat "nat option"
  | Get_Take nat | Get_Drop nat "nat option"

text \<open>\<open>in_use\<close> are the blocks that \<open>try_get\<close> has returned and nobody has added since.\<close>

record fl =
  fl_head :: "nat option"
  fl_refs :: "nat \<Rightarrow> 32 word"
  fl_next :: "nat \<Rightarrow> nat option"
  in_use :: "nat set"
  fl_pcs :: "fl_pc list"

fun test_head :: "nat option \<Rightarrow> fl_pc" where
  "test_head None = Idle"
| "test_head (Some n) = Get_Refs n"

fun after :: "cont \<Rightarrow> fl_pc" where
  "after Stop = Idle"
| "after (Again h) = test_head h"

definition goto :: "nat \<Rightarrow> fl_pc \<Rightarrow> fl \<Rightarrow> fl" where
  "goto t p s = s\<lparr>fl_pcs := (fl_pcs s)[t := p]\<rparr>"

definition put_refs :: "nat \<Rightarrow> 32 word \<Rightarrow> fl \<Rightarrow> fl" where
  "put_refs n r s = s\<lparr>fl_refs := (fl_refs s)(n := r)\<rparr>"

definition fl_step :: "nat \<Rightarrow> fl \<Rightarrow> fl" where
  "fl_step t s =
     (case fl_pcs s ! t of
        Idle \<Rightarrow> s
      | Add_Fetch n \<Rightarrow>
          goto t (if fl_refs s n = 0 then Load_Head n Stop else Idle)
            (put_refs n (fl_refs s n + should_be_on_list) s)
      | Load_Head n k \<Rightarrow> goto t (Store_Next n (fl_head s) k) s
      | Store_Next n h k \<Rightarrow> goto t (Store_Refs n h k) (s\<lparr>fl_next := (fl_next s)(n := h)\<rparr>)
      | Store_Refs n h k \<Rightarrow> goto t (Cas_Head n h k) (put_refs n 1 s)
      | Cas_Head n h k \<Rightarrow>
          if fl_head s = h then goto t (after k) (s\<lparr>fl_head := Some n\<rparr>)
          else goto t (Add_Failed n (fl_head s) k) s
      | Add_Failed n h k \<Rightarrow>
          goto t (if fl_refs s n = 1 then Store_Next n h k else after k)
            (put_refs n (fl_refs s n + (should_be_on_list - 1)) s)
      | Get_Load \<Rightarrow> goto t (test_head (fl_head s)) s
      | Get_Refs n \<Rightarrow> goto t (if fl_refs s n AND refs_mask = 0 then Get_Load else Get_Inc n (fl_refs s n)) s
      | Get_Inc n r \<Rightarrow>
          if fl_refs s n = r then goto t (Get_Next n) (put_refs n (r + 1) s) else goto t Get_Load s
      | Get_Next n \<Rightarrow> goto t (Get_Cas n (fl_next s n)) s
      | Get_Cas n nx \<Rightarrow>
          if fl_head s = Some n then goto t (Get_Take n) (s\<lparr>fl_head := nx\<rparr>)
          else goto t (Get_Drop n (fl_head s)) s
      | Get_Take n \<Rightarrow> goto t Idle (put_refs n (fl_refs s n - 2) s\<lparr>in_use := insert n (in_use s)\<rparr>)
      | Get_Drop n h \<Rightarrow>
          goto t (if fl_refs s n = should_be_on_list + 1 then Load_Head n (Again h) else test_head h)
            (put_refs n (fl_refs s n - 1) s))"

text \<open>A thread that is in neither operation may start one; it adds only a block that is in use.\<close>

inductive fl_move :: "fl \<Rightarrow> fl \<Rightarrow> bool" where
  step: "t < length (fl_pcs s) \<Longrightarrow> fl_move s (fl_step t s)"
| begin_add: "t < length (fl_pcs s) \<Longrightarrow> fl_pcs s ! t = Idle \<Longrightarrow> n \<in> in_use s \<Longrightarrow>
     fl_move s (goto t (Add_Fetch n) (s\<lparr>in_use := in_use s - {n}\<rparr>))"
| begin_get: "t < length (fl_pcs s) \<Longrightarrow> fl_pcs s ! t = Idle \<Longrightarrow> fl_move s (goto t Get_Load s)"

inductive fl_reach :: "fl \<Rightarrow> fl \<Rightarrow> bool" for s where
  refl: "fl_reach s s"
| more: "fl_reach s u \<Longrightarrow> fl_move u v \<Longrightarrow> fl_reach s v"

inductive_cases fl_moveE: "fl_move s s'"

text \<open>No thread at work, an empty list, and some blocks in use.\<close>

definition fl_start :: "nat \<Rightarrow> nat set \<Rightarrow> fl" where
  "fl_start threads us = \<lparr>fl_head = None, fl_refs = (\<lambda>_. 0), fl_next = (\<lambda>_. None), in_use = us,
     fl_pcs = replicate threads Idle\<rparr>"

section \<open>The invariant\<close>

text \<open>
  Which thread has a block in hand: without a reference (\<open>plain\<close>), with the list's reference
  (\<open>carries\<close>), or as the only one that may touch it (\<open>links\<close>); and which holds a reference of its own.
\<close>

fun plain :: "nat \<Rightarrow> fl_pc \<Rightarrow> bool" where
  "plain n (Add_Fetch m) \<longleftrightarrow> m = n"
| "plain n _ \<longleftrightarrow> False"

fun links :: "nat \<Rightarrow> fl_pc \<Rightarrow> bool" where
  "links n (Load_Head m k) \<longleftrightarrow> m = n"
| "links n (Store_Next m h k) \<longleftrightarrow> m = n"
| "links n (Store_Refs m h k) \<longleftrightarrow> m = n"
| "links n _ \<longleftrightarrow> False"

fun carries :: "nat \<Rightarrow> fl_pc \<Rightarrow> bool" where
  "carries n (Cas_Head m h k) \<longleftrightarrow> m = n"
| "carries n (Add_Failed m h k) \<longleftrightarrow> m = n"
| "carries n (Get_Take m) \<longleftrightarrow> m = n"
| "carries n _ \<longleftrightarrow> False"

fun refers :: "nat \<Rightarrow> fl_pc \<Rightarrow> bool" where
  "refers n (Get_Next m) \<longleftrightarrow> m = n"
| "refers n (Get_Cas m nx) \<longleftrightarrow> m = n"
| "refers n (Get_Take m) \<longleftrightarrow> m = n"
| "refers n (Get_Drop m h) \<longleftrightarrow> m = n"
| "refers n _ \<longleftrightarrow> False"

definition tally :: "(fl_pc \<Rightarrow> bool) \<Rightarrow> fl \<Rightarrow> nat" where
  "tally P s = length (filter P (fl_pcs s))"

text \<open>What a thread knows by its position.\<close>

fun pc_ok :: "(nat \<Rightarrow> nat option) \<Rightarrow> fl_pc \<Rightarrow> bool" where
  "pc_ok nx (Store_Refs m h k) \<longleftrightarrow> nx m = h"
| "pc_ok nx (Cas_Head m h k) \<longleftrightarrow> nx m = h"
| "pc_ok nx (Get_Cas m h) \<longleftrightarrow> nx m = h"
| "pc_ok nx (Get_Inc m r) \<longleftrightarrow> r AND refs_mask \<noteq> 0"
| "pc_ok nx _ \<longleftrightarrow> True"

fun linked_from :: "(nat \<Rightarrow> nat option) \<Rightarrow> nat option \<Rightarrow> nat list \<Rightarrow> bool" where
  "linked_from nx h [] \<longleftrightarrow> h = None"
| "linked_from nx h (n # ns) \<longleftrightarrow> h = Some n \<and> linked_from nx (nx n) ns"

text \<open>
  A block of \<open>us\<close> is in exactly one place, in use, on the list, or in the hands of a thread; or it is
  marked to be put on the list by the last thread that drops its reference.
\<close>

definition node_ok :: "nat set \<Rightarrow> nat \<Rightarrow> nat \<Rightarrow> bool \<Rightarrow> bool \<Rightarrow> nat \<Rightarrow> nat \<Rightarrow> nat \<Rightarrow> nat \<Rightarrow> bool" where
  "node_ok us n refs used listed p l c r \<longleftrightarrow>
     n \<notin> us \<and> \<not> used \<and> \<not> listed \<and> p = 0 \<and> l = 0 \<and> c = 0 \<and> r = 0 \<and> refs = 0
   \<or> n \<in> us \<and> used \<and> \<not> listed \<and> p = 0 \<and> l = 0 \<and> c = 0 \<and> refs = r
   \<or> n \<in> us \<and> \<not> used \<and> listed \<and> p = 0 \<and> l = 0 \<and> c = 0 \<and> refs = r + 1
   \<or> n \<in> us \<and> \<not> used \<and> \<not> listed \<and> p = 1 \<and> l = 0 \<and> c = 0 \<and> refs = r
   \<or> n \<in> us \<and> \<not> used \<and> \<not> listed \<and> p = 0 \<and> l = 1 \<and> c = 0 \<and> r = 0 \<and> refs = 2 ^ 31
   \<or> n \<in> us \<and> \<not> used \<and> \<not> listed \<and> p = 0 \<and> l = 0 \<and> c = 1 \<and> refs = r + 1
   \<or> n \<in> us \<and> \<not> used \<and> \<not> listed \<and> p = 0 \<and> l = 0 \<and> c = 0 \<and> 0 < r \<and> refs = 2 ^ 31 + r"

definition fl_inv :: "nat set \<Rightarrow> nat list \<Rightarrow> fl \<Rightarrow> bool" where
  "fl_inv us L s \<longleftrightarrow> length (fl_pcs s) < 2 ^ 30 \<and> distinct L \<and> linked_from (fl_next s) (fl_head s) L
     \<and> (\<forall>p \<in> set (fl_pcs s). pc_ok (fl_next s) p)
     \<and> (\<forall>n. node_ok us n (unat (fl_refs s n)) (n \<in> in_use s) (n \<in> set L)
           (tally (plain n) s) (tally (links n) s) (tally (carries n) s) (tally (refers n) s))"

lemma fl_start_inv:
  assumes "threads < 2 ^ 30"
  shows "fl_inv us [] (fl_start threads us)"
  using assms by (auto simp: fl_inv_def fl_start_def tally_def node_ok_def)

subsection \<open>Every access keeps it\<close>

definition touches :: "nat \<Rightarrow> fl_pc \<Rightarrow> bool" where
  "touches n p \<longleftrightarrow> plain n p \<or> links n p \<or> carries n p \<or> refers n p"

lemma test_head_idle [simp]:
  "\<not> plain n (test_head h)" "\<not> links n (test_head h)" "\<not> carries n (test_head h)" "\<not> refers n (test_head h)"
  "pc_ok nx (test_head h)"
  by (cases h; simp)+

lemma after_idle [simp]:
  "\<not> plain n (after k)" "\<not> links n (after k)" "\<not> carries n (after k)" "\<not> refers n (after k)"
  "pc_ok nx (after k)"
  by (cases k; simp)+

lemma not_touched:
  assumes "\<not> touches n p"
  shows "\<not> plain n p" "\<not> links n p" "\<not> carries n p" "\<not> refers n p"
  using assms by (auto simp: touches_def)

lemma goto_simps [simp]:
  "fl_head (goto t p s) = fl_head s" "fl_refs (goto t p s) = fl_refs s" "fl_next (goto t p s) = fl_next s"
  "in_use (goto t p s) = in_use s" "fl_pcs (goto t p s) = (fl_pcs s)[t := p]"
  by (simp_all add: goto_def)

lemma put_refs_simps [simp]:
  "fl_head (put_refs n r s) = fl_head s" "fl_refs (put_refs n r s) = (fl_refs s)(n := r)"
  "fl_next (put_refs n r s) = fl_next s" "in_use (put_refs n r s) = in_use s" "fl_pcs (put_refs n r s) = fl_pcs s"
  by (simp_all add: put_refs_def)

lemma tally_moves:
  assumes "t < length (fl_pcs s)" "fl_pcs s' = (fl_pcs s)[t := p]"
  shows "tally P s' + of_bool (P (fl_pcs s ! t)) = tally P s + of_bool (P p)"
  using length_filter_update [OF assms(1), of P p] assms(2) by (simp add: tally_def)

lemma tally_two:
  assumes "j < length (fl_pcs s)" "t < length (fl_pcs s)" "j \<noteq> t" "P (fl_pcs s ! j)" "P (fl_pcs s ! t)"
  shows "2 \<le> tally P s"
proof -
  have "card {j, t} \<le> card {i. i < length (fl_pcs s) \<and> P (fl_pcs s ! i)}"
    by (rule card_mono) (use assms in auto)
  then show ?thesis using assms(3) by (simp add: tally_def length_filter_conv_card)
qed

lemma tally_pos: "t < length (fl_pcs s) \<Longrightarrow> P (fl_pcs s ! t) \<Longrightarrow> 0 < tally P s"
  using nth_mem by (auto simp: tally_def filter_empty_conv)

lemma tally_le: "tally P s \<le> length (fl_pcs s)"
  by (simp add: tally_def)

lemma linked_from_other [simp]: "n \<notin> set L \<Longrightarrow> linked_from (nx(n := x)) h L = linked_from nx h L"
  by (induction L arbitrary: h) auto

text \<open>A step of thread \<open>t\<close> that touches at most the block \<open>m\<close>.\<close>

lemma fl_invI:
  assumes inv: "fl_inv us L s" and t: "t < length (fl_pcs s)"
    and pcs: "fl_pcs s' = (fl_pcs s)[t := p]"
    and others: "\<And>n. n \<noteq> m \<Longrightarrow> fl_refs s' n = fl_refs s n \<and> (n \<in> in_use s' \<longleftrightarrow> n \<in> in_use s) \<and>
                  (n \<in> set L' \<longleftrightarrow> n \<in> set L) \<and> \<not> touches n (fl_pcs s ! t) \<and> \<not> touches n p"
    and linked: "distinct L'" "linked_from (fl_next s') (fl_head s') L'"
    and known: "pc_ok (fl_next s') p"
      "\<And>j. j < length (fl_pcs s) \<Longrightarrow> j \<noteq> t \<Longrightarrow> pc_ok (fl_next s) (fl_pcs s ! j) \<Longrightarrow> pc_ok (fl_next s') (fl_pcs s ! j)"
    and it: "node_ok us m (unat (fl_refs s' m)) (m \<in> in_use s') (m \<in> set L')
        (tally (plain m) s + of_bool (plain m p) - of_bool (plain m (fl_pcs s ! t)))
        (tally (links m) s + of_bool (links m p) - of_bool (links m (fl_pcs s ! t)))
        (tally (carries m) s + of_bool (carries m p) - of_bool (carries m (fl_pcs s ! t)))
        (tally (refers m) s + of_bool (refers m p) - of_bool (refers m (fl_pcs s ! t)))"
  shows "fl_inv us L' s'"
proof -
  have moves: "tally P s' = tally P s + of_bool (P p) - of_bool (P (fl_pcs s ! t))" for P
    using tally_moves [OF t pcs, of P] by linarith
  have "node_ok us n (unat (fl_refs s' n)) (n \<in> in_use s') (n \<in> set L') (tally (plain n) s') (tally (links n) s')
          (tally (carries n) s') (tally (refers n) s')" for n
  proof (cases "n = m")
    case True
    show ?thesis using it unfolding True moves .
  next
    case False
    note o = others [OF this]
    have "tally (plain n) s' = tally (plain n) s" "tally (links n) s' = tally (links n) s"
      "tally (carries n) s' = tally (carries n) s" "tally (refers n) s' = tally (refers n) s"
      using o not_touched moves [of "plain n"] moves [of "links n"] moves [of "carries n"] moves [of "refers n"] by simp_all
    then show ?thesis using inv o by (simp add: fl_inv_def)
  qed
  moreover have "pc_ok (fl_next s') q" if q: "q \<in> set (fl_pcs s')" for q
  proof -
    obtain j where j: "j < length (fl_pcs s)" "q = (fl_pcs s)[t := p] ! j"
      using q pcs by (auto simp: in_set_conv_nth)
    show ?thesis
    proof (cases "j = t")
      case True
      then show ?thesis using j known(1) by simp
    next
      case False
      then have q': "q = fl_pcs s ! j" using j by simp
      then show ?thesis using known(2) [OF j(1) False] j(1) inv by (simp add: fl_inv_def)
    qed
  qed
  ultimately show ?thesis using inv linked pcs by (simp add: fl_inv_def)
qed

lemma unat_mark:
  assumes "unat r < 2 ^ 31"
  shows "unat (r + should_be_on_list) = unat r + 2147483648"
    "0 < unat r \<Longrightarrow> unat (r + (should_be_on_list - 1)) = unat r + 2147483647"
  using assms by (simp_all add: should_be_on_list_def unat_word_ariths)

lemma unat_sub1: "0 < unat (r :: 32 word) \<Longrightarrow> unat (r - 1) = unat r - 1"
  by (simp add: unat_sub word_le_nat_alt)

lemma unat_sub2: "1 < unat (r :: 32 word) \<Longrightarrow> unat (r - 2) = unat r - 2"
  by (simp add: unat_sub word_le_nat_alt)

lemma unat_add1: "unat (r :: 32 word) \<le> 3221225472 \<Longrightarrow> unat (r + 1) = unat r + 1"
  by (simp add: unat_word_ariths)

lemma counted_refs:
  assumes "r AND refs_mask \<noteq> 0"
  shows "unat r \<noteq> 0" "unat r \<noteq> 2147483648"
proof -
  show "unat r \<noteq> 0" using assms by (auto simp: refs_mask_def unsigned_eq_0_iff)
  show "unat r \<noteq> 2147483648"
  proof
    assume "unat r = 2147483648"
    then have "r = 0x80000000" by (simp add: word_unat_eq_iff)
    then show False using assms by (simp add: refs_mask_def)
  qed
qed

lemma refs_is: "fl_refs s n = 0 \<longleftrightarrow> unat (fl_refs s n) = 0" "fl_refs s n = 1 \<longleftrightarrow> unat (fl_refs s n) = 1"
  "fl_refs s n = should_be_on_list + 1 \<longleftrightarrow> unat (fl_refs s n) = 2147483649"
  by (simp_all add: should_be_on_list_def word_unat_eq_iff)

text \<open>What each step does to the count of references of the block it touches.\<close>

lemma node_steps:
  assumes ok: "node_ok us n R u li p l c r"
  shows node_fetch: "0 < p \<Longrightarrow> node_ok us n (R + 2147483648) u li (p - Suc 0) (if R = 0 then Suc l else l) c r"
    and node_store: "0 < l \<Longrightarrow> node_ok us n 1 u li p (l - Suc 0) (Suc c) r"
    and node_linked: "0 < c \<Longrightarrow> node_ok us n R u True p l (c - Suc 0) r"
    and node_failed: "0 < c \<Longrightarrow> node_ok us n (R + 2147483647) u li p (if R = 1 then Suc l else l) (c - Suc 0) r"
    and node_inc: "R \<noteq> 0 \<Longrightarrow> R \<noteq> 2147483648 \<Longrightarrow> node_ok us n (Suc R) u li p l c (Suc r)"
    and node_unlinked: "li \<Longrightarrow> node_ok us n R u False p l (Suc c) r"
    and node_take: "0 < c \<Longrightarrow> 0 < r \<Longrightarrow> node_ok us n (R - 2) True li p l (c - Suc 0) (r - Suc 0)"
    and node_drop: "0 < r \<Longrightarrow> r < 1073741824 \<Longrightarrow>
      node_ok us n (R - Suc 0) u li p (if R = 2147483649 then Suc l else l) c (r - Suc 0)"
    and node_lend: "u \<Longrightarrow> node_ok us n R False li (Suc p) l c r"
  using ok unfolding node_ok_def by (elim disjE; simp)+

lemma node_bounds:
  assumes ok: "node_ok us n R u li p l c r" and r: "r < 1073741824"
  shows "0 < p \<Longrightarrow> R < 1073741824" "0 < c \<Longrightarrow> 0 < R" "0 < c \<Longrightarrow> R \<le> 1073741824"
    "0 < c \<Longrightarrow> 0 < r \<Longrightarrow> 1 < R" "0 < r \<Longrightarrow> 0 < R" "R \<le> 3221225472"
  using ok r unfolding node_ok_def by (elim disjE; simp)+

lemmas step_defs = fl_step_def touches_def refs_is

lemma fl_step_inv:
  assumes inv: "fl_inv us L s" and t: "t < length (fl_pcs s)"
  shows "\<exists>L'. fl_inv us L' (fl_step t s)"
proof -
  have N: "node_ok us m (unat (fl_refs s m)) (m \<in> in_use s) (m \<in> set L)
      (tally (plain m) s) (tally (links m) s) (tally (carries m) s) (tally (refers m) s)" for m
    using inv by (simp add: fl_inv_def)
  have B: "tally (refers m) s < 1073741824" for m
    using inv tally_le [of "refers m" s] by (simp add: fl_inv_def)
  have D: "distinct L" "linked_from (fl_next s) (fl_head s) L" using inv by (simp_all add: fl_inv_def)
  have ok: "pc_ok (fl_next s) (fl_pcs s ! t)" using inv t by (simp add: fl_inv_def)
  note rule = fl_invI [OF inv t]
  note pos = tally_pos [OF t]
  show ?thesis
  proof (cases "fl_pcs s ! t")
    case Idle
    then show ?thesis using inv by (auto simp: fl_step_def)
  next
    case (Add_Fetch m)
    show ?thesis
      by (rule exI [of _ L], rule rule [where m = m and p = "if fl_refs s m = 0 then Load_Head m Stop else Idle"])
        (use Add_Fetch N [of m] B [of m] D ok pos [of "plain m"] node_bounds(1) [OF N B, of m] unat_mark(1) [of "fl_refs s m"] node_fetch [OF N, of m] in \<open>simp_all add: step_defs split: if_splits\<close>)
  next
    case (Load_Head m k)
    show ?thesis
      by (rule exI [of _ L], rule rule [where m = m and p = "Store_Next m (fl_head s) k"])
        (use Load_Head N [of m] B [of m] D ok pos [of "links m"] in \<open>simp_all add: step_defs \<close>)
  next
    case (Get_Next m)
    show ?thesis
      by (rule exI [of _ L], rule rule [where m = m and p = "Get_Cas m (fl_next s m)"])
        (use Get_Next N [of m] B [of m] D ok pos [of "refers m"] in \<open>simp_all add: step_defs \<close>)
  next
    case (Store_Refs m h k)
    show ?thesis
      by (rule exI [of _ L], rule rule [where m = m and p = "Cas_Head m h k"])
        (use Store_Refs N [of m] B [of m] D ok pos [of "links m"] node_store [OF N, of m] in \<open>simp_all add: step_defs \<close>)
  next
    case (Get_Take m)
    show ?thesis
      by (rule exI [of _ L], rule rule [where m = m and p = "Idle"])
        (use Get_Take N [of m] B [of m] D ok pos [of "carries m"] pos [of "refers m"] node_take [OF N, of m] node_bounds(4) [OF N B, of m] unat_sub2 [of "fl_refs s m"] in \<open>simp_all add: step_defs \<close>)
  next
    case (Get_Drop m h)
    show ?thesis
      by (rule exI [of _ L], rule rule [where m = m and p = "if fl_refs s m = should_be_on_list + 1 then Load_Head m (Again h) else test_head h"])
        (use Get_Drop N [of m] B [of m] D ok pos [of "refers m"] node_drop [OF N, of m] node_bounds(5) [OF N B, of m] unat_sub1 [of "fl_refs s m"] in \<open>simp_all add: step_defs split: if_splits\<close>)
  next
    case (Add_Failed m h k)
    show ?thesis
      by (rule exI [of _ L], rule rule [where m = m and p = "if fl_refs s m = 1 then Store_Next m h k else after k"])
        (use Add_Failed N [of m] B [of m] D ok pos [of "carries m"] node_failed [OF N, of m] node_bounds(2,3) [OF N B, of m] unat_mark(2) [of "fl_refs s m"] in \<open>simp_all add: step_defs split: if_splits\<close>)
  next
    case Get_Load
    show ?thesis
      by (rule exI [of _ L], rule rule [where m = 0 and p = "test_head (fl_head s)"])
        (use Get_Load N [of 0] D in \<open>simp_all add: fl_step_def touches_def\<close>)
  next
    case (Get_Refs m)
    show ?thesis
      by (rule exI [of _ L], rule rule [where m = m and p = "if fl_refs s m AND refs_mask = 0 then Get_Load else Get_Inc m (fl_refs s m)"])
        (use Get_Refs N [of m] D in \<open>simp_all add: fl_step_def touches_def\<close>)
  next
    case (Get_Inc m r)
    have r: "unat (fl_refs s m) \<noteq> 0" "unat (fl_refs s m) \<noteq> 2147483648" if "fl_refs s m = r"
      using ok Get_Inc that counted_refs [of r] by simp_all
    show ?thesis
      by (rule exI [of _ L], rule rule [where m = m and p = "if fl_refs s m = r then Get_Next m else Get_Load"])
        (use Get_Inc N [of m] D ok r node_inc [OF N, of m] node_bounds(6) [OF N B, of m] unat_add1 [of "fl_refs s m"] in
          \<open>auto simp: fl_step_def touches_def split: if_splits\<close>)
  next
    case (Store_Next m h k)
    have l: "0 < tally (links m) s" using pos [of "links m"] Store_Next by simp
    then have m: "m \<notin> set L" "tally (links m) s = 1" "tally (carries m) s = 0" "tally (refers m) s = 0"
      using N [of m] by (simp_all add: node_ok_def)
    have others: "pc_ok ((fl_next s)(m := h)) q"
      if q: "j < length (fl_pcs s)" "j \<noteq> t" "pc_ok (fl_next s) q" "q = fl_pcs s ! j" for j q
    proof -
      have "\<not> links m q" using tally_two [OF q(1) t q(2), of "links m"] q(4) m(2) Store_Next by auto
      moreover have "\<not> carries m q" "\<not> refers m q"
        using tally_pos [OF q(1), of "carries m"] tally_pos [OF q(1), of "refers m"] q(4) m(3,4) by auto
      ultimately show ?thesis using q(3) by (cases q) auto
    qed
    show ?thesis
      by (rule exI [of _ L], rule rule [where m = m and p = "Store_Refs m h k"])
        (use Store_Next N [of m] D ok m l others in \<open>simp_all add: fl_step_def touches_def\<close>)
  next
    case (Cas_Head m h k)
    have c: "0 < tally (carries m) s" using pos [of "carries m"] Cas_Head by simp
    then have m: "m \<notin> set L" using N [of m] by (simp add: node_ok_def)
    show ?thesis
    proof (cases "fl_head s = h")
      case True
      show ?thesis
        by (rule exI [of _ "m # L"], rule rule [where m = m and p = "after k"])
          (use Cas_Head True c m N [of m] D ok node_linked [OF N, of m] in
            \<open>simp_all add: fl_step_def touches_def\<close>)
    next
      case False
      show ?thesis
        by (rule exI [of _ L], rule rule [where m = m and p = "Add_Failed m (fl_head s) k"])
          (use Cas_Head False c m N [of m] D ok in \<open>simp_all add: fl_step_def touches_def\<close>)
    qed
  next
    case (Get_Cas m nx)
    have c: "0 < tally (refers m) s" using pos [of "refers m"] Get_Cas by simp
    show ?thesis
    proof (cases "fl_head s = Some m")
      case True
      then obtain L' where L: "L = m # L'" using D(2) by (cases L) auto
      have m: "m \<in> set L" "m \<notin> set L'" using D(1) L by simp_all
      show ?thesis
        by (rule exI [of _ L'], rule rule [where m = m and p = "Get_Take m"])
          (use Get_Cas True c m L N [of m] D ok node_unlinked [OF N, of m] in
            \<open>simp_all add: fl_step_def touches_def\<close>)
    next
      case False
      show ?thesis
        by (rule exI [of _ L], rule rule [where m = m and p = "Get_Drop m (fl_head s)"])
          (use Get_Cas False c N [of m] D ok in \<open>simp_all add: fl_step_def touches_def\<close>)
    qed
  qed
qed

lemma fl_move_inv:
  assumes "fl_move s s'" "fl_inv us L s"
  shows "\<exists>L'. fl_inv us L' s'"
  using assms(1)
proof cases
  case (step t)
  then show ?thesis using fl_step_inv [OF assms(2)] by simp
next
  case (begin_add t n)
  have N: "node_ok us n (unat (fl_refs s n)) (n \<in> in_use s) (n \<in> set L)
      (tally (plain n) s) (tally (links n) s) (tally (carries n) s) (tally (refers n) s)"
    "distinct L" "linked_from (fl_next s) (fl_head s) L"
    using assms(2) by (simp_all add: fl_inv_def)
  show ?thesis
    by (rule exI [of _ L], rule fl_invI [OF assms(2) begin_add(2), where m = n and p = "Add_Fetch n"])
      (use begin_add N node_lend [OF N(1)] in \<open>simp_all add: touches_def\<close>)
next
  case (begin_get t)
  have N: "node_ok us n (unat (fl_refs s n)) (n \<in> in_use s) (n \<in> set L)
      (tally (plain n) s) (tally (links n) s) (tally (carries n) s) (tally (refers n) s)" for n
    using assms(2) by (simp add: fl_inv_def)
  have D: "distinct L" "linked_from (fl_next s) (fl_head s) L"
    using assms(2) by (simp_all add: fl_inv_def)
  show ?thesis
    by (rule exI [of _ L], rule fl_invI [OF assms(2) begin_get(2), where m = 0 and p = Get_Load])
      (use begin_get D N [of 0] in \<open>simp_all add: touches_def\<close>)
qed

lemma fl_reach_inv:
  assumes "fl_reach (fl_start threads us) s" "threads < 2 ^ 30"
  obtains L where "fl_inv us L s"
proof -
  have "\<exists>L. fl_inv us L s"
    using assms(1) by induction (use fl_start_inv [OF assms(2)] fl_move_inv in blast)+
  then show thesis using that by blast
qed

section \<open>What the list promises\<close>

text \<open>Which threads may hold the block, besides those with a mere reference.\<close>

definition owners :: "nat \<Rightarrow> fl \<Rightarrow> nat" where
  "owners n s = tally (plain n) s + tally (links n) s + tally (carries n) s"

lemma fl_inv_places:
  assumes "fl_inv us L s"
  shows "in_use s \<subseteq> us" "set L \<subseteq> us - in_use s"
    "n \<in> us \<Longrightarrow> n \<in> in_use s \<or> n \<in> set L \<or> 0 < owners n s \<or> 0 < tally (refers n) s"
    "owners n s \<le> (if n \<in> in_use s \<or> n \<in> set L then 0 else 1)"
proof -
  have N: "node_ok us n (unat (fl_refs s n)) (n \<in> in_use s) (n \<in> set L)
      (tally (plain n) s) (tally (links n) s) (tally (carries n) s) (tally (refers n) s)" for n
    using assms by (simp add: fl_inv_def)
  show "in_use s \<subseteq> us" using N by (auto simp: node_ok_def)
  show "set L \<subseteq> us - in_use s" using N by (fastforce simp: node_ok_def)
  show "n \<in> in_use s \<or> n \<in> set L \<or> 0 < owners n s \<or> 0 < tally (refers n) s" if "n \<in> us"
    using N [of n] that unfolding node_ok_def owners_def by (elim disjE) simp_all
  show "owners n s \<le> (if n \<in> in_use s \<or> n \<in> set L then 0 else 1)"
    using N [of n] unfolding node_ok_def owners_def by (elim disjE) simp_all
qed

text \<open>C7: In every state that any interleaving of the threads reaches, the list is a chain without
  repetition of blocks that are not in use, no block is lost (each one is in use, on the list, or
  known to a thread), at most one thread owns a block (so no block is given to two callers of
  \<open>try_get\<close>), and once no thread is at work the list holds exactly the blocks that are not in use.
\<close>

theorem free_list_safe:
  assumes "threads < 2 ^ 30" "fl_reach (fl_start threads us) s"
  shows "\<exists>L. linked_from (fl_next s) (fl_head s) L \<and> distinct L \<and> set L \<subseteq> us - in_use s \<and>
    (\<forall>n \<in> us. n \<in> in_use s \<or> n \<in> set L \<or> (\<exists>p \<in> set (fl_pcs s). touches n p)) \<and>
    (\<forall>n. owners n s \<le> (if n \<in> in_use s \<or> n \<in> set L then 0 else 1)) \<and>
    (set (fl_pcs s) \<subseteq> {Idle} \<longrightarrow> set L = us - in_use s)"
proof -
  obtain L where inv: "fl_inv us L s" using fl_reach_inv [OF assms(2,1)] .
  note P = fl_inv_places [OF inv]
  have known: "n \<in> in_use s \<or> n \<in> set L \<or> (\<exists>p \<in> set (fl_pcs s). touches n p)" if "n \<in> us" for n
    using P(3) [OF that] by (auto simp: owners_def tally_def filter_empty_conv touches_def)
  moreover have "set L = us - in_use s" if "set (fl_pcs s) \<subseteq> {Idle}"
    using known that P(2) by (fastforce simp: touches_def)
  ultimately show ?thesis
    using P(2,4) inv unfolding fl_inv_def by (intro exI [of _ L] conjI ballI allI impI) auto
qed

text \<open>Two threads: the first has put block 7 back, the second is about to take it.\<close>

definition example_added :: fl where
  "example_added = \<lparr>fl_head = Some 7, fl_refs = (\<lambda>_. 0)(7 := 1), fl_next = (\<lambda>_. None)(7 := None), in_use = {},
     fl_pcs = [Idle, Idle]\<rparr>"

definition example_run :: fl where
  "example_run = (fl_step 1 ^^ 5) (goto 1 Get_Load example_added)"

lemma fl_step_length [simp]: "length (fl_pcs (fl_step t s)) = length (fl_pcs s)"
  by (cases "fl_pcs s ! t") (simp_all add: fl_step_def)

lemma fl_reach_step:
  assumes "fl_reach s0 s" "t < length (fl_pcs s)"
  shows "fl_reach s0 (fl_step t s)"
  using assms fl_reach.more fl_move.step by metis

lemma fl_reach_steps:
  assumes "fl_reach s0 s" "t < length (fl_pcs s)"
  shows "fl_reach s0 ((fl_step t ^^ k) s) \<and> length (fl_pcs ((fl_step t ^^ k) s)) = length (fl_pcs s)"
proof (induction k)
  case (Suc k)
  then show ?case using fl_reach_step [of s0 "(fl_step t ^^ k) s" t] assms(2) by simp
qed (use assms in simp)

lemma five_steps: "(f ^^ 5) x = f (f (f (f (f x))))"
  by (simp add: eval_nat_numeral)

lemma example_added_reached: "fl_reach (fl_start 2 {7}) example_added"
proof -
  let ?s1 = "goto 0 (Add_Fetch 7) ((fl_start 2 {7})\<lparr>in_use := {}\<rparr>)"
  have "fl_move (fl_start 2 {7}) ?s1"
    using fl_move.begin_add [of 0 "fl_start 2 {7}" 7] by (simp add: fl_start_def)
  then have "fl_reach (fl_start 2 {7}) ?s1" using fl_reach.refl fl_reach.more by metis
  then have "fl_reach (fl_start 2 {7}) ((fl_step 0 ^^ 5) ?s1)"
    using fl_reach_steps [of _ ?s1 0 5] by (simp add: fl_start_def)
  moreover have "(fl_step 0 ^^ 5) ?s1 = example_added"
    by (simp add: five_steps fl_step_def fl_start_def goto_def put_refs_def numeral_2_eq_2 example_added_def)
  ultimately show ?thesis by (simp only:)
qed

lemma example_run_reached: "fl_reach (fl_start 2 {7}) example_run"
proof -
  have "fl_move example_added (goto 1 Get_Load example_added)"
    by (rule fl_move.begin_get) (simp_all add: example_added_def)
  then have "fl_reach (fl_start 2 {7}) (goto 1 Get_Load example_added)"
    using example_added_reached fl_reach.more by metis
  then show ?thesis
    unfolding example_run_def by (rule fl_reach_steps [THEN conjunct1]) (simp add: example_added_def)
qed

lemma one_and_mask: "(1 :: 32 word) AND refs_mask = 1"
  by (simp add: refs_mask_def)

lemma example_run_pcs: "fl_pcs example_run = [Idle, Get_Take 7]"
  by (simp add: example_run_def example_added_def five_steps fl_step_def goto_def put_refs_def one_and_mask)

theorem free_list_safe_witness:
  "fl_pcs example_run = [Idle, Get_Take 7] \<and> owners 7 example_run \<le> 1"
proof
  have "(2 :: nat) < 2 ^ 30" by simp
  then show "owners 7 example_run \<le> 1"
    using free_list_safe [of 2, OF _ example_run_reached] by (force split: if_splits)
qed (rule example_run_pcs)

lemma low_word_and:
  assumes "unat (r :: 32 word) < 2 ^ 31"
  shows "r AND refs_mask = r" "r AND should_be_on_list = 0"
proof -
  have m: "refs_mask = mask 31" by (simp add: refs_mask_def mask_eq_exp_minus_1)
  have "take_bit 31 r = r" using assms by (simp add: word_unat_eq_iff unsigned_take_bit_eq take_bit_nat_eq_self)
  then show r: "r AND refs_mask = r" by (simp add: m take_bit_eq_mask)
  have "refs_mask AND should_be_on_list = 0" by (simp add: refs_mask_def should_be_on_list_def)
  then show "r AND should_be_on_list = 0" using r by (metis and.assoc and_zero_eq)
qed

lemma fl_reach_threads: "fl_reach s0 s \<Longrightarrow> length (fl_pcs s) = length (fl_pcs s0)"
proof (induction rule: fl_reach.induct)
  case (more u v)
  then show ?case by (auto elim!: fl_moveE)
qed simp

text \<open>What the comments and the assertion of the code rely on: whenever a thread is about to set the
  mark of a block in \<open>add\<close> the mark is not set, and a block just taken from the list does not carry
  it; the count of references is far from wrapping around.
\<close>

theorem free_list_assertions:
  assumes "threads < 2 ^ 30" "fl_reach (fl_start threads us) s" "t < threads"
    "fl_pcs s ! t = Add_Fetch n \<or> fl_pcs s ! t = Get_Take n"
  shows "fl_refs s n AND should_be_on_list = 0 \<and> unat (fl_refs s n) \<le> 2 ^ 30"
proof -
  obtain L where inv: "fl_inv us L s" using fl_reach_inv [OF assms(2,1)] .
  have t: "t < length (fl_pcs s)" using fl_reach_threads [OF assms(2)] assms(3) by (simp add: fl_start_def)
  have N: "node_ok us n (unat (fl_refs s n)) (n \<in> in_use s) (n \<in> set L)
      (tally (plain n) s) (tally (links n) s) (tally (carries n) s) (tally (refers n) s)"
    using inv by (simp add: fl_inv_def)
  have B: "tally (refers n) s < 1073741824" using inv tally_le [of "refers n" s] by (simp add: fl_inv_def)
  have "0 < tally (plain n) s \<or> 0 < tally (carries n) s"
    using assms(4) tally_pos [OF t, of "plain n"] tally_pos [OF t, of "carries n"] by auto
  then have "unat (fl_refs s n) \<le> 1073741824" using node_bounds(1,3) [OF N B] by auto
  then show ?thesis using low_word_and(2) [of "fl_refs s n"] by simp
qed

theorem free_list_assertions_witness:
  "fl_refs example_run 7 AND should_be_on_list = 0 \<and> unat (fl_refs example_run 7) \<le> 2 ^ 30"
  by (rule free_list_assertions [OF _ example_run_reached, of 1]) (simp_all add: example_run_pcs)

section \<open>A thread left alone finishes\<close>

text \<open>How many of its own accesses a thread has at most still to make when no other thread moves.\<close>

definition fl_rank :: "fl \<Rightarrow> fl_pc \<Rightarrow> nat" where
  "fl_rank s p =
     (case p of Idle \<Rightarrow> 0 | Add_Fetch m \<Rightarrow> 18 | Load_Head m k \<Rightarrow> 17
      | Store_Next m h k \<Rightarrow> (if h = fl_head s then 16 else 20)
      | Store_Refs m h k \<Rightarrow> (if h = fl_head s then 15 else 19)
      | Cas_Head m h k \<Rightarrow> (if h = fl_head s then 14 else 18)
      | Add_Failed m h k \<Rightarrow> (if h = fl_head s then 17 else 21)
      | Get_Load \<Rightarrow> 6 | Get_Refs m \<Rightarrow> (if fl_head s = Some m then 5 else 11)
      | Get_Inc m r \<Rightarrow> (if fl_head s = Some m \<and> fl_refs s m = r then 4 else 10)
      | Get_Next m \<Rightarrow> (if fl_head s = Some m then 3 else if fl_refs s m = should_be_on_list + 1 then 20 else 9)
      | Get_Cas m nx \<Rightarrow> (if fl_head s = Some m then 2 else if fl_refs s m = should_be_on_list + 1 then 19 else 8)
      | Get_Take m \<Rightarrow> 1
      | Get_Drop m h \<Rightarrow> (if fl_refs s m = should_be_on_list + 1 then 18 else if h = fl_head s then 7 else 12))"

lemma fl_rank_le: "fl_rank s p \<le> 21"
  by (cases p) (simp_all add: fl_rank_def)

lemma fl_rank_test_head:
  "fl_rank s (test_head h) \<le> 11" "fl_head s = h \<Longrightarrow> fl_rank s (test_head h) \<le> 5" "fl_rank s (after k) \<le> 11"
proof -
  show h: "fl_rank s (test_head h) \<le> 11" for h by (cases h) (simp_all add: fl_rank_def)
  show "fl_head s = h \<Longrightarrow> fl_rank s (test_head h) \<le> 5" by (cases h) (simp_all add: fl_rank_def)
  show "fl_rank s (after k) \<le> 11" using h by (cases k) (simp_all add: fl_rank_def)
qed

lemma listed_counted:
  assumes "fl_inv us L s" "fl_head s = Some m"
  shows "fl_refs s m AND refs_mask \<noteq> 0"
proof -
  have "m \<in> set L" using assms by (cases L) (auto simp: fl_inv_def)
  moreover have "node_ok us m (unat (fl_refs s m)) (m \<in> in_use s) (m \<in> set L)
      (tally (plain m) s) (tally (links m) s) (tally (carries m) s) (tally (refers m) s)"
    using assms(1) by (simp add: fl_inv_def)
  moreover have "tally (refers m) s < 1073741824"
    using assms(1) tally_le [of "refers m" s] by (simp add: fl_inv_def)
  ultimately have "unat (fl_refs s m) < 2147483648" "0 < unat (fl_refs s m)" by (auto simp: node_ok_def)
  then show ?thesis using low_word_and(1) [of "fl_refs s m"] by auto
qed

lemma fl_step_rank:
  assumes inv: "fl_inv us L s" and t: "t < length (fl_pcs s)" and busy: "fl_pcs s ! t \<noteq> Idle"
  shows "fl_rank (fl_step t s) (fl_pcs (fl_step t s) ! t) < fl_rank s (fl_pcs s ! t)"
proof -
  have ok: "pc_ok (fl_next s) (fl_pcs s ! t)" using inv t by (simp add: fl_inv_def)
  note heads = fl_rank_test_head [THEN le_less_trans]
  show ?thesis
  proof (cases "fl_pcs s ! t")
    case (Get_Inc m r)
    have "r \<noteq> 0x80000000" using ok Get_Inc by (auto simp: refs_mask_def)
    then have "r + 1 \<noteq> should_be_on_list + 1" by (simp add: should_be_on_list_def)
    then show ?thesis using t Get_Inc by (auto simp: fl_step_def fl_rank_def)
  next
    case (Get_Refs m)
    then show ?thesis using t listed_counted [OF inv, of m] by (simp add: fl_step_def fl_rank_def)
  next
    case Get_Load
    then show ?thesis using t heads(2) by (simp add: fl_step_def fl_rank_def [of s Get_Load])
  next
    case (Add_Failed m h k)
    then show ?thesis using t heads(3) by (simp add: fl_step_def fl_rank_def [of _ "Store_Next m h k"] fl_rank_def [of _ "Store_Next m (fl_head s) k"] fl_rank_def [of _ "Add_Failed m h k"])
  next
    case (Cas_Head m h k)
    then show ?thesis using t heads(3) by (simp add: fl_step_def fl_rank_def [of _ "Add_Failed m (fl_head s) k"] fl_rank_def [of _ "Cas_Head m h k"])
  next
    case (Get_Drop m h)
    then show ?thesis using t heads(1,2) by (simp add: fl_step_def fl_rank_def [of _ "Load_Head m (Again h)"] fl_rank_def [of _ "Get_Drop m h"])
  qed (use busy t in \<open>simp_all add: fl_step_def fl_rank_def\<close>)
qed

lemma fl_finishes:
  assumes "fl_inv us L s" "t < length (fl_pcs s)"
  shows "\<exists>k \<le> fl_rank s (fl_pcs s ! t). fl_pcs ((fl_step t ^^ k) s) ! t = Idle"
  using assms
proof (induction "fl_rank s (fl_pcs s ! t)" arbitrary: s L rule: less_induct)
  case less
  show ?case
  proof (cases "fl_pcs s ! t = Idle")
    case False
    note drop = fl_step_rank [OF less.prems False]
    obtain L' where "fl_inv us L' (fl_step t s)" using fl_step_inv [OF less.prems] by blast
    then obtain k where k: "k \<le> fl_rank (fl_step t s) (fl_pcs (fl_step t s) ! t)"
        "fl_pcs ((fl_step t ^^ k) (fl_step t s)) ! t = Idle"
      using less.hyps [OF drop] less.prems(2) by auto
    have "fl_pcs ((fl_step t ^^ Suc k) s) ! t = Idle" using k(2) by (simp only: funpow_Suc_right o_apply)
    then show ?thesis using k(1) drop by (intro exI [of _ "Suc k"]) simp
  qed (auto intro: exI [of _ 0])
qed

text \<open>C20: From every state that any interleaving of the threads reaches, a thread that runs alone, the
  others stopped wherever they are, finishes its operation within 21 accesses: no thread holds a
  lock that another waits for.
\<close>

theorem free_list_returns:
  assumes "threads < 2 ^ 30" "fl_reach (fl_start threads us) s" "t < threads"
  shows "\<exists>k \<le> 21. fl_pcs ((fl_step t ^^ k) s) ! t = Idle"
proof -
  obtain L where inv: "fl_inv us L s" using fl_reach_inv [OF assms(2,1)] .
  have t: "t < length (fl_pcs s)" using fl_reach_threads [OF assms(2)] assms(3) by (simp add: fl_start_def)
  show ?thesis using fl_finishes [OF inv t] fl_rank_le order_trans by blast
qed

theorem free_list_returns_witness:
  "fl_pcs example_run ! 1 = Get_Take 7 \<and> (\<exists>k \<le> 21. fl_pcs ((fl_step 1 ^^ k) example_run) ! 1 = Idle)"
proof
  show "\<exists>k \<le> 21. fl_pcs ((fl_step 1 ^^ k) example_run) ! 1 = Idle"
    by (rule free_list_returns [OF _ example_run_reached]) simp_all
qed (simp add: example_run_pcs)

end
