(* ===== verification/Queue_Pool.thy ===== *)
theory Queue_Pool
  imports Free_List Queue_Index
begin

text \<open>
  The free list between calls: while no thread is inside, it is the list \<open>free_list\<close> of the pool, and one
  call of \<open>add\<close> or \<open>try_get\<close> (\<open>struct FreeList\<close>, \<open>include/concurrentqueue.hpp\<close>) that no other thread
  interrupts does to it what \<open>add_to_free_list\<close> and \<open>from_free_list\<close> say.
\<close>

definition fl_quiet :: "fl \<Rightarrow> nat list \<Rightarrow> bool" where
  "fl_quiet s L \<longleftrightarrow> distinct L \<and> linked_from (fl_next s) (fl_head s) L \<and> list_all (\<lambda>p. p = Idle) (fl_pcs s)
     \<and> in_use s \<inter> set L = {} \<and> (\<forall>n. fl_refs s n = (if n \<in> set L then 1 else 0))"

definition call_add :: "nat \<Rightarrow> nat \<Rightarrow> fl \<Rightarrow> fl" where
  "call_add t n s = (fl_step t ^^ 5) (goto t (Add_Fetch n) (s\<lparr>in_use := in_use s - {n}\<rparr>))"

definition call_get :: "nat \<Rightarrow> fl \<Rightarrow> fl" where
  "call_get t s = (fl_step t ^^ (if fl_head s = None then 1 else 6)) (goto t Get_Load s)"

lemma six_steps: "(f ^^ 6) x = f (f (f (f (f (f x)))))"
  by (simp add: numeral_eq_Suc)

lemma quiet_pcs: "fl_quiet s L \<Longrightarrow> t < length (fl_pcs s) \<Longrightarrow> (fl_pcs s)[t := Idle] = fl_pcs s"
  using list_update_id [of "fl_pcs s" t] by (simp add: fl_quiet_def list_all_length)

lemma call_add_run:
  assumes "fl_quiet s L" "t < length (fl_pcs s)" "n \<in> in_use s"
  shows "call_add t n s = s\<lparr>fl_head := Some n, fl_refs := (fl_refs s)(n := 1), fl_next := (fl_next s)(n := fl_head s),
    in_use := in_use s - {n}\<rparr>"
proof -
  have "fl_refs s n = 0" using assms(1,3) by (auto simp: fl_quiet_def)
  then show ?thesis using assms(2) quiet_pcs [OF assms(1,2)]
    by (simp add: call_add_def five_steps fl_step_def goto_def put_refs_def)
qed

lemma call_add_quiet:
  assumes "fl_quiet s L" "t < length (fl_pcs s)" "n \<in> in_use s"
  shows "fl_quiet (call_add t n s) (n # L)" "in_use (call_add t n s) = in_use s - {n}"
proof -
  have "n \<notin> set L" using assms(1,3) by (auto simp: fl_quiet_def)
  then show "fl_quiet (call_add t n s) (n # L)"
    using assms(1) unfolding call_add_run [OF assms] by (auto simp: fl_quiet_def)
  show "in_use (call_add t n s) = in_use s - {n}" unfolding call_add_run [OF assms] by simp
qed

lemma call_get_quiet:
  assumes "fl_quiet s L" "t < length (fl_pcs s)"
  shows "fl_quiet (call_get t s) (tl L)" "in_use (call_get t s) = in_use s \<union> set (take 1 L)"
proof -
  have "fl_quiet (call_get t s) (tl L) \<and> in_use (call_get t s) = in_use s \<union> set (take 1 L)"
  proof (cases L)
    case Nil
    then have "fl_head s = None" using assms(1) by (simp add: fl_quiet_def)
    then have "call_get t s = s" using assms(2) quiet_pcs [OF assms]
      by (simp add: call_get_def fl_step_def goto_def)
    then show ?thesis using assms(1) Nil by simp
  next
    case (Cons n ns)
    then have n: "fl_head s = Some n" "fl_refs s n = 1" "n \<notin> set ns" using assms(1) by (auto simp: fl_quiet_def)
    have "call_get t s = s\<lparr>fl_head := fl_next s n, fl_refs := (fl_refs s)(n := 0), in_use := insert n (in_use s)\<rparr>"
      using assms(2) n(1,2) quiet_pcs [OF assms] one_and_mask
      by (simp add: call_get_def six_steps fl_step_def goto_def put_refs_def)
    then show ?thesis using assms(1) Cons n(3) by (auto simp: fl_quiet_def)
  qed
  then show "fl_quiet (call_get t s) (tl L)" "in_use (call_get t s) = in_use s \<union> set (take 1 L)" by simp_all
qed

text \<open>C31: A call that no other thread interrupts: \<open>add\<close> puts the block in front of the free list and
  \<open>try_get\<close> takes the first block, or none if the list is empty; they return after five accesses, and after six or one.
\<close>

theorem free_list_is_stack:
  assumes "fl_quiet s (free_list m)" "t < length (fl_pcs s)" "n \<in> in_use s"
  shows "fl_quiet (call_add t n s) (free_list (add_to_free_list n m)) \<and> in_use (call_add t n s) = in_use s - {n}
    \<and> fl_quiet (call_get t s) (free_list (snd (from_free_list m)))
    \<and> in_use (call_get t s) = in_use s \<union> set_option (fst (from_free_list m))"
  using call_add_quiet [OF assms] call_get_quiet [OF assms(1,2)]
  by (cases "free_list m") (simp_all add: add_to_free_list_def from_free_list_def)

theorem free_list_is_stack_witness:
  "fl_quiet (call_add 0 7 (fl_start 2 {7})) [7]"
proof -
  let ?m = "\<lparr>qblocks = [], pool_size = 0, pool_index = 0, free_list = [], mallocs = [], garbage = None\<rparr>"
  have "fl_quiet (fl_start 2 {7}) (free_list ?m)" by (simp add: fl_quiet_def fl_start_def numeral_2_eq_2)
  then show ?thesis using free_list_is_stack [of "fl_start 2 {7}" ?m 0 7]
    by (simp add: fl_start_def add_to_free_list_def)
qed

end
