(* ===== verification/Queue_Destroy.thy ===== *)
theory Queue_Destroy
  imports Concurrent_Queue
begin

text \<open>
  How the lock-free queue ends (\<open>~ImplicitProducer\<close> and \<open>~ConcurrentQueue\<close>,
  \<open>include/concurrentqueue.hpp\<close>): the producers destroy the elements that are left and put their blocks on
  the free list; the queue frees its hash tables and the blocks that were allocated one by one.
\<close>

section \<open>The destructors\<close>

text \<open>The loop over the elements that are left, from index \<open>i\<close>, the block of the one before at hand.\<close>

fun destroy_elements :: "nat \<Rightarrow> producer \<Rightarrow> u64 \<Rightarrow> nat option \<Rightarrow> pool \<Rightarrow> pool res" where
  "destroy_elements 0 p i block m = Inl No_Return"
| "destroy_elements (Suc fuel) p i block m =
     (if i = tail_index p then Inr m
      else bind_res
        (if i AND (of_nat block_size - 1) = 0 \<or> block = None
         then bind_res (entry_for i p) (\<lambda>a.
           Inr (entry_value (entries p ! a), case block of None \<Rightarrow> m | Some b \<Rightarrow> add_to_free_list b m))
         else Inr (block, m))
        (\<lambda>(block, m). case block of None \<Rightarrow> Inl (UB ''null pointer block'')
          | Some b \<Rightarrow>
              if block_at (qblocks m ! b) i = None then Inl (UB ''no element in the slot'')
              else destroy_elements fuel p (i + 1) (Some b) (on_block b (block_put i None) m)))"

definition iq_destroy :: "producer \<Rightarrow> pool \<Rightarrow> pool res" where
  "iq_destroy p m =
     bind_res (destroy_elements (Suc (unat (tail_index p - head_index p))) p (head_index p) None m) (\<lambda>m.
       Inr (case tail_block p of None \<Rightarrow> m
         | Some b \<Rightarrow> if head_index p \<noteq> tail_index p \<or> tail_index p AND (of_nat block_size - 1) \<noteq> 0
             then add_to_free_list b m else m))"

fun destroy_producers :: "nat list \<Rightarrow> cqueue \<Rightarrow> pool \<Rightarrow> pool res" where
  "destroy_producers [] q m = Inr m"
| "destroy_producers (i # is) q m = bind_res (iq_destroy (snd (cq_producers q ! i)) m) (destroy_producers is q)"

text \<open>How many tables are freed: the first of all is part of the queue.\<close>

fun destroy_tables :: "hash_table list \<Rightarrow> nat" where
  "destroy_tables [] = 0"
| "destroy_tables [t] = 0"
| "destroy_tables (t # ts) = Suc (destroy_tables ts)"

text \<open>The number of tables and the blocks that are freed, in the order of the free list.\<close>

definition cq_destroy :: "cqueue \<Rightarrow> (nat \<times> nat list) res" where
  "cq_destroy q = bind_res (destroy_producers (producer_list q) q (cq_pool q)) (\<lambda>m.
     Inr (if initial_hash_size \<noteq> 0 then destroy_tables (cq_tables q) else 0,
       filter (\<lambda>b. dynamically_allocated (qblocks m ! b)) (free_list m)))"

section \<open>One producer\<close>

text \<open>The loop touches only the blocks of its producer, and no flag of a block.\<close>

definition only_in :: "nat set \<Rightarrow> pool \<Rightarrow> pool \<Rightarrow> bool" where
  "only_in S m m' \<longleftrightarrow> length (qblocks m') = length (qblocks m) \<and> (\<forall>b. b \<notin> S \<longrightarrow> qblocks m' ! b = qblocks m ! b)
     \<and> (\<forall>b. dynamically_allocated (qblocks m' ! b) = dynamically_allocated (qblocks m ! b))"

lemma only_in_refl [simp]: "only_in S m m"
  by (simp add: only_in_def)

lemma only_in_trans: "only_in S m m' \<Longrightarrow> only_in S m' m'' \<Longrightarrow> only_in S m m''"
  by (simp add: only_in_def)

lemma only_in_free [simp]: "only_in S m (add_to_free_list b m') = only_in S m m'" "only_in S (add_to_free_list b m) m' = only_in S m m'"
  by (simp_all add: only_in_def add_to_free_list_def)

lemma only_in_put:
  assumes "b \<in> S"
  shows "only_in S m (on_block b (block_put i x) m)"
proof (cases "b < length (qblocks m)")
  case True
  then show ?thesis using assms by (auto simp: only_in_def on_block_nth block_put_def)
qed (simp add: only_in_def on_block_def list_update_beyond not_less)

lemma pool_inv_free:
  assumes "pool_inv m used" "b \<in> used"
  shows "pool_inv (add_to_free_list b m) (used - {b})"
  using assms by (auto simp: pool_inv_def add_to_free_list_def unused_def)

text \<open>The entry of the index for an element that is left.\<close>

lemma live_entry:
  assumes "index_ok p" "view_ok kt L (index_view p)" "length L = kt - h div 32" "h \<le> i" "i < t" "blocks_upto t = kt"
  shows "\<exists>a. entry_for (of_nat i) p = Inr a \<and> entry_value (entries p ! a) = Some (L ! (kt - 1 - i div 32))"
proof -
  let ?d = "kt - 1 - i div 32"
  have d: "?d < length L" "i div 32 < kt" using live_block [OF assms(3-5)] assms(6) by auto
  obtain hd' where hd': "block_index p = Some hd'" using assms(1) by (auto simp: index_ok_def)
  have len: "?d < length (index_view p)" using d assms(2) by (simp add: view_ok_def)
  have all: "index_view p ! j = \<lparr>entry_key = of_nat (32 * (kt - 1 - j)), entry_value = Some (L ! j)\<rparr>" if "j < length L" for j
    using assms(2) that by (simp only: view_ok_def)
  have "kt - 1 - 0 = i div 32 + ?d" using d(2) by linarith
  moreover have "0 < length L" using d(1) by linarith
  ultimately have "entry_key (index_view p ! 0) = of_nat (32 * (i div 32 + ?d))" using all [of 0] by (simp only: index_entry.select_convs)
  then have "entry_for (of_nat i) p = Inr (addr_at hd' ?d)" by (rule entry_for_view(1) [OF assms(1) hd' len])
  moreover have "entries p ! addr_at hd' ?d = index_view p ! ?d"
    using index_view_eq(1) [OF hd'] index_view_eq(2) [OF hd', of ?d] len by simp
  ultimately show ?thesis using all [OF d(1)] by simp
qed

definition left_at :: "nat \<Rightarrow> nat \<Rightarrow> nat list \<Rightarrow> nat \<Rightarrow> qblock list \<Rightarrow> bool" where
  "left_at kt t L i B \<longleftrightarrow> (\<forall>j. i \<le> j \<longrightarrow> j < t \<longrightarrow> block_at (B ! (L ! (kt - 1 - j div 32))) (of_nat j) \<noteq> None)"

lemma left_after:
  assumes "left_at kt t L i (qblocks m)" "b = L ! (kt - 1 - i div 32)" "b < length (qblocks m)" "block_ok (qblocks m ! b)"
    "distinct L" "length L = kt - h div 32" "h \<le> i" "blocks_upto t = kt"
  shows "left_at kt t L (Suc i) (qblocks (on_block b (block_put (of_nat i) None) m))"
  unfolding left_at_def
proof (intro allI impI)
  fix j
  assume j: "Suc i \<le> j" "j < t"
  have d: "kt - 1 - j div 32 < length L" "j div 32 < kt" "kt - 1 - i div 32 < length L" "i div 32 < kt"
    using live_block [OF assms(6), of j t] live_block [OF assms(6), of i t] j assms(7,8) by auto
  have other: "j mod 32 \<noteq> i mod 32" if "L ! (kt - 1 - j div 32) = b"
  proof
    assume "j mod 32 = i mod 32"
    moreover have "kt - 1 - j div 32 = kt - 1 - i div 32"
      using that assms(2) nth_eq_iff_index_eq [OF assms(5) d(1,3)] by simp
    then have "j div 32 = i div 32" using d(2,4) by linarith
    ultimately have "j = i" by (metis div_mult_mod_eq)
    then show False using j(1) by simp
  qed
  have "block_at (qblocks m ! (L ! (kt - 1 - j div 32))) (of_nat j) \<noteq> None" using assms(1) j by (simp add: left_at_def)
  then show "block_at (qblocks (on_block b (block_put (of_nat i) None) m) ! (L ! (kt - 1 - j div 32))) (of_nat j) \<noteq> None"
    using other by (auto simp: on_block_nth [OF assms(3)] block_puts [OF assms(4)])
qed

lemma block_start: "of_nat i AND (of_nat block_size - 1 :: u64) = 0 \<longleftrightarrow> i mod 32 = 0"
  using at_block_end [of "undefined\<lparr>tail_index := of_nat i\<rparr>" i] by simp

lemma destroy_elements_run:
  assumes fixed: "index_ok p" "view_ok kt L (index_view p)" "length L = kt - h div 32" "distinct L" "blocks_upto t = kt"
    "tail_index p = of_nat t" "t - h < 2 ^ 64" "set L \<subseteq> used"
  shows "\<lbrakk>h \<le> i; i \<le> t; t - i < fuel; block = (if i = h then None else Some (L ! (kt - 1 - (i - 1) div 32)));
      pool_inv m (used - set (drop (Suc (kt - 1 - (i - 1) div 32)) L)); left_at kt t L i (qblocks m)\<rbrakk> \<Longrightarrow>
    \<exists>m'. destroy_elements fuel p (of_nat i) block m = Inr m' \<and> only_in (set L) m m'
      \<and> pool_inv m' (used - set (drop (Suc (kt - 1 - (t - 1) div 32)) L))"
proof (induction fuel arbitrary: i block m)
  case (Suc fuel)
  show ?case
  proof (cases "i = t")
    case True
    then show ?thesis using Suc.prems(5) fixed(6) by simp
  next
    case False
    then have it: "i < t" using Suc.prems(2) by simp
    have "(of_nat i :: u64) \<noteq> of_nat t"
    proof
      assume "(of_nat i :: u64) = of_nat t"
      then have "(of_nat (t - i) :: u64) = 0" using it by (simp add: of_nat_diff)
      moreover have "unat (of_nat (t - i) :: u64) = t - i" 
        using fixed(7) Suc.prems(1) by (intro unat_of_nat_u64) linarith
      ultimately show False using it by simp
    qed
    then have go: "of_nat i \<noteq> tail_index p" using fixed(6) by simp
    define d where "d = kt - 1 - i div 32"
    define b where "b = L ! d"
    have d: "d < length L" "i div 32 < kt" "length L - 1 = kt - 1 - h div 32"
      using live_block [OF fixed(3) Suc.prems(1) it] fixed(3,5) by (auto simp: d_def)
    have bL: "b \<in> set L" using d(1) by (simp add: b_def)
    obtain a where a: "entry_for (of_nat i) p = Inr a" "entry_value (entries p ! a) = Some b"
      using live_entry [OF fixed(1-3) Suc.prems(1) it fixed(5)] by (auto simp: b_def d_def)
    let ?first = "if (of_nat i :: u64) AND (of_nat block_size - 1) = 0 \<or> block = None
      then bind_res (entry_for (of_nat i) p) (\<lambda>a.
        Inr (entry_value (entries p ! a), case block of None \<Rightarrow> m | Some b \<Rightarrow> add_to_free_list b m))
      else Inr (block, m)"
    have "\<exists>m1. ?first = Inr (Some b, m1) \<and> qblocks m1 = qblocks m \<and> pool_inv m1 (used - set (drop (Suc d) L))"
    proof (cases "i = h")
      case True
      have "length L \<le> Suc (kt - 1 - (h - 1) div 32)"
        using fixed(3) div_le_mono [of "h - 1" h 32] by linarith
      moreover have "length L \<le> Suc d" using d(3) True by (simp add: d_def)
      ultimately have "pool_inv m (used - set (drop (Suc d) L))" using Suc.prems(5) True by simp
      then show ?thesis using a Suc.prems(4) True by simp
    next
      case False
      then have hi: "h \<le> i - 1" "0 < i" using Suc.prems(1) by simp_all
      show ?thesis
      proof (cases "i mod 32 = 0")
        case True
        then have prev: "(i - 1) div 32 = i div 32 - 1" "1 \<le> i div 32" using hi(2) by (auto elim!: dvdE simp flip: dvd_eq_mod_eq_0)
        then have e: "kt - 1 - (i - 1) div 32 = Suc d" unfolding d_def prev(1) using d(2) by linarith
        have "kt - 1 - (i - 1) div 32 < length L"
          using live_block(1) [OF fixed(3) hi(1), of t] it fixed(5) by auto
        then have sd: "Suc d < length L" by (simp only: e)
        have drop: "drop (Suc d) L = L ! Suc d # drop (Suc (Suc d)) L" using Cons_nth_drop_Suc [OF sd] by simp
        have "distinct (drop (Suc d) L)" using fixed(4) by (rule distinct_drop)
        then have "L ! Suc d \<in> used - set (drop (Suc (Suc d)) L)" using drop fixed(8) nth_mem [OF sd] by auto
        then have "pool_inv (add_to_free_list (L ! Suc d) m) (used - set (drop (Suc (Suc d)) L) - {L ! Suc d})"
          using Suc.prems(5) unfolding e by (intro pool_inv_free)
        moreover have "used - set (drop (Suc (Suc d)) L) - {L ! Suc d} = used - set (drop (Suc d) L)"
          using drop by auto
        moreover have "block = Some (L ! Suc d)" using Suc.prems(4) \<open>i \<noteq> h\<close> e by simp
        ultimately show ?thesis using a True block_start [of i] by (simp add: add_to_free_list_def)
      next
        case mid: False
        then have "(i - 1) div 32 = i div 32" using div_Suc_32 [of "i - 1"] hi(2) by (auto simp: mod_Suc split: if_splits)
        then have e: "kt - 1 - (i - 1) div 32 = d" by (simp add: d_def)
        then have "block = Some b" using Suc.prems(4) \<open>i \<noteq> h\<close> by (simp add: b_def)
        then show ?thesis using Suc.prems(5) mid block_start [of i] unfolding e by simp
      qed
    qed
    then obtain m1 where m1: "?first = Inr (Some b, m1)" "qblocks m1 = qblocks m" "pool_inv m1 (used - set (drop (Suc d) L))"
      by blast
    have bu: "b \<in> used - set (drop (Suc d) L)"
    proof -
      have "b \<notin> set (drop (Suc d) L)"
        using fixed(4) Cons_nth_drop_Suc [OF d(1)] distinct_drop [OF fixed(4), of d] by (metis b_def distinct.simps(2))
      then show ?thesis using bL fixed(8) by blast
    qed
    note bl = pool_inv_used [OF m1(3) bu]
    let ?m2 = "on_block b (block_put (of_nat i) None) m1"
    have "block_at (qblocks m1 ! b) (of_nat i) \<noteq> None"
      using Suc.prems(6) it by (simp add: left_at_def m1(2) b_def d_def)
    then have step: "destroy_elements (Suc fuel) p (of_nat i) block m = destroy_elements fuel p (of_nat (Suc i)) (Some b) ?m2"
      using go m1(1) by (auto simp: add.commute)
    have "\<exists>m'. destroy_elements fuel p (of_nat (Suc i)) (Some b) ?m2 = Inr m' \<and> only_in (set L) ?m2 m'
        \<and> pool_inv m' (used - set (drop (Suc (kt - 1 - (t - 1) div 32)) L))"
    proof (rule Suc.IH)
      show "pool_inv ?m2 (used - set (drop (Suc (kt - 1 - (Suc i - 1) div 32)) L))"
        using on_block_inv [OF m1(3) bu, of "block_put (of_nat i) None"] by (simp add: d_def block_ok_def block_put_def)
      show "left_at kt t L (Suc i) (qblocks ?m2)"
        by (rule left_after [OF _ _ _ _ fixed(4,3) Suc.prems(1) fixed(5)])
          (use Suc.prems(6) bl m1(2) in \<open>simp_all add: b_def d_def\<close>)
    qed (use it Suc.prems in \<open>auto simp: b_def d_def\<close>)
    moreover have "only_in (set L) m ?m2"
      using only_in_put [OF bL, of m1] m1(2) by (simp add: only_in_def)
    ultimately show ?thesis unfolding step using only_in_trans by blast
  qed
qed simp

text \<open>A producer gives all its blocks back.\<close>

lemma iq_destroy_run:
  assumes "fifo h t xs L p (qblocks m)" "pool_inv m used" "set L \<subseteq> used" "length xs \<le> 2 ^ 62"
  shows "\<exists>m'. iq_destroy p m = Inr m' \<and> only_in (set L) m m' \<and> pool_inv m' (used - set L)"
proof -
  define kt where "kt = blocks_upto t"
  have t: "t = h + length xs" "counters_ok h t p" "index_ok p" "view_ok kt L (index_view p)"
    "length L = kt - h div 32" "distinct L" "L \<noteq> [] \<Longrightarrow> tail_block p = Some (hd L)" "contents_ok kt h t xs L (qblocks m)"
    using assms(1) unfolding queue_with_def kt_def by blast+
  have tail: "tail_index p = of_nat t" "head_index p = of_nat h" using t(2) by (simp_all add: counters_ok_def)
  have "unat (of_nat (length xs) :: u64) = length xs" using assms(4) by (intro unat_of_nat_u64) simp
  then have n: "unat (tail_index p - head_index p) = t - h" using tail t(1) by simp
  have "left_at kt t L h (qblocks m)" using t(8) by (simp add: left_at_def contents_ok_def)
  moreover have "length L \<le> Suc (kt - 1 - (h - 1) div 32)"
    using t(5) div_le_mono [of "h - 1" h 32] by linarith
  ultimately obtain m1 where m1: "destroy_elements (Suc (t - h)) p (of_nat h) None m = Inr m1" "only_in (set L) m m1"
      "pool_inv m1 (used - set (drop (Suc (kt - 1 - (t - 1) div 32)) L))"
    using destroy_elements_run [OF t(3,4,5,6) _ tail(1) _ assms(3), of h "Suc (t - h)" None m] t(1) assms(2,4)
    by (auto simp: kt_def)
  have run: "iq_destroy p m = Inr (case tail_block p of None \<Rightarrow> m1
      | Some b \<Rightarrow> if head_index p \<noteq> tail_index p \<or> t mod 32 \<noteq> 0 then add_to_free_list b m1 else m1)"
    unfolding iq_destroy_def n using m1(1) at_block_end [OF tail(1)]
    by (simp add: tail(2) del: destroy_elements.simps split: option.split)
  have ends: "head_index p \<noteq> tail_index p \<or> t mod 32 \<noteq> 0 \<longleftrightarrow> L \<noteq> []"
  proof (cases "xs = []")
    case True
    then have "t = h" using t(1) by simp
    then show ?thesis using t(5) tail blocks_upto_simps(2,3) [of t] by (cases "t mod 32 = 0") (auto simp: kt_def)
  next
    case False
    then have "of_nat h \<noteq> (of_nat t :: u64)" using n tail t(1) by auto
    moreover have "L \<noteq> []" using False t(1) live_block(1) [OF t(5), of h t] by (auto simp: kt_def)
    ultimately show ?thesis using tail by simp
  qed
  show ?thesis
  proof (cases "L = []")
    case True
    then have "iq_destroy p m = Inr m1" using run ends by (auto split: option.split)
    then show ?thesis using m1(2,3) True by simp
  next
    case False
    have "kt - 1 - (t - 1) div 32 = 0"
    proof (cases t)
      case (Suc u)
      then show ?thesis by (simp add: kt_def blocks_upto_simps(1))
    qed (simp add: kt_def blocks_upto_def)
    then have inv: "pool_inv m1 (used - set (tl L))" using m1(3) by (simp add: drop_Suc)
    have hd: "hd L \<in> used - set (tl L)" using False t(6) assms(3) by (cases L) auto
    have "used - set (tl L) - {hd L} = used - set L" using False by (cases L) auto
    then have "pool_inv (add_to_free_list (hd L) m1) (used - set L)" using pool_inv_free [OF inv hd] by simp
    then show ?thesis using run ends False t(7) m1(2) by simp
  qed
qed

section \<open>All producers\<close>

lemma destroy_producers_run:
  assumes "cq_with K ids F h L q" "\<forall>k. length (F k) \<le> 2 ^ 62"
  shows "\<lbrakk>set is \<subseteq> {..<length ids}; distinct is; pool_inv m (\<Union>i \<in> set is. set (L i));
      \<forall>b \<in> (\<Union>i \<in> set is. set (L i)). qblocks m ! b = qblocks (cq_pool q) ! b\<rbrakk> \<Longrightarrow>
    \<exists>m'. destroy_producers is q m = Inr m' \<and> pool_inv m' {} \<and> only_in UNIV m m'"
proof (induction "is" arbitrary: m)
  case (Cons i "is")
  have i: "i < length ids" "i \<notin> set is" "set is \<subseteq> {..<length ids}" using Cons.prems by simp_all
  have "fifo (h i) (h i + length (F (ids ! i))) (F (ids ! i)) (L i) (snd (cq_producers q ! i)) (qblocks m)"
    by (rule fifo_other_blocks [OF cq_with_fifo(1) [OF assms(1) i(1)]]) (use Cons.prems(4) in simp)
  then obtain m1 where m1: "iq_destroy (snd (cq_producers q ! i)) m = Inr m1" "only_in (set (L i)) m m1"
      "pool_inv m1 ((\<Union>i \<in> set (i # is). set (L i)) - set (L i))"
    using iq_destroy_run [OF _ Cons.prems(3)] assms(2) by fastforce
  have disj: "set (L j) \<inter> set (L i) = {}" if "j \<in> set is" for j
  proof -
    have "j < length ids" "j \<noteq> i" using that i by auto
    then show ?thesis using assms(1) i(1) by (simp add: cq_with_def lanes_ok_def)
  qed
  have "(\<Union>i \<in> set (i # is). set (L i)) - set (L i) = (\<Union>i \<in> set is. set (L i))" using disj by auto
  then have inv: "pool_inv m1 (\<Union>i \<in> set is. set (L i))" using m1(3) by simp
  have "\<exists>m'. destroy_producers is q m1 = Inr m' \<and> pool_inv m' {} \<and> only_in UNIV m1 m'"
  proof (rule Cons.IH [OF i(3) _ inv])
    show "\<forall>b \<in> (\<Union>i \<in> set is. set (L i)). qblocks m1 ! b = qblocks (cq_pool q) ! b"
    proof
      fix b
      assume b: "b \<in> (\<Union>i \<in> set is. set (L i))"
      then have "b \<notin> set (L i)" using disj by blast
      then have "qblocks m1 ! b = qblocks m ! b" using m1(2) by (simp add: only_in_def)
      then show "qblocks m1 ! b = qblocks (cq_pool q) ! b" using Cons.prems(4) b by simp
    qed
  qed (use Cons.prems in simp)
  moreover have "only_in UNIV m m1" using m1(2) by (simp add: only_in_def)
  ultimately show ?case using m1(1) only_in_trans by (metis bind_res_Inr destroy_producers.simps(2))
qed simp

text \<open>C21: Whatever was done with the queue, its destructor frees every block that was allocated for it, and
  none twice, and every hash table but the first, which is part of the queue.
\<close>

theorem destructor_frees_every_block:
  assumes "cq_holds K q F" "(\<Sum>k \<in> K. length (F k)) \<le> 2 ^ 62"
  shows "\<exists>bs. cq_destroy q = Inr (length (cq_tables q) - 1, bs) \<and> distinct bs
    \<and> set bs = {b. b < length (qblocks (cq_pool q)) \<and> dynamically_allocated (qblocks (cq_pool q) ! b)}"
proof -
  obtain ids h L where w: "cq_with K ids F h L q" using assms(1) by (auto simp: cq_holds_def)
  have len: "\<forall>k. length (F k) \<le> 2 ^ 62"
    using lane_le_total [OF assms(1)] assms(2) order.trans by (fastforce simp: size_multiset_sum)
  have all: "set (producer_list q) = {..<length ids}" by (rule cq_with_empty(2) [OF w])
  have "pool_inv (cq_pool q) (\<Union>i \<in> set (producer_list q). set (L i))"
    using w unfolding all by (simp add: cq_with_def lanes_ok_def)
  then obtain m where m: "destroy_producers (producer_list q) q (cq_pool q) = Inr m" "pool_inv m {}" "only_in UNIV (cq_pool q) m"
    using destroy_producers_run [OF w len, of "producer_list q" "cq_pool q"] all by (auto simp: producer_list_def)
  have "destroy_tables ts = length ts - 1" for ts by (induction ts rule: destroy_tables.induct) simp_all
  moreover have "initial_hash_size \<noteq> 0" by (simp add: initial_hash_size_def)
  ultimately have "cq_destroy q = Inr (length (cq_tables q) - 1,
      filter (\<lambda>b. dynamically_allocated (qblocks m ! b)) (free_list m))"
    using m(1) by (simp add: cq_destroy_def)
  moreover have "set (filter (\<lambda>b. dynamically_allocated (qblocks m ! b)) (free_list m))
      = {b. b < length (qblocks m) \<and> dynamically_allocated (qblocks m ! b)}"
    using m(2) by (auto simp: pool_inv_def)
  moreover have "distinct (free_list m)" using m(2) by (simp add: pool_inv_def)
  ultimately show ?thesis using m(3) by (auto simp: only_in_def)
qed

theorem destructor_frees_every_block_witness:
  "\<exists>q bs. cq_enqueue 7 5 (cq_new default_capacity [] None) = Inr (True, q) \<and> cq_destroy q = Inr (length (cq_tables q) - 1, bs)
    \<and> distinct bs"
proof -
  have "cq_holds {7} (cq_new default_capacity [] None) (\<lambda>_. [])"
    by (rule cq_new_holds) (simp_all add: invalid_thread_def)
  then obtain q where q: "cq_enqueue 7 5 (cq_new default_capacity [] None) = Inr (True, q)"
      "cq_holds {7} q ((\<lambda>_. [])(7 := [] @ [5]))"
    using cq_enqueue_run [of "{7}" "cq_new default_capacity [] None" "\<lambda>_. []" 7 5] by auto
  then show ?thesis using destructor_frees_every_block [OF q(2)] by auto
qed

end
