(* ===== verification/Queue_Race.thy ===== *)
theory Queue_Race
  imports Queue_Producer
begin

text \<open>
  One implicit producer of the lock-free queue used by several threads at once
  (\<open>ImplicitProducer::enqueue\<close> and \<open>dequeue\<close>, \<open>include/concurrentqueue.hpp\<close>): its own thread puts
  elements while any number of threads take them. One step is one access to a shared variable; the accesses are
  sequentially consistent. The entry of the block index for an index, and the block that it points to, are named by the
  index divided by the size of a block. Left out are: the search in the ring of entries (three more loads
  and two assertions; \<open>Load_Entry\<close> is the load of the value of the entry that it finds), the accesses
  inside \<open>add_block_to_free_list\<close> (a loop of its own, theory \<open>Free_List\<close>; \<open>Drop_Block\<close> is the call), and that a block that was
  given back may come again under another number. So the steps here are those of the order of accesses, not their number.
\<close>

section \<open>The program\<close>

text \<open>
  Where a thread in \<open>dequeue\<close> stands: before the access that the constructor is named after. The arguments
  are its local variables: \<open>tail\<close>, \<open>overcommit\<close>, \<open>myDequeueCount\<close>, \<open>index\<close> and the element. \<open>Lost\<close> is a thread whose
  assertion has failed, or that found a null pointer or no element in its slot.
\<close>

datatype take_pc = Out
  | Load_Tail | Load_Over u64 | Load_Count u64 u64 | Add_Count u64 | Reload_Tail u64 u64
  | Add_Over | Add_Head | Load_Entry u64
  | Read_Slot u64 | Destroy_Slot u64 u64 | Count_Slot u64 u64 | Clear_Entry u64 u64 | Drop_Block u64 u64
  | Lost

text \<open>Where the thread of the producer stands in \<open>enqueue\<close>, with the element. In \<open>Put_Lost\<close> its assertion has failed.\<close>

datatype put_pc = Put_Out | Put_Start u64 | Put_Reset u64 | Put_Entry u64 | Put_Slot u64 | Put_Tail u64 | Put_Lost

text \<open>
  \<open>race_entries\<close> are the entries of the block index that point to their block. \<open>stored\<close> are the elements for which \<open>enqueue\<close> has returned true, in this order; \<open>returned\<close> are the indices and
  elements that \<open>dequeue\<close> has returned, the latest first; \<open>dropped\<close> are the blocks given back, the latest first.
\<close>

record race =
  race_tail :: u64
  race_head :: u64
  race_count :: u64
  race_over :: u64
  race_entries :: "nat \<Rightarrow> bool"
  race_blocks :: "nat \<Rightarrow> qblock"
  takers :: "take_pc list"
  putter :: put_pc
  stored :: "u64 list"
  returned :: "(u64 \<times> u64) list"
  dropped :: "nat list"

definition block_no :: "u64 \<Rightarrow> nat" where "block_no i = unat i div block_size"

definition slot_value :: "race \<Rightarrow> u64 \<Rightarrow> u64 option" where
  "slot_value s i = block_at (race_blocks s (block_no i)) i"

definition in_block :: "u64 \<Rightarrow> (qblock \<Rightarrow> qblock) \<Rightarrow> race \<Rightarrow> race" where
  "in_block i f s = s\<lparr>race_blocks := (race_blocks s)(block_no i := f (race_blocks s (block_no i)))\<rparr>"

definition taker_at :: "nat \<Rightarrow> take_pc \<Rightarrow> race \<Rightarrow> race" where
  "taker_at t p s = s\<lparr>takers := (takers s)[t := p]\<rparr>"

definition returns :: "nat \<Rightarrow> u64 \<Rightarrow> u64 \<Rightarrow> race \<Rightarrow> race" where
  "returns t i x s = taker_at t Out (s\<lparr>returned := (i, x) # returned s\<rparr>)"

definition take_step :: "nat \<Rightarrow> race \<Rightarrow> race" where
  "take_step t s =
     (case takers s ! t of
        Out \<Rightarrow> s
      | Load_Tail \<Rightarrow> taker_at t (Load_Over (race_tail s)) s
      | Load_Over tail \<Rightarrow> taker_at t (Load_Count tail (race_over s)) s
      | Load_Count tail ov \<Rightarrow> taker_at t (if circular_less_than (race_count s - ov) tail then Add_Count ov else Out) s
      | Add_Count ov \<Rightarrow> 
          taker_at t (if ov \<le> race_count s then Reload_Tail ov (race_count s) else Lost) (s\<lparr>race_count := race_count s + 1\<rparr>)
      | Reload_Tail ov my \<Rightarrow> taker_at t (if circular_less_than (my - ov) (race_tail s) then Add_Head else Add_Over) s
      | Add_Over \<Rightarrow> taker_at t Out (s\<lparr>race_over := race_over s + 1\<rparr>)
      | Add_Head \<Rightarrow> taker_at t (Load_Entry (race_head s)) (s\<lparr>race_head := race_head s + 1\<rparr>)
      | Load_Entry i \<Rightarrow> taker_at t (if race_entries s (block_no i) then Read_Slot i else Lost) s
      | Read_Slot i \<Rightarrow> taker_at t (case slot_value s i of None \<Rightarrow> Lost | Some x \<Rightarrow> Destroy_Slot i x) s
      | Destroy_Slot i x \<Rightarrow> taker_at t (Count_Slot i x) (in_block i (block_put i None) s)
      | Count_Slot i x \<Rightarrow>
          (let (b, empty) = set_empty Implicit_Context i (race_blocks s (block_no i)); s = in_block i (\<lambda>_. b) s in
           if empty then taker_at t (Clear_Entry i x) s else returns t i x s)
      | Clear_Entry i x \<Rightarrow> taker_at t (Drop_Block i x) (s\<lparr>race_entries := (race_entries s)(block_no i := False)\<rparr>)
      | Drop_Block i x \<Rightarrow> returns t i x (s\<lparr>dropped := block_no i # dropped s\<rparr>)
      | Lost \<Rightarrow> s)"

text \<open>\<open>memory\<close> says whether an entry of the index and a block can be had.\<close>

definition put_step :: "bool \<Rightarrow> race \<Rightarrow> race" where
  "put_step memory s =
     (case putter s of
        Put_Out \<Rightarrow> s
      | Put_Start x \<Rightarrow>
          if race_tail s AND (of_nat block_size - 1) = 0 then
            if circular_less_than (race_tail s) (race_head s) then s\<lparr>putter := Put_Lost\<rparr>
            else if \<not> circular_less_than (race_head s) (race_tail s + of_nat block_size) then s\<lparr>putter := Put_Out\<rparr>
            else if \<not> memory then s\<lparr>putter := Put_Out\<rparr>
            else s\<lparr>putter := Put_Reset x\<rparr>
          else s\<lparr>putter := Put_Slot x\<rparr>
      | Put_Reset x \<Rightarrow> (in_block (race_tail s) (reset_empty Implicit_Context) s)\<lparr>putter := Put_Entry x\<rparr>
      | Put_Entry x \<Rightarrow> s\<lparr>race_entries := (race_entries s)(block_no (race_tail s) := True), putter := Put_Slot x\<rparr>
      | Put_Slot x \<Rightarrow> (in_block (race_tail s) (block_put (race_tail s) (Some x)) s)\<lparr>putter := Put_Tail x\<rparr>
      | Put_Tail x \<Rightarrow> s\<lparr>race_tail := 1 + race_tail s, putter := Put_Out, stored := stored s @ [x]\<rparr>
      | Put_Lost \<Rightarrow> s)"

text \<open>Any thread may move; one that is outside may call \<open>dequeue\<close>, the producer's may call \<open>enqueue\<close>.\<close>

inductive race_move :: "race \<Rightarrow> race \<Rightarrow> bool" where
  take: "t < length (takers s) \<Longrightarrow> race_move s (take_step t s)"
| begin_take: "t < length (takers s) \<Longrightarrow> takers s ! t = Out \<Longrightarrow> race_move s (taker_at t Load_Tail s)"
| put: "race_move s (put_step memory s)"
| begin_put: "putter s = Put_Out \<Longrightarrow> race_move s (s\<lparr>putter := Put_Start x\<rparr>)"

definition race_new :: "nat \<Rightarrow> race" where
  "race_new threads = \<lparr>race_tail = 0, race_head = 0, race_count = 0, race_over = 0,
     race_entries = (\<lambda>_. False), race_blocks = (\<lambda>_. qblock_new),
     takers = replicate threads Out, putter = Put_Out, stored = [], returned = [], dropped = []\<rparr>"

text \<open>What a number of moves can reach.\<close>

inductive race_reach :: "nat \<Rightarrow> nat \<Rightarrow> race \<Rightarrow> bool" for threads where
  race_refl: "race_reach threads 0 (race_new threads)"
| race_more: "race_reach threads n s \<Longrightarrow> race_move s s' \<Longrightarrow> race_reach threads (Suc n) s'"

section \<open>The counters\<close>

text \<open>
  Each \<open>fetch_add\<close> on \<open>dequeueOptimisticCount\<close> gives a thread a ticket. \<open>G\<close> are the tickets that were granted an
  element, \<open>D\<close> those that were denied one. A thread with a granted ticket \<open>g\<close> has seen fewer elements
  put than \<open>g\<close> less the tickets below \<open>g\<close> that were denied: so there are at most as many granted tickets as elements.
\<close>

definition takers_in :: "(take_pc \<Rightarrow> bool) \<Rightarrow> race \<Rightarrow> nat" where
  "takers_in P s = length (filter P (takers s))"

definition denied_below :: "nat set \<Rightarrow> nat \<Rightarrow> nat" where
  "denied_below D g = card {d \<in> D. d < g}"

fun ticket_ok :: "nat set \<Rightarrow> nat set \<Rightarrow> race \<Rightarrow> take_pc \<Rightarrow> bool" where
  "ticket_ok G D s (Load_Count tail ov) \<longleftrightarrow> unat ov \<le> unat (race_over s)"
| "ticket_ok G D s (Add_Count ov) \<longleftrightarrow> unat ov \<le> unat (race_over s)"
| "ticket_ok G D s (Reload_Tail ov my) \<longleftrightarrow>
     unat my < unat (race_count s) \<and> unat my \<notin> G \<union> D \<and> unat ov \<le> denied_below D (unat my)"
| "ticket_ok G D s _ \<longleftrightarrow> True"

fun reloading :: "take_pc \<Rightarrow> bool" where
  "reloading (Reload_Tail ov my) \<longleftrightarrow> True"
| "reloading _ \<longleftrightarrow> False"

definition tickets_ok :: "nat set \<Rightarrow> nat set \<Rightarrow> race \<Rightarrow> bool" where
  "tickets_ok G D s \<longleftrightarrow> G \<union> D \<subseteq> {..<unat (race_count s)} \<and> G \<inter> D = {}
     \<and> card G = unat (race_head s) + takers_in ((=) Add_Head) s
     \<and> card D = unat (race_over s) + takers_in ((=) Add_Over) s
     \<and> unat (race_count s) = card G + card D + takers_in reloading s
     \<and> (\<forall>g \<in> G. g < unat (race_tail s) + denied_below D g)
     \<and> (\<forall>j < length (takers s). ticket_ok G D s (takers s ! j))
     \<and> (\<forall>i < length (takers s). \<forall>j < length (takers s). \<forall>ov ov' my.
          takers s ! i = Reload_Tail ov my \<longrightarrow> takers s ! j = Reload_Tail ov' my \<longrightarrow> i = j)"

lemma takers_in_moves:
  assumes "t < length (takers s)" "takers s' = (takers s)[t := p]"
  shows "takers_in P s' + of_bool (P (takers s ! t)) = takers_in P s + of_bool (P p)"
  using length_filter_update [OF assms(1), of P p] assms(2) by (simp add: takers_in_def)

lemma denied_below_bounds:
  assumes "finite D"
  shows "denied_below D g \<le> g" "denied_below D g \<le> denied_below (insert d D) g" "D \<subseteq> {..<g} \<Longrightarrow> denied_below D g = card D"
proof -
  show "denied_below D g \<le> g" unfolding denied_below_def using card_mono [of "{..<g}" "{d \<in> D. d < g}"] by auto
  show "denied_below D g \<le> denied_below (insert d D) g"
    unfolding denied_below_def using assms by (intro card_mono) auto
  assume "D \<subseteq> {..<g}"
  then have "{d \<in> D. d < g} = D" by auto
  then show "denied_below D g = card D" by (simp add: denied_below_def)
qed

lemma tickets_okD:
  assumes "tickets_ok G D s"
  shows "G \<union> D \<subseteq> {..<unat (race_count s)}" "D \<subseteq> {..<unat (race_count s)}" "G \<inter> D = {}"
    "card G = unat (race_head s) + takers_in ((=) Add_Head) s" "card D = unat (race_over s) + takers_in ((=) Add_Over) s"
    "unat (race_count s) = card G + card D + takers_in reloading s"
    "\<forall>g \<in> G. g < unat (race_tail s) + denied_below D g"
    "j < length (takers s) \<Longrightarrow> ticket_ok G D s (takers s ! j)"
  using assms unfolding tickets_ok_def by blast+

lemma tickets_finite: "tickets_ok G D s \<Longrightarrow> finite G" "tickets_ok G D s \<Longrightarrow> finite D"
  by (auto simp: tickets_ok_def intro: finite_subset [of _ "{..<unat (race_count s)}"])

lemma granted_le_tail:
  assumes "tickets_ok G D s"
  shows "unat (race_head s) + takers_in ((=) Add_Head) s \<le> unat (race_tail s)"
proof (cases "G = {}")
  case True
  then show ?thesis using assms by (simp add: tickets_ok_def)
next
  case False
  note fin = tickets_finite [OF assms]
  define g where "g = Max G"
  have g: "g \<in> G" "\<forall>x \<in> G. x \<le> g" using fin(1) False by (simp_all add: g_def)
  have "G \<union> {d \<in> D. d < g} \<subseteq> {..g}" using g(2) by auto
  then have "card (G \<union> {d \<in> D. d < g}) \<le> Suc g" using card_mono [of "{..g}"] by fastforce
  moreover have "card (G \<union> {d \<in> D. d < g}) = card G + denied_below D g"
    unfolding denied_below_def using fin assms by (intro card_Un_disjoint) (auto simp: tickets_ok_def)
  moreover have "g < unat (race_tail s) + denied_below D g" using assms g(1) by (simp add: tickets_ok_def)
  ultimately have "card G \<le> unat (race_tail s)" by linarith
  then show ?thesis using assms by (simp add: tickets_ok_def)
qed

lemma over_le_count: "tickets_ok G D s \<Longrightarrow> unat (race_over s) + takers_in ((=) Add_Over) s \<le> unat (race_count s)"
  by (simp add: tickets_ok_def)

lemma circular_less_than_small:
  assumes "unat a \<le> 2 ^ 62" "unat b \<le> 2 ^ 62"
  shows "circular_less_than a b \<longleftrightarrow> unat a < unat b"
proof (cases "unat a \<le> unat b")
  case True
  define d where "d = unat b - unat a"
  have "b = a + of_nat d" using True by (simp add: d_def)
  moreover have "d < 2 ^ 63" using assms(2) by (simp add: d_def)
  ultimately show ?thesis using True circular_less_than_ahead [of d a] by (simp add: d_def)
next
  case False
  define d where "d = unat a - unat b"
  have "a = b + of_nat d" using False by (simp add: d_def)
  moreover have "d \<le> 2 ^ 63" using assms(1) by (simp add: d_def)
  ultimately show ?thesis using False circular_less_than_behind [of d b] by simp
qed

lemma tickets_okI:
  assumes s: "tickets_ok G D s" "t < length (takers s)" "takers s' = (takers s)[t := p]"
    and "G' \<union> D' \<subseteq> {..<unat (race_count s')}" "G' \<inter> D' = {}"
    and "card G' = unat (race_head s') + takers_in ((=) Add_Head) s'"
    and "card D' = unat (race_over s') + takers_in ((=) Add_Over) s'"
    and "unat (race_count s') = card G' + card D' + takers_in reloading s'"
    and "\<forall>g \<in> G'. g < unat (race_tail s') + denied_below D' g"
    and here: "ticket_ok G' D' s' p"
    and others: "\<And>j. j < length (takers s) \<Longrightarrow> j \<noteq> t \<Longrightarrow> ticket_ok G D s (takers s ! j) \<Longrightarrow> ticket_ok G' D' s' (takers s ! j)"
    and alone: "\<And>j ov ov' my. j < length (takers s) \<Longrightarrow> j \<noteq> t \<Longrightarrow> p = Reload_Tail ov my \<Longrightarrow> takers s ! j \<noteq> Reload_Tail ov' my"
  shows "tickets_ok G' D' s'"
proof -
  have "ticket_ok G' D' s' (takers s' ! j)" if "j < length (takers s)" for j
    using that here others s by (cases "j = t") (auto simp: tickets_ok_def)
  moreover have "i = j" if "i < length (takers s)" "j < length (takers s)"
      "takers s' ! i = Reload_Tail ov my" "takers s' ! j = Reload_Tail ov' my" for i j ov ov' my
  proof -
    have old: "i = j" if "takers s ! i = Reload_Tail ov my" "takers s ! j = Reload_Tail ov' my"
      using s(1) that \<open>i < _\<close> \<open>j < _\<close> unfolding tickets_ok_def by blast
    show ?thesis
    proof (cases "i = t"; cases "j = t")
      assume "i = t" "j \<noteq> t"
      then show ?thesis using that alone [of j ov my ov'] s(2,3) by simp
    next
      assume "i \<noteq> t" "j = t"
      then show ?thesis using that alone [of i ov' my ov] s(2,3) by simp
    qed (use that s(2,3) old in simp_all)
  qed
  ultimately show ?thesis using assms(3-9) unfolding tickets_ok_def by auto
qed

text \<open>The accesses after which a thread has the same part in the tickets.\<close>

lemma tickets_kept:
  assumes s: "tickets_ok G D s" "t < length (takers s)" "takers s' = (takers s)[t := p]"
    and same: "race_tail s' = race_tail s" "race_head s' = race_head s" "race_count s' = race_count s" "race_over s' = race_over s"
    and old: "\<not> reloading (takers s ! t)" "takers s ! t \<noteq> Add_Head" "takers s ! t \<noteq> Add_Over"
    and new: "\<not> reloading p" "p \<noteq> Add_Head" "p \<noteq> Add_Over" "ticket_ok G D s p"
  shows "tickets_ok G D s'"
proof -
  have ok: "ticket_ok G D s' q \<longleftrightarrow> ticket_ok G D s q" for q by (cases q) (simp_all add: same)
  have "takers_in P s' = takers_in P s" if "P = (=) Add_Head \<or> P = (=) Add_Over \<or> P = reloading" for P
    using takers_in_moves [OF s(2,3), of P] that old new by auto
  then show ?thesis using s(1) new
    by (intro tickets_okI [OF s]) (auto simp: same ok tickets_ok_def)
qed

lemma taker_at_fields [simp]:
  "race_tail (taker_at t p s) = race_tail s" "race_head (taker_at t p s) = race_head s"
  "race_count (taker_at t p s) = race_count s" "race_over (taker_at t p s) = race_over s"
  "race_entries (taker_at t p s) = race_entries s" "race_blocks (taker_at t p s) = race_blocks s" "takers (taker_at t p s) = (takers s)[t := p]"
  "putter (taker_at t p s) = putter s" "stored (taker_at t p s) = stored s"
  "returned (taker_at t p s) = returned s" "dropped (taker_at t p s) = dropped s"
  by (simp_all add: taker_at_def)

lemma in_block_fields [simp]:
  "race_tail (in_block i f s) = race_tail s" "race_head (in_block i f s) = race_head s"
  "race_count (in_block i f s) = race_count s" "race_over (in_block i f s) = race_over s"
  "race_entries (in_block i f s) = race_entries s" "takers (in_block i f s) = takers s" "putter (in_block i f s) = putter s" "stored (in_block i f s) = stored s"
  "returned (in_block i f s) = returned s" "dropped (in_block i f s) = dropped s"
  by (simp_all add: in_block_def)

text \<open>The numbers are so small that none of the counters wraps around.\<close>

definition race_small :: "race \<Rightarrow> bool" where
  "race_small s \<longleftrightarrow> unat (race_tail s) < 2 ^ 62 \<and> unat (race_count s) < 2 ^ 62"

lemma unat_Suc_u64: "unat (w :: u64) < 2 ^ 62 \<Longrightarrow> unat (w + 1) = Suc (unat w)" "unat (w :: u64) < 2 ^ 62 \<Longrightarrow> unat (1 + w) = Suc (unat w)"
  using unat_add_no_wrap [of w 1] unat_add_no_wrap [of 1 w] by simp_all

lemma tickets_add_count:
  assumes s: "tickets_ok G D s" "t < length (takers s)" and small: "race_small s" and pc: "takers s ! t = Add_Count ov"
  shows "tickets_ok G D (take_step t s)" "ov \<le> race_count s"
proof -
  have "ticket_ok G D s (takers s ! t)" using s by (simp only: tickets_ok_def)
  then have ov: "unat ov \<le> unat (race_over s)" by (simp add: pc)
  then show le: "ov \<le> race_count s" using over_le_count [OF s(1)] by (simp add: word_le_nat_alt)
  let ?s = "take_step t s" and ?p = "Reload_Tail ov (race_count s)"
  have count: "unat (race_count ?s) = Suc (unat (race_count s))"
    using small by (simp add: take_step_def pc race_small_def unat_Suc_u64)
  have same: "race_tail ?s = race_tail s" "race_head ?s = race_head s" "race_over ?s = race_over s" "takers ?s = (takers s)[t := ?p]"
    using le by (simp_all add: take_step_def pc)
  note moves = takers_in_moves [OF s(2) same(4)]
  note old = tickets_okD [OF s(1)]
  show "tickets_ok G D ?s"
  proof (rule tickets_okI [OF s same(4)])
    show "G \<union> D \<subseteq> {..<unat (race_count ?s)}" using old(1) count by auto
    show "card G = unat (race_head ?s) + takers_in ((=) Add_Head) ?s" "card D = unat (race_over ?s) + takers_in ((=) Add_Over) ?s"
      "unat (race_count ?s) = card G + card D + takers_in reloading ?s"
      using old(4,5,6) moves [of "(=) Add_Head"] moves [of "(=) Add_Over"] moves [of reloading] count same
      by (simp_all add: pc)
    show "G \<inter> D = {}" "\<forall>g \<in> G. g < unat (race_tail ?s) + denied_below D g" using old(3,7) same by simp_all
    have "denied_below D (unat (race_count s)) = card D" using denied_below_bounds(3) [OF tickets_finite(2) [OF s(1)] old(2)] .
    moreover have "unat ov \<le> card D" using ov old(5) by linarith
    ultimately show "ticket_ok G D ?s ?p" using old(1) count by auto
    show "ticket_ok G D ?s (takers s ! j)" if "j < length (takers s)" "ticket_ok G D s (takers s ! j)" for j
      using that count same by (cases "takers s ! j") auto
    fix j ov1 ov' my
    assume j: "j < length (takers s)" "?p = Reload_Tail ov1 my"
    show "takers s ! j \<noteq> Reload_Tail ov' my" using j(2) old(8) [OF j(1)] by auto
  qed
qed

lemma tickets_reload:
  assumes s: "tickets_ok G D s" "t < length (takers s)" and small: "race_small s" and pc: "takers s ! t = Reload_Tail ov my"
  shows "\<exists>G' D'. tickets_ok G' D' (take_step t s)"
proof -
  have my: "unat my < unat (race_count s)" "unat my \<notin> G" "unat my \<notin> D" "unat ov \<le> denied_below D (unat my)"
    using s pc by (auto simp: tickets_ok_def dest!: spec [where x = t])
  note fin = tickets_finite [OF s(1)] and old = tickets_okD [OF s(1)]
  have le: "unat ov \<le> unat my" using my(4) denied_below_bounds(1) [OF fin(2)] by (rule order.trans)
  then have diff: "unat (my - ov) = unat my - unat ov" by (simp add: unat_sub_le word_le_nat_alt)
  let ?s = "take_step t s"
  define granted where "granted \<longleftrightarrow> unat my - unat ov < unat (race_tail s)"
  have "circular_less_than (my - ov) (race_tail s) \<longleftrightarrow> granted"
  proof -
    have "unat my - unat ov \<le> 2 ^ 62" "unat (race_tail s) \<le> 2 ^ 62" using small my(1) unfolding race_small_def by linarith+
    then show ?thesis using circular_less_than_small [of "my - ov" "race_tail s"] diff by (simp only: granted_def)
  qed
  then have same: "race_tail ?s = race_tail s" "race_head ?s = race_head s" "race_over ?s = race_over s" "race_count ?s = race_count s"
      "takers ?s = (takers s)[t := if granted then Add_Head else Add_Over]"
    by (simp_all add: take_step_def pc)
  note moves = takers_in_moves [OF s(2) same(5)]
  define G' D' where "G' = (if granted then insert (unat my) G else G)" and "D' = (if granted then D else insert (unat my) D)"
  have below: "denied_below D g \<le> denied_below D' g" for g
    using denied_below_bounds(2) [OF fin(2)] by (simp add: D'_def)
  have new: "unat my < unat (race_tail s) + denied_below D (unat my)" if granted
    using that my(4) le by (simp add: granted_def)
  have others: "ticket_ok G' D' ?s (takers s ! j)" if j: "j < length (takers s)" "j \<noteq> t" and ok: "ticket_ok G D s (takers s ! j)" for j
  proof (cases "takers s ! j")
    case (Reload_Tail ov' my')
    have "my' \<noteq> my"
    proof
      assume "my' = my"
      then have "j = t" using s pc Reload_Tail j(1) unfolding tickets_ok_def by blast
      then show False using j(2) by simp
    qed
    then have "unat my' \<noteq> unat my" by (simp add: word_unat_eq_iff)
    then show ?thesis using ok Reload_Tail below [of "unat my'"] same by (auto simp: G'_def D'_def)
  qed (use ok same in simp_all)
  have "tickets_ok G' D' ?s"
  proof (rule tickets_okI [OF s same(5)])
    show "G' \<union> D' \<subseteq> {..<unat (race_count ?s)}" "G' \<inter> D' = {}"
      using old(1,3) my same(4) by (auto simp: G'_def D'_def)
    show "card G' = unat (race_head ?s) + takers_in ((=) Add_Head) ?s" "card D' = unat (race_over ?s) + takers_in ((=) Add_Over) ?s"
      "unat (race_count ?s) = card G' + card D' + takers_in reloading ?s"
      using old(4-6) moves [of "(=) Add_Head"] moves [of "(=) Add_Over"] moves [of reloading] same my fin
      by (simp_all add: pc G'_def D'_def split: if_splits)
    show "\<forall>g \<in> G'. g < unat (race_tail ?s) + denied_below D' g"
      using new below same(1) old(7) by (auto simp: G'_def intro: less_le_trans add_left_mono)
  qed (use others in \<open>auto split: if_splits\<close>)
  then show ?thesis by blast
qed

lemma tickets_add_head:
  assumes s: "tickets_ok G D s" "t < length (takers s)" and small: "race_small s" and pc: "takers s ! t = Add_Head"
  shows "tickets_ok G D (take_step t s)" "unat (race_head s) < unat (race_tail s)"
    "unat (race_head (take_step t s)) = Suc (unat (race_head s))"
proof -
  note old = tickets_okD [OF s(1)]
  let ?s = "take_step t s"
  have same: "race_tail ?s = race_tail s" "race_count ?s = race_count s" "race_over ?s = race_over s"
      "takers ?s = (takers s)[t := Load_Entry (race_head s)]"
    by (simp_all add: take_step_def pc)
  note moves = takers_in_moves [OF s(2) same(4)]
  show less: "unat (race_head s) < unat (race_tail s)"
    using granted_le_tail [OF s(1)] moves [of "(=) Add_Head"] by (simp add: pc)
  then have "unat (race_head s) < 2 ^ 62" using small unfolding race_small_def by linarith
  then show head: "unat (race_head ?s) = Suc (unat (race_head s))" by (simp add: take_step_def pc unat_Suc_u64)
  have others: "ticket_ok G D ?s (takers s ! j)" if "ticket_ok G D s (takers s ! j)" for j
    using that same by (cases "takers s ! j") auto
  show "tickets_ok G D ?s"
    by (rule tickets_okI [OF s same(4)])
      (use old others same moves [of "(=) Add_Head"] moves [of "(=) Add_Over"] moves [of reloading] head in \<open>simp_all add: pc\<close>)
qed

lemma tickets_add_over:
  assumes s: "tickets_ok G D s" "t < length (takers s)" and small: "race_small s" and pc: "takers s ! t = Add_Over"
  shows "tickets_ok G D (take_step t s)"
proof -
  note old = tickets_okD [OF s(1)]
  let ?s = "take_step t s"
  have same: "race_tail ?s = race_tail s" "race_count ?s = race_count s" "race_head ?s = race_head s" "takers ?s = (takers s)[t := Out]"
    by (simp_all add: take_step_def pc)
  note moves = takers_in_moves [OF s(2) same(4)]
  have "unat (race_over s) < 2 ^ 62" using over_le_count [OF s(1)] small unfolding race_small_def by linarith
  then have over: "unat (race_over ?s) = Suc (unat (race_over s))" by (simp add: take_step_def pc unat_Suc_u64)
  have others: "ticket_ok G D ?s (takers s ! j)" if "ticket_ok G D s (takers s ! j)" for j
    using that same over by (cases "takers s ! j") auto
  show ?thesis
    by (rule tickets_okI [OF s same(4)])
      (use old others same moves [of "(=) Add_Head"] moves [of "(=) Add_Over"] moves [of reloading] over in \<open>simp_all add: pc\<close>)
qed

lemma tickets_take_step:
  assumes s: "tickets_ok G D s" "t < length (takers s)" and small: "race_small s"
  shows "\<exists>G' D'. tickets_ok G' D' (take_step t s)"
proof (cases "takers s ! t")
  case (Add_Count ov)
  then show ?thesis using tickets_add_count(1) [OF s small] by blast
next
  case (Reload_Tail ov my)
  then show ?thesis using tickets_reload [OF s small] by blast
next
  case Add_Over
  then show ?thesis using tickets_add_over [OF s small] by blast
next
  case Add_Head
  then show ?thesis using tickets_add_head(1) [OF s small] by blast
next
  case (Load_Over tl)
  then show ?thesis using tickets_kept [OF s, of "take_step t s" "Load_Count tl (race_over s)"] by (auto simp: take_step_def)
next
  case (Load_Count tl ov)
  then have "unat ov \<le> unat (race_over s)" using tickets_okD(8) [OF s] by simp
  then have "tickets_ok G D (take_step t s)" using Load_Count
      tickets_kept [OF s, of "take_step t s" "if circular_less_than (race_count s - ov) tl then Add_Count ov else Out"]
    by (auto simp: take_step_def)
  then show ?thesis by blast
next
  case (Load_Entry i)
  then have "tickets_ok G D (take_step t s)"
    using tickets_kept [OF s, of "take_step t s" "if race_entries s (block_no i) then Read_Slot i else Lost"] by (auto simp: take_step_def)
  then show ?thesis by blast
next
  case (Clear_Entry i x)
  then have "tickets_ok G D (take_step t s)" using tickets_kept [OF s, of "take_step t s" "Drop_Block i x"] by (auto simp: take_step_def)
  then show ?thesis by blast
next
  case (Read_Slot i)
  then have "tickets_ok G D (take_step t s)"
    using tickets_kept [OF s, of "take_step t s" "case slot_value s i of None \<Rightarrow> Lost | Some x \<Rightarrow> Destroy_Slot i x"] by (auto simp: take_step_def split: option.splits)
  then show ?thesis by blast
next
  case (Count_Slot i x)
  then have "tickets_ok G D (take_step t s)" using tickets_kept [OF s, of "take_step t s" Out] tickets_kept [OF s, of "take_step t s" "Clear_Entry i x"]
    by (auto simp: take_step_def returns_def Let_def split: prod.splits)
  then show ?thesis by blast
next
  case (Drop_Block i x)
  then have "tickets_ok G D (take_step t s)" using tickets_kept [OF s, of "take_step t s" Out] by (auto simp: take_step_def returns_def)
  then show ?thesis by blast
next
  case (Destroy_Slot i x)
  then have "tickets_ok G D (take_step t s)" using tickets_kept [OF s, of "take_step t s" "Count_Slot i x"] by (auto simp: take_step_def)
  then show ?thesis by blast
next
  case Load_Tail
  then have "tickets_ok G D (take_step t s)" using tickets_kept [OF s, of "take_step t s" "Load_Over (race_tail s)"] by (auto simp: take_step_def)
  then show ?thesis by blast
qed (use s in \<open>auto simp: take_step_def\<close>)

lemma put_step_fields:
  "race_head (put_step memory s) = race_head s" "race_count (put_step memory s) = race_count s" "race_over (put_step memory s) = race_over s"
  "takers (put_step memory s) = takers s" "returned (put_step memory s) = returned s" "dropped (put_step memory s) = dropped s"
  by (simp_all add: put_step_def split: put_pc.splits)

lemma put_step_tail:
  assumes "race_small s"
  shows "unat (race_tail (put_step memory s)) = (case putter s of Put_Tail x \<Rightarrow> Suc (unat (race_tail s)) | _ \<Rightarrow> unat (race_tail s))"
  using assms by (simp add: put_step_def race_small_def unat_Suc_u64 split: put_pc.splits)

lemma tickets_ok_cong:
  assumes "takers s' = takers s" "race_head s' = race_head s" "race_count s' = race_count s" "race_over s' = race_over s"
    and "unat (race_tail s) \<le> unat (race_tail s')" and old: "tickets_ok G D s"
  shows "tickets_ok G D s'"
proof -
  have ok: "ticket_ok G D s' q \<longleftrightarrow> ticket_ok G D s q" for q by (cases q) (simp_all add: assms(3,4))
  have eq: "takers_in P s' = takers_in P s" for P by (simp add: takers_in_def assms(1))
  have "\<forall>g \<in> G. g < unat (race_tail s') + denied_below D g"
    using tickets_okD(7) [OF old] assms(5) by (auto intro: less_le_trans)
  then show ?thesis using old unfolding tickets_ok_def ok assms(1-4) eq by blast
qed

lemma tickets_move:
  assumes "race_move s s'" "tickets_ok G D s" "race_small s"
  shows "\<exists>G' D'. tickets_ok G' D' s'"
  using assms(1)
proof cases
  case (take t)
  then show ?thesis using tickets_take_step [OF assms(2) _ assms(3)] by blast
next
  case (begin_take t)
  then show ?thesis using tickets_kept [OF assms(2), of t s' Load_Tail] by auto
next
  case put
  have "tickets_ok G D s'"
    by (rule tickets_ok_cong [OF _ _ _ _ _ assms(2)])
      (simp_all add: put put_step_fields put_step_tail [OF assms(3)] split: put_pc.splits)
  then show ?thesis by blast
next
  case (begin_put x)
  have "tickets_ok G D s'" by (rule tickets_ok_cong [OF _ _ _ _ _ assms(2)]) (simp_all add: begin_put)
  then show ?thesis by blast
qed

lemma race_move_counts:
  assumes "race_move s s'" "race_small s"
  shows "unat (race_tail s') \<le> Suc (unat (race_tail s))" "unat (race_count s') \<le> Suc (unat (race_count s))"
proof -
  have "unat (race_tail s') \<le> Suc (unat (race_tail s)) \<and> unat (race_count s') \<le> Suc (unat (race_count s))"
    using assms(1)
  proof cases
    case (take t)
    then show ?thesis using unat_Suc_u64(1) [of "race_count s"] assms(2)
      by (cases "takers s ! t") (auto simp: take_step_def returns_def Let_def race_small_def split: prod.splits)
  next
    case put
    then show ?thesis by (auto simp: put_step_fields put_step_tail [OF assms(2)] split: put_pc.splits)
  qed simp_all
  then show "unat (race_tail s') \<le> Suc (unat (race_tail s))" "unat (race_count s') \<le> Suc (unat (race_count s))" by simp_all
qed

section \<open>Elements and blocks\<close>

text \<open>
  A thread holds an index from the access that gives it out to the return of \<open>dequeue\<close>. An index is counted
  once the slot has been counted as dequeued in its block.
\<close>

fun holds :: "u64 \<Rightarrow> take_pc \<Rightarrow> bool" where
  "holds i (Load_Entry j) \<longleftrightarrow> i = j"
| "holds i (Clear_Entry j x) \<longleftrightarrow> i = j"
| "holds i (Read_Slot j) \<longleftrightarrow> i = j"
| "holds i (Destroy_Slot j x) \<longleftrightarrow> i = j"
| "holds i (Count_Slot j x) \<longleftrightarrow> i = j"
| "holds i (Drop_Block j x) \<longleftrightarrow> i = j"
| "holds i _ \<longleftrightarrow> False"

fun uncounted :: "u64 \<Rightarrow> take_pc \<Rightarrow> bool" where
  "uncounted i (Drop_Block j x) \<longleftrightarrow> False"
| "uncounted i (Clear_Entry j x) \<longleftrightarrow> False"
| "uncounted i p \<longleftrightarrow> holds i p"

fun dropping :: "nat \<Rightarrow> take_pc \<Rightarrow> bool" where
  "dropping b (Drop_Block j x) \<longleftrightarrow> block_no j = b"
| "dropping b (Clear_Entry j x) \<longleftrightarrow> block_no j = b"
| "dropping b _ \<longleftrightarrow> False"

fun taker_ok :: "race \<Rightarrow> take_pc \<Rightarrow> bool" where
  "taker_ok s (Load_Entry i) \<longleftrightarrow> slot_value s i = Some (stored s ! unat i)"
| "taker_ok s (Clear_Entry i x) \<longleftrightarrow> x = stored s ! unat i"
| "taker_ok s (Read_Slot i) \<longleftrightarrow> slot_value s i = Some (stored s ! unat i)"
| "taker_ok s (Destroy_Slot i x) \<longleftrightarrow> x = stored s ! unat i"
| "taker_ok s (Count_Slot i x) \<longleftrightarrow> x = stored s ! unat i"
| "taker_ok s (Drop_Block i x) \<longleftrightarrow> x = stored s ! unat i"
| "taker_ok s Lost \<longleftrightarrow> False"
| "taker_ok s _ \<longleftrightarrow> True"

definition indices_ok :: "race \<Rightarrow> bool" where
  "indices_ok s \<longleftrightarrow>
     (\<forall>i. count_list (map fst (returned s)) i + takers_in (holds i) s = of_bool (unat i < unat (race_head s)))"

definition slots_ok :: "race \<Rightarrow> bool" where
  "slots_ok s \<longleftrightarrow> length (stored s) = unat (race_tail s) \<and> (\<forall>b. block_ok (race_blocks s b))
     \<and> (\<forall>j < length (takers s). taker_ok s (takers s ! j))
     \<and> (\<forall>i. unat (race_head s) \<le> unat i \<longrightarrow> unat i < unat (race_tail s) \<longrightarrow> slot_value s i = Some (stored s ! unat i))
     \<and> (case putter s of Put_Tail x \<Rightarrow> slot_value s (race_tail s) = Some x | Put_Lost \<Rightarrow> False | _ \<Rightarrow> True)
     \<and> (\<forall>(i, x) \<in> set (returned s). x = stored s ! unat i)"

definition counted :: "race \<Rightarrow> u64 \<Rightarrow> bool" where
  "counted s i \<longleftrightarrow> unat i < unat (race_head s) \<and> takers_in (uncounted i) s = 0"

definition counted_slots :: "race \<Rightarrow> nat \<Rightarrow> nat set" where
  "counted_slots s b = slot_of ` {i. block_no i = b \<and> counted s i}"

definition blocks_ok :: "race \<Rightarrow> bool" where
  "blocks_ok s \<longleftrightarrow> (\<forall>b. marked Implicit_Context (counted_slots s b) (race_blocks s b)
     \<and> count_list (dropped s) b + takers_in (dropping b) s = of_bool (counted_slots s b = {..<block_size}))"

text \<open>The block of an element that has not been taken has its entry.\<close>

definition entries_ok :: "race \<Rightarrow> bool" where
  "entries_ok s \<longleftrightarrow>
     (\<forall>i. unat i < unat (race_tail s) \<longrightarrow> counted_slots s (block_no i) \<noteq> {..<block_size} \<longrightarrow> race_entries s (block_no i))
     \<and> (case putter s of
          Put_Reset x \<Rightarrow> slot_of (race_tail s) = 0
        | Put_Slot x \<Rightarrow> race_entries s (block_no (race_tail s))
        | Put_Tail x \<Rightarrow> race_entries s (block_no (race_tail s))
        | _ \<Rightarrow> True)"

lemma takers_in_zero: "takers_in P s = 0 \<longleftrightarrow> (\<forall>u < length (takers s). \<not> P (takers s ! u))"
  unfolding takers_in_def by (auto simp: filter_empty_conv all_set_conv_all_nth)

lemma takers_in_mono:
  assumes "\<And>p. P p \<Longrightarrow> Q p"
  shows "takers_in P s \<le> takers_in Q s"
proof -
  have "length (filter P ps) \<le> length (filter Q ps)" for ps using assms by (induction ps) (auto simp: le_SucI)
  then show ?thesis by (simp add: takers_in_def)
qed

lemma takers_in_one:
  assumes "takers_in P s \<le> 1" "t < length (takers s)" "P (takers s ! t)" "u < length (takers s)" "u \<noteq> t"
  shows "\<not> P (takers s ! u)"
proof
  assume "P (takers s ! u)"
  then have "P (takers (taker_at t p s) ! u)" "u < length (takers (taker_at t p s))" for p using assms(4,5) by simp_all
  then have pos: "takers_in P (taker_at t p s) \<noteq> 0" for p using takers_in_zero by blast
  have "P p" for p using pos [of p] takers_in_moves [of t s "taker_at t p s" p P] assms(1-3) by (cases "P p") simp_all
  then have "P = (\<lambda>_. True)" by blast
  then have "length (takers s) \<le> 1" using assms(1) by (simp add: takers_in_def)
  then show False using assms(2,4,5) by simp
qed

lemma held_below_head:
  assumes "indices_ok s" "t < length (takers s)" "holds i (takers s ! t)"
  shows "unat i < unat (race_head s)" "takers_in (holds i) s = 1" "count_list (map fst (returned s)) i = 0"
proof -
  have "takers_in (holds i) s \<noteq> 0" using takers_in_zero assms(2,3) by blast
  moreover have "count_list (map fst (returned s)) i + takers_in (holds i) s = of_bool (unat i < unat (race_head s))"
    using assms(1) by (simp only: indices_ok_def)
  ultimately show "unat i < unat (race_head s)" "takers_in (holds i) s = 1" "count_list (map fst (returned s)) i = 0"
    by (cases "unat i < unat (race_head s)"; simp)+
qed

lemma held_alone:
  assumes "indices_ok s" "t < length (takers s)" "holds i (takers s ! t)" "u < length (takers s)" "u \<noteq> t"
  shows "\<not> holds i (takers s ! u)"
  using takers_in_one [OF _ assms(2), of "holds i"] held_below_head(2) [OF assms(1-3)] assms(3-5) by simp

lemma uncounted_holds: "uncounted i p \<Longrightarrow> holds i p"
  by (cases p) simp_all

lemma slot_of_inj: "block_no i = block_no j \<Longrightarrow> slot_of i = slot_of j \<Longrightarrow> i = j"
  unfolding block_no_def slot_of_mod block_size_def word_unat_eq_iff by (metis div_mult_mod_eq)

lemma in_block_at: "race_blocks (in_block i f s) b = (if b = block_no i then f (race_blocks s b) else race_blocks s b)"
  by (simp add: in_block_def)

lemma slot_value_put:
  assumes "block_ok (race_blocks s (block_no i))"
  shows "slot_value (in_block i (block_put i v) s) j = (if j = i then v else slot_value s j)"
proof (cases "block_no j = block_no i")
  case True
  have "slot_of j = slot_of i \<longleftrightarrow> j = i" using slot_of_inj True by blast
  moreover have "slot_of i < length (slots (race_blocks s (block_no i)))" using assms by (simp add: block_ok_def)
  ultimately show ?thesis using True
    by (auto simp: slot_value_def in_block_at block_at_def block_put_def nth_list_update)
qed (auto simp: slot_value_def in_block_at)

lemma slot_value_slots:
  assumes "\<And>b. slots (race_blocks s' b) = slots (race_blocks s b)"
  shows "slot_value s' j = slot_value s j"
  by (simp add: slot_value_def block_at_def assms)

lemma implicit_block_slots [simp]:
  "slots (fst (set_empty Implicit_Context i b)) = slots b" "slots (reset_empty Implicit_Context b) = slots b"
  by (simp_all add: set_empty_def reset_empty_def)

lemma marked_block_put: "marked Implicit_Context M b \<Longrightarrow> marked Implicit_Context M (block_put i v b)"
  by (simp add: marked_def block_put_def block_ok_def)

subsection \<open>Every step keeps the indices\<close>

lemma indices_kept:
  assumes ok: "indices_ok s" and s: "t < length (takers s)" "takers s' = (takers s)[t := p]"
    and same: "race_head s' = race_head s" "returned s' = returned s" "\<And>i. holds i p = holds i (takers s ! t)"
  shows "indices_ok s'"
proof -
  have "takers_in (holds i) s' = takers_in (holds i) s" for i using takers_in_moves [OF s, of "holds i"] same(3) by simp
  then show ?thesis using ok by (simp add: indices_ok_def same)
qed

lemma indices_taken:
  assumes ok: "indices_ok s" and s: "t < length (takers s)" "takers s' = (takers s)[t := Load_Entry (race_head s)]"
    and "\<And>i. \<not> holds i (takers s ! t)" "unat (race_head s') = Suc (unat (race_head s))" "returned s' = returned s"
  shows "indices_ok s'"
  unfolding indices_ok_def
proof
  fix i
  have "count_list (map fst (returned s)) i + takers_in (holds i) s = of_bool (unat i < unat (race_head s))"
    using ok by (simp only: indices_ok_def)
  moreover have "takers_in (holds i) s' = takers_in (holds i) s + of_bool (i = race_head s)"
    using takers_in_moves [OF s(1,2), of "holds i"] assms(4) by simp
  moreover have "unat i < Suc (unat (race_head s)) \<longleftrightarrow> unat i < unat (race_head s) \<or> i = race_head s"
    by (auto simp: less_Suc_eq word_unat_eq_iff)
  ultimately show "count_list (map fst (returned s')) i + takers_in (holds i) s' = of_bool (unat i < unat (race_head s'))"
    using assms(5,6) by (cases "i = race_head s") simp_all
qed

lemma indices_returned:
  assumes ok: "indices_ok s" and s: "t < length (takers s)" "takers s' = (takers s)[t := Out]"
    and "\<And>j. holds j (takers s ! t) \<longleftrightarrow> j = i" "race_head s' = race_head s" "returned s' = (i, x) # returned s"
  shows "indices_ok s'"
  unfolding indices_ok_def
proof
  fix j
  have "count_list (map fst (returned s)) j + takers_in (holds j) s = of_bool (unat j < unat (race_head s))"
    using ok by (simp only: indices_ok_def)
  moreover have "takers_in (holds j) s' + of_bool (j = i) = takers_in (holds j) s"
    using takers_in_moves [OF s(1,2), of "holds j"] assms(4) by simp
  ultimately show "count_list (map fst (returned s')) j + takers_in (holds j) s' = of_bool (unat j < unat (race_head s'))"
    using assms(5,6) by (cases "j = i") simp_all
qed

text \<open>Most accesses are about the counters only.\<close>

definition idle :: "take_pc \<Rightarrow> bool" where
  "idle p \<longleftrightarrow> (\<forall>i. \<not> holds i p) \<and> p \<noteq> Lost"

definition quiet_step :: "nat \<Rightarrow> take_pc \<Rightarrow> race \<Rightarrow> race \<Rightarrow> bool" where
  "quiet_step t p s s' \<longleftrightarrow> idle p \<and> takers s' = (takers s)[t := p] \<and> race_head s' = race_head s \<and> race_tail s' = race_tail s
     \<and> race_entries s' = race_entries s \<and> race_blocks s' = race_blocks s \<and> putter s' = putter s \<and> stored s' = stored s \<and> returned s' = returned s
     \<and> dropped s' = dropped s"

lemma idle_simps [simp]:
  "idle Out" "idle Load_Tail" "idle (Load_Over a)" "idle (Load_Count a b)" "idle (Add_Count a)" "idle (Reload_Tail a b)"
  "idle Add_Over" "idle Add_Head" "\<not> idle (Read_Slot i)" "\<not> idle (Destroy_Slot i x)" "\<not> idle (Count_Slot i x)"
  "\<not> idle (Load_Entry i)" "\<not> idle (Clear_Entry i x)" "\<not> idle (Drop_Block i x)" "\<not> idle Lost"
  by (simp_all add: idle_def)

lemma idle_facts: "idle p \<Longrightarrow> taker_ok s p" "idle p \<Longrightarrow> \<not> uncounted i p" "idle p \<Longrightarrow> \<not> dropping b p" "idle p \<Longrightarrow> \<not> holds i p"
  by (cases p; simp)+

lemma take_step_quiet:
  assumes s: "tickets_ok G D s" "t < length (takers s)" and small: "race_small s"
    and pc: "idle (takers s ! t) \<and> takers s ! t \<noteq> Add_Head"
  shows "\<exists>p. quiet_step t p s (take_step t s)"
proof (cases "takers s ! t")
  case (Add_Count ov)
  then show ?thesis using tickets_add_count(2) [OF s small]
    by (intro exI [of _ "Reload_Tail ov (race_count s)"]) (simp add: quiet_step_def take_step_def)
next
  case (Load_Count tl ov)
  then show ?thesis
    by (intro exI [of _ "if circular_less_than (race_count s - ov) tl then Add_Count ov else Out"])
      (simp add: quiet_step_def take_step_def)
next
  case (Reload_Tail ov my)
  then show ?thesis
    by (intro exI [of _ "if circular_less_than (my - ov) (race_tail s) then Add_Head else Add_Over"])
      (simp add: quiet_step_def take_step_def)
next
  case Out
  then show ?thesis by (intro exI [of _ Out]) (simp add: quiet_step_def take_step_def list_update_same_conv [THEN iffD2] s(2))
next
  case Load_Tail
  then show ?thesis by (intro exI [of _ "Load_Over (race_tail s)"]) (simp add: quiet_step_def take_step_def)
next
  case (Load_Over tl)
  then show ?thesis by (intro exI [of _ "Load_Count tl (race_over s)"]) (simp add: quiet_step_def take_step_def)
next
  case Add_Over
  then show ?thesis by (intro exI [of _ Out]) (simp add: quiet_step_def take_step_def)
qed (use pc in simp_all)

lemma uncounted_not_full:
  assumes "\<not> counted s i"
  shows "counted_slots s (block_no i) \<noteq> {..<block_size}"
proof -
  have "slot_of i \<notin> counted_slots s (block_no i)" using assms slot_of_inj [of _ i] by (force simp: counted_slots_def)
  moreover have "slot_of i \<in> {..<block_size}" by simp
  ultimately show ?thesis by metis
qed

lemma held_has_entry:
  assumes ok: "indices_ok s" "entries_ok s" "unat (race_head s) \<le> unat (race_tail s)"
    and "t < length (takers s)" "uncounted i (takers s ! t)"
  shows "race_entries s (block_no i)"
proof -
  have "takers_in (uncounted i) s \<noteq> 0" using assms(4,5) by (auto simp: takers_in_zero)
  then have "\<not> counted s i" by (simp add: counted_def)
  moreover have "unat i < unat (race_tail s)"
    using held_below_head(1) [OF ok(1) assms(4) uncounted_holds [OF assms(5)]] ok(3) by linarith
  ultimately show ?thesis using ok(2) uncounted_not_full by (simp add: entries_ok_def)
qed

text \<open>The accesses of a thread, by what they do to the elements and blocks.\<close>

lemma take_step_kinds:
  assumes s: "tickets_ok G D s" "t < length (takers s)" and small: "race_small s" and ok: "slots_ok s" "indices_ok s" "entries_ok s"
  obtains p where "idle (takers s ! t)" "quiet_step t p s (take_step t s)"
  | "takers s ! t = Add_Head" "take_step t s = taker_at t (Load_Entry (race_head s)) (s\<lparr>race_head := race_head s + 1\<rparr>)"
      "unat (race_head s + 1) = Suc (unat (race_head s))" "unat (race_head s) < unat (race_tail s)"
  | i where "takers s ! t = Read_Slot i" "take_step t s = taker_at t (Destroy_Slot i (stored s ! unat i)) s"
  | i x where "takers s ! t = Destroy_Slot i x" "x = stored s ! unat i"
      "take_step t s = taker_at t (Count_Slot i x) (in_block i (block_put i None) s)"
  | i x where "takers s ! t = Count_Slot i x" "x = stored s ! unat i" "snd (set_empty Implicit_Context i (race_blocks s (block_no i)))"
      "take_step t s = taker_at t (Clear_Entry i x) (in_block i (\<lambda>_. fst (set_empty Implicit_Context i (race_blocks s (block_no i)))) s)"
  | i x where "takers s ! t = Count_Slot i x" "x = stored s ! unat i" "\<not> snd (set_empty Implicit_Context i (race_blocks s (block_no i)))"
      "take_step t s = returns t i x (in_block i (\<lambda>_. fst (set_empty Implicit_Context i (race_blocks s (block_no i)))) s)"
  | i x where "takers s ! t = Drop_Block i x" "x = stored s ! unat i"
      "take_step t s = returns t i x (s\<lparr>dropped := block_no i # dropped s\<rparr>)"
  | i where "takers s ! t = Load_Entry i" "take_step t s = taker_at t (Read_Slot i) s"
  | i x where "takers s ! t = Clear_Entry i x" "x = stored s ! unat i"
      "take_step t s = taker_at t (Drop_Block i x) (s\<lparr>race_entries := (race_entries s)(block_no i := False)\<rparr>)"
proof -
  have here: "taker_ok s (takers s ! t)" using ok(1) s(2) by (simp only: slots_ok_def)
  have head: "unat (race_head s) \<le> unat (race_tail s)" using granted_le_tail [OF s(1)] by linarith
  note by_kind = that
  have step: thesis if pc: "idle (takers s ! t) \<and> takers s ! t \<noteq> Add_Head"
    using take_step_quiet [OF s small pc] pc by_kind(1) by blast
  show thesis
  proof (cases "takers s ! t")
    case Add_Head
    moreover have "unat (race_head s) < 2 ^ 62"
      using tickets_add_head(2) [OF s small Add_Head] small unfolding race_small_def by linarith
    ultimately show thesis using that(2) tickets_add_head(2) [OF s small] by (simp add: take_step_def unat_Suc_u64)
  next
    case (Read_Slot i)
    then show thesis using that(3) here by (simp add: take_step_def)
  next
    case (Destroy_Slot i x)
    then show thesis using that(4) here by (simp add: take_step_def)
  next
    case (Count_Slot i x)
    then show thesis using that(5,6) here
      by (cases "snd (set_empty Implicit_Context i (race_blocks s (block_no i)))") (simp_all add: take_step_def Let_def split_def)
  next
    case (Drop_Block i x)
    then show thesis using that(7) here by (simp add: take_step_def)
  next
    case (Load_Entry i)
    then have "race_entries s (block_no i)" by (intro held_has_entry [OF ok(2,3) head s(2)]) simp
    then show thesis using that(8) Load_Entry by (simp add: take_step_def)
  next
    case (Clear_Entry i x)
    then show thesis using that(9) here by (simp add: take_step_def)
  qed (use step here in simp_all)
qed

lemma returns_fields [simp]:
  "race_tail (returns t i x s) = race_tail s" "race_head (returns t i x s) = race_head s"
  "race_entries (returns t i x s) = race_entries s" "race_blocks (returns t i x s) = race_blocks s" "takers (returns t i x s) = (takers s)[t := Out]"
  "putter (returns t i x s) = putter s" "stored (returns t i x s) = stored s"
  "returned (returns t i x s) = (i, x) # returned s" "dropped (returns t i x s) = dropped s"
  by (simp_all add: returns_def)

lemma indices_take_step:
  assumes ok: "indices_ok s" "slots_ok s" "entries_ok s" and s: "tickets_ok G D s" "t < length (takers s)" and small: "race_small s"
  shows "indices_ok (take_step t s)"
proof (cases rule: take_step_kinds [OF s small ok(2,1,3)])
  case (1 p)
  then show ?thesis using indices_kept [OF ok(1) s(2), of "take_step t s" p] by (simp add: quiet_step_def idle_facts(4))
next
  case 2
  then show ?thesis using indices_taken [OF ok(1) s(2), of "take_step t s"] by simp
next
  case (3 i)
  then show ?thesis using indices_kept [OF ok(1) s(2), of "take_step t s" "Destroy_Slot i (stored s ! unat i)"] by simp
next
  case (4 i x)
  then show ?thesis using indices_kept [OF ok(1) s(2), of "take_step t s" "Count_Slot i x"] by simp
next
  case (5 i x)
  then show ?thesis using indices_kept [OF ok(1) s(2), of "take_step t s" "Clear_Entry i x"] by simp
next
  case (6 i x)
  then show ?thesis using indices_returned [OF ok(1) s(2), of "take_step t s" i x] by simp
next
  case (7 i x)
  then show ?thesis using indices_returned [OF ok(1) s(2), of "take_step t s" i x] by simp
next
  case (8 i)
  then show ?thesis using indices_kept [OF ok(1) s(2), of "take_step t s" "Read_Slot i"] by simp
next
  case (9 i x)
  then show ?thesis using indices_kept [OF ok(1) s(2), of "take_step t s" "Drop_Block i x"] by simp
qed

subsection \<open>Every step keeps the elements\<close>

lemma slots_kept:
  assumes ok: "slots_ok s" "indices_ok s" and s: "t < length (takers s)" "takers s' = (takers s)[t := p]"
    and same: "race_tail s' = race_tail s" "stored s' = stored s" "putter s' = putter s" "unat (race_head s) \<le> unat (race_head s')"
    and blocks: "\<And>b. block_ok (race_blocks s' b)"
    and slots: "\<And>i. \<not> holds i (takers s ! t) \<Longrightarrow> slot_value s' i = slot_value s i"
    and head: "unat (race_head s) \<le> unat (race_tail s)"
    and here: "taker_ok s' p" and returned: "\<forall>(i, x) \<in> set (returned s'). (i, x) \<in> set (returned s) \<or> x = stored s ! unat i"
  shows "slots_ok s'"
proof -
  have above: "\<not> holds i (takers s ! t)" if "unat (race_head s) \<le> unat i" for i
    using held_below_head(1) [OF ok(2) s(1), of i] that by linarith
  have "taker_ok s' (takers s' ! j)" if j: "j < length (takers s)" for j
  proof (cases "j = t")
    case False
    have "taker_ok s (takers s ! j)" using ok(1) j by (simp only: slots_ok_def)
    moreover have "slot_value s' i = slot_value s i" if "takers s ! j = Read_Slot i \<or> takers s ! j = Load_Entry i" for i
      using slots [of i] held_alone [OF ok(2) j, of i t] s(1) False that by auto
    ultimately show ?thesis using False s(2) same(2) by (cases "takers s ! j") simp_all
  qed (use s here in simp)
  moreover have "slot_value s' i = Some (stored s ! unat i)" if "unat (race_head s') \<le> unat i" "unat i < unat (race_tail s)" for i
    using that ok(1) same(4) slots [OF above] unfolding slots_ok_def by force
  moreover have "case putter s of Put_Tail x \<Rightarrow> slot_value s' (race_tail s) = Some x | Put_Lost \<Rightarrow> False | _ \<Rightarrow> True"
    using ok(1) slots [OF above [OF head]] by (simp add: slots_ok_def split: put_pc.splits)
  moreover have "\<forall>(i, x) \<in> set (returned s'). x = stored s ! unat i"
    using returned ok(1) unfolding slots_ok_def by fast
  ultimately show ?thesis using ok(1) blocks unfolding slots_ok_def s(2) same(1-3) by simp
qed

lemma slots_take_step:
  assumes ok: "indices_ok s" "slots_ok s" "entries_ok s" and s: "tickets_ok G D s" "t < length (takers s)" and small: "race_small s"
  shows "slots_ok (take_step t s)"
proof -
  have head: "unat (race_head s) \<le> unat (race_tail s)" using granted_le_tail [OF s(1)] by linarith
  have blocks: "block_ok (race_blocks s b)" for b using ok(2) by (simp add: slots_ok_def)
  note keep = slots_kept [OF ok(2,1) s(2) _ _ _ _ _ _ _ head, of "take_step t s"]
  have at: "slots (race_blocks (in_block i (\<lambda>_. fst (set_empty Implicit_Context i (race_blocks s (block_no i)))) s) b)
      = slots (race_blocks s b)" for i b
    by (simp add: in_block_at)
  show ?thesis
  proof (cases rule: take_step_kinds [OF s small ok(2,1,3)])
    case (1 p)
    then show ?thesis using blocks
      by (intro keep [of p]) (auto simp: quiet_step_def idle_facts(1) intro: slot_value_slots)
  next
    case 2
    have "slot_value s (race_head s) = Some (stored s ! unat (race_head s))"
      using ok(2) 2(4) by (simp add: slots_ok_def)
    then show ?thesis using blocks 2
      by (intro keep [of "Load_Entry (race_head s)"]) (auto simp: slot_value_def)
  next
    case (3 i)
    then show ?thesis using blocks by (intro keep [of "Destroy_Slot i (stored s ! unat i)"]) (auto simp: slot_value_def)
  next
    case (4 i x)
    then show ?thesis using blocks
      by (intro keep [of "Count_Slot i x"]) (auto simp: slot_value_slots [of "taker_at t p s'" s' for p s'] slot_value_put in_block_at)
  next
    case (5 i x)
    then show ?thesis using blocks at
      by (intro keep [of "Clear_Entry i x"]) (auto simp: in_block_at intro: slot_value_slots)
  next
    case (6 i x)
    then show ?thesis using blocks at
      by (intro keep [of Out]) (auto simp: in_block_at intro: slot_value_slots)
  next
    case (7 i x)
    then show ?thesis using blocks
      by (intro keep [of Out]) (auto intro: slot_value_slots)
  next
    case (8 i)
    have "slot_value s i = Some (stored s ! unat i)" using ok(2) s(2) 8(1) by (auto simp: slots_ok_def dest!: spec [where x = t])
    then show ?thesis using blocks 8 by (intro keep [of "Read_Slot i"]) (auto simp: slot_value_def)
  next
    case (9 i x)
    then show ?thesis using blocks by (intro keep [of "Drop_Block i x"]) (auto intro: slot_value_slots)
  qed
qed

subsection \<open>Every step keeps the blocks\<close>

lemma counted_kept:
  assumes "t < length (takers s)" "takers s' = (takers s)[t := p]" "race_head s' = race_head s"
    and "\<And>i. uncounted i p = uncounted i (takers s ! t)"
  shows "counted_slots s' b = counted_slots s b"
proof -
  have "takers_in (uncounted i) s' = takers_in (uncounted i) s" for i
    using takers_in_moves [OF assms(1,2), of "uncounted i"] assms(4) by simp
  then show ?thesis by (simp add: counted_slots_def counted_def assms(3))
qed

lemma blocks_kept:
  assumes ok: "blocks_ok s" and s: "t < length (takers s)" "takers s' = (takers s)[t := p]"
    and same: "dropped s' = dropped s" "\<And>b. counted_slots s' b = counted_slots s b" "\<And>b. dropping b p = dropping b (takers s ! t)"
    and blocks: "\<And>b M. marked Implicit_Context M (race_blocks s b) \<Longrightarrow> marked Implicit_Context M (race_blocks s' b)"
  shows "blocks_ok s'"
proof -
  have "takers_in (dropping b) s' = takers_in (dropping b) s" for b
    using takers_in_moves [OF s, of "dropping b"] same(3) by simp
  then show ?thesis using ok blocks by (simp add: blocks_ok_def same)
qed

lemma counted_taken:
  assumes "t < length (takers s)" "takers s' = (takers s)[t := Load_Entry (race_head s)]"
    and "\<And>i. \<not> uncounted i (takers s ! t)" "unat (race_head s') = Suc (unat (race_head s))"
  shows "counted_slots s' b = counted_slots s b"
proof -
  have "takers_in (uncounted i) s' = takers_in (uncounted i) s + of_bool (i = race_head s)" for i
    using takers_in_moves [OF assms(1,2), of "uncounted i"] assms(3) by simp
  moreover have "unat i < Suc (unat (race_head s)) \<longleftrightarrow> unat i < unat (race_head s) \<or> i = race_head s" for i
    by (auto simp: less_Suc_eq word_unat_eq_iff)
  ultimately have "counted s' i = counted s i" for i using assms(4) by (auto simp: counted_def)
  then show ?thesis by (simp add: counted_slots_def)
qed

lemma counted_more:
  assumes ok: "indices_ok s" and s: "t < length (takers s)" "takers s ! t = Count_Slot i x"
    and s': "takers s' = (takers s)[t := p]" "race_head s' = race_head s" "\<And>j. \<not> uncounted j p"
  shows "counted_slots s' b = (if b = block_no i then insert (slot_of i) (counted_slots s b) else counted_slots s b)"
    "slot_of i \<notin> counted_slots s (block_no i)"
proof -
  have held: "holds i (takers s ! t)" by (simp add: s(2))
  have pos: "takers_in (uncounted i) s \<noteq> 0" using takers_in_zero [of "uncounted i" s] s by auto
  have "takers_in (uncounted i) s \<le> takers_in (holds i) s" by (rule takers_in_mono [OF uncounted_holds])
  then have one: "takers_in (uncounted i) s = 1" using pos held_below_head(2) [OF ok s(1) held] by linarith
  have moves: "takers_in (uncounted j) s' + of_bool (j = i) = takers_in (uncounted j) s" for j
    using takers_in_moves [OF s(1) s'(1), of "uncounted j"] s(2) s'(3) by simp
  have "counted s' j \<longleftrightarrow> counted s j \<or> j = i" for j
    using moves [of j] one held_below_head(1) [OF ok s(1) held] s'(2) by (cases "j = i") (auto simp: counted_def)
  then have "{j. block_no j = b \<and> counted s' j} = (if b = block_no i then insert i else id) {j. block_no j = b \<and> counted s j}"
    by auto
  then show "counted_slots s' b = (if b = block_no i then insert (slot_of i) (counted_slots s b) else counted_slots s b)"
    by (simp add: counted_slots_def)
  have "\<not> counted s i" using pos by (simp add: counted_def)
  then show "slot_of i \<notin> counted_slots s (block_no i)" unfolding counted_slots_def using slot_of_inj by fastforce
qed

lemma blocks_counted:
  assumes ok: "blocks_ok s" "indices_ok s" and s: "t < length (takers s)" "takers s ! t = Count_Slot i x"
    and s': "takers s' = (takers s)[t := p]" "race_head s' = race_head s" "dropped s' = dropped s"
    and blocks: "race_blocks s' = race_blocks (in_block i (\<lambda>_. fst (set_empty Implicit_Context i (race_blocks s (block_no i)))) s)"
    and p: "p = (if snd (set_empty Implicit_Context i (race_blocks s (block_no i))) then Clear_Entry i x else Out)"
  shows "blocks_ok s'"
  unfolding blocks_ok_def
proof
  fix b
  have p': "\<not> uncounted j p" for j by (simp add: p)
  note more = counted_more [OF ok(2) s s'(1,2) p']
  have old: "marked Implicit_Context (counted_slots s b) (race_blocks s b)"
      "count_list (dropped s) b + takers_in (dropping b) s = of_bool (counted_slots s b = {..<block_size})"
    using ok(1) by (simp_all add: blocks_ok_def)
  have moves: "takers_in (dropping b) s' = takers_in (dropping b) s + of_bool (dropping b p)"
    using takers_in_moves [OF s(1) s'(1), of "dropping b"] s(2) by simp
  show "marked Implicit_Context (counted_slots s' b) (race_blocks s' b)
     \<and> count_list (dropped s') b + takers_in (dropping b) s' = of_bool (counted_slots s' b = {..<block_size})"
  proof (cases "b = block_no i")
    case True
    have "slot_of i \<notin> counted_slots s b" using more(2) True by simp
    note mark = marked_set_empty [OF old(1) this]
    have "slot_of i \<in> {..<block_size}" by simp
    then have "counted_slots s b \<noteq> {..<block_size}" using \<open>slot_of i \<notin> counted_slots s b\<close> by metis
    then have none: "count_list (dropped s) b = 0" "takers_in (dropping b) s = 0" using old(2) by simp_all
    have slots: "counted_slots s' b = insert (slot_of i) (counted_slots s b)" using True more(1) by simp
    have block: "race_blocks s' b = fst (set_empty Implicit_Context i (race_blocks s b))"
      unfolding blocks in_block_at True by simp
    have "dropping b p \<longleftrightarrow> counted_slots s' b = {..<block_size}"
      unfolding p slots using mark(2) True by (cases "snd (set_empty Implicit_Context i (race_blocks s b))") simp_all
    then have "count_list (dropped s') b + takers_in (dropping b) s' = of_bool (counted_slots s' b = {..<block_size})"
      using moves none s'(3) by simp
    then show ?thesis using mark(1) unfolding slots block by blast
  next
    case False
    then have slots: "counted_slots s' b = counted_slots s b" using more(1) by simp
    have block: "race_blocks s' b = race_blocks s b" by (simp only: blocks in_block_at False if_False)
    have "\<not> dropping b p" using False by (simp add: p)
    then show ?thesis using old moves unfolding slots block s'(3) by simp
  qed
qed

lemma blocks_take_step:
  assumes ok: "indices_ok s" "slots_ok s" "blocks_ok s" "entries_ok s" and s: "tickets_ok G D s" "t < length (takers s)" and small: "race_small s"
  shows "blocks_ok (take_step t s)"
proof (cases rule: take_step_kinds [OF s small ok(2,1,4)])
  case (1 p)
  then have p: "takers (take_step t s) = (takers s)[t := p]" "race_head (take_step t s) = race_head s"
      "dropped (take_step t s) = dropped s" "race_blocks (take_step t s) = race_blocks s" "idle p"
    by (simp_all add: quiet_step_def)
  have "counted_slots (take_step t s) b = counted_slots s b" for b
    using p(5) 1(1) by (intro counted_kept [OF s(2) p(1,2)]) (simp add: idle_facts)
  then show ?thesis using p(5) 1(1) by (intro blocks_kept [OF ok(3) s(2) p(1,3)]) (simp_all add: idle_facts p(4))
next
  case 2
  have "counted_slots (take_step t s) b = counted_slots s b" for b
    using counted_taken [OF s(2), of "take_step t s" b] 2 by simp
  then show ?thesis using 2 by (intro blocks_kept [OF ok(3) s(2), of _ "Load_Entry (race_head s)"]) simp_all
next
  case (3 i)
  then have "counted_slots (take_step t s) b = counted_slots s b" for b
    by (intro counted_kept [OF s(2), of _ "Destroy_Slot i (stored s ! unat i)"]) simp_all
  then show ?thesis using 3
    by (intro blocks_kept [OF ok(3) s(2), of _ "Destroy_Slot i (stored s ! unat i)"]) simp_all
next
  case (4 i x)
  then have "counted_slots (take_step t s) b = counted_slots s b" for b
    by (intro counted_kept [OF s(2), of _ "Count_Slot i x"]) simp_all
  then show ?thesis using 4
    by (intro blocks_kept [OF ok(3) s(2), of _ "Count_Slot i x"]) (auto simp: in_block_at marked_block_put)
next
  case (5 i x)
  show ?thesis by (rule blocks_counted [OF ok(3,1) s(2) 5(1), of _ "Clear_Entry i x"]) (use 5 in simp_all)
next
  case (6 i x)
  show ?thesis by (rule blocks_counted [OF ok(3,1) s(2) 6(1), of _ Out]) (use 6 in simp_all)
next
  case (7 i x)
  let ?s = "take_step t s"
  have to: "takers ?s = (takers s)[t := Out]" by (simp add: 7)
  have same: "counted_slots ?s b = counted_slots s b" for b by (rule counted_kept [OF s(2) to]) (simp_all add: 7)
  have "takers_in (dropping b) ?s + of_bool (b = block_no i) = takers_in (dropping b) s" for b
    using takers_in_moves [OF s(2) to, of "dropping b"] 7(1) by (simp add: eq_commute)
  moreover have "count_list (dropped ?s) b = count_list (dropped s) b + of_bool (b = block_no i)" for b by (simp add: 7(3))
  ultimately have "count_list (dropped ?s) b + takers_in (dropping b) ?s = count_list (dropped s) b + takers_in (dropping b) s" for b
    by (metis add.assoc add.commute)
  then show ?thesis using ok(3) by (simp add: blocks_ok_def same) (simp add: 7)
next
  case (8 i)
  then have "counted_slots (take_step t s) b = counted_slots s b" for b
    by (intro counted_kept [OF s(2), of _ "Read_Slot i"]) simp_all
  then show ?thesis using 8 by (intro blocks_kept [OF ok(3) s(2), of _ "Read_Slot i"]) simp_all
next
  case (9 i x)
  then have "counted_slots (take_step t s) b = counted_slots s b" for b
    by (intro counted_kept [OF s(2), of _ "Drop_Block i x"]) simp_all
  then show ?thesis using 9 by (intro blocks_kept [OF ok(3) s(2), of _ "Drop_Block i x"]) simp_all
qed

subsection \<open>Every step keeps the entries\<close>

lemma block_index:
  assumes "block_size * b + k < 2 ^ 64" "k < block_size"
  shows "block_no (of_nat (block_size * b + k)) = b" "slot_of (of_nat (block_size * b + k)) = k"
    "unat (of_nat (block_size * b + k) :: u64) = block_size * b + k"
proof -
  show u: "unat (of_nat (block_size * b + k) :: u64) = block_size * b + k" using assms(1) by (rule unat_of_nat_u64)
  show "block_no (of_nat (block_size * b + k)) = b" unfolding block_no_def u using assms(2) by (simp add: block_size_def)
  show "slot_of (of_nat (block_size * b + k)) = k" unfolding slot_of_mod u using assms(2) by (simp add: block_size_def)
qed

lemma all_counted:
  assumes "counted_slots s b = {..<block_size}"
  shows "block_no i = b \<Longrightarrow> counted s i" "block_size * Suc b \<le> unat (race_head s)"
proof -
  have in_block: "counted s i" if "block_no i = b" for i
  proof -
    have "slot_of i \<in> counted_slots s b" unfolding assms by simp
    then obtain j where "slot_of i = slot_of j" "block_no j = b" "counted s j" by (auto simp: counted_slots_def)
    then show ?thesis using slot_of_inj [of i j] that by simp
  qed
  then show "block_no i = b \<Longrightarrow> counted s i" .
  have "0 \<in> counted_slots s b" unfolding assms by (simp add: block_size_def)
  then obtain j where "block_no j = b" by (auto simp: counted_slots_def)
  then have "block_size * b \<le> unat j" by (auto simp: block_no_def)
  moreover have "unat j < 2 ^ 64" by (rule unat_u64_less_power)
  moreover have "unat j < block_size * Suc b" using \<open>block_no j = b\<close> by (auto simp: block_no_def block_size_def)
  moreover have "(2 :: nat) ^ 64 = block_size * 2 ^ 59" by (simp add: block_size_def)
  ultimately have "block_size * b < block_size * 2 ^ 59" by linarith
  then have "b < 2 ^ 59" by simp
  then have "block_size * b + 31 < 2 ^ 64" by (simp add: block_size_def)
  note last = block_index [OF this]
  have "counted s (of_nat (block_size * b + 31))" using in_block last(1) by (simp add: block_size_def)
  then have "block_size * b + 31 < unat (race_head s)" using last(3) by (simp add: counted_def block_size_def)
  then show "block_size * Suc b \<le> unat (race_head s)" by (simp add: block_size_def)
qed

lemma take_step_counted:
  assumes ok: "indices_ok s" "slots_ok s" "entries_ok s" and s: "tickets_ok G D s" "t < length (takers s)" and small: "race_small s"
  shows "counted_slots s b \<subseteq> counted_slots (take_step t s) b"
proof -
  have step: "counted_slots s b \<subseteq> counted_slots s' b"
    if s': "takers s' = (takers s)[t := p]" "unat (race_head s) \<le> unat (race_head s')"
      and p: "\<And>i. uncounted i p \<Longrightarrow> uncounted i (takers s ! t) \<or> i = race_head s" for s' p
  proof -
    have "counted s' i" if "counted s i" for i
    proof -
      have none: "takers_in (uncounted i) s = 0" "unat i < unat (race_head s)" using that by (simp_all add: counted_def)
      then have "\<not> uncounted i (takers s ! t)" using s(2) by (simp add: takers_in_zero)
      then have "\<not> uncounted i p" using p [of i] none(2) by auto
      then show ?thesis using takers_in_moves [OF s(2) s'(1), of "uncounted i"] none s'(2) by (simp add: counted_def)
    qed
    then show ?thesis by (auto simp: counted_slots_def)
  qed
  show ?thesis
  proof (cases rule: take_step_kinds [OF s small ok(2,1,3)])
    case (1 p)
    then show ?thesis by (intro step [of _ p]) (simp_all add: quiet_step_def idle_facts)
  next
    case 2
    then show ?thesis by (intro step [of _ "Load_Entry (race_head s)"]) simp_all
  next
    case (3 i)
    then show ?thesis by (intro step [of _ "Destroy_Slot i (stored s ! unat i)"]) simp_all
  next
    case (4 i x)
    then show ?thesis by (intro step [of _ "Count_Slot i x"]) simp_all
  next
    case (5 i x)
    then show ?thesis by (intro step [of _ "Clear_Entry i x"]) simp_all
  next
    case (6 i x)
    then show ?thesis by (intro step [of _ Out]) simp_all
  next
    case (7 i x)
    then show ?thesis by (intro step [of _ Out]) simp_all
  next
    case (8 i)
    then show ?thesis by (intro step [of _ "Read_Slot i"]) simp_all
  next
    case (9 i x)
    then show ?thesis by (intro step [of _ "Drop_Block i x"]) simp_all
  qed
qed

lemma entries_take_step:
  assumes ok: "indices_ok s" "slots_ok s" "blocks_ok s" "entries_ok s"
    and s: "tickets_ok G D s" "t < length (takers s)" and small: "race_small s"
  shows "entries_ok (take_step t s)"
proof -
  let ?s = "take_step t s"
  have head: "unat (race_head s) \<le> unat (race_tail s)" using granted_le_tail [OF s(1)] by linarith
  have full: "counted_slots s b = {..<block_size}" if "\<not> race_entries ?s b" "race_entries s b" for b
  proof (cases rule: take_step_kinds [OF s small ok(2,1,4)])
    case (9 i x)
    then have b: "b = block_no i" using that by (simp split: if_splits)
    have "takers_in (dropping b) s \<noteq> 0" using s(2) 9(1) b by (auto simp: takers_in_zero)
    moreover have "count_list (dropped s) b + takers_in (dropping b) s = of_bool (counted_slots s b = {..<block_size})"
      using ok(3) by (simp add: blocks_ok_def)
    ultimately show ?thesis by (cases "counted_slots s b = {..<block_size}") simp_all
  qed (use that in \<open>simp_all add: quiet_step_def\<close>)
  have same: "race_tail ?s = race_tail s" "putter ?s = putter s"
    by (cases rule: take_step_kinds [OF s small ok(2,1,4)]; simp add: quiet_step_def)+
  have grows: "counted_slots s b \<subseteq> counted_slots ?s b" for b
    using take_step_counted [OF ok(1,2,4) s small] .
  have "counted_slots ?s b = {..<block_size}" if "counted_slots s b = {..<block_size}" for b
    using grows [of b] that by (auto simp: counted_slots_def)
  then have "race_entries ?s (block_no i)" if "unat i < unat (race_tail s)" "counted_slots ?s (block_no i) \<noteq> {..<block_size}" for i
    using ok(4) full [of "block_no i"] that by (auto simp: entries_ok_def)
  moreover have "race_entries ?s (block_no (race_tail s))" if "race_entries s (block_no (race_tail s))"
  proof (rule ccontr)
    assume "\<not> race_entries ?s (block_no (race_tail s))"
    then have "counted s (race_tail s)" using all_counted(1) [OF full] that by simp
    then show False using head by (simp add: counted_def)
  qed
  ultimately show ?thesis using ok(4) by (simp add: entries_ok_def same split: put_pc.splits)
qed

subsection \<open>The producer's thread\<close>

lemma put_step_kinds:
  assumes ok: "slots_ok s" "entries_ok s" and s: "tickets_ok G D s" and small: "race_small s"
  obtains "put_step memory s = s"
  | p where "put_step memory s = s\<lparr>putter := p\<rparr>"
      "p = Put_Out \<or> (\<exists>x. p = Put_Slot x) \<and> slot_of (race_tail s) \<noteq> 0 \<or> (\<exists>x. p = Put_Reset x) \<and> slot_of (race_tail s) = 0"
  | x where "put_step memory s = (in_block (race_tail s) (reset_empty Implicit_Context) s)\<lparr>putter := Put_Entry x\<rparr>"
      "slot_of (race_tail s) = 0"
  | x where "put_step memory s = s\<lparr>race_entries := (race_entries s)(block_no (race_tail s) := True), putter := Put_Slot x\<rparr>"
  | x where "race_entries s (block_no (race_tail s))"
      "put_step memory s = (in_block (race_tail s) (block_put (race_tail s) (Some x)) s)\<lparr>putter := Put_Tail x\<rparr>"
  | x where "putter s = Put_Tail x" "slot_value s (race_tail s) = Some x" "race_entries s (block_no (race_tail s))"
      "put_step memory s = s\<lparr>race_tail := 1 + race_tail s, putter := Put_Out, stored := stored s @ [x]\<rparr>"
proof -
  note by_kind = that
  have le: "unat (race_head s) \<le> unat (race_tail s)" using granted_le_tail [OF s] by linarith
  moreover have "unat (race_head s) \<le> 2 ^ 62" "unat (race_tail s) \<le> 2 ^ 62" using le small unfolding race_small_def by linarith+
  ultimately have fits: "\<not> circular_less_than (race_tail s) (race_head s)" by (simp add: circular_less_than_small)
  have zero: "race_tail s AND (of_nat block_size - 1) = 0 \<longleftrightarrow> slot_of (race_tail s) = 0"
    by (simp add: slot_of_def block_size_def word_unat_eq_iff)
  show thesis
  proof (cases "putter s")
    case (Put_Start x)
    define p where "p = (if slot_of (race_tail s) \<noteq> 0 then Put_Slot x
      else if circular_less_than (race_head s) (race_tail s + of_nat block_size) \<and> memory then Put_Reset x else Put_Out)"
    have "put_step memory s = s\<lparr>putter := p\<rparr>" using Put_Start fits by (simp add: put_step_def zero p_def)
    then show thesis using by_kind(2) [of p] by (simp add: p_def split: if_splits)
  next
    case (Put_Reset x)
    then show thesis using by_kind(3) ok(2) by (simp add: put_step_def entries_ok_def)
  next
    case (Put_Entry x)
    then show thesis using by_kind(4) by (simp add: put_step_def)
  next
    case (Put_Slot x)
    then show thesis using by_kind(5) ok(2) by (simp add: put_step_def entries_ok_def)
  next
    case (Put_Tail x)
    then show thesis using by_kind(6) ok by (simp add: put_step_def slots_ok_def entries_ok_def)
  qed (use by_kind(1) in \<open>simp_all add: put_step_def\<close>)
qed

lemma slot_value_fields [simp]:
  "slot_value (s\<lparr>putter := p\<rparr>) i = slot_value s i" "slot_value (s\<lparr>race_tail := k, putter := p, stored := xs\<rparr>) i = slot_value s i"
  "slot_value (s\<lparr>race_entries := f\<rparr>) i = slot_value s i"
  by (simp_all add: slot_value_def)

text \<open>What the producer's thread writes is above the indices that threads hold.\<close>

lemma slots_put_kept:
  assumes ok: "slots_ok s" "indices_ok s" and head: "unat (race_head s) \<le> unat (race_tail s)"
    and same: "takers s' = takers s" "race_head s' = race_head s" "returned s' = returned s"
    and "length (stored s') = unat (race_tail s')" "\<And>b. block_ok (race_blocks s' b)"
    and slots: "\<And>i. unat i < unat (race_tail s) \<Longrightarrow> slot_value s' i = slot_value s i"
    and old: "\<And>k. k < unat (race_tail s) \<Longrightarrow> stored s' ! k = stored s ! k"
    and new: "\<And>i. unat (race_tail s) \<le> unat i \<Longrightarrow> unat i < unat (race_tail s') \<Longrightarrow> slot_value s' i = Some (stored s' ! unat i)"
    and put: "case putter s' of Put_Tail x \<Rightarrow> slot_value s' (race_tail s') = Some x | Put_Lost \<Rightarrow> False | _ \<Rightarrow> True"
  shows "slots_ok s'"
proof -
  have "taker_ok s' (takers s ! j)" if j: "j < length (takers s)" for j
  proof -
    have "unat i < unat (race_tail s)" if "holds i (takers s ! j)" for i
      using held_below_head(1) [OF ok(2) j that] head by linarith
    moreover have "taker_ok s (takers s ! j)" using ok(1) j by (simp only: slots_ok_def)
    ultimately show ?thesis using slots old by (cases "takers s ! j") simp_all
  qed
  moreover have "slot_value s' i = Some (stored s' ! unat i)" if "unat (race_head s) \<le> unat i" "unat i < unat (race_tail s')" for i
  proof (cases "unat i < unat (race_tail s)")
    case True
    then show ?thesis using ok(1) that(1) slots old by (simp add: slots_ok_def)
  qed (use new that in simp)
  moreover have "x = stored s' ! unat i" if "(i, x) \<in> set (returned s)" for i x
  proof -
    have "i \<in> fst ` set (returned s)" using that by force
    then have "count_list (map fst (returned s)) i \<noteq> 0" by (simp add: count_list_0_iff)
    moreover have "count_list (map fst (returned s)) i + takers_in (holds i) s = of_bool (unat i < unat (race_head s))"
      using ok(2) by (simp only: indices_ok_def)
    ultimately have "unat i < unat (race_head s)" by (cases "unat i < unat (race_head s)") simp_all
    then have "stored s' ! unat i = stored s ! unat i" using old head by simp
    then show ?thesis using that ok(1) by (auto simp: slots_ok_def)
  qed
  ultimately show ?thesis unfolding slots_ok_def same using assms(7,8) put by auto
qed

lemma slots_put_step:
  assumes ok: "slots_ok s" "indices_ok s" "entries_ok s" and s: "tickets_ok G D s" and small: "race_small s"
  shows "slots_ok (put_step memory s)"
proof -
  have head: "unat (race_head s) \<le> unat (race_tail s)" using granted_le_tail [OF s] by linarith
  have old: "\<And>b. block_ok (race_blocks s b)" "length (stored s) = unat (race_tail s)" using ok(1) by (simp_all add: slots_ok_def)
  note keep = slots_put_kept [OF ok(1,2) head]
  show ?thesis
  proof (cases rule: put_step_kinds [OF ok(1,3) s small, of memory])
    case 1
    then show ?thesis using ok by simp
  next
    case (2 p)
    show ?thesis by (rule keep) (use 2 old in auto)
  next
    case (3 x)
    have same: "slot_value (in_block i (reset_empty Implicit_Context) s) j = slot_value s j" for i j
      by (rule slot_value_slots) (simp add: in_block_at)
    show ?thesis by (rule keep) (use 3 old same in \<open>auto simp: in_block_at\<close>)
  next
    case (4 x)
    show ?thesis by (rule keep) (use 4 old in auto)
  next
    case (5 x)
    show ?thesis by (rule keep) (use 5 old in \<open>auto simp: in_block_at slot_value_put\<close>)
  next
    case (6 x)
    have tail: "unat (1 + race_tail s) = Suc (unat (race_tail s))" using small by (simp add: race_small_def unat_Suc_u64)
    have "i = race_tail s" if "unat (race_tail s) \<le> unat i" "unat i < Suc (unat (race_tail s))" for i
      using that by (simp add: word_unat_eq_iff)
    then show ?thesis by (intro keep) (use 6 old tail in \<open>auto simp: nth_append\<close>)
  qed
qed

lemma blocks_same_counted:
  assumes ok: "blocks_ok s" and "takers s' = takers s" "race_head s' = race_head s" "dropped s' = dropped s"
    and "\<And>b. marked Implicit_Context (counted_slots s b) (race_blocks s b)
      \<Longrightarrow> marked Implicit_Context (counted_slots s b) (race_blocks s' b)"
  shows "blocks_ok s'"
proof -
  have "counted_slots s' b = counted_slots s b" "takers_in (dropping b) s' = takers_in (dropping b) s" for b
    by (simp_all add: counted_slots_def counted_def takers_in_def assms(2,3))
  then show ?thesis using ok assms(5) by (simp add: blocks_ok_def assms(4))
qed

text \<open>A block is reset when the last one has been filled, so none of its slots has been given out.\<close>

lemma block_fresh:
  assumes "slot_of i = 0" "unat (race_head s) \<le> unat i"
  shows "counted_slots s (block_no i) = {}"
proof -
  have "\<not> counted s j" if "block_no j = block_no i" for j
  proof -
    have "unat i \<le> unat j" using that assms(1) unfolding block_no_def slot_of_mod block_size_def
      by (metis add_cancel_right_right div_mult_mod_eq le_add1)
    then show ?thesis using assms(2) by (simp add: counted_def)
  qed
  then show ?thesis by (auto simp: counted_slots_def)
qed

lemma blocks_put_step:
  assumes ok: "slots_ok s" "blocks_ok s" "entries_ok s" and s: "tickets_ok G D s" and small: "race_small s"
  shows "blocks_ok (put_step memory s)"
proof -
  have head: "unat (race_head s) \<le> unat (race_tail s)" using granted_le_tail [OF s] by linarith
  have old: "\<And>b. block_ok (race_blocks s b)" using ok(1) by (simp add: slots_ok_def)
  note keep = blocks_same_counted [OF ok(2)]
  show ?thesis
  proof (cases rule: put_step_kinds [OF ok(1,3) s small, of memory])
    case 1
    then show ?thesis using ok by simp
  next
    case (3 x)
    then show ?thesis
      using block_fresh [OF 3(2) head] marked_reset [OF old] by (intro keep) (auto simp: in_block_at)
  next
    case (5 x)
    then show ?thesis by (intro keep) (auto simp: in_block_at marked_block_put)
  qed (intro keep; simp)+
qed

text \<open>The slot of the tail has not been given out, so that its block is still there when it is not its first slot.\<close>

lemma tail_has_entry:
  assumes ok: "entries_ok s" and head: "unat (race_head s) \<le> unat (race_tail s)" and "slot_of (race_tail s) \<noteq> 0"
  shows "race_entries s (block_no (race_tail s))"
proof -
  let ?i = "race_tail s - 1"
  have "unat (race_tail s) \<noteq> 0" using assms(3) by (auto simp: slot_of_mod)
  then have i: "unat ?i = unat (race_tail s) - 1" by (subst unat_sub_le) (simp_all add: word_le_nat_alt)
  moreover have "(unat (race_tail s) - 1) div 32 = unat (race_tail s) div 32"
    using assms(3) unfolding slot_of_mod by (cases "unat (race_tail s)") (simp_all add: div_Suc)
  ultimately have "block_no ?i = block_no (race_tail s)" by (simp add: block_no_def block_size_def)
  moreover have "unat ?i < unat (race_tail s)" using i \<open>unat (race_tail s) \<noteq> 0\<close> by linarith
  moreover have "counted_slots s (block_no (race_tail s)) \<noteq> {..<block_size}"
    using head by (intro uncounted_not_full) (simp add: counted_def)
  ultimately show ?thesis using ok unfolding entries_ok_def by metis
qed

lemma entries_put_step:
  assumes ok: "slots_ok s" "entries_ok s" and s: "tickets_ok G D s" and small: "race_small s"
  shows "entries_ok (put_step memory s)"
proof -
  have head: "unat (race_head s) \<le> unat (race_tail s)" using granted_le_tail [OF s] by linarith
  have counted: "counted_slots (put_step memory s) b = counted_slots s b" for b
    by (simp add: counted_slots_def counted_def takers_in_def put_step_fields)
  have old: "race_entries s (block_no i)" if "unat i < unat (race_tail s)" "counted_slots s (block_no i) \<noteq> {..<block_size}" for i
    using ok(2) that by (simp add: entries_ok_def)
  show ?thesis
  proof (cases rule: put_step_kinds [OF ok s small, of memory])
    case 1
    then show ?thesis using ok by simp
  next
    case (2 p)
    then show ?thesis using old tail_has_entry [OF ok(2) head] counted by (auto simp: entries_ok_def)
  next
    case (3 x)
    then show ?thesis using old counted by (simp add: entries_ok_def)
  next
    case (4 x)
    then show ?thesis using old counted by (simp add: entries_ok_def)
  next
    case (5 x)
    then show ?thesis using old counted by (simp add: entries_ok_def)
  next
    case (6 x)
    have tail: "unat (1 + race_tail s) = Suc (unat (race_tail s))" using small by (simp add: race_small_def unat_Suc_u64)
    have "race_entries s (block_no i)" if "unat i < Suc (unat (race_tail s))" "counted_slots s (block_no i) \<noteq> {..<block_size}" for i
    proof (cases "i = race_tail s")
      case False
      then have "unat i < unat (race_tail s)" using that(1) by (simp add: word_unat_eq_iff)
      then show ?thesis using old that(2) by blast
    qed (use 6(3) in simp)
    then show ?thesis using counted by (simp add: entries_ok_def 6(4) tail)
  qed
qed

subsection \<open>What can be reached\<close>

definition race_ok :: "race \<Rightarrow> bool" where
  "race_ok s \<longleftrightarrow> (\<exists>G D. tickets_ok G D s) \<and> indices_ok s \<and> slots_ok s \<and> blocks_ok s \<and> entries_ok s"

lemma race_new_fields [simp]:
  "race_tail (race_new n) = 0" "race_head (race_new n) = 0" "race_count (race_new n) = 0" "race_over (race_new n) = 0"
  "race_entries (race_new n) b = False" "race_blocks (race_new n) b = qblock_new" "takers (race_new n) = replicate n Out" "putter (race_new n) = Put_Out"
  "stored (race_new n) = []" "returned (race_new n) = []" "dropped (race_new n) = []"
  "takers_in P (race_new n) = (if P Out then n else 0)"
  by (simp_all add: race_new_def takers_in_def)

lemma race_new_ok: "race_ok (race_new threads)"
proof -
  have "tickets_ok {} {} (race_new threads)" by (simp add: tickets_ok_def)
  moreover have "indices_ok (race_new threads)" by (simp add: indices_ok_def)
  moreover have "slots_ok (race_new threads)" by (simp add: slots_ok_def qblock_new_ok)
  moreover have "counted_slots (race_new threads) b = {}" for b by (simp add: counted_slots_def counted_def)
  moreover have "marked Implicit_Context {} qblock_new" using qblock_new_ok by (simp add: marked_def) (simp add: qblock_new_def)
  moreover have "0 \<in> {..<block_size}" by (simp add: block_size_def)
  then have "{} \<noteq> {..<block_size}" by blast
  moreover have "entries_ok (race_new threads)" by (simp add: entries_ok_def)
  ultimately show ?thesis unfolding race_ok_def by (auto simp: blocks_ok_def)
qed

lemma race_move_ok:
  assumes "race_move s s'" "race_ok s" "race_small s"
  shows "race_ok s'"
proof -
  obtain G D where t: "tickets_ok G D s" and ok: "indices_ok s" "slots_ok s" "blocks_ok s" "entries_ok s"
    using assms(2) unfolding race_ok_def by blast
  have head: "unat (race_head s) \<le> unat (race_tail s)" using granted_le_tail [OF t] by linarith
  have "\<exists>G' D'. tickets_ok G' D' s'" using tickets_move [OF assms(1) t assms(3)] .
  moreover have "indices_ok s' \<and> slots_ok s' \<and> blocks_ok s' \<and> entries_ok s'"
    using assms(1)
  proof cases
    case (take u)
    then show ?thesis using indices_take_step [OF ok(1,2,4) t _ assms(3)] slots_take_step [OF ok(1,2,4) t _ assms(3)]
        blocks_take_step [OF ok t _ assms(3)] entries_take_step [OF ok t _ assms(3)] by simp
  next
    case (begin_take u)
    have to: "takers s' = (takers s)[u := Load_Tail]" by (simp add: begin_take)
    have "indices_ok s'" using indices_kept [OF ok(1) begin_take(2) to] by (simp add: begin_take)
    moreover have "slots_ok s'"
      using ok(2) by (intro slots_kept [OF ok(2,1) begin_take(2) to _ _ _ _ _ _ head])
        (simp_all add: begin_take slots_ok_def slot_value_def case_prod_beta)
    moreover have counted: "counted_slots s' b = counted_slots s b" for b
      using counted_kept [OF begin_take(2) to] by (simp add: begin_take)
    then have "blocks_ok s'" by (intro blocks_kept [OF ok(3) begin_take(2) to]) (simp_all add: begin_take)
    moreover have "entries_ok s'" using ok(4) counted by (simp add: entries_ok_def begin_take(1) split: put_pc.splits)
    ultimately show ?thesis by blast
  next
    case (put memory)
    moreover have "indices_ok (put_step memory s)" using ok(1) by (simp add: indices_ok_def takers_in_def put_step_fields)
    ultimately show ?thesis using slots_put_step [OF ok(2,1,4) t assms(3)] blocks_put_step [OF ok(2,3,4) t assms(3)]
        entries_put_step [OF ok(2,4) t assms(3)] by simp
  next
    case (begin_put x)
    have "indices_ok s'" using ok(1) by (simp add: indices_ok_def takers_in_def begin_put)
    moreover have "slots_ok s'" by (rule slots_put_kept [OF ok(2,1) head]) (use ok(2) begin_put in \<open>simp_all add: slots_ok_def\<close>)
    moreover have "blocks_ok s'" by (rule blocks_same_counted [OF ok(3)]) (simp_all add: begin_put)
    moreover have "counted_slots s' b = counted_slots s b" for b
      by (simp add: counted_slots_def counted_def takers_in_def begin_put)
    then have "entries_ok s'" using ok(4) by (simp add: entries_ok_def begin_put)
    ultimately show ?thesis by blast
  qed
  ultimately show ?thesis by (simp add: race_ok_def)
qed

text \<open>A run of so few moves that the counters cannot wrap around.\<close>

lemma race_reach_ok:
  assumes "race_reach threads n s" "n < 2 ^ 62"
  shows "race_ok s" "unat (race_tail s) \<le> n" "unat (race_count s) \<le> n"
proof -
  have "race_ok s \<and> unat (race_tail s) \<le> n \<and> unat (race_count s) \<le> n"
    using assms
  proof (induction rule: race_reach.induct)
    case (race_more n s s')
    then have IH: "race_ok s" "unat (race_tail s) \<le> n" "unat (race_count s) \<le> n" "n < 2 ^ 62" by simp_all
    then have small: "race_small s" unfolding race_small_def by linarith
    show ?case
      using race_move_ok [OF race_more.hyps(2) IH(1) small] race_move_counts [OF race_more.hyps(2) small] IH(2,3) by simp
  qed (simp add: race_new_ok)
  then show "race_ok s" "unat (race_tail s) \<le> n" "unat (race_count s) \<le> n" by blast+
qed

section \<open>Runs\<close>

text \<open>A run as the sequence of its moves, so that it can be computed. A move that cannot be made does nothing.\<close>

datatype race_event = Call_Dequeue nat | Step_Dequeue nat | Call_Enqueue u64 | Step_Enqueue bool

fun race_do :: "race_event \<Rightarrow> race \<Rightarrow> race" where
  "race_do (Call_Dequeue t) s = (if t < length (takers s) \<and> takers s ! t = Out then taker_at t Load_Tail s else s)"
| "race_do (Step_Dequeue t) s = (if t < length (takers s) then take_step t s else s)"
| "race_do (Call_Enqueue x) s = (if putter s = Put_Out then s\<lparr>putter := Put_Start x\<rparr> else s)"
| "race_do (Step_Enqueue memory) s = put_step memory s"

definition race_run :: "race_event list \<Rightarrow> race \<Rightarrow> race" where
  "race_run es s = fold race_do es s"

lemma race_run_simps [simp]: "race_run [] s = s" "race_run (e # es) s = race_run es (race_do e s)"
    "race_run (es @ es') s = race_run es' (race_run es s)"
  by (simp_all add: race_run_def)

lemma race_do_move: "race_do e s = s \<or> race_move s (race_do e s)"
  by (cases e) (auto intro: race_move.intros)

lemma race_run_reach:
  assumes "race_reach threads n s"
  shows "\<exists>k \<le> n + length es. race_reach threads k (race_run es s)"
  using assms
proof (induction es arbitrary: n s)
  case (Cons e es)
  consider "race_do e s = s" | "race_reach threads (Suc n) (race_do e s)" using race_do_move [of e s] race_more [OF Cons.prems] by blast
  then show ?case
  proof cases
    case 1
    then show ?thesis using Cons.IH [OF Cons.prems] by (auto intro: le_SucI)
  next
    case 2
    then show ?thesis using Cons.IH [OF 2] by simp
  qed
qed auto

lemma race_run_new: "\<exists>k \<le> length es. race_reach threads k (race_run es (race_new threads))"
  using race_run_reach [OF race_refl, where es = es] by simp

text \<open>Two threads race for one element: both see it before either has taken it.\<close>

definition race_start :: "race_event list" where
  "race_start = Call_Enqueue 7 # replicate 5 (Step_Enqueue True) @ [Call_Dequeue 0, Call_Dequeue 1]
     @ [Step_Dequeue 0, Step_Dequeue 1, Step_Dequeue 0, Step_Dequeue 1, Step_Dequeue 0, Step_Dequeue 1]"

definition race_sample :: "race_event list" where
  "race_sample = race_start @ replicate 2 (Step_Dequeue 1) @ replicate 7 (Step_Dequeue 0) @ replicate 9 (Step_Dequeue 1)"

lemma race_sample_length: "length race_start = 14" "length race_sample = 32"
  by (simp_all add: race_start_def race_sample_def)

lemma race_do_takers:
  "length (takers (race_do e s)) = length (takers s)"
  "e \<noteq> Call_Dequeue t \<Longrightarrow> e \<noteq> Step_Dequeue t \<Longrightarrow> takers (race_do e s) ! t = takers s ! t"
proof -
  have step: "length (takers (take_step u s)) = length (takers s) \<and> (u \<noteq> t \<longrightarrow> takers (take_step u s) ! t = takers s ! t)" for u
    by (cases "takers s ! u") (auto simp: take_step_def Let_def split: prod.splits option.splits)
  show "length (takers (race_do e s)) = length (takers s)" using step by (cases e) (auto simp: put_step_fields)
  show "takers (race_do e s) ! t = takers s ! t" if "e \<noteq> Call_Dequeue t" "e \<noteq> Step_Dequeue t"
    using step that by (cases e) (auto simp: put_step_fields)
qed

section \<open>What the queue promises to its threads\<close>

lemma count_list_distinct: "(\<And>x. count_list xs x \<le> 1) \<Longrightarrow> distinct xs"
proof (induction xs)
  case (Cons y xs)
  have "count_list xs x \<le> 1" for x using Cons.prems [of x] by (simp split: if_splits)
  moreover have "y \<notin> set xs" using Cons.prems [of y] by (simp add: count_list_0_iff)
  ultimately show ?case using Cons.IH by simp
qed simp

lemma indices_returned_once:
  assumes "indices_ok s"
  shows "distinct (map fst (returned s))" "i \<in> fst ` set (returned s) \<Longrightarrow> unat i < unat (race_head s)"
    "takers_in (holds i) s = 0 \<Longrightarrow> unat i < unat (race_head s) \<Longrightarrow> i \<in> fst ` set (returned s)"
proof -
  have count: "count_list (map fst (returned s)) i + takers_in (holds i) s = of_bool (unat i < unat (race_head s))" for i
    using assms by (simp only: indices_ok_def)
  have "count_list (map fst (returned s)) i \<le> 1" for i
    using count [of i] by (cases "unat i < unat (race_head s)") simp_all
  then show "distinct (map fst (returned s))" by (rule count_list_distinct)
  show "unat i < unat (race_head s)" if "i \<in> fst ` set (returned s)"
  proof -
    have "count_list (map fst (returned s)) i \<noteq> 0" using that by (simp add: count_list_0_iff)
    then show ?thesis using count [of i] by (cases "unat i < unat (race_head s)") simp_all
  qed
  show "i \<in> fst ` set (returned s)" if "takers_in (holds i) s = 0" "unat i < unat (race_head s)"
  proof -
    have "count_list (map fst (returned s)) i \<noteq> 0" using count [of i] that by simp
    then show ?thesis by (simp add: count_list_0_iff)
  qed
qed

lemma at_rest:
  assumes "\<forall>p \<in> set (takers s). p = Out" "\<not> P Out"
  shows "takers_in P s = 0"
proof -
  have "takers s ! u = Out" if "u < length (takers s)" for u using assms(1) nth_mem [OF that] by blast
  then show ?thesis using assms(2) by (simp add: takers_in_zero)
qed

lemma balance_at_rest:
  assumes "tickets_ok G D s" "\<forall>p \<in> set (takers s). p = Out"
  shows "race_count s - race_over s = race_head s"
proof -
  have "unat (race_count s) = unat (race_head s) + unat (race_over s)"
    using tickets_okD(4-6) [OF assms(1)] at_rest [OF assms(2)] by simp
  moreover have "unat (race_count s) < 2 ^ 64" by (rule unat_u64_less_power)
  ultimately have "race_count s = race_head s + race_over s" by (simp add: word_unat_eq_iff unat_add_no_wrap)
  then show ?thesis by simp
qed

lemma take_step_at:
  assumes t: "t < length (takers s)"
  shows "take_step t (taker_at t Load_Tail s) = taker_at t (Load_Over (race_tail s)) s"
    "take_step t (taker_at t (Load_Over k) s) = taker_at t (Load_Count k (race_over s)) s"
    "take_step t (taker_at t (Load_Count k ov) s)
      = taker_at t (if circular_less_than (race_count s - ov) k then Add_Count ov else Out) s"
    "take_step t (taker_at t (Reload_Tail ov my) s)
      = taker_at t (if circular_less_than (my - ov) (race_tail s) then Add_Head else Add_Over) s"
    "ov \<le> race_count s \<Longrightarrow> take_step t (taker_at t (Add_Count ov) s)
      = taker_at t (Reload_Tail ov (race_count s)) (s\<lparr>race_count := race_count s + 1\<rparr>)"
    "take_step t (taker_at t Add_Head s) = taker_at t (Load_Entry (race_head s)) (s\<lparr>race_head := race_head s + 1\<rparr>)"
    "slot_value s i = Some x \<Longrightarrow> take_step t (taker_at t (Read_Slot i) s) = taker_at t (Destroy_Slot i x) s"
    "take_step t (taker_at t (Destroy_Slot i x) s) = taker_at t (Count_Slot i x) (in_block i (block_put i None) s)"
    "take_step t (taker_at t Out s) = taker_at t Out s"
    "race_entries s (block_no i) \<Longrightarrow> take_step t (taker_at t (Load_Entry i) s) = taker_at t (Read_Slot i) s"
  using t by (simp_all add: take_step_def taker_at_def in_block_def slot_value_def)

lemma last_steps:
  assumes t: "t < length (takers s)"
  shows "returned ((take_step t ^^ 3) (taker_at t (Count_Slot i x) s)) = (i, x) # returned s"
  using t by (simp add: numeral_3_eq_3 take_step_def returns_def Let_def split_def)

lemma race_run_own:
  "t < length (takers s) \<Longrightarrow> race_run (replicate k (Step_Dequeue t)) s = (take_step t ^^ k) s"
proof (induction k arbitrary: s)
  case (Suc k)
  then show ?case using race_do_takers(1) [of "Step_Dequeue t" s] by (simp add: funpow_swap1)
qed simp

lemma race_threads:
  assumes "race_reach threads n s"
  shows "length (takers s) = threads"
  using assms
proof (induction rule: race_reach.induct)
  case (race_more n s s')
  from race_more.hyps(2) show ?case
  proof cases
    case (take t)
    then show ?thesis using race_more.IH race_do_takers(1) [of "Step_Dequeue t" s] by simp
  qed (use race_more.IH in \<open>simp_all add: put_step_fields\<close>)
qed simp

text \<open>C3: However the accesses of the threads interleave, \<open>dequeue\<close> hands out each index once, with the
  element that was the one stored at that place in the order of the calls of \<open>enqueue\<close>; no thread finds an empty slot and
  no assertion fails.\<close>

theorem race_elements_once:
  assumes "race_reach threads n s" "n < 2 ^ 62"
  shows "distinct (map fst (returned s))
    \<and> (\<forall>r \<in> set (returned s). unat (fst r) < length (stored s) \<and> snd r = stored s ! unat (fst r))
    \<and> Lost \<notin> set (takers s) \<and> putter s \<noteq> Put_Lost"
proof -
  obtain G D where t: "tickets_ok G D s" and ok: "indices_ok s" "slots_ok s"
    using race_reach_ok(1) [OF assms] unfolding race_ok_def by blast
  have "unat (fst r) < length (stored s) \<and> snd r = stored s ! unat (fst r)" if r: "r \<in> set (returned s)" for r
  proof -
    have "unat (fst r) < unat (race_head s)" using indices_returned_once(2) [OF ok(1), of "fst r"] r by blast
    moreover have "unat (race_head s) \<le> length (stored s)" using granted_le_tail [OF t] ok(2) by (simp add: slots_ok_def)
    ultimately show ?thesis using ok(2) r by (cases r) (auto simp: slots_ok_def)
  qed
  moreover have "Lost \<notin> set (takers s)" using ok(2) by (auto simp: slots_ok_def in_set_conv_nth)
  moreover have "putter s \<noteq> Put_Lost" using ok(2) by (auto simp: slots_ok_def)
  ultimately show ?thesis using indices_returned_once(1) [OF ok(1)] by blast
qed

theorem race_elements_once_witness:
  "returned (race_run race_sample (race_new 2)) = [(0, 7)] \<and> distinct (map fst (returned (race_run race_sample (race_new 2))))"
proof -
  obtain k where k: "k \<le> length race_sample" "race_reach 2 k (race_run race_sample (race_new 2))" using race_run_new by blast
  then have "k < 2 ^ 62" by (simp add: race_sample_length)
  moreover have "returned (race_run race_sample (race_new 2)) = [(0, 7)]" by code_simp
  ultimately show ?thesis using race_elements_once [OF k(2)] by blast
qed

text \<open>C9: When no thread is inside \<open>dequeue\<close>, the counters balance, exactly the elements before the head index
  have been handed out, and the blocks given back are those whose elements are all handed out.\<close>

theorem race_at_rest:
  assumes "race_reach threads n s" "n < 2 ^ 62" "\<forall>p \<in> set (takers s). p = Out"
  shows "race_count s - race_over s = race_head s
    \<and> mset (map snd (returned s)) = mset (List.take (unat (race_head s)) (stored s))
    \<and> set (dropped s) = {b. block_size * Suc b \<le> unat (race_head s)}"
proof (intro conjI)
  obtain G D where t: "tickets_ok G D s" and ok: "indices_ok s" "slots_ok s" "blocks_ok s"
    using race_reach_ok(1) [OF assms(1,2)] unfolding race_ok_def by blast
  note none = at_rest [OF assms(3)]
  show "race_count s - race_over s = race_head s" by (rule balance_at_rest [OF t assms(3)])
  let ?h = "unat (race_head s)"
  have h: "?h < 2 ^ 64" by (rule unat_u64_less_power)
  have "fst ` set (returned s) = {i. unat i < ?h}"
    using indices_returned_once(2,3) [OF ok(1)] none [of "holds _"] by auto
  also have "\<dots> = of_nat ` {..<?h}"
  proof (intro equalityI subsetI)
    fix i
    assume "i \<in> {i. unat i < ?h}"
    then show "i \<in> of_nat ` {..<?h}" by (intro image_eqI [of _ _ "unat i"]) simp_all
  next
    fix i :: u64
    assume "i \<in> of_nat ` {..<?h}"
    then obtain k where "i = of_nat k" "k < ?h" by blast
    then show "i \<in> {i. unat i < ?h}" using h by (simp only: mem_Collect_eq unat_of_nat_u64 [OF less_trans])
  qed
  finally have "set (map fst (returned s)) = set (map of_nat [0..<?h])" by (simp add: lessThan_atLeast0)
  moreover have "inj_on (of_nat :: nat \<Rightarrow> u64) {..<?h}"
  proof (rule inj_onI)
    fix a b
    assume "a \<in> {..<?h}" "b \<in> {..<?h}" "(of_nat a :: u64) = of_nat b"
    then show "a = b" using h unat_of_nat_u64 [of a] unat_of_nat_u64 [of b] by (metis lessThan_iff less_trans)
  qed
  ultimately have "mset (map fst (returned s)) = mset (map of_nat [0..<?h])"
    using indices_returned_once(1) [OF ok(1)] by (intro set_eq_iff_mset_eq_distinct [THEN iffD1]) (simp_all add: distinct_map lessThan_atLeast0)
  then have "mset (map (\<lambda>i. stored s ! unat i) (map fst (returned s))) 
      = mset (map (\<lambda>i. stored s ! unat i) (map (of_nat :: nat \<Rightarrow> u64) [0..<?h]))"
    by (simp only: mset_map)
  moreover have "map (\<lambda>i. stored s ! unat i) (map fst (returned s)) = map snd (returned s)"
    using ok(2) by (auto simp: slots_ok_def)
  moreover have "map (\<lambda>i. stored s ! unat i) (map (of_nat :: nat \<Rightarrow> u64) [0..<?h]) = List.take ?h (stored s)"
  proof (rule nth_equalityI)
    show len: "length (map (\<lambda>i. stored s ! unat i) (map (of_nat :: nat \<Rightarrow> u64) [0..<?h])) = length (List.take ?h (stored s))"
      using granted_le_tail [OF t] ok(2) by (simp add: slots_ok_def)
    fix k
    assume "k < length (map (\<lambda>i. stored s ! unat i) (map (of_nat :: nat \<Rightarrow> u64) [0..<?h]))"
    then have k: "k < ?h" by simp
    then have "unat (of_nat k :: u64) = k" using h by (intro unat_of_nat_u64) linarith
    then show "map (\<lambda>i. stored s ! unat i) (map (of_nat :: nat \<Rightarrow> u64) [0..<?h]) ! k = List.take ?h (stored s) ! k"
      using k by (simp del: unat_of_nat)
  qed
  ultimately show "mset (map snd (returned s)) = mset (List.take ?h (stored s))" by metis
  have "b \<in> set (dropped s) \<longleftrightarrow> counted_slots s b = {..<block_size}" for b
  proof -
    have "count_list (dropped s) b = of_bool (counted_slots s b = {..<block_size})"
      using ok(3) [unfolded blocks_ok_def, rule_format, of b] none [of "dropping b"] by simp
    then show ?thesis using count_list_0_iff [of "dropped s" b] by (cases "counted_slots s b = {..<block_size}") simp_all
  qed
  moreover have "counted_slots s b = {..<block_size}" if b: "block_size * Suc b \<le> ?h" for b
  proof (intro equalityI subsetI)
    fix k
    assume "k \<in> {..<block_size}"
    then have k: "k < block_size" "block_size * b + k < ?h" using b by simp_all
    note at = block_index [OF less_trans [OF k(2) h] k(1)]
    have "counted s (of_nat (block_size * b + k))" unfolding counted_def at(3) using k(2) none by simp
    then show "k \<in> counted_slots s b" unfolding counted_slots_def using at(1,2) by force
  qed (auto simp: counted_slots_def)
  ultimately show "set (dropped s) = {b. block_size * Suc b \<le> ?h}" using all_counted(2) by blast
qed

theorem race_at_rest_witness:
  "race_count (race_run race_sample (race_new 2)) - race_over (race_run race_sample (race_new 2))
      = race_head (race_run race_sample (race_new 2))
    \<and> race_over (race_run race_sample (race_new 2)) = 1"
proof -
  obtain k where k: "k \<le> length race_sample" "race_reach 2 k (race_run race_sample (race_new 2))" using race_run_new by blast
  then have "k < 2 ^ 62" by (simp add: race_sample_length)
  moreover have "\<forall>p \<in> set (takers (race_run race_sample (race_new 2))). p = Out" by code_simp
  moreover have "race_over (race_run race_sample (race_new 2)) = 1" by code_simp
  ultimately show ?thesis using race_at_rest [OF k(2)] by blast
qed

text \<open>C8: A block is given back once, and after that no thread touches it any more: every element of it has been
  taken out of its slot and counted, and the producer has gone on to another block.\<close>

theorem race_blocks_once:
  assumes "race_reach threads n s" "n < 2 ^ 62"
  shows "distinct (dropped s)
    \<and> (\<forall>b \<in> set (dropped s). b < block_no (race_tail s) \<and> block_size * Suc b \<le> unat (race_head s)
         \<and> (\<forall>p \<in> set (takers s). \<forall>i. uncounted i p \<longrightarrow> block_no i \<noteq> b))"
proof -
  obtain G D where t: "tickets_ok G D s" and ok: "indices_ok s" "slots_ok s" "blocks_ok s"
    using race_reach_ok(1) [OF assms(1,2)] unfolding race_ok_def by blast
  have count: "count_list (dropped s) b + takers_in (dropping b) s = of_bool (counted_slots s b = {..<block_size})" for b
    using ok(3) by (simp add: blocks_ok_def)
  have "count_list (dropped s) b \<le> 1" for b using count [of b] by (cases "counted_slots s b = {..<block_size}") simp_all
  then have "distinct (dropped s)" by (rule count_list_distinct)
  moreover have "b < block_no (race_tail s) \<and> block_size * Suc b \<le> unat (race_head s)
      \<and> (\<forall>p \<in> set (takers s). \<forall>i. uncounted i p \<longrightarrow> block_no i \<noteq> b)" if "b \<in> set (dropped s)" for b
  proof -
    have "count_list (dropped s) b \<noteq> 0" using that by (simp add: count_list_0_iff)
    then have full: "counted_slots s b = {..<block_size}"
      using count [of b] by (cases "counted_slots s b = {..<block_size}") simp_all
    have "block_size * Suc b \<le> unat (race_tail s)" using all_counted(2) [OF full] granted_le_tail [OF t] by linarith
    then have "b < block_no (race_tail s)" by (simp add: block_no_def block_size_def)
    moreover have "block_no i \<noteq> b" if "p \<in> set (takers s)" "uncounted i p" for p i
    proof
      assume "block_no i = b"
      then have "takers_in (uncounted i) s = 0" using all_counted(1) [OF full] by (simp add: counted_def)
      then show False using that by (auto simp: takers_in_zero in_set_conv_nth)
    qed
    ultimately show ?thesis using all_counted(2) [OF full] by blast
  qed
  ultimately show ?thesis by blast
qed

theorem race_blocks_once_witness:
  "distinct (dropped (race_run race_start (race_new 2)))"
proof -
  obtain k where k: "k \<le> length race_start" "race_reach 2 k (race_run race_start (race_new 2))" using race_run_new by blast
  then have "k < 2 ^ 62" by (simp add: race_sample_length)
  then show ?thesis using race_blocks_once [OF k(2)] by blast
qed

text \<open>C10: A thread that has \<open>dequeue\<close> for itself takes the oldest element when there is one, and else takes
  nothing, whatever happened before: the answer of the queue in sequential use.\<close>

theorem race_dequeue_alone:
  assumes "race_reach threads n s" "n < 2 ^ 62" "\<forall>p \<in> set (takers s). p = Out" "t < threads"
  shows "returned (race_run (Call_Dequeue t # replicate 12 (Step_Dequeue t)) s)
    = (if unat (race_head s) < length (stored s) then [(race_head s, stored s ! unat (race_head s))] else []) @ returned s"
proof -
  have t: "t < length (takers s)" using race_threads [OF assms(1)] assms(4) by simp
  then have out: "takers s ! t = Out" using assms(3) nth_mem by blast
  obtain G D where tickets: "tickets_ok G D s" and ok: "slots_ok s" and entries: "entries_ok s"
    using race_reach_ok(1) [OF assms(1,2)] unfolding race_ok_def by blast
  have bal: "race_count s - race_over s = race_head s" by (rule balance_at_rest [OF tickets assms(3)])
  have over: "race_over s \<le> race_count s" using over_le_count [OF tickets] by (simp add: word_le_nat_alt)
  have len: "length (stored s) = unat (race_tail s)" using ok by (simp add: slots_ok_def)
  have "unat (race_head s) \<le> unat (race_tail s)" using granted_le_tail [OF tickets] by linarith
  moreover have "unat (race_tail s) < 2 ^ 62" using race_reach_ok(2) [OF assms(1,2)] assms(2) by linarith
  ultimately have less: "circular_less_than (race_head s) (race_tail s) \<longleftrightarrow> unat (race_head s) < length (stored s)"
    unfolding len by (intro circular_less_than_small) linarith+
  have run: "race_run (Call_Dequeue t # replicate 12 (Step_Dequeue t)) s = (take_step t ^^ 12) (taker_at t Load_Tail s)"
    using t out race_run_own [of t "taker_at t Load_Tail s" 12] by simp
  have "(take_step t ^^ 12) (taker_at t Load_Tail s) = (take_step t ^^ 9) ((take_step t ^^ 3) (taker_at t Load_Tail s))"
    using fun_cong [OF funpow_add [of 9 3 "take_step t"], of "taker_at t Load_Tail s"] by (simp only: comp_apply numeral_plus_numeral semiring_norm)
  also have "(take_step t ^^ 3) (taker_at t Load_Tail s)
      = taker_at t (if unat (race_head s) < length (stored s) then Add_Count (race_over s) else Out) s"
    by (simp add: numeral_3_eq_3 bal less take_step_at [OF t])
  finally have start: "(take_step t ^^ 12) (taker_at t Load_Tail s)
      = (take_step t ^^ 9) (taker_at t (if unat (race_head s) < length (stored s) then Add_Count (race_over s) else Out) s)" .
  show ?thesis
  proof (cases "unat (race_head s) < length (stored s)")
    case True
    let ?x = "stored s ! unat (race_head s)"
    define s1 where "s1 = s\<lparr>race_count := race_count s + 1\<rparr>"
    define s2 where "s2 = s1\<lparr>race_head := race_head s1 + 1\<rparr>"
    define s3 where "s3 = in_block (race_head s) (block_put (race_head s) None) s2"
    have lens: "t < length (takers s1)" "t < length (takers s2)" "t < length (takers s3)" using t by (simp_all add: s1_def s2_def s3_def)
    have slot: "slot_value s2 (race_head s) = Some ?x"
      using ok True len by (simp add: slots_ok_def s1_def s2_def slot_value_def)
    have a: "take_step t (taker_at t (Add_Count (race_over s)) s) = taker_at t (Reload_Tail (race_over s) (race_count s)) s1"
      using take_step_at(5) [OF t over] by (simp add: s1_def)
    have b: "take_step t (taker_at t (Reload_Tail (race_over s) (race_count s)) s1) = taker_at t Add_Head s1"
      using take_step_at(4) [OF lens(1), of "race_over s" "race_count s"] True by (simp add: bal less s1_def)
    have entry: "race_entries s2 (block_no (race_head s))"
    proof -
      have "counted_slots s (block_no (race_head s)) \<noteq> {..<block_size}" by (rule uncounted_not_full) (simp add: counted_def)
      then show ?thesis using entries True len by (simp add: entries_ok_def s1_def s2_def)
    qed
    have c: "take_step t (taker_at t Add_Head s1) = taker_at t (Load_Entry (race_head s)) s2"
      using take_step_at(6) [OF lens(1)] by (simp add: s2_def s1_def)
    note d = take_step_at(10) [OF lens(2) entry] take_step_at(7) [OF lens(2) slot] take_step_at(8) [OF lens(2), of "race_head s" ?x, folded s3_def]
    have "(take_step t ^^ 9) (taker_at t (Add_Count (race_over s)) s)
        = (take_step t ^^ 3) (taker_at t (Count_Slot (race_head s) ?x) s3)"
      by (simp add: eval_nat_numeral a b c d funpow_swap1)
    then show ?thesis unfolding run start using True last_steps [OF lens(3)] by (simp add: s1_def s2_def s3_def)
  next
    case False
    have "(take_step t ^^ k) (taker_at t Out s) = taker_at t Out s" for k
      by (induction k) (simp_all add: take_step_at(9) [OF t])
    then show ?thesis unfolding run start using False by simp
  qed
qed

theorem race_dequeue_alone_witness:
  "returned (race_run (Call_Dequeue 1 # replicate 12 (Step_Dequeue 1)) (race_run [Call_Enqueue 7, Step_Enqueue True, Step_Enqueue True, Step_Enqueue True, Step_Enqueue True, Step_Enqueue True] (race_new 2)))
    = [(0, 7)]"
proof -
  let ?es = "[Call_Enqueue 7, Step_Enqueue True, Step_Enqueue True, Step_Enqueue True, Step_Enqueue True, Step_Enqueue True]"
  obtain k where k: "k \<le> length ?es" "race_reach 2 k (race_run ?es (race_new 2))" using race_run_new by blast
  then have "k < 2 ^ 62" by simp
  moreover have "\<forall>p \<in> set (takers (race_run ?es (race_new 2))). p = Out" by code_simp
  moreover have "race_head (race_run ?es (race_new 2)) = 0" "stored (race_run ?es (race_new 2)) = [7]"
    "returned (race_run ?es (race_new 2)) = []" by code_simp+
  ultimately show ?thesis using race_dequeue_alone [OF k(2), of 1] by simp
qed

end
