(* ===== verification/Queue_Bulk.thy ===== *)
theory Queue_Bulk
  imports Queue_Producer
begin

text \<open>
  The bulk operations of an implicit producer of the lock-free queue (\<open>ImplicitProducer::enqueue_bulk\<close> and
  \<open>dequeue_bulk\<close>, \<open>include/concurrentqueue.hpp\<close>), as one thread at a time runs them. The chain of the blocks that
  one call of \<open>enqueue_bulk\<close> allocates, which the code keeps in the fields \<open>next\<close> of the blocks, is a list here.
\<close>

section \<open>Putting several elements\<close>

text \<open>The blocks for the elements, after the block that begins at \<open>base\<close>; \<open>bs\<close> are those allocated before.\<close>

fun alloc_blocks :: "alloc_mode \<Rightarrow> nat \<Rightarrow> u64 \<Rightarrow> nat list \<Rightarrow> producer \<Rightarrow> pool \<Rightarrow> (bool \<times> nat list \<times> producer \<times> pool) res" where
  "alloc_blocks mode 0 base bs p m = Inr (True, bs, p, m)"
| "alloc_blocks mode (Suc n) base bs p m =
     (let base = base + of_nat block_size in
      if subqueue_full base p then Inr (False, bs, p, m)
      else bind_res (insert_block mode base p m) (\<lambda>(block, p, m).
        case block of None \<Rightarrow> Inr (False, bs, p, m) | Some b \<Rightarrow> alloc_blocks mode n base (bs @ [b]) p m))"

fun give_back_entries :: "u64 \<Rightarrow> nat list \<Rightarrow> producer \<Rightarrow> producer res" where
  "give_back_entries base [] p = Inr p"
| "give_back_entries base (b # bs) p =
     (let base = base + of_nat block_size in
      bind_res (entry_for base p) (\<lambda>a. bind_res (rewind_tail (set_value a None p)) (give_back_entries base bs)))"

fun put_range :: "u64 list \<Rightarrow> u64 \<Rightarrow> nat \<Rightarrow> pool \<Rightarrow> pool" where
  "put_range [] i b m = m"
| "put_range (x # xs) i b m = put_range xs (i + 1) b (on_block b (block_put i (Some x)) m)"

text \<open>Where the loop over the elements from \<open>i\<close> to \<open>stop\<close> leaves the block of \<open>i\<close>.\<close>

definition block_end :: "u64 \<Rightarrow> u64 \<Rightarrow> u64" where
  "block_end i stop = (let k = base_of i + of_nat block_size in if circular_less_than stop k then stop else k)"

fun fill_blocks :: "nat option list \<Rightarrow> u64 \<Rightarrow> u64 \<Rightarrow> u64 list \<Rightarrow> producer \<Rightarrow> pool \<Rightarrow> (producer \<times> pool) res" where
  "fill_blocks [] i stop xs p m = Inl (UB ''null pointer tailBlock'')"
| "fill_blocks (b # bs) i stop xs p m =
     (let upto = block_end i stop; n = unat (upto - i) in
      bind_res (if n = 0 then Inr m else case b of None \<Rightarrow> Inl (UB ''null pointer tailBlock'') | Some b \<Rightarrow> Inr (put_range (List.take n xs) i b m))
        (\<lambda>m. let p = p\<lparr>tail_block := b\<rparr> in
          if bs = [] then Inr (p, m) else fill_blocks bs upto stop (drop n xs) p m))"

definition iq_enqueue_bulk :: "alloc_mode \<Rightarrow> u64 list \<Rightarrow> producer \<Rightarrow> pool \<Rightarrow> (bool \<times> producer \<times> pool) res" where
  "iq_enqueue_bulk mode xs p m =
     (let start = tail_index p; start_block = tail_block p; count = of_nat (length xs); base = base_of (start - 1);
          diff = base_of (start + count - 1) - base in
      bind_res (alloc_blocks mode (unat (diff div of_nat block_size)) base [] p m) (\<lambda>(ok, bs, p, m).
        if \<not> ok then bind_res (give_back_entries base bs p)
          (\<lambda>p. Inr (False, p\<lparr>tail_block := start_block\<rparr>, fold add_to_free_list bs m))
        else bind_res (fill_blocks (if start AND (of_nat block_size - 1) = 0 \<and> bs \<noteq> [] then map Some bs else start_block # map Some bs)
            start (start + count) xs p m)
          (\<lambda>(p, m). Inr (True, p\<lparr>tail_index := start + count\<rparr>, m))))"

section \<open>Taking several elements\<close>

fun take_range :: "nat \<Rightarrow> u64 \<Rightarrow> nat \<Rightarrow> pool \<Rightarrow> (u64 list \<times> pool) res" where
  "take_range 0 i b m = Inr ([], m)"
| "take_range (Suc n) i b m =
     (case block_at (qblocks m ! b) i of None \<Rightarrow> Inl (UB ''no element in the slot'')
      | Some x \<Rightarrow> bind_res (take_range n (i + 1) b (on_block b (block_put i None) m)) (\<lambda>(xs, m). Inr (x # xs, m)))"

text \<open>The loop over the blocks, from the position \<open>pos\<close> of the block index on.\<close>

fun take_blocks :: "nat \<Rightarrow> index_header \<Rightarrow> u64 \<Rightarrow> u64 \<Rightarrow> u64 \<Rightarrow> producer \<Rightarrow> pool \<Rightarrow> (u64 list \<times> producer \<times> pool) res" where
  "take_blocks 0 hdr pos i stop p m = Inl No_Return"
| "take_blocks (Suc fuel) hdr pos i stop p m =
     (let upto = block_end i stop; a = hdr_index hdr ! unat pos in
      case entry_value (entries p ! a) of None \<Rightarrow> Inl (UB ''null pointer block'')
      | Some b \<Rightarrow>
          bind_res (take_range (unat (upto - i)) i b m) (\<lambda>(xs, m).
            let empty = snd (set_many_empty Implicit_Context i (upto - i) (qblocks m ! b));
                m = on_block b (fst \<circ> set_many_empty Implicit_Context i (upto - i)) m;
                (p, m) = (if empty then (set_value a None p, add_to_free_list b m) else (p, m))
            in if upto = stop then Inr (xs, p, m)
               else bind_res (take_blocks fuel hdr (ring_next hdr pos) upto stop p m) (\<lambda>(ys, p, m). Inr (xs @ ys, p, m))))"

definition iq_dequeue_bulk :: "u64 \<Rightarrow> producer \<Rightarrow> pool \<Rightarrow> (u64 list \<times> producer \<times> pool) res" where
  "iq_dequeue_bulk limit p m =
     (let over = overcommit p; desired = tail_index p - (optimistic_count p - over) in
      if circular_less_than 0 desired then
        (let desired = min desired limit; my_count = optimistic_count p;
             p = p\<lparr>optimistic_count := my_count + desired\<rparr>; actual = tail_index p - (my_count - over) in
         if circular_less_than 0 actual then
           (let actual = min desired actual;
                p = (if actual < desired then p\<lparr>overcommit := overcommit p + (desired - actual)\<rparr> else p);
                first = head_index p; p = p\<lparr>head_index := first + actual\<rparr> in
            case block_index p of None \<Rightarrow> Inl null_index
            | Some hdr \<Rightarrow> take_blocks (Suc (unat actual)) hdr (index_pos hdr first p) first (first + actual) p m)
         else Inr ([], p\<lparr>overcommit := overcommit p + desired\<rparr>, m))
      else Inr ([], p, m))"

section \<open>The elements of one block\<close>

text \<open>What taking \<open>n\<close> elements one by one does to their block.\<close>

fun taken :: "nat \<Rightarrow> nat \<Rightarrow> qblock \<Rightarrow> qblock" where
  "taken 0 h b = b"
| "taken (Suc n) h b = taken n (Suc h) (fst (set_empty Implicit_Context (of_nat h) (block_put (of_nat h) None b)))"

fun cleared :: "nat \<Rightarrow> u64 \<Rightarrow> qblock \<Rightarrow> qblock" where
  "cleared 0 i b = b"
| "cleared (Suc n) i b = cleared n (i + 1) (block_put i None b)"

lemma cleared_count:
  "cleared n i (b\<lparr>completely_dequeued := c\<rparr>) = (cleared n i b)\<lparr>completely_dequeued := c\<rparr>
    \<and> completely_dequeued (cleared n i b) = completely_dequeued b"
proof (induction n arbitrary: i b)
  case (Suc n)
  have "block_put i None (b\<lparr>completely_dequeued := c\<rparr>) = (block_put i None b)\<lparr>completely_dequeued := c\<rparr>" for i b
    by (simp add: block_put_def)
  moreover have "completely_dequeued (block_put i None b) = completely_dequeued b" for i b by (simp add: block_put_def)
  ultimately show ?case using Suc by simp
qed simp

lemma taken_cleared: "taken n h b = fst (set_many_empty Implicit_Context (of_nat h) (of_nat n) (cleared n (of_nat h) b))"
proof (induction n arbitrary: h b)
  case 0
  then show ?case by (simp add: set_many_empty_def)
next
  case (Suc n)
  have one: "fst (set_empty Implicit_Context i b) = b\<lparr>completely_dequeued := completely_dequeued b + 1\<rparr>" for i b
    by (simp add: set_empty_def)
  have "of_nat (Suc h) = (of_nat h + 1 :: u64)" by simp
  then show ?case using Suc.IH [of "Suc h"]
    by (simp add: one cleared_count set_many_empty_def del: of_nat_Suc) (simp add: block_put_def cleared_count add.assoc)
qed

lemma contents_taken:
  assumes "contents_ok kt h t (zs @ ys) L B" "L \<noteq> []" "distinct L" "length L = kt - h div 32" "blocks_upto t \<le> kt"
    and "last L < length B" "list_all block_ok B" "h mod 32 + length zs \<le> 32"
  shows "contents_ok kt (h + length zs) t ys (if h mod 32 + length zs = 32 then butlast L else L)
      (B[last L := taken (length zs) h (B ! last L)])
    \<and> block_ok (taken (length zs) h (B ! last L))"
  using assms
proof (induction zs arbitrary: h B)
  case Nil
  have "h mod 32 \<noteq> 32" using mod_less_divisor [of 32 h] by linarith
  then show ?case using Nil by (simp add: list_all_length)
next
  case (Cons z zs)
  let ?b = "fst (set_empty Implicit_Context (of_nat h) (block_put (of_nat h) None (B ! last L)))"
  let ?B = "B[last L := ?b]"
  have ok: "block_ok ?b" "list_all block_ok ?B" using Cons.prems(6,7) by (simp_all add: list_all_length nth_list_update)
  have one: "contents_ok kt (Suc h) t (zs @ ys) (if h mod 32 = 31 then butlast L else L) ?B"
    by (rule contents_after_take [of _ _ _ z, OF _ Cons.prems(2-7)]) (use Cons.prems(1,6) in \<open>auto simp: nth_list_update\<close>)
  show ?case
  proof (cases "zs = []")
    case True
    then show ?thesis using one ok(1) by (auto simp: le_Suc_eq)
  next
    case False
    then have "h mod 32 \<noteq> 31" using Cons.prems(8) by (cases zs) simp_all
    then have next_h: "Suc h div 32 = h div 32" "Suc h mod 32 = Suc (h mod 32)" by (simp_all add: div_Suc_32)
    have "contents_ok kt (Suc h + length zs) t ys (if Suc h mod 32 + length zs = 32 then butlast L else L)
        (?B[last L := taken (length zs) (Suc h) (?B ! last L)]) \<and> block_ok (taken (length zs) (Suc h) (?B ! last L))"
      by (rule Cons.IH) (use one \<open>h mod 32 \<noteq> 31\<close> next_h Cons.prems ok(2) in simp_all)
    then show ?thesis using next_h Cons.prems(6) by simp
  qed
qed

lemma within_block:
  assumes "h mod 32 + j < (32 :: nat)"
  shows "(h + j) div 32 = h div 32" "(h + j) mod 32 = h mod 32 + j"
proof -
  define q r where "q = h div 32" and "r = h mod 32"
  have sum: "h + j = 32 * q + (r + j)" by (simp add: q_def r_def)
  have small: "r + j < 32" using assms by (simp add: r_def)
  show "(h + j) div 32 = h div 32" unfolding sum q_def [symmetric] using small by simp
  show "(h + j) mod 32 = h mod 32 + j" unfolding sum r_def [symmetric] using small by simp
qed

lemma on_block_twice:
  assumes "b < length (qblocks m)"
  shows "on_block b f (on_block b g m) = on_block b (f \<circ> g) m" "on_block b f m = on_block b (\<lambda>_. f (qblocks m ! b)) m"
  using assms by (simp_all add: on_block_def)

lemma take_range_run:
  assumes "b < length (qblocks m)" "block_ok (qblocks m ! b)" "h mod 32 + length zs \<le> 32"
    and "\<And>j. j < length zs \<Longrightarrow> block_at (qblocks m ! b) (of_nat (h + j)) = Some (zs ! j)"
  shows "take_range (length zs) (of_nat h) b m = Inr (zs, on_block b (cleared (length zs) (of_nat h)) m)"
  using assms
proof (induction zs arbitrary: h m)
  case Nil
  then show ?case by (simp add: on_block_def)
next
  case (Cons z zs)
  let ?m = "on_block b (block_put (of_nat h) None) m"
  have len: "b < length (qblocks ?m)" using Cons.prems(1) by simp
  have first: "block_at (qblocks m ! b) (of_nat h) = Some z" using Cons.prems(4) [of 0] by simp
  have at: "qblocks ?m ! b = block_put (of_nat h) None (qblocks m ! b)" using Cons.prems(1) by (simp add: on_block_nth)
  show ?case
  proof (cases "zs = []")
    case True
    then show ?thesis using first by (simp add: fun_eq_iff comp_def)
  next
    case False
    then have "h mod 32 \<noteq> 31" using Cons.prems(3) by (cases zs) simp_all
    then have next_h: "Suc h mod 32 = Suc (h mod 32)" by (simp add: div_Suc_32)
    have "take_range (length zs) (of_nat (Suc h)) b ?m = Inr (zs, on_block b (cleared (length zs) (of_nat (Suc h))) ?m)"
    proof (rule Cons.IH [OF len])
      show "block_ok (qblocks ?m ! b)" using Cons.prems(2) at by simp
      show "Suc h mod 32 + length zs \<le> 32" using Cons.prems(3) next_h by simp
      fix j
      assume j: "j < length zs"
      have "slot_of (of_nat (Suc h + j)) \<noteq> slot_of (of_nat h)"
      proof -
        have "Suc h mod 32 + j < 32" using j Cons.prems(3) next_h by simp
        then show ?thesis using within_block(2) [of "Suc h" j] next_h by (simp only: slot_of_nat)
      qed
      then show "block_at (qblocks ?m ! b) (of_nat (Suc h + j)) = Some (zs ! j)"
        using Cons.prems(2) Cons.prems(4) [of "Suc j"] j by (simp add: at block_puts del: of_nat_Suc of_nat_add)
    qed
    then show ?thesis using first on_block_twice(1) [OF Cons.prems(1)]
      by (simp add: add.commute [of 1] comp_def)
  qed
qed

lemma block_end_nat:
  assumes "n \<le> 2 ^ 62"
  shows "block_end (of_nat h) (of_nat (h + n)) = of_nat (h + min n (32 - h mod 32))"
proof -
  let ?e = "h + (32 - h mod 32)"
  have h: "h = 32 * (h div 32) + h mod 32" "h mod 32 < 32" by simp_all
  then have e: "32 * (h div 32) + 32 = ?e" by linarith
  have k: "base_of (of_nat h) + of_nat block_size = (of_nat ?e :: u64)"
    by (simp only: base_of_nat block_size_def of_nat_add [symmetric] e)
  show ?thesis
  proof (cases "n < 32 - h mod 32")
    case True
    define d where "d = 32 - h mod 32 - n"
    have d: "?e = h + n + d" "0 < d" "d < 2 ^ 63" using True by (simp_all add: d_def)
    have "circular_less_than (of_nat (h + n)) (of_nat ?e :: u64)"
      using circular_less_than_ahead [OF d(3), of "of_nat (h + n)"] d(2) unfolding d(1) by (simp add: add.assoc)
    then show ?thesis using True by (simp only: block_end_def k Let_def if_True min_def) simp
  next
    case False
    define d where "d = n - (32 - h mod 32)"
    have d: "h + n = ?e + d" "d \<le> 2 ^ 63" using False assms by (simp_all add: d_def)
    have "\<not> circular_less_than (of_nat (h + n)) (of_nat ?e :: u64)"
      using circular_less_than_behind [OF d(2), of "of_nat ?e"] unfolding d(1) by (simp only: of_nat_add not_False_eq_True)
    moreover have "min n (32 - h mod 32) = 32 - h mod 32" using False by simp
    ultimately show ?thesis by (simp only: block_end_def k Let_def if_False)
  qed
qed

lemma of_nat_distance:
  assumes "n < 2 ^ 64"
  shows "unat (of_nat (h + n) - of_nat h :: u64) = n" "k \<le> n \<Longrightarrow> (of_nat (h + k) :: u64) = of_nat (h + n) \<longleftrightarrow> k = n"
proof -
  have d: "unat (of_nat (h + j) - of_nat h :: u64) = j" if "j < 2 ^ 64" for j
    using unat_of_nat_u64 [OF that] by (simp del: unat_of_nat)
  then show "unat (of_nat (h + n) - of_nat h :: u64) = n" using assms by blast
  show "(of_nat (h + k) :: u64) = of_nat (h + n) \<longleftrightarrow> k = n" if "k \<le> n"
    using d [of k] d [of n] assms that by (metis le_less_trans)
qed

lemma pool_step_free:
  assumes m: "pool_inv m used" "set L \<subseteq> used" "L \<noteq> []" "distinct L" "block_ok (f (qblocks m ! last L))"
    and m': "m' = (if full then add_to_free_list (last L) (on_block (last L) f m) else on_block (last L) f m)"
  shows "pool_step used L m (if full then butlast L else L) m'"
proof -
  define b where "b = last L"
  have L: "L = butlast L @ [b]" using m(3) by (simp add: b_def)
  then have sets: "set L = insert b (set (butlast L))" "b \<notin> set (butlast L)"
    using m(4) by (metis set_append list.set Un_insert_right Un_empty_right, metis distinct_append not_distinct_conv_prefix distinct.simps(2) IntI empty_iff list.set_intros(1))
  have b: "b \<in> used" "b < length (qblocks m)" using sets(1) m(2) pool_inv_used [OF m(1)] by blast+
  let ?m = "on_block b (\<lambda>_. f (qblocks m ! b)) m"
  have same: "on_block b f m = ?m" by (rule on_block_twice(2) [OF b(2)])
  have inv: "pool_inv ?m used" by (rule on_block_inv [OF m(1) b(1)]) (use m(5) in \<open>simp add: b_def\<close>)
  have "pool_inv m' (used - set L \<union> set (if full then butlast L else L))"
  proof (cases full)
    case True
    have "used - set L \<union> set (butlast L) = used - {b}" using sets m(2) by auto
    then show ?thesis using inv b(1) True m' same
      by (auto simp: b_def [symmetric] add_to_free_list_def pool_inv_def unused_def)
  next
    case False
    have "used - set L \<union> set L = used" using m(2) by auto
    then show ?thesis using inv False m' same by (simp add: b_def [symmetric])
  qed
  moreover have "qblocks m' ! c = qblocks m ! c" if "c \<in> used - set L" for c
  proof -
    have "c \<noteq> b" using that sets(1) by blast
    then show ?thesis using b(2) m' same by (simp add: b_def [symmetric] add_to_free_list_def on_block_nth)
  qed
  moreover have "mallocs m' = mallocs m" using m' by (simp add: add_to_free_list_def)
  moreover have "set (if full then butlast L else L) \<subseteq> set L" by (auto dest: in_set_butlastD)
  ultimately show ?thesis by (auto simp: pool_step_def)
qed

lemma ring_pos_back:
  assumes "d < cap"
  shows "Suc (ring_pos cap t (Suc d)) mod cap = ring_pos cap t d"
proof -
  have "Suc (t + cap - Suc d) = t + cap - d" using assms by linarith
  then show ?thesis by (simp add: ring_pos_def mod_Suc_eq)
qed

lemma contents_read:
  assumes "contents_ok kt h t (zs @ ys) L B" "t = h + length (zs @ ys)" "j < length zs" "h mod 32 + length zs \<le> 32"
    and "length L = kt - h div 32" "L \<noteq> []"
  shows "block_at (B ! last L) (of_nat (h + j)) = Some (zs ! j)"
proof -
  have "(h + j) div 32 = h div 32"
    by (rule within_block) (use assms(3,4) in linarith)
  then have "kt - 1 - (h + j) div 32 = length L - 1" using assms(5) by simp
  moreover have "block_at (B ! (L ! (kt - 1 - (h + j) div 32))) (of_nat (h + j)) = Some ((zs @ ys) ! (h + j - h))"
    using assms(1) [unfolded contents_ok_def, THEN conjunct1, rule_format, of "h + j"] assms(2,3) by simp
  ultimately show ?thesis using assms(3,6) by (simp add: last_conv_nth nth_append)
qed

text \<open>The loop over the blocks takes the elements in order.\<close>

lemma take_blocks_run:
  assumes "block_index p = Some hdr" "index_ok p" "view_ok kt L (index_view p)" "length L = kt - h div 32" "distinct L"
    and "contents_ok kt h t (zs @ ys) L (qblocks m)" "t = h + length (zs @ ys)" "blocks_upto t \<le> kt" "h < t"
    and "pool_inv m used" "set L \<subseteq> used" "length zs \<le> 2 ^ 62" "length zs < fuel"
    and "unat pos = ring_pos (unat (hdr_capacity hdr)) (unat (hdr_tail hdr)) (length L - 1)"
  shows "\<exists>p' m' L'. take_blocks fuel hdr pos (of_nat h) (of_nat (h + length zs)) p m = Inr (zs, p', m')
    \<and> index_ok p' \<and> view_ok kt L' (index_view p') \<and> length L' = kt - (h + length zs) div 32 \<and> distinct L'
    \<and> contents_ok kt (h + length zs) t ys L' (qblocks m') \<and> pool_step used L m L' m' \<and> same_queue p p'
    \<and> (L' \<noteq> [] \<longrightarrow> hd L' = hd L)"
  using assms
proof (induction fuel arbitrary: p L h zs m used pos)
  case (Suc fuel)
  note ix = Suc.prems(1-3) and L = Suc.prems(4,5) and C = Suc.prems(6,7) and kt = Suc.prems(8) and inv = Suc.prems(10,11)
  have ne: "L \<noteq> []" using live_block(1) [OF L(1) order_refl Suc.prems(9) kt] by auto
  define b where "b = last L"
  have b: "b \<in> used" "b < length (qblocks m)" "block_ok (qblocks m ! b)"
    using inv last_in_set [OF ne] pool_inv_used [OF inv(1)] by (auto simp: b_def)
  define n where "n = min (length zs) (32 - h mod 32)"
  have h32: "h mod 32 < 32" by simp
  have n: "n \<le> length zs" "h mod 32 + n \<le> 32" "n < 2 ^ 64" using Suc.prems(12) h32 by (auto simp: n_def)
  define us where "us = List.take n zs"
  define vs where "vs = drop n zs"
  have zs: "zs = us @ vs" "length us = n" "length vs = length zs - n" using n(1) by (simp_all add: us_def vs_def)
  have ok: "list_all block_ok (qblocks m)" using inv(1) by (simp add: pool_inv_def)
  have C': "contents_ok kt h t (us @ vs @ ys) L (qblocks m)" "t = h + length (us @ vs @ ys)" using C zs(1) by simp_all
  have upto: "block_end (of_nat h) (of_nat (h + length zs)) = of_nat (h + n)"
    using block_end_nat [OF Suc.prems(12), of h] by (simp only: n_def)
  have dist: "unat (of_nat (h + n) - of_nat h :: u64) = n" by (rule of_nat_distance(1) [OF n(3)])
  have same: "(of_nat (h + n) :: u64) = of_nat (h + length zs) \<longleftrightarrow> n = length zs"
    by (rule of_nat_distance(2)) (use n(1) Suc.prems(12) in simp_all)
  have diff: "(of_nat (h + n) - of_nat h :: u64) = of_nat n" by simp
  have hdr: "header_ok hdr p" using ix(1,2) by (auto simp: index_ok_def)
  let ?cap = "unat (hdr_capacity hdr)" and ?t = "unat (hdr_tail hdr)"
  have cap: "?t < ?cap" "length L \<le> ?cap" using hdr ix(3) index_view_eq(1) [OF ix(1)] by (auto simp: header_ok_def view_ok_def)
  define a where "a = addr_at hdr (length L - 1)"
  have a: "hdr_index hdr ! unat pos = a" using Suc.prems(14) by (simp add: a_def addr_at_def)
  have val: "entry_value (entries p ! a) = Some b"
  proof -
    have d: "length L - 1 < length L" using ne by (cases L) simp_all
    then have "index_view p ! (length L - 1) = \<lparr>entry_key = of_nat (32 * (kt - 1 - (length L - 1))), entry_value = Some (L ! (length L - 1))\<rparr>"
      using ix(3) by (simp only: view_ok_def)
    moreover have "index_view p ! (length L - 1) = entries p ! a"
      unfolding a_def by (rule index_view_eq(2) [OF ix(1)]) (use d cap(2) in linarith)
    ultimately have "entry_value (entries p ! a) = Some (L ! (length L - 1))" by (metis index_entry.select_convs(2))
    then show ?thesis using ne by (simp add: b_def last_conv_nth)
  qed
  have run: "take_range n (of_nat h) b m = Inr (us, on_block b (cleared n (of_nat h)) m)"
    using take_range_run [OF b(2,3), of h us] contents_read [OF C' _ _ L(1) ne] n(2) zs(2) by (simp add: b_def)
  define full where "full \<longleftrightarrow> h mod 32 + n = 32"
  define m1 where "m1 = on_block b (taken n h) m"
  have m1: "on_block b (fst \<circ> set_many_empty Implicit_Context (of_nat h) (of_nat n)) (on_block b (cleared n (of_nat h)) m) = m1"
    unfolding m1_def on_block_twice(1) [OF b(2)] by (rule arg_cong [of _ _ "\<lambda>f. on_block b f m"]) (simp add: fun_eq_iff taken_cleared)
  have empty: "snd (set_many_empty Implicit_Context (of_nat h) (of_nat n) (qblocks (on_block b (cleared n (of_nat h)) m) ! b)) = full"
  proof -
    have "completely_dequeued (qblocks m ! b) = of_nat (h mod 32)"
      using C(1) ne by (auto simp: contents_ok_def b_def last_conv_nth dest!: spec [where x = "length L - 1"])
    moreover have "of_nat (h mod 32) + of_nat n = (32 :: u64) \<longleftrightarrow> h mod 32 + n = 32"
      using unat_of_nat_u64 [of "h mod 32 + n"] n(2) by (auto simp: word_unat_eq_iff simp flip: of_nat_add)
    ultimately show ?thesis using b(2) by (simp add: set_many_empty_def on_block_nth cleared_count full_def block_size_def)
  qed
  define L1 where "L1 = (if full then butlast L else L)"
  define p1 where "p1 = (if full then set_value a None p else p)"
  define m2 where "m2 = (if full then add_to_free_list b m1 else m1)"
  have taken: "contents_ok kt (h + n) t (vs @ ys) L1 (qblocks m2)" "block_ok (taken n h (qblocks m ! b))"
    using contents_taken [OF C'(1) ne L(2,1) kt _ ok] b(2) n(2) zs(2)
    by (auto simp: L1_def full_def m2_def m1_def b_def add_to_free_list_def on_block_def)
  have pool: "pool_step used L m L1 m2"
    unfolding L1_def by (rule pool_step_free [OF inv ne L(2), of "taken n h"]) (use taken(2) in \<open>simp_all add: b_def m2_def m1_def\<close>)
  have div: "(h + n) div 32 = (if full then Suc (h div 32) else h div 32)"
  proof (cases full)
    case True
    have "h + n = 32 * (h div 32) + (h mod 32 + n)" by simp
    also have "\<dots> = 32 * Suc (h div 32)" using True by (simp only: full_def) simp
    finally have "(h + n) div 32 = 32 * Suc (h div 32) div 32" by (rule arg_cong)
    then show ?thesis using True by simp
  next
    case False
    then show ?thesis using within_block(1) [of h n] n(2) by (simp add: full_def)
  qed
  have L1: "length L1 = kt - (h + n) div 32" "distinct L1" "L1 \<noteq> [] \<Longrightarrow> hd L1 = hd L"
  proof -
    show "length L1 = kt - (h + n) div 32" "distinct L1" using L by (simp_all add: L1_def div distinct_butlast)
    show "hd L1 = hd L" if "L1 \<noteq> []" using that ne by (cases L) (auto simp: L1_def)
  qed
  have dV: "length L - 1 < length (index_view p)" using cap ne index_view_eq(1) [OF ix(1)] by (cases L) simp_all
  note sv = set_value_view [OF ix(2,1) dV, of None, folded a_def]
  have ix1: "block_index p1 = Some hdr" "index_ok p1" "view_ok kt L1 (index_view p1)" "same_queue p p1"
    using ix sv view_ok_drop [OF ix(3) ne] by (simp_all add: p1_def L1_def)
  have step: "take_blocks (Suc fuel) hdr pos (of_nat h) (of_nat (h + length zs)) p m
      = (if n = length zs then Inr (us, p1, m2)
         else bind_res (take_blocks fuel hdr (ring_next hdr pos) (of_nat (h + n)) (of_nat (h + length zs)) p1 m2)
           (\<lambda>(ys, p, m). Inr (us @ ys, p, m)))"
    unfolding take_blocks.simps(2) upto Let_def a val option.simps dist run bind_res_Inr prod.case same
    unfolding diff m1 empty by (simp add: p1_def m2_def)
  show ?case
  proof (cases "n = length zs")
    case True
    have "vs = []" using zs(3) True by simp
    then have all: "vs = []" "us = zs" using zs(1) by (simp, metis append_Nil2)
    have "take_blocks (Suc fuel) hdr pos (of_nat h) (of_nat (h + length zs)) p m = Inr (zs, p1, m2)"
      using step unfolding True all(2) by simp
    moreover have "contents_ok kt (h + length zs) t ys L1 (qblocks m2)" "length L1 = kt - (h + length zs) div 32"
      using taken(1) L1(1) True all(1) by simp_all
    ultimately show ?thesis using pool L1(2,3) ix1(2-4) by blast
  next
    case False
    then have fl: full and n_pos: "0 < n" using h32 by (auto simp: full_def n_def min_def split: if_splits)
    let ?used = "used - set L \<union> set L1"
    have "n < length zs" using False n(1) by simp
    then have rest_len: "t = h + n + length vs + length ys" "0 < length vs" using C(2) zs(3) by simp_all
    have "\<exists>p' m' L'. take_blocks fuel hdr (ring_next hdr pos) (of_nat (h + n)) (of_nat (h + n + length vs)) p1 m2 = Inr (vs, p', m')
      \<and> index_ok p' \<and> view_ok kt L' (index_view p') \<and> length L' = kt - (h + n + length vs) div 32 \<and> distinct L'
      \<and> contents_ok kt (h + n + length vs) t ys L' (qblocks m') \<and> pool_step ?used L1 m2 L' m' \<and> same_queue p1 p'
      \<and> (L' \<noteq> [] \<longrightarrow> hd L' = hd L1)"
    proof (rule Suc.IH [OF ix1(1-3) L1(1,2) taken(1) _ kt])
      show "t = h + n + length (vs @ ys)" "h + n < t" using rest_len by simp_all
      show "pool_inv m2 ?used" "set L1 \<subseteq> ?used" using pool by (simp_all add: pool_step_def)
      show "length vs \<le> 2 ^ 62" "length vs < fuel" using Suc.prems(12,13) zs(3) n_pos n(1) by linarith+
      have "length L1 \<noteq> 0" using live_block(1) [OF L1(1) order_refl _ kt] rest_len by auto
      then have len: "0 < length L1" "length L1 = length L - 1" using fl by (simp, simp add: L1_def)
      have "unat (ring_next hdr pos) = Suc (ring_pos ?cap ?t (length L - 1)) mod ?cap"
        using ring_next_unat [OF hdr, of pos] Suc.prems(14) by simp
      also have "\<dots> = ring_pos ?cap ?t (length L1 - 1)"
      proof -
        have "Suc (length L1 - 1) = length L - 1" "length L1 - 1 < ?cap" using len cap(2) by linarith+
        then show ?thesis using ring_pos_back [of "length L1 - 1" ?cap ?t] by simp
      qed
      finally show "unat (ring_next hdr pos) = ring_pos ?cap ?t (length L1 - 1)" .
    qed
    then obtain p' m' L' where rest: "take_blocks fuel hdr (ring_next hdr pos) (of_nat (h + n)) (of_nat (h + n + length vs)) p1 m2 = Inr (vs, p', m')"
        "index_ok p'" "view_ok kt L' (index_view p')" "length L' = kt - (h + n + length vs) div 32" "distinct L'"
        "contents_ok kt (h + n + length vs) t ys L' (qblocks m')" "pool_step ?used L1 m2 L' m'" "same_queue p1 p'"
        "L' \<noteq> [] \<longrightarrow> hd L' = hd L1" by blast
    have sum: "h + n + length vs = h + length zs" using zs(3) n(1) by simp
    have "L1 \<noteq> []" if "L' \<noteq> []"
    proof -
      have "(h + n) div 32 \<le> (h + n + length vs) div 32" by (rule div_le_mono) simp
      moreover have "0 < length L'" using that by simp
      ultimately have "0 < length L1" using rest(4) L1(1) by linarith
      then show ?thesis by simp
    qed
    then have "L' \<noteq> [] \<longrightarrow> hd L' = hd L" using rest(9) L1(3) by simp
    moreover have "take_blocks (Suc fuel) hdr pos (of_nat h) (of_nat (h + length zs)) p m = Inr (zs, p', m')"
      using step False rest(1) zs(1) unfolding sum by simp
    ultimately show ?thesis
      using rest(2-6) [unfolded sum] pool_step_trans [OF pool rest(7) inv(2)] same_queue_trans [OF ix1(4) rest(8)] by blast
  qed
qed simp

section \<open>The bulk operations on a queue\<close>

lemma min_word: "unat (min a b :: u64) = min (unat a) (unat b)"
  by (simp add: min_def word_le_nat_alt)

lemma dequeue_bulk_run:
  fixes limit :: u64
  assumes q: "fifo h t xs L p (qblocks m)" "pool_inv m used" "set L \<subseteq> used" "length xs \<le> 2 ^ 62"
  defines "k \<equiv> min (length xs) (unat limit)"
  shows "\<exists>p' m' L'. iq_dequeue_bulk limit p m = Inr (List.take k xs, p', m')
    \<and> fifo (h + k) t (drop k xs) L' p' (qblocks m') \<and> pool_step used L m L' m'"
proof -
  have t: "t = h + length xs" "counters_ok h t p" "index_ok p" "view_ok (blocks_upto t) L (index_view p)"
    "length L = blocks_upto t - h div 32" "distinct L" "L \<noteq> [] \<Longrightarrow> tail_block p = Some (hd L)"
    "contents_ok (blocks_upto t) h t xs L (qblocks m)"
    using q(1) unfolding queue_with_def by blast+
  have cnt: "head_index p = of_nat h" "optimistic_count p - overcommit p = of_nat h" using t(1,2) by (simp_all add: counters_ok_def)
  define N K :: u64 where "N = of_nat (length xs)" and "K = of_nat k"
  have k: "k \<le> length xs" "length (List.take k xs) = k" by (simp_all add: k_def)
  have unat: "unat N = length xs" "unat K = k" unfolding N_def K_def by (rule unat_of_nat_u64; use q(4) k in simp)+
  have some: "circular_less_than 0 N \<longleftrightarrow> xs \<noteq> []"
    using circular_less_than_ahead [of "length xs" 0] q(4) by (simp add: N_def)
  have tail: "tail_index p = of_nat h + N" using t(1,2) by (simp add: counters_ok_def N_def)
  have desired: "min N limit = K" "min K N = K"
    unfolding word_unat_eq_iff min_word by (simp_all add: unat k_def)
  show ?thesis
  proof (cases "xs = []")
    case True
    then have "iq_dequeue_bulk limit p m = Inr ([], p, m)" using some cnt tail by (simp add: iq_dequeue_bulk_def)
    moreover have "pool_step used L m L m" using q(2,3) by (auto simp: pool_step_def Un_absorb2)
    ultimately show ?thesis using True q(1) by (auto simp: k_def)
  next
    case False
    obtain hdr where hdr: "block_index p = Some hdr" using t(3) by (auto simp: index_ok_def)
    have L: "L \<noteq> []" using live_block(1) [OF t(5) order_refl _ order_refl] t(1) False by auto
    define p1 where "p1 = p\<lparr>optimistic_count := optimistic_count p + K, head_index := of_nat h + K\<rparr>"
    have same: "block_index p1 = Some hdr" "index_ok p1" "index_view p1 = index_view p"
      using hdr t(3) by (simp_all add: p1_def index_ok_def header_ok_def index_view_def)
    have key: "entry_key (index_view p1 ! 0) = of_nat (32 * (h div 32 + (length L - 1)))"
    proof -
      have "entry_key (index_view p ! 0) = of_nat (32 * (blocks_upto t - 1))" using t(4) L by (simp add: view_ok_def)
      moreover have "blocks_upto t - 1 = h div 32 + (length L - 1)" using t(5) L by (cases L) simp_all
      ultimately show ?thesis using same(3) by metis
    qed
    have d: "length L - 1 < length (index_view p1)" using t(4) L same(3) by (cases L) (simp_all add: view_ok_def)
    have pos: "unat (index_pos hdr (of_nat h) p1) = ring_pos (unat (hdr_capacity hdr)) (unat (hdr_tail hdr)) (length L - 1)"
      by (rule entry_for_view(2) [OF same(2,1) d key])
    have stop: "of_nat (h + k) = of_nat h + K" by (simp add: K_def)
    have run: "iq_dequeue_bulk limit p m = take_blocks (Suc k) hdr (index_pos hdr (of_nat h) p1) (of_nat h) (of_nat (h + k)) p1 m"
      unfolding stop by (simp add: iq_dequeue_bulk_def Let_def p1_def some False cnt tail desired hdr unat del: take_blocks.simps)
    obtain p' m' L' where r: "take_blocks (Suc k) hdr (index_pos hdr (of_nat h) p1) (of_nat h) (of_nat (h + k)) p1 m = Inr (List.take k xs, p', m')"
        "index_ok p'" "view_ok (blocks_upto t) L' (index_view p')" "length L' = blocks_upto t - (h + k) div 32" "distinct L'"
        "contents_ok (blocks_upto t) (h + k) t (drop k xs) L' (qblocks m')" "pool_step used L m L' m'" "same_queue p1 p'"
        "L' \<noteq> [] \<longrightarrow> hd L' = hd L"
      using take_blocks_run [where zs = "List.take k xs" and ys = "drop k xs" and fuel = "Suc k",
          OF same(1,2) _ t(5,6) _ _ order_refl _ q(2,3) _ _ pos] t(1,4,8) same(3) k False q(4) by auto
    have "L' \<noteq> [] \<Longrightarrow> tail_block p' = Some (hd L')" using r(8,9) t(7) [OF L] by (simp add: same_queue_def p1_def)
    moreover have "counters_ok (h + k) t p'" using r(8) cnt tail t(1) by (simp add: counters_ok_def same_queue_def p1_def K_def N_def algebra_simps)
    ultimately have "fifo (h + k) t (drop k xs) L' p' (qblocks m')" using r(2-6) t(1) k by (simp add: queue_with_def)
    then show ?thesis using run r(1,7) by auto
  qed
qed

subsection \<open>Allocating the blocks\<close>

text \<open>The blocks are allocated one after the other, the newest in front, until memory runs out.\<close>

lemma alloc_blocks_run:
  assumes "queue_with kt h t xs L p (qblocks m)" "pool_inv m used" "set L \<subseteq> used" "blocks_upto t \<le> kt" "t \<le> 32 * kt"
    and "32 * (kt + n) < h + 2 ^ 62 + 32" "base + of_nat block_size = of_nat (32 * kt)"
  shows "\<exists>ok bs p' m'. alloc_blocks mode n base as p m = Inr (ok, as @ bs, p', m')
    \<and> head_index p' = head_index p \<and> tail_index p' = tail_index p \<and> (ok \<longrightarrow> length bs = n) \<and> length bs \<le> n
    \<and> queue_with (kt + length bs) h t xs (rev bs @ L) p' (qblocks m') \<and> pool_step used L m (rev bs @ L) m'
    \<and> set bs \<inter> used = {} \<and> distinct bs \<and> (bs = [] \<longrightarrow> tail_block p' = tail_block p)
    \<and> (mode = Can_Alloc \<longrightarrow> False \<notin> set (mallocs m) \<longrightarrow> ok)"
  using assms
proof (induction n arbitrary: kt L p m used base as)
  case 0
  have "pool_step used L m L m" using 0(2,3) by (auto simp: pool_step_def Un_absorb2)
  then show ?case using 0 by (intro exI [of _ True] exI [of _ "[]"] exI [of _ p] exI [of _ m]) simp
next
  case (Suc n)
  have t: "t = h + length xs" "counters_ok h t p" using Suc.prems(1) unfolding queue_with_def by blast+
  have room: "h \<le> 32 * kt" "32 * kt \<le> h + 2 ^ 62 + 32" "\<not> subqueue_full (of_nat (32 * kt)) p"
  proof -
    show le: "h \<le> 32 * kt" using t(1) Suc.prems(5) by linarith
    show "32 * kt \<le> h + 2 ^ 62 + 32" using Suc.prems(6) by simp
    show "\<not> subqueue_full (of_nat (32 * kt)) p"
      by (rule not_full [OF _ le]) (use t(2) Suc.prems(6) in \<open>simp_all add: counters_ok_def\<close>)
  qed
  obtain r p1 m1 where ins: "insert_block mode (of_nat (32 * kt)) p m = Inr (r, p1, m1)"
      "head_index p1 = head_index p" "tail_index p1 = tail_index p"
      "case r of
         None \<Rightarrow> queue_with kt h t xs L p1 (qblocks m1) \<and> pool_step used L m L m1 \<and> tail_block p1 = tail_block p
           \<and> (mode = Can_Alloc \<longrightarrow> False \<in> set (mallocs m))
       | Some b \<Rightarrow> b \<notin> used \<and> queue_with (Suc kt) h t xs (b # L) p1 (qblocks m1) \<and> pool_step used L m (b # L) m1"
    using insert_block_run [OF Suc.prems(1-4) room(1,2), of mode] by blast
  show ?case
  proof (cases r)
    case None
    then show ?thesis using ins room(3) Suc.prems(7)
      by (intro exI [of _ False] exI [of _ "[]"] exI [of _ p1] exI [of _ m1]) simp
  next
    case (Some b)
    then have b: "b \<notin> used" "queue_with (Suc kt) h t xs (b # L) p1 (qblocks m1)" "pool_step used L m (b # L) m1" using ins(4) by simp_all
    let ?used = "used - set L \<union> set (b # L)"
    have base: "of_nat (32 * kt) + of_nat block_size = (of_nat (32 * Suc kt) :: u64)" by (simp add: block_size_def)
    have le: "blocks_upto t \<le> Suc kt" "t \<le> 32 * Suc kt" "32 * (Suc kt + n) < h + 2 ^ 62 + 32" using Suc.prems(4-6) by simp_all
    have inv: "pool_inv m1 ?used" "set (b # L) \<subseteq> ?used" using b(3) by (simp add: pool_step_def) blast
    obtain ok bs p' m' where rest: "alloc_blocks mode n (of_nat (32 * kt)) (as @ [b]) p1 m1 = Inr (ok, (as @ [b]) @ bs, p', m')"
        "head_index p' = head_index p1" "tail_index p' = tail_index p1" "ok \<longrightarrow> length bs = n" "length bs \<le> n"
        "queue_with (Suc kt + length bs) h t xs (rev bs @ b # L) p' (qblocks m')" "pool_step ?used (b # L) m1 (rev bs @ b # L) m'"
        "set bs \<inter> ?used = {}" "distinct bs" "mode = Can_Alloc \<longrightarrow> False \<notin> set (mallocs m1) \<longrightarrow> ok"
      using Suc.IH [OF b(2) inv le base, of "as @ [b]"] by blast
    have "set (mallocs m1) \<subseteq> set (mallocs m)" using b(3) by (simp add: pool_step_def)
    moreover have "pool_step used L m (rev bs @ b # L) m'" by (rule pool_step_trans [OF b(3) rest(7) Suc.prems(3)])
    moreover have "set (b # bs) \<inter> used = {}" "distinct (b # bs)" using rest(8,9) b(1) Suc.prems(3) by auto
    moreover have "alloc_blocks mode (Suc n) base as p m = Inr (ok, as @ (b # bs), p', m')"
      using rest(1) ins(1) Some room(3) Suc.prems(7) by simp
    ultimately show ?thesis using rest(2-6,10) ins(2,3)
      by (intro exI [of _ ok] exI [of _ "b # bs"] exI [of _ p'] exI [of _ m']) auto
  qed
qed

subsection \<open>Giving them back\<close>

lemma rotate_update:
  assumes "d < length W" "j \<le> length W"
  shows "(rotate j W)[(d + length W - j) mod length W := e] = rotate j (W[d := e])"
proof (rule nth_equalityI)
  let ?n = "length W"
  fix i
  assume "i < length ((rotate j W)[(d + ?n - j) mod ?n := e])"
  then have i: "i < ?n" by simp
  have "(d + ?n - j) mod ?n = i \<longleftrightarrow> (j + i) mod ?n = d"
  proof
    assume "(d + ?n - j) mod ?n = i"
    then have "(j + i) mod ?n = (j + (d + ?n - j)) mod ?n" by (metis mod_add_right_eq)
    also have "\<dots> = d" using assms by simp
    finally show "(j + i) mod ?n = d" .
  next
    assume d: "(j + i) mod ?n = d"
    have "(d + ?n - j) mod ?n = (d + (?n - j)) mod ?n" using assms(2) by simp
    also have "\<dots> = (j + i + (?n - j)) mod ?n" unfolding d [symmetric] by (rule mod_add_left_eq)
    also have "\<dots> = i" using assms(2) i by simp
    finally show "(d + ?n - j) mod ?n = i" .
  qed
  then show "(rotate j W)[(d + ?n - j) mod ?n := e] ! i = rotate j (W[d := e]) ! i"
    using i assms(1) by (auto simp: nth_rotate nth_list_update)
qed simp

definition null_first :: "nat \<Rightarrow> index_entry list \<Rightarrow> index_entry list" where
  "null_first n W = map (\<lambda>e. e\<lparr>entry_value := None\<rparr>) (List.take n W) @ drop n W"

lemma null_first_Suc:
  assumes "n < length W"
  shows "null_first n (W[n := (W ! n)\<lparr>entry_value := None\<rparr>]) = null_first (Suc n) W"
  using assms by (simp add: null_first_def take_Suc_conv_app_nth Cons_nth_drop_Suc [symmetric] drop_update_swap)

lemma give_back_run:
  assumes "index_ok p" "index_view p = rotate j W" "j + length bs = k" "k \<le> length W"
    and "\<And>d. d < k \<Longrightarrow> entry_key (W ! d) = of_nat (32 * (kt + k - 1 - d))"
    and "base + of_nat block_size = of_nat (32 * (kt + j))"
  shows "\<exists>p'. give_back_entries base bs p = Inr p' \<and> index_ok p' \<and> same_queue p p'
    \<and> index_view p' = rotate k (null_first (length bs) W)"
  using assms
proof (induction bs arbitrary: j p W base)
  case Nil
  then show ?case by (simp add: null_first_def)
next
  case (Cons b bs)
  let ?len = "length W" and ?d = "length bs"
  define d' where "d' = (?d + ?len - j) mod ?len"
  have j: "j < k" "?d = k - 1 - j" "?d < ?len" using Cons.prems(3,4) by simp_all
  then have pos: "0 < ?len" by linarith
  obtain h where h: "block_index p = Some h" "header_ok h p" using Cons.prems(1) by (auto simp: index_ok_def)
  have cap: "unat (hdr_capacity h) = ?len" using index_view_eq(1) [OF h(1)] Cons.prems(2) by simp
  let ?t = "unat (hdr_tail h)"
  have t: "?t < ?len" using h(2) cap by (simp add: header_ok_def)
  have "entry_key (entries p ! (hdr_index h ! ?t)) = of_nat (32 * (kt + k - 1 - j))"
  proof -
    have "index_view p ! 0 = W ! j" using Cons.prems(2,4) j pos by (simp add: nth_rotate)
    moreover have "index_view p ! 0 = entries p ! (hdr_index h ! ?t)"
      using index_view_eq(2) [OF h(1), of 0] pos t by (simp add: addr_at_def cap)
    ultimately show ?thesis using Cons.prems(5) [OF j(1)] by simp
  qed
  from index_pos_run [OF h(2) this, of "32 * (kt + j)"]
  have "int (unat (index_pos h (of_nat (32 * (kt + j))) p)) = (int ?t + int (kt + j) - int (kt + k - 1 - j)) mod int ?len"
    by (simp add: cap)
  also have "\<dots> = (int ?t - int d') mod int ?len"
  proof -
    have "int d' = (int ?d + int ?len - int j) mod int ?len"
      using Cons.prems(3,4) by (simp add: d'_def zmod_int of_nat_diff)
    then have "(int ?t - int d') mod int ?len = (int ?t - (int ?d + int ?len - int j)) mod int ?len" by (simp add: mod_diff_right_eq)
    also have "\<dots> = (int ?t - (int ?d - int j)) mod int ?len"
      using mod_diff_right_eq [of "int ?t - (int ?d - int j)" "int ?len" "int ?len"] by (simp add: algebra_simps)
    also have "int ?t - (int ?d - int j) = int ?t + int (kt + j) - int (kt + k - 1 - j)" using j by (simp add: of_nat_diff)
    finally show ?thesis ..
  qed
  also have "\<dots> = int (ring_pos ?len ?t d')"
    using ring_pos_int [of d' ?t ?len] mod_less_divisor [OF pos, of "?d + ?len - j"] by (simp add: d'_def)
  finally have "unat (index_pos h (of_nat (32 * (kt + j))) p) = ring_pos ?len ?t d'" by (simp only: of_nat_eq_iff)
  then have entry: "entry_for (of_nat (32 * (kt + j))) p = Inr (addr_at h d')"
    using h(1) by (simp add: entry_for_def addr_at_def cap del: of_nat_mult)
  have d': "d' < length (index_view p)" using pos Cons.prems(2) by (simp add: d'_def)
  let ?p = "set_value (addr_at h d') None p" and ?W = "W[?d := (W ! ?d)\<lparr>entry_value := None\<rparr>]"
  note sv = set_value_view [OF Cons.prems(1) h(1) d', of None]
  have "index_view p ! d' = W ! ?d"
  proof -
    have "(j + d') mod ?len = (j + (?d + ?len - j)) mod ?len" by (simp add: d'_def mod_add_right_eq)
    also have "j + (?d + ?len - j) = ?d + ?len" using j Cons.prems(4) by linarith
    also have "(?d + ?len) mod ?len = ?d" using j(3) by simp
    finally show ?thesis using d' Cons.prems(2) by (simp add: nth_rotate)
  qed
  then have "index_view ?p = rotate j ?W"
    using sv(3) rotate_update [OF j(3), of j "(W ! ?d)\<lparr>entry_value := None\<rparr>"] Cons.prems(2,4) j by (simp add: d'_def)
  moreover obtain p1 where p1: "rewind_tail ?p = Inr p1" "index_ok p1" "index_view p1 = rotate1 (index_view ?p)" "same_queue ?p p1"
    using rewind_view [OF sv(1)] by (auto simp: same_queue_def)
  ultimately have view: "index_view p1 = rotate (Suc j) ?W" by simp
  have same: "same_queue p p1" using p1(4) by (simp add: same_queue_def set_value_def)
  have "\<exists>p'. give_back_entries (of_nat (32 * (kt + j))) bs p1 = Inr p' \<and> index_ok p' \<and> same_queue p1 p'
    \<and> index_view p' = rotate k (null_first (length bs) ?W)"
  proof (rule Cons.IH [OF p1(2) view])
    show "entry_key (?W ! d) = of_nat (32 * (kt + k - 1 - d))" if "d < k" for d
      using Cons.prems(5) [OF that] Cons.prems(4) that by (cases "d = ?d") simp_all
    show "of_nat (32 * (kt + j)) + of_nat block_size = (of_nat (32 * (kt + Suc j)) :: u64)" by (simp add: block_size_def)
  qed (use Cons.prems(3,4) in simp_all)
  then obtain p' where rest: "give_back_entries (of_nat (32 * (kt + j))) bs p1 = Inr p'" "index_ok p'" "same_queue p1 p'"
      "index_view p' = rotate k (null_first ?d ?W)" by blast
  have "give_back_entries base (b # bs) p = Inr p'" using Cons.prems(6) entry p1(1) rest(1) by (simp del: of_nat_mult)
  then show ?case using rest(2,4) same_queue_trans [OF same rest(3)] null_first_Suc [OF j(3)] by simp
qed

lemma view_ok_undo:
  assumes "view_ok (kt + length bs) (rev bs @ L) V"
  shows "view_ok kt L (rotate (length bs) (null_first (length bs) V))"
proof -
  let ?k = "length bs"
  have len: "?k + length L \<le> length V" "length L \<le> kt" using assms by (simp_all add: view_ok_def)
  have "length (map (\<lambda>e. e\<lparr>entry_value := None\<rparr>) (List.take ?k V)) = ?k" using len by simp
  then have rot: "rotate ?k (null_first ?k V) = drop ?k V @ map (\<lambda>e. e\<lparr>entry_value := None\<rparr>) (List.take ?k V)"
    unfolding null_first_def by (metis rotate_append)
  have front: "V ! (?k + d) = \<lparr>entry_key = of_nat (32 * (kt - 1 - d)), entry_value = Some (L ! d)\<rparr>" if "d < length L" for d
  proof -
    have "V ! (?k + d) = \<lparr>entry_key = of_nat (32 * (kt + ?k - 1 - (?k + d))), entry_value = Some ((rev bs @ L) ! (?k + d))\<rparr>"
      using assms that unfolding view_ok_def by simp
    moreover have "kt + ?k - 1 - (?k + d) = kt - 1 - d" by simp
    moreover have "(rev bs @ L) ! (?k + d) = L ! d" by (simp add: nth_append)
    ultimately show ?thesis by metis
  qed
  have behind: "claimable (V ! (?k + d))" if "length L \<le> d" "?k + d < length V" for d
    using assms that by (simp add: view_ok_def)
  show ?thesis unfolding rot using len front behind
    by (auto simp: view_ok_def nth_append claimable_def)
qed

lemma contents_fewer:
  assumes "contents_ok (kt + length bs) h t xs (rev bs @ L) B" "blocks_upto t \<le> kt" "length L = kt - h div 32"
  shows "contents_ok kt h t xs L B"
  unfolding contents_ok_def
proof (intro conjI allI impI)
  fix i
  assume i: "h \<le> i" "i < t"
  have "kt + length bs - 1 - i div 32 = length bs + (kt - 1 - i div 32)" using live_block(2) [OF assms(3) i assms(2)] by linarith
  then have "(rev bs @ L) ! (kt + length bs - 1 - i div 32) = L ! (kt - 1 - i div 32)" by (simp add: nth_append)
  then show "block_at (B ! (L ! (kt - 1 - i div 32))) (of_nat i) = Some (xs ! (i - h))"
    using assms(1) i unfolding contents_ok_def by metis
next
  fix d
  assume d: "d < length L"
  then have "completely_dequeued (B ! ((rev bs @ L) ! (length bs + d))) = of_nat (if Suc (length bs + d) = length (rev bs @ L) then h mod 32 else 0)"
    using assms(1) by (simp add: contents_ok_def)
  then show "completely_dequeued (B ! (L ! d)) = of_nat (if Suc d = length L then h mod 32 else 0)" by (simp add: nth_append)
qed

lemma free_all:
  assumes "pool_inv m used" "set bs \<subseteq> used" "distinct bs"
  shows "pool_inv (fold add_to_free_list bs m) (used - set bs) \<and> qblocks (fold add_to_free_list bs m) = qblocks m
    \<and> mallocs (fold add_to_free_list bs m) = mallocs m"
  using assms
proof (induction bs arbitrary: m used)
  case (Cons b bs)
  have "pool_inv (add_to_free_list b m) (used - {b})"
    using Cons.prems(1,2) by (auto simp: add_to_free_list_def pool_inv_def unused_def)
  then have "pool_inv (fold add_to_free_list bs (add_to_free_list b m)) (used - {b} - set bs)
      \<and> qblocks (fold add_to_free_list bs (add_to_free_list b m)) = qblocks (add_to_free_list b m)
      \<and> mallocs (fold add_to_free_list bs (add_to_free_list b m)) = mallocs (add_to_free_list b m)"
    using Cons.prems(2,3) by (intro Cons.IH) auto
  moreover have "used - {b} - set bs = used - set (b # bs)" by auto
  moreover have "qblocks (add_to_free_list b m) = qblocks m" "mallocs (add_to_free_list b m) = mallocs m"
    by (simp_all add: add_to_free_list_def)
  ultimately show ?case by simp
qed simp

lemma undo_run:
  assumes "queue_with (kt + length bs) h t xs (rev bs @ L) p (qblocks m)" "pool_step used L m0 (rev bs @ L) m"
    and "length L = kt - h div 32" "blocks_upto t \<le> kt" "set L \<subseteq> used" "set bs \<inter> used = {}" "distinct bs"
    and "L \<noteq> [] \<longrightarrow> start = Some (hd L)" "base + of_nat block_size = of_nat (32 * kt)"
  shows "\<exists>p'. give_back_entries base bs p = Inr p'
    \<and> queue_with kt h t xs L (p'\<lparr>tail_block := start\<rparr>) (qblocks (fold add_to_free_list bs m))
    \<and> pool_step used L m0 L (fold add_to_free_list bs m)"
proof -
  have q: "t = h + length xs" "counters_ok h t p" "index_ok p" "view_ok (kt + length bs) (rev bs @ L) (index_view p)"
    "distinct (rev bs @ L)" "contents_ok (kt + length bs) h t xs (rev bs @ L) (qblocks m)"
    using assms(1) unfolding queue_with_def by blast+
  have keys: "entry_key (index_view p ! d) = of_nat (32 * (kt + length bs - 1 - d))" if "d < length bs" for d
  proof -
    have "d < length (rev bs @ L)" using that by simp
    then have "index_view p ! d = \<lparr>entry_key = of_nat (32 * (kt + length bs - 1 - d)), entry_value = Some ((rev bs @ L) ! d)\<rparr>"
      using q(4) unfolding view_ok_def by blast
    then show ?thesis by simp
  qed
  have len: "length bs \<le> length (index_view p)" using q(4) by (simp add: view_ok_def)
  have "index_view p = rotate 0 (index_view p)" "0 + length bs = length bs" "base + of_nat block_size = of_nat (32 * (kt + 0))"
    using assms(9) by simp_all
  from give_back_run [OF q(3) this(1,2) len keys this(3)]
  obtain p' where p': "give_back_entries base bs p = Inr p'" "index_ok p'" "same_queue p p'"
      "index_view p' = rotate (length bs) (null_first (length bs) (index_view p))" by blast
  let ?m = "fold add_to_free_list bs m" and ?p = "p'\<lparr>tail_block := start\<rparr>"
  have inv: "pool_inv m (used - set L \<union> set (rev bs @ L))" "set bs \<subseteq> used - set L \<union> set (rev bs @ L)"
    using assms(2) by (auto simp: pool_step_def)
  note free = free_all [OF inv assms(7)]
  have "index_ok ?p" "index_view ?p = index_view p'" using p'(2) by (simp_all add: index_ok_def header_ok_def index_view_def split: option.split)
  moreover have "counters_ok h t ?p" using q(2) p'(3) by (simp add: counters_ok_def same_queue_def)
  moreover have "contents_ok kt h t xs L (qblocks ?m)" using contents_fewer [OF q(6) assms(4,3)] free by simp
  ultimately have "queue_with kt h t xs L ?p (qblocks ?m)"
    using q(1,5) assms(3,8) p'(4) view_ok_undo [OF q(4)] by (simp add: queue_with_def)
  moreover have "pool_step used L m0 L ?m"
  proof -
    have "used - set L \<union> set (rev bs @ L) - set bs = used" using assms(5,6) by auto
    moreover have "used - set L \<union> set L = used" using assms(5) by auto
    ultimately show ?thesis using assms(2) free by (simp add: pool_step_def)
  qed
  ultimately show ?thesis using p'(1) by blast
qed

subsection \<open>Filling the blocks\<close>

lemma put_range_run:
  assumes "contents_ok kt h t xs L (qblocks m)" "distinct L" "length L = kt - h div 32" "t = h + length xs" "t div 32 < kt"
    and "b = L ! (kt - 1 - t div 32)" "t mod 32 + length zs \<le> 32" "pool_inv m used" "set L \<subseteq> used"
  shows "contents_ok kt h (t + length zs) (xs @ zs) L (qblocks (put_range zs (of_nat t) b m))
    \<and> pool_step used L m L (put_range zs (of_nat t) b m)"
  using assms
proof (induction zs arbitrary: t xs m)
  case Nil
  then show ?case by (auto simp: pool_step_def Un_absorb2)
next
  case (Cons z zs)
  have "h div 32 \<le> t div 32" using Cons.prems(4) by (simp add: div_le_mono)
  then have "kt - 1 - t div 32 < length L" using Cons.prems(3,5) by linarith
  then have "b \<in> set L" using Cons.prems(6) by simp
  then have b: "b \<in> used" "b < length (qblocks m)" "block_ok (qblocks m ! b)"
    using Cons.prems(9) pool_inv_used [OF Cons.prems(8)] by blast+
  let ?m = "on_block b (block_put (of_nat t) (Some z)) m"
  have one: "contents_ok kt h (Suc t) (xs @ [z]) L (qblocks ?m)"
    using contents_put [OF Cons.prems(1-5) Cons.prems(6) b(2,3), of z] by (simp add: on_block_def)
  have inv: "pool_inv ?m used" using on_block_inv [OF Cons.prems(8) b(1)] by simp
  have step: "pool_step used L m L ?m"
    using inv b(2) \<open>b \<in> set L\<close> Cons.prems(9) by (auto simp: pool_step_def Un_absorb2 on_block_nth)
  show ?case
  proof (cases "zs = []")
    case True
    then show ?thesis using one step by simp
  next
    case False
    then have "t mod 32 \<noteq> 31" using Cons.prems(7) by (cases zs) simp_all
    then have next_t: "Suc t div 32 = t div 32" "Suc t mod 32 = Suc (t mod 32)" by (simp_all add: div_Suc_32)
    have "contents_ok kt h (Suc t + length zs) ((xs @ [z]) @ zs) L (qblocks (put_range zs (of_nat (Suc t)) b ?m))
        \<and> pool_step used L ?m L (put_range zs (of_nat (Suc t)) b ?m)"
      by (rule Cons.IH [OF one Cons.prems(2,3)]) (use Cons.prems(4-7,9) next_t inv in simp_all)
    moreover have "used - set L \<union> set L = used" using Cons.prems(9) by auto
    ultimately show ?thesis using pool_step_trans [OF step _ Cons.prems(9)] by (simp add: add.commute [of 1])
  qed
qed

lemma fill_blocks_run:
  assumes "contents_ok kt h t xs L (qblocks m)" "distinct L" "length L = kt - h div 32" "t = h + length xs"
    and "pool_inv m used" "set L \<subseteq> used" "zs \<noteq> []" "kt = blocks_upto (t + length zs)" "length zs \<le> 2 ^ 62"
    and "q = kt - t div 32"
  shows "\<exists>m'. fill_blocks (map Some (rev (List.take q L))) (of_nat t) (of_nat (t + length zs)) zs p m
      = Inr (p\<lparr>tail_block := Some (hd L)\<rparr>, m')
    \<and> contents_ok kt h (t + length zs) (xs @ zs) L (qblocks m') \<and> pool_step used L m L m'"
  using assms
proof (induction q arbitrary: t xs zs p m)
  case 0
  have "t div 32 < kt" using 0 by (cases zs) (simp_all add: blocks_upto_def div_le_mono less_Suc_eq_le)
  then show ?case using 0 by simp
next
  case (Suc q)
  have lt: "t div 32 < kt" using Suc.prems(10) by simp
  have "h div 32 \<le> t div 32" using Suc.prems(4) by (simp add: div_le_mono)
  then have q: "q < length L" "q = kt - 1 - t div 32" "L \<noteq> []" using Suc.prems(3,10) by auto
  define b where "b = L ! q"
  have blocks: "map Some (rev (List.take (Suc q) L)) = Some b # map Some (rev (List.take q L))"
    using q(1) by (simp add: take_Suc_conv_app_nth b_def)
  define n where "n = min (length zs) (32 - t mod 32)"
  have t32: "t mod 32 < 32" "t = 32 * (t div 32) + t mod 32" by simp_all
  have n: "n \<le> length zs" "t mod 32 + n \<le> 32" "n < 2 ^ 64" "0 < n"
    using Suc.prems(7,9) t32(1) by (auto simp: n_def)
  define us where "us = List.take n zs"
  define vs where "vs = drop n zs"
  have zs: "zs = us @ vs" "length us = n" "length vs = length zs - n" using n(1) by (simp_all add: us_def vs_def)
  have upto: "block_end (of_nat t) (of_nat (t + length zs)) = of_nat (t + n)"
    using block_end_nat [OF Suc.prems(9), of t] by (simp only: n_def)
  have dist: "unat (of_nat (t + n) - of_nat t :: u64) = n" by (rule of_nat_distance(1) [OF n(3)])
  define m1 where "m1 = put_range us (of_nat t) b m"
  have put: "contents_ok kt h (t + n) (xs @ us) L (qblocks m1)" "pool_step used L m L m1"
    using put_range_run [OF Suc.prems(1-4) lt _ _ Suc.prems(5,6), of b us] n(2) zs(2) q(2) by (simp_all add: b_def m1_def)
  let ?p = "p\<lparr>tail_block := Some b\<rparr>"
  have step: "fill_blocks (map Some (rev (List.take (Suc q) L))) (of_nat t) (of_nat (t + length zs)) zs p m
      = (if q = 0 then Inr (?p, m1)
         else fill_blocks (map Some (rev (List.take q L))) (of_nat (t + n)) (of_nat (t + length zs)) vs ?p m1)"
    using n(4) q(1) unfolding blocks fill_blocks.simps upto Let_def dist
    by (simp add: m1_def us_def vs_def del: fill_blocks.simps of_nat_add) (cases q, simp_all add: q(3) del: fill_blocks.simps of_nat_add)
  have kt: "32 * kt < t + length zs + 32" "t + length zs \<le> 32 * kt"
    unfolding Suc.prems(8) blocks_upto_def by simp_all
  show ?case
  proof (cases q)
    case 0
    then have "kt = Suc (t div 32)" using q(2) lt by linarith
    then have "length zs \<le> 32 - t mod 32" using kt(2) t32 by linarith
    then have all: "n = length zs" by (simp add: n_def)
    have "vs = []" using zs(3) all by simp
    then have "us = zs" using zs(1) by (metis append_Nil2)
    then show ?thesis using step put 0 all q(3) by (auto simp: b_def hd_conv_nth)
  next
    case (Suc q')
    have "Suc (t div 32) < kt" using Suc q(2) by linarith
    then have "32 * (t div 32) + 64 \<le> 32 * kt" by linarith
    then have "32 - t mod 32 < length zs" using kt(1) t32 by linarith
    then have more: "n < length zs" "n = 32 - t mod 32" by (simp_all add: n_def)
    have div: "(t + n) div 32 = Suc (t div 32)"
    proof -
      have "n + t mod 32 = 32" using more(2) t32(1) by simp
      then have "t + n = 32 * Suc (t div 32)" unfolding mult_Suc_right using t32(2) by linarith
      then show ?thesis by simp
    qed
    have sum: "t + n + length vs = t + length zs" using zs(3) n(1) by simp
    have "\<exists>m'. fill_blocks (map Some (rev (List.take q L))) (of_nat (t + n)) (of_nat (t + n + length vs)) vs ?p m1
        = Inr (?p\<lparr>tail_block := Some (hd L)\<rparr>, m')
      \<and> contents_ok kt h (t + n + length vs) ((xs @ us) @ vs) L (qblocks m') \<and> pool_step used L m1 L m'"
    proof (rule Suc.IH [OF put(1) Suc.prems(2,3)])
      show "pool_inv m1 used" using put(2) Suc.prems(6) by (simp add: pool_step_def Un_absorb2)
      have "0 < length vs" using zs(3) more(1) by simp
      then show "vs \<noteq> []" by simp
      show "kt = blocks_upto (t + n + length vs)" unfolding sum by (rule Suc.prems(8))
      show "length vs \<le> 2 ^ 62" using zs(3) Suc.prems(9) by simp
      show "q = kt - (t + n) div 32" using q(2) div by simp
    qed (use Suc.prems(4,6) zs(2) in simp_all)
    then obtain m' where rest: "fill_blocks (map Some (rev (List.take q L))) (of_nat (t + n)) (of_nat (t + length zs)) vs ?p m1
        = Inr (?p\<lparr>tail_block := Some (hd L)\<rparr>, m')"
        "contents_ok kt h (t + length zs) (xs @ zs) L (qblocks m')" "pool_step used L m1 L m'"
      unfolding sum append_assoc zs(1) [symmetric] by blast
    moreover have "used - set L \<union> set L = used" using Suc.prems(6) by auto
    ultimately show ?thesis using step Suc pool_step_trans [OF put(2) _ Suc.prems(6)] by simp
  qed
qed

subsection \<open>The whole operation\<close>

lemma base_before:
  "base_of (of_nat t - 1) + of_nat block_size = of_nat (32 * blocks_upto t)"
proof -
  have "(of_nat t - 1 :: u64) = of_nat (t + (2 ^ 64 - 1))"
  proof -
    have "(of_nat (2 ^ 64 - 1) :: u64) = - 1" by simp
    then show ?thesis by (simp only: of_nat_add) simp
  qed
  moreover have "(t + (2 ^ 64 - 1)) div 32 = blocks_upto t + (2 ^ 59 - 1)"
  proof -
    have "t + (2 ^ 64 - 1) = t + 31 + 32 * (2 ^ 59 - 1)" by simp
    then have "(t + (2 ^ 64 - 1)) div 32 = (t + 31 + 32 * (2 ^ 59 - 1)) div 32" by (rule arg_cong)
    also have "\<dots> = (t + 31) div 32 + (2 ^ 59 - 1)" by (subst div_mult_self2) simp_all
    finally show ?thesis by (simp add: blocks_upto_def)
  qed
  ultimately have "base_of (of_nat t - 1) = of_nat (32 * (blocks_upto t + (2 ^ 59 - 1)))" by (simp only: base_of_nat)
  then have "base_of (of_nat t - 1) + of_nat block_size = of_nat (32 * blocks_upto t + 2 ^ 64)"
    unfolding block_size_def by (simp add: of_nat_add [symmetric] del: of_nat_add of_nat_mult of_nat_numeral) (simp add: algebra_simps)
  moreover have "(of_nat (2 ^ 64) :: u64) = 0" by simp
  ultimately show ?thesis by (simp only: of_nat_add add_0_right)
qed

lemma blocks_needed:
  assumes "n \<le> 2 ^ 62"
  shows "unat ((base_of (of_nat (t + n) - 1) - base_of (of_nat t - 1) :: u64) div of_nat block_size) = blocks_upto (t + n) - blocks_upto t"
proof -
  have le: "blocks_upto t \<le> blocks_upto (t + n)" by (simp add: blocks_upto_def div_le_mono)
  have "32 * blocks_upto (t + n) \<le> t + n + 31" "t \<le> 32 * blocks_upto t" by (simp_all add: blocks_upto_def)
  then have small: "32 * (blocks_upto (t + n) - blocks_upto t) < 2 ^ 64" using assms by simp
  have "(base_of (of_nat (t + n) - 1) - base_of (of_nat t - 1) :: u64)
      = (base_of (of_nat (t + n) - 1) + of_nat block_size) - (base_of (of_nat t - 1) + of_nat block_size)" by simp
  also have "\<dots> = of_nat (32 * (blocks_upto (t + n) - blocks_upto t))"
    unfolding base_before using le by (simp add: of_nat_diff right_diff_distrib)
  finally show ?thesis using unat_of_nat_u64 [OF small] by (simp add: unat_div block_size_def del: unat_of_nat of_nat_mult)
qed

lemma enqueue_bulk_run:
  assumes q: "fifo h t xs L p (qblocks m)" "pool_inv m used" "set L \<subseteq> used" "length (xs @ ys) \<le> 2 ^ 62"
  shows "\<exists>ok p' m' L'. iq_enqueue_bulk mode ys p m = Inr (ok, p', m') \<and> pool_step used L m L' m'
    \<and> (if ok then fifo h (t + length ys) (xs @ ys) L' p' (qblocks m') else fifo h t xs L' p' (qblocks m'))
    \<and> (mode = Can_Alloc \<longrightarrow> False \<notin> set (mallocs m) \<longrightarrow> ok)"
proof -
  let ?n = "length ys" and ?kt = "blocks_upto t"
  let ?k = "blocks_upto (t + ?n) - ?kt" and ?base = "base_of (of_nat t - 1) :: u64"
  have t: "t = h + length xs" "counters_ok h t p" "length L = ?kt - h div 32" "distinct L" "L \<noteq> [] \<longrightarrow> tail_block p = Some (hd L)"
    using q(1) unfolding queue_with_def by blast+
  have tail: "tail_index p = of_nat t" using t(2) by (simp add: counters_ok_def)
  have le: "?kt \<le> blocks_upto (t + ?n)" by (simp add: blocks_upto_def div_le_mono)
  have last: "32 * (?kt + ?k) \<le> t + ?n + 31" "t \<le> 32 * ?kt" using le by (simp_all add: blocks_upto_def)
  have room: "32 * (?kt + ?k) < h + 2 ^ 62 + 32" using last(1) t(1) q(4) by simp
  obtain ok bs p1 m1 where al: "alloc_blocks mode ?k ?base [] p m = Inr (ok, bs, p1, m1)"
      "head_index p1 = head_index p" "tail_index p1 = tail_index p" "ok \<longrightarrow> length bs = ?k"
      "queue_with (?kt + length bs) h t xs (rev bs @ L) p1 (qblocks m1)" "pool_step used L m (rev bs @ L) m1"
      "set bs \<inter> used = {}" "distinct bs" "bs = [] \<longrightarrow> tail_block p1 = tail_block p"
      "mode = Can_Alloc \<longrightarrow> False \<notin> set (mallocs m) \<longrightarrow> ok"
    using alloc_blocks_run [OF q(1-3) order_refl last(2) room base_before, of mode "[]"] by auto
  have sum: "of_nat t + of_nat ?n = (of_nat (t + ?n) :: u64)" by simp
  have needed: "unat ((base_of (of_nat (t + ?n) - 1) - ?base) div of_nat block_size) = ?k"
    by (rule blocks_needed) (use q(4) in simp)
  show ?thesis
  proof (cases ok)
    case False
    obtain p2 where p2: "give_back_entries ?base bs p1 = Inr p2"
        "fifo h t xs L (p2\<lparr>tail_block := tail_block p\<rparr>) (qblocks (fold add_to_free_list bs m1))"
        "pool_step used L m L (fold add_to_free_list bs m1)"
      using undo_run [OF al(5,6) t(3) order_refl q(3) al(7,8) t(5) base_before] by blast
    then show ?thesis using False al(1,10) needed
      by (intro exI [of _ False] exI [of _ "p2\<lparr>tail_block := tail_block p\<rparr>"] exI [of _ "fold add_to_free_list bs m1"] exI [of _ L])
        (simp add: iq_enqueue_bulk_def Let_def tail sum del: of_nat_add)
  next
    case True
    then have k: "length bs = ?k" "?kt + length bs = blocks_upto (t + ?n)" using al(4) le by simp_all
    let ?L = "rev bs @ L" and ?used = "used - set L \<union> set (rev bs @ L)"
    have q1: "counters_ok h t p1" "index_ok p1" "view_ok (?kt + length bs) ?L (index_view p1)" "distinct ?L"
      "length ?L = ?kt + length bs - h div 32" "contents_ok (?kt + length bs) h t xs ?L (qblocks m1)"
      using al(5) unfolding queue_with_def by blast+
    have inv: "pool_inv m1 ?used" "set ?L \<subseteq> ?used" using al(6) by (simp add: pool_step_def) blast
    define chain where "chain = (if t mod 32 = 0 \<and> bs \<noteq> [] then map Some bs else tail_block p # map Some bs)"
    obtain p2 m2 where fill: "fill_blocks chain (of_nat t) (of_nat (t + ?n)) ys p1 m1 = Inr (p1\<lparr>tail_block := p2\<rparr>, m2)"
        "?L \<noteq> [] \<longrightarrow> p2 = Some (hd ?L)" "contents_ok (?kt + length bs) h (t + ?n) (xs @ ys) ?L (qblocks m2)" "pool_step ?used ?L m1 ?L m2"
    proof (cases "ys = []")
      case True
      then have "bs = []" using k by simp
      then have "chain = [tail_block p]" by (simp add: chain_def)
      moreover have "pool_step ?used ?L m1 ?L m1" using inv by (auto simp: pool_step_def Un_absorb2)
      moreover have "block_end (of_nat t) (of_nat t) = (of_nat t :: u64)" using block_end_nat [of 0 t] by simp
      ultimately show thesis using that [of "tail_block p" m1] True \<open>bs = []\<close> q1(6) t(5) by simp
    next
      case False
      have "chain = map Some (rev (List.take (?kt + length bs - t div 32) ?L))"
      proof (cases "t mod 32 = 0")
        case True
        then have kt: "?kt = t div 32" "32 * ?kt = t" by (auto simp: blocks_upto_simps)
        have "t + ?n \<le> 32 * blocks_upto (t + ?n)" "0 < ?n" using False by (simp_all add: blocks_upto_def)
        then have "0 < ?k" using kt(2) by linarith
        then have "bs \<noteq> []" using k(1) by fastforce
        then show ?thesis using True kt(1) by (simp add: chain_def)
      next
        case f: False
        then have kt: "?kt = Suc (t div 32)" by (simp add: blocks_upto_simps)
        have "h div 32 \<le> t div 32" using t(1) by (simp add: div_le_mono)
        then have "L \<noteq> []" using t(3) kt by auto
        then have "List.take (Suc (length bs)) ?L = rev bs @ [hd L]" by (cases L) simp_all
        then show ?thesis using f kt t(5) \<open>L \<noteq> []\<close> by (simp add: chain_def)
      qed
      then show thesis
        using fill_blocks_run [OF q1(6,4,5) t(1) inv False k(2) _ refl, of p1] q(4) that [of "Some (hd ?L)"] by auto
    qed
    let ?p = "p1\<lparr>tail_block := p2, tail_index := of_nat (t + ?n)\<rparr>"
    have "iq_enqueue_bulk mode ys p m = Inr (True, ?p, m2)"
      using al(1) True fill(1) needed at_block_end [OF tail] unfolding chain_def
      by (simp add: iq_enqueue_bulk_def Let_def tail sum del: of_nat_add)
    moreover have "index_ok ?p" "index_view ?p = index_view p1"
      using q1(2) by (simp_all add: index_ok_def header_ok_def index_view_def split: option.split)
    moreover have "counters_ok h (t + ?n) ?p" using q1(1) by (simp add: counters_ok_def)
    ultimately have "iq_enqueue_bulk mode ys p m = Inr (True, ?p, m2)" "fifo h (t + ?n) (xs @ ys) ?L ?p (qblocks m2)"
      using t(1) q1(3-5) fill(2,3) k(2) by (simp_all add: queue_with_def)
    moreover have "pool_step used L m ?L m2" by (rule pool_step_trans [OF al(6) fill(4) q(3)])
    ultimately show ?thesis by (intro exI [of _ True] exI [of _ ?p] exI [of _ m2] exI [of _ ?L]) simp
  qed
qed

section \<open>The sub-queue with its bulk operations\<close>

definition iq_puts :: "alloc_mode \<Rightarrow> u64 list \<Rightarrow> producer \<times> pool \<Rightarrow> (bool \<times> producer \<times> pool) res" where
  "iq_puts mode xs s = iq_enqueue_bulk mode xs (fst s) (snd s)"

definition iq_gets :: "u64 \<Rightarrow> producer \<times> pool \<Rightarrow> (u64 list \<times> producer \<times> pool) res" where
  "iq_gets limit s = iq_dequeue_bulk limit (fst s) (snd s)"

interpretation bulkqueue: bulk_queue holds_list "iq_put mode" iq_get "\<lambda>s. enough_memory mode (snd s)" "2 ^ 62" "iq_puts mode" iq_gets for mode
proof
  fix s :: "producer \<times> pool" and xs ys
  assume "holds_list s xs" and room: "length (xs @ ys) \<le> 2 ^ 62"
  then obtain h L used where q: "fifo h (h + length xs) xs L (fst s) (qblocks (snd s))" "pool_inv (snd s) used" "set L \<subseteq> used"
    by (auto simp: holds_list_def)
  obtain ok p' m' L' where e: "iq_enqueue_bulk mode ys (fst s) (snd s) = Inr (ok, p', m')" "pool_step used L (snd s) L' m'"
      "if ok then fifo h (h + length xs + length ys) (xs @ ys) L' p' (qblocks m') else fifo h (h + length xs) xs L' p' (qblocks m')"
      "mode = Can_Alloc \<longrightarrow> False \<notin> set (mallocs (snd s)) \<longrightarrow> ok"
    using enqueue_bulk_run [OF q room, of mode] by blast
  have "holds_list (p', m') (if ok then xs @ ys else xs)"
    unfolding holds_list_def
    by (rule exI [of _ h], rule exI [of _ L'], rule exI [of _ "(used - set L) \<union> set L'"])
      (use e(2,3) in \<open>auto simp: pool_step_def add.assoc split: if_splits\<close>)
  moreover have "enough_memory mode (snd s) \<longrightarrow> ok \<and> enough_memory mode m'"
    using e(2,4) by (auto simp: enough_memory_def pool_step_def)
  ultimately show "\<exists>ok s'. iq_puts mode ys s = Inr (ok, s') \<and> holds_list s' (if ok then xs @ ys else xs)
      \<and> (enough_memory mode (snd s) \<longrightarrow> ok \<and> enough_memory mode (snd s'))"
    using e(1) by (auto simp: iq_puts_def)
next
  fix s :: "producer \<times> pool" and xs and k :: u64
  assume "holds_list s xs" and room: "length xs \<le> 2 ^ 62"
  then obtain h L used where q: "fifo h (h + length xs) xs L (fst s) (qblocks (snd s))" "pool_inv (snd s) used" "set L \<subseteq> used"
    by (auto simp: holds_list_def)
  let ?n = "min (length xs) (unat k)"
  obtain p' m' L' where d: "iq_dequeue_bulk k (fst s) (snd s) = Inr (List.take ?n xs, p', m')" "pool_step used L (snd s) L' m'"
      "fifo (h + ?n) (h + length xs) (drop ?n xs) L' p' (qblocks m')"
    using dequeue_bulk_run [OF q room, of k] by blast
  have n: "List.take ?n xs = List.take (unat k) xs" "drop ?n xs = drop (unat k) xs" by (simp_all add: min_def)
  have len: "h + length xs = h + ?n + length (drop (unat k) xs)" by simp
  have "holds_list (p', m') (drop (unat k) xs)"
    unfolding holds_list_def
    by (rule exI [of _ "h + ?n"], rule exI [of _ L'], rule exI [of _ "(used - set L) \<union> set L'"])
      (use d(2) d(3) [unfolded n(2) len] in \<open>auto simp only: pool_step_def fst_conv snd_conv\<close>)
  moreover have "enough_memory mode (snd s) \<longrightarrow> enough_memory mode m'"
    using d(2) by (auto simp: enough_memory_def pool_step_def)
  ultimately show "\<exists>s'. iq_gets k s = Inr (List.take (unat k) xs, s') \<and> holds_list s' (drop (unat k) xs)
      \<and> (enough_memory mode (snd s) \<longrightarrow> enough_memory mode (snd s'))"
    using d(1) n(1) by (auto simp: iq_gets_def)
qed

section \<open>Properties\<close>

text \<open>C5: Elements put into a new sub-queue and taken from it, one by one or many in a call, in whatever order,
  provided that the memory for its first block index could be had when it was made, and
  whether memory runs out after that or not: a call that puts many elements puts them all, in their order, or none and
  leaves the sub-queue as it was; one that takes many takes as many as there are, up to its limit, the oldest
  first; and with enough memory no element is refused. The counters may wrap around.
\<close>

theorem bulk_operations_are_fifo:
  assumes "pool_inv m used" "fst (alloc m)" "bulk_fits (2 ^ 62) 0 ops"
  shows "\<exists>p m0 os s ys. producer_new m = Inr (p, m0) \<and> bulk_trace (iq_put mode) iq_get (iq_puts mode) iq_gets ops (p, m0) = Inr (os, s)
    \<and> length os = length ops \<and> bulk_after [] (zip ops os) = Some ys \<and> holds_list s ys
    \<and> (enough_memory mode m \<longrightarrow> Stored_All False \<notin> set os \<and> Single (Stored False) \<notin> set os)"
proof -
  obtain p m0 where new: "producer_new m = Inr (p, m0)" "holds_list (p, m0) []" "enough_memory mode m \<longrightarrow> enough_memory mode m0"
    using new_holds_nil [OF assms(1,2)] by blast
  then show ?thesis using bulkqueue.bulk_trace_is_fifo [of "(p, m0)" "[]" ops mode] assms(3) by auto
qed

theorem bulk_operations_are_fifo_witness:
  "\<exists>p m0 os s. producer_new (pool_new [True, False] None) = Inr (p, m0)
    \<and> bulk_trace (iq_put Can_Alloc) iq_get (iq_puts Can_Alloc) iq_gets [Put_Many [7, 8, 9], One Take, Take_Many 5] (p, m0) = Inr (os, s)
    \<and> (\<exists>ys. bulk_after [] (zip [Put_Many [7, 8, 9], One Take, Take_Many 5] os) = Some ys)"
  using bulk_operations_are_fifo [OF pool_new_inv, of "[True, False]" None "[Put_Many [7, 8, 9], One Take, Take_Many 5]" Can_Alloc]
  by (fastforce simp: alloc_def pool_new_def)

end
