(* ===== verification/Concurrent_Bulk.thy ===== *)
theory Concurrent_Bulk
  imports Concurrent_Queue Queue_Bulk
begin

text \<open>
  The operations of the whole lock-free queue that put or take many elements in a call, and those that do not
  allocate blocks (\<open>enqueue_bulk\<close>, \<open>try_enqueue_bulk\<close>, \<open>try_enqueue\<close>, \<open>try_dequeue_bulk\<close>,
  \<open>include/concurrentqueue.hpp\<close>), as one thread at a time runs them.
\<close>

section \<open>The operations\<close>

definition inner_enqueue_bulk :: "alloc_mode \<Rightarrow> u64 \<Rightarrow> u64 list \<Rightarrow> cqueue \<Rightarrow> (bool \<times> cqueue) res" where
  "inner_enqueue_bulk mode k xs q = bind_res (get_or_add_producer k q) (\<lambda>(r, q). case r of
       None \<Rightarrow> Inr (False, q)
     | Some i \<Rightarrow> bind_res (iq_enqueue_bulk mode xs (snd (cq_producers q ! i)) (cq_pool q)) (\<lambda>(ok, p, m).
         Inr (ok, update_producer i p m q)))"

definition cq_enqueue_bulk :: "u64 \<Rightarrow> u64 list \<Rightarrow> cqueue \<Rightarrow> (bool \<times> cqueue) res" where
  "cq_enqueue_bulk k xs q = (if initial_hash_size = 0 then Inr (False, q) else inner_enqueue_bulk Can_Alloc k xs q)"

definition cq_try_enqueue_bulk :: "u64 \<Rightarrow> u64 list \<Rightarrow> cqueue \<Rightarrow> (bool \<times> cqueue) res" where
  "cq_try_enqueue_bulk k xs q = (if initial_hash_size = 0 then Inr (False, q) else inner_enqueue_bulk Cannot_Alloc k xs q)"

definition dequeue_bulk_from :: "nat \<Rightarrow> u64 \<Rightarrow> cqueue \<Rightarrow> (u64 list \<times> cqueue) res" where
  "dequeue_bulk_from i limit q = bind_res (iq_dequeue_bulk limit (snd (cq_producers q ! i)) (cq_pool q)) (\<lambda>(xs, p, m).
     Inr (xs, update_producer i p m q))"

fun dequeue_over :: "nat list \<Rightarrow> u64 \<Rightarrow> u64 \<Rightarrow> cqueue \<Rightarrow> (u64 list \<times> cqueue) res" where
  "dequeue_over [] limit c q = Inr ([], q)"
| "dequeue_over (i # is) limit c q = bind_res (dequeue_bulk_from i (limit - c) q) (\<lambda>(xs, q).
     let c = c + of_nat (length xs) in
     if c = limit then Inr (xs, q)
     else bind_res (dequeue_over is limit c q) (\<lambda>(ys, q). Inr (xs @ ys, q)))"

definition try_dequeue_bulk :: "u64 \<Rightarrow> cqueue \<Rightarrow> (u64 list \<times> cqueue) res" where
  "try_dequeue_bulk limit q = dequeue_over (producer_list q) limit 0 q"

section \<open>Lanes\<close>

text \<open>Elements taken from the fronts of the lanes, one lane after the other.\<close>

inductive lane_takes :: "(u64 \<Rightarrow> u64 list) \<Rightarrow> u64 list \<Rightarrow> (u64 \<Rightarrow> u64 list) \<Rightarrow> bool" where
  no_takes: "lane_takes F [] F"
| more_takes: "F k = xs @ zs \<Longrightarrow> lane_takes (F(k := zs)) ys F' \<Longrightarrow> lane_takes F (xs @ ys) F'"

lemma lane_takes_one: "lane_takes F (List.take n (F k)) (F(k := drop n (F k)))"
  using more_takes [of F k "List.take n (F k)" "drop n (F k)" "[]"] no_takes by simp

lemma lane_takes_trans: "lane_takes F xs F' \<Longrightarrow> lane_takes F' ys F'' \<Longrightarrow> lane_takes F (xs @ ys) F''"
proof (induction rule: lane_takes.induct)
  case (more_takes F k xs zs us F')
  then show ?case using lane_takes.more_takes [of F k xs zs "us @ ys" F''] by (simp del: fun_upd_apply)
qed simp

lemma lane_takes_suffix: "lane_takes F ys F' \<Longrightarrow> \<exists>us. F k = us @ F' k"
proof (induction rule: lane_takes.induct)
  case (more_takes F j xs zs ys F')
  then show ?case by (cases "k = j") (auto simp flip: append_assoc)
qed simp

lemma lane_takes_total:
  assumes "lane_takes F ys F'" "finite K" "\<And>k. F k \<noteq> [] \<Longrightarrow> k \<in> K"
  shows "(\<Sum>k \<in> K. length (F' k)) + length ys = (\<Sum>k \<in> K. length (F k))"
  using assms(1,3)
proof (induction rule: lane_takes.induct)
  case (more_takes F k xs zs ys F')
  have rest: "(\<Sum>j \<in> K. length (F' j)) + length ys = (\<Sum>j \<in> K. length ((F(k := zs)) j))"
  proof (rule more_takes.IH)
    fix j
    assume "(F(k := zs)) j \<noteq> []"
    then have "F j \<noteq> []" using more_takes.hyps(1) by (cases "j = k") simp_all
    then show "j \<in> K" by (rule more_takes.prems)
  qed
  show ?case
  proof (cases "k \<in> K")
    case True
    have "(\<Sum>j \<in> K. length ((F(k := zs)) j)) + length (xs @ zs) = (\<Sum>j \<in> K. length (F j)) + length zs"
      using sum_lane_lengths [OF assms(2) True, of F zs] unfolding more_takes.hyps(1) .
    then show ?thesis using rest by simp
  next
    case False
    then have "F k = []" using more_takes.prems by blast
    then have "xs = []" "F(k := zs) = F" using more_takes.hyps(1) by (simp_all add: fun_upd_idem)
    then show ?thesis using rest by simp
  qed
qed simp

section \<open>What the operations do to the lanes\<close>

lemma inner_enqueue_bulk_run:
  assumes "cq_holds K q F" "k \<in> K" "length (F k @ xs) \<le> 2 ^ 62"
  shows "\<exists>ok q'. inner_enqueue_bulk mode k xs q = Inr (ok, q') \<and> cq_holds K q' (if ok then F(k := F k @ xs) else F)
    \<and> (mode = Can_Alloc \<longrightarrow> ok)"
proof -
  obtain ids h L i q1 where 1: "get_or_add_producer k q = Inr (Some i, q1)" "i < length ids" "ids ! i = k" "cq_with K ids F h L q1"
    using assms(1,2) get_or_add_run unfolding cq_holds_def by blast
  note c = cq_with_fifo [OF 1(4,2), unfolded 1(3)]
  have "False \<notin> set (mallocs (cq_pool q1))" using 1(4) by (simp add: cq_with_def)
  then obtain ok p m L' where e: "iq_enqueue_bulk mode xs (snd (cq_producers q1 ! i)) (cq_pool q1) = Inr (ok, p, m)"
      "pool_step (\<Union>i < length ids. set (L i)) (L i) (cq_pool q1) L' m"
      "if ok then fifo (h i) (h i + length (F k) + length xs) (F k @ xs) L' p (qblocks m)
       else fifo (h i) (h i + length (F k)) (F k) L' p (qblocks m)" "mode = Can_Alloc \<longrightarrow> ok"
    using enqueue_bulk_run [OF c(1-3) assms(3), of mode] by auto
  have "fifo (h i) (h i + length (if ok then F k @ xs else F k)) (if ok then F k @ xs else F k) L' p (qblocks m)"
    using e(3) by (cases ok) (simp_all add: add.assoc)
  then have "cq_holds K (update_producer i p m q1) (F(k := if ok then F k @ xs else F k))"
    using cq_with_step [OF 1(4,2) e(2)] 1(3) unfolding cq_holds_def by blast
  then show ?thesis using 1(1) e(1,4)
    by (intro exI [of _ ok] exI [of _ "update_producer i p m q1"]) (cases ok; simp add: inner_enqueue_bulk_def)
qed

lemma dequeue_bulk_from_run:
  assumes "cq_with K ids F h L q" "i < length ids" "length (F (ids ! i)) \<le> 2 ^ 62"
  defines "xs \<equiv> F (ids ! i)"
  shows "\<exists>q' h' L'. dequeue_bulk_from i limit q = Inr (List.take (unat limit) xs, q')
    \<and> cq_with K ids (F(ids ! i := drop (unat limit) xs)) h' L' q'"
proof -
  note c = cq_with_fifo [OF assms(1,2), folded xs_def]
  let ?n = "min (length xs) (unat limit)"
  have n: "List.take ?n xs = List.take (unat limit) xs" "drop ?n xs = drop (unat limit) xs" by (simp_all add: min_def)
  have len: "h i + length xs = h i + ?n + length (drop (unat limit) xs)" by simp
  obtain p m L' where d: "iq_dequeue_bulk limit (snd (cq_producers q ! i)) (cq_pool q) = Inr (List.take (unat limit) xs, p, m)"
      "fifo (h i + ?n) (h i + ?n + length (drop (unat limit) xs)) (drop (unat limit) xs) L' p (qblocks m)"
      "pool_step (\<Union>i < length ids. set (L i)) (L i) (cq_pool q) L' m"
    using dequeue_bulk_run [OF c(1-3), of limit] assms(3) unfolding xs_def [symmetric] n len [symmetric] by blast
  show ?thesis
    using cq_with_step [OF assms(1,2) d(3,2)] d(1) by (auto simp: dequeue_bulk_from_def simp del: fun_upd_apply)
qed

lemma dequeue_over_run:
  assumes "cq_with K ids F h L q" "\<forall>k. length (F k) \<le> 2 ^ 62" "set is \<subseteq> {..<length ids}"
  shows "\<exists>ys q' F' h' L'. dequeue_over is limit c q = Inr (ys, q') \<and> lane_takes F ys F' \<and> cq_with K ids F' h' L' q'
    \<and> length ys \<le> unat (limit - c) \<and> (length ys = unat (limit - c) \<or> (\<forall>i \<in> set is. F' (ids ! i) = []))"
  using assms
proof (induction "is" arbitrary: F h L q c)
  case Nil
  then show ?case using no_takes by fastforce
next
  case (Cons i "is")
  let ?r = "unat (limit - c)" and ?k = "ids ! i"
  define xs where "xs = List.take ?r (F ?k)"
  define F1 where "F1 = F(?k := drop ?r (F ?k))"
  obtain q1 h1 L1 where 1: "dequeue_bulk_from i (limit - c) q = Inr (xs, q1)" "cq_with K ids F1 h1 L1 q1"
    using dequeue_bulk_from_run [OF Cons.prems(1), of i "limit - c"] Cons.prems(2,3) by (auto simp: xs_def F1_def simp del: fun_upd_apply)
  have takes: "lane_takes F xs F1" unfolding xs_def F1_def by (rule lane_takes_one)
  have xs: "length xs \<le> ?r" "length xs < ?r \<Longrightarrow> F1 ?k = []" by (auto simp: xs_def F1_def)
  let ?c = "c + of_nat (length xs)"
  have "?r < 2 ^ LENGTH(64)" by (rule unsigned_less)
  from le_less_trans [OF xs(1) this] have "unat (of_nat (length xs) :: u64) = length xs"
    by (simp add: unat_of_nat_u64 del: unat_of_nat)
  then have left: "unat (limit - ?c) = ?r - length xs"
    using xs(1) unat_sub [of "of_nat (length xs)" "limit - c"] by (simp add: word_le_nat_alt diff_diff_eq)
  have at: "?c = limit \<longleftrightarrow> length xs = ?r"
  proof -
    have "?c = limit \<longleftrightarrow> unat (limit - ?c) = 0" by (auto simp: unat_eq_zero)
    then show ?thesis using left xs(1) by auto
  qed
  show ?case
  proof (cases "length xs = ?r")
    case True
    then show ?thesis using 1 takes at by (auto simp: Let_def)
  next
    case False
    have "\<forall>k. length (F1 k) \<le> 2 ^ 62"
      using Cons.prems(2) unfolding F1_def by (auto intro: le_trans [OF diff_le_self])
    moreover have "set is \<subseteq> {..<length ids}" using Cons.prems(3) by simp
    ultimately obtain ys q' F' h' L' where 2: "dequeue_over is limit ?c q1 = Inr (ys, q')" "lane_takes F1 ys F'"
        "cq_with K ids F' h' L' q'" "length ys \<le> unat (limit - ?c)"
        "length ys = unat (limit - ?c) \<or> (\<forall>i \<in> set is. F' (ids ! i) = [])"
      using Cons.IH [OF 1(2), of ?c] by blast
    have "F' ?k = []" using lane_takes_suffix [OF 2(2), of ?k] xs False by auto
    then have "length (xs @ ys) \<le> ?r \<and> (length (xs @ ys) = ?r \<or> (\<forall>i \<in> set (i # is). F' (ids ! i) = []))"
      using 2(4,5) left xs(1) by auto
    moreover have "dequeue_over (i # is) limit c q = Inr (xs @ ys, q')" using 1(1) 2(1) at False by (simp add: Let_def)
    ultimately show ?thesis using lane_takes_trans [OF takes 2(2)] 2(3) by blast
  qed
qed

lemma try_dequeue_bulk_run:
  assumes "cq_holds K q F" "\<forall>k. length (F k) \<le> 2 ^ 62"
  shows "\<exists>ys q' F'. try_dequeue_bulk limit q = Inr (ys, q') \<and> lane_takes F ys F' \<and> cq_holds K q' F'
    \<and> length ys \<le> unat limit \<and> (length ys = unat limit \<or> (\<forall>k. F' k = []))"
proof -
  obtain ids h L where w: "cq_with K ids F h L q" using assms(1) by (auto simp: cq_holds_def)
  note e = cq_with_empty [OF w]
  obtain ys q' F' h' L' where d: "dequeue_over (producer_list q) limit 0 q = Inr (ys, q')" "lane_takes F ys F'"
      "cq_with K ids F' h' L' q'" "length ys \<le> unat limit" "length ys = unat limit \<or> (\<forall>i < length ids. F' (ids ! i) = [])"
    using dequeue_over_run [OF w assms(2), of "producer_list q" limit 0] unfolding e(2) by auto
  then show ?thesis using cq_with_empty(1) [OF d(3)] by (auto simp: try_dequeue_bulk_def cq_holds_def)
qed

section \<open>What the queue promises\<close>

datatype cq_bulk_op = Basic cq_op | Try_Enqueue u64 u64 | Enqueue_Many u64 "u64 list" | Try_Enqueue_Many u64 "u64 list" | Dequeue_Many u64

fun cq_bulk_run :: "cq_bulk_op list \<Rightarrow> cqueue \<Rightarrow> (u64 bulk_outcome list \<times> cqueue) res" where
  "cq_bulk_run [] q = Inr ([], q)"
| "cq_bulk_run (Basic p # ops) q =
     bind_res (cq_run [p] q) (\<lambda>(o1, q). bind_res (cq_bulk_run ops q) (\<lambda>(os, q). Inr (map Single o1 @ os, q)))"
| "cq_bulk_run (Try_Enqueue k x # ops) q =
     bind_res (cq_try_enqueue k x q) (\<lambda>(ok, q). bind_res (cq_bulk_run ops q) (\<lambda>(os, q). Inr (Single (Stored ok) # os, q)))"
| "cq_bulk_run (Enqueue_Many k xs # ops) q =
     bind_res (cq_enqueue_bulk k xs q) (\<lambda>(ok, q). bind_res (cq_bulk_run ops q) (\<lambda>(os, q). Inr (Stored_All ok # os, q)))"
| "cq_bulk_run (Try_Enqueue_Many k xs # ops) q =
     bind_res (cq_try_enqueue_bulk k xs q) (\<lambda>(ok, q). bind_res (cq_bulk_run ops q) (\<lambda>(os, q). Inr (Stored_All ok # os, q)))"
| "cq_bulk_run (Dequeue_Many limit # ops) q =
     bind_res (try_dequeue_bulk limit q) (\<lambda>(xs, q). bind_res (cq_bulk_run ops q) (\<lambda>(os, q). Inr (Took_Many xs # os, q)))"

text \<open>
  Only the operations that may not allocate refuse elements, all of a call or none; a call that takes many takes
  as many as it may, unless it leaves the queue empty.
\<close>

inductive bulk_step :: "(u64 \<Rightarrow> u64 list) \<Rightarrow> cq_bulk_op \<Rightarrow> u64 bulk_outcome \<Rightarrow> (u64 \<Rightarrow> u64 list) \<Rightarrow> bool" where
  basic: "lane_step F p r F' \<Longrightarrow> bulk_step F (Basic p) (Single r) F'"
| tried: "bulk_step F (Try_Enqueue k x) (Single (Stored ok)) (if ok then F(k := F k @ [x]) else F)"
| put_many: "bulk_step F (Enqueue_Many k xs) (Stored_All True) (F(k := F k @ xs))"
| tried_many: "bulk_step F (Try_Enqueue_Many k xs) (Stored_All ok) (if ok then F(k := F k @ xs) else F)"
| took_many: "\<lbrakk>lane_takes F ys F'; length ys \<le> unat limit; length ys = unat limit \<or> (\<forall>k. F' k = [])\<rbrakk>
    \<Longrightarrow> bulk_step F (Dequeue_Many limit) (Took_Many ys) F'"

inductive bulk_steps :: "(u64 \<Rightarrow> u64 list) \<Rightarrow> (cq_bulk_op \<times> u64 bulk_outcome) list \<Rightarrow> (u64 \<Rightarrow> u64 list) \<Rightarrow> bool" where
  no_bulk: "bulk_steps F [] F"
| more_bulk: "bulk_step F p r F' \<Longrightarrow> bulk_steps F' es F'' \<Longrightarrow> bulk_steps F ((p, r) # es) F''"

fun as_bulk_op :: "cq_bulk_op \<Rightarrow> u64 bulk_op" where
  "as_bulk_op (Basic p) = One (as_queue_op p)"
| "as_bulk_op (Try_Enqueue k x) = One (Put x)"
| "as_bulk_op (Enqueue_Many k xs) = Put_Many xs"
| "as_bulk_op (Try_Enqueue_Many k xs) = Put_Many xs"
| "as_bulk_op (Dequeue_Many limit) = Take_Many limit"

fun bulk_op_threads :: "cq_bulk_op \<Rightarrow> u64 set" where
  "bulk_op_threads (Basic p) = op_threads [p]"
| "bulk_op_threads (Try_Enqueue k x) = {k}"
| "bulk_op_threads (Enqueue_Many k xs) = {k}"
| "bulk_op_threads (Try_Enqueue_Many k xs) = {k}"
| "bulk_op_threads (Dequeue_Many limit) = {}"

definition bulk_threads :: "cq_bulk_op list \<Rightarrow> u64 set" where
  "bulk_threads ops = \<Union> (bulk_op_threads ` set ops)"

lemma bulk_threads_finite: "finite (bulk_threads ops)"
proof -
  have "finite (bulk_op_threads p)" for p by (cases p) (simp_all add: op_threads_finite del: op_threads.simps)
  then show ?thesis by (simp add: bulk_threads_def)
qed

lemma cq_bulk_op_lanes:
  assumes "cq_holds K q F" "bulk_op_threads p \<subseteq> K" "bulk_fits (2 ^ 62) (\<Sum>k \<in> K. length (F k)) (as_bulk_op p # ops)"
  shows "\<exists>r q1 F1. bulk_step F p r F1 \<and> cq_holds K q1 F1
      \<and> (\<forall>ps. cq_bulk_run (p # ps) q = bind_res (cq_bulk_run ps q1) (\<lambda>(os, q). Inr (r # os, q)))
      \<and> bulk_fits (2 ^ 62) (\<Sum>k \<in> K. length (F1 k)) ops"
proof -
  let ?n = "\<Sum>k \<in> K. length (F k)"
  note total = lane_le_sum [OF assms(1)] and fin = cq_holds_outside(2) [OF assms(1)]
  have grown: "bulk_fits (2 ^ 62) (\<Sum>j \<in> K. length ((if ok then F(k := F k @ xs) else F) j)) ops"
    if "bulk_fits (2 ^ 62) (?n + length xs) ops" "k \<in> K" for ok k and xs :: "u64 list"
    using sum_lane_lengths [OF fin that(2), of F "F k @ xs"] that(1) bulk_fits_less [OF that(1), of ?n]
    by (cases ok) (simp_all del: fun_upd_apply)
  show ?thesis
  proof (cases p)
    case (Basic b)
    have "fits (2 ^ 62) ?n [as_queue_op b]" using assms(3) Basic by (cases b) auto
    then obtain r q1 F1 where 1: "lane_step F b r F1" "cq_holds K q1 F1"
        "cq_run [b] q = bind_res (cq_run [] q1) (\<lambda>(os, q). Inr (r # os, q))"
        "(\<Sum>k \<in> K. length (F1 k)) \<le> (case b of Enqueue k x \<Rightarrow> Suc ?n | Dequeue \<Rightarrow> ?n - 1)"
      using cq_op_lanes [OF assms(1) _ order_refl, of b] assms(2) Basic by auto
    have "bulk_fits (2 ^ 62) (\<Sum>k \<in> K. length (F1 k)) ops"
      using assms(3) bulk_fits_less [OF _ 1(4), of _ ops] Basic by (cases b) auto
    then show ?thesis using 1(1-3) Basic
      by (intro exI [of _ "Single r"] exI [of _ q1] exI [of _ F1]) (simp add: basic)
  next
    case (Try_Enqueue k x)
    then have k: "k \<in> K" "?n < 2 ^ 62" "bulk_fits (2 ^ 62) (?n + length [x]) ops" using assms(2,3) by simp_all
    then have "length (F k) < 2 ^ 62" using total [of k] by linarith
    then obtain ok q1 where 1: "cq_try_enqueue k x q = Inr (ok, q1)" "cq_holds K q1 (if ok then F(k := F k @ [x]) else F)"
      using inner_enqueue_run [OF assms(1) k(1), of Cannot_Alloc x] by (auto simp: cq_try_enqueue_def initial_hash_size_def)
    then show ?thesis using grown [OF k(3,1)] Try_Enqueue tried
      by (intro exI [of _ "Single (Stored ok)"] exI [of _ q1] exI [of _ "if ok then F(k := F k @ [x]) else F"])
        (simp del: fun_upd_apply)
  next
    case (Enqueue_Many k xs)
    then have k: "k \<in> K" "?n + length xs \<le> 2 ^ 62" "bulk_fits (2 ^ 62) (?n + length xs) ops" using assms(2,3) by simp_all
    then have "length (F k @ xs) \<le> 2 ^ 62" using total [of k] by simp
    then obtain q1 where 1: "cq_enqueue_bulk k xs q = Inr (True, q1)" "cq_holds K q1 (F(k := F k @ xs))"
      using inner_enqueue_bulk_run [OF assms(1) k(1), of xs Can_Alloc] by (auto simp: cq_enqueue_bulk_def initial_hash_size_def)
    then show ?thesis using grown [OF k(3,1), of True] Enqueue_Many put_many
      by (intro exI [of _ "Stored_All True"] exI [of _ q1] exI [of _ "F(k := F k @ xs)"]) (simp del: fun_upd_apply)
  next
    case (Try_Enqueue_Many k xs)
    then have k: "k \<in> K" "?n + length xs \<le> 2 ^ 62" "bulk_fits (2 ^ 62) (?n + length xs) ops" using assms(2,3) by simp_all
    then have "length (F k @ xs) \<le> 2 ^ 62" using total [of k] by simp
    then obtain ok q1 where 1: "cq_try_enqueue_bulk k xs q = Inr (ok, q1)" "cq_holds K q1 (if ok then F(k := F k @ xs) else F)"
      using inner_enqueue_bulk_run [OF assms(1) k(1), of xs Cannot_Alloc] by (auto simp: cq_try_enqueue_bulk_def initial_hash_size_def)
    then show ?thesis using grown [OF k(3,1)] Try_Enqueue_Many tried_many
      by (intro exI [of _ "Stored_All ok"] exI [of _ q1] exI [of _ "if ok then F(k := F k @ xs) else F"])
        (simp del: fun_upd_apply)
  next
    case (Dequeue_Many limit)
    then have fit: "?n \<le> 2 ^ 62" "bulk_fits (2 ^ 62) (?n - unat limit) ops" using assms(3) by simp_all
    then have "\<forall>k. length (F k) \<le> 2 ^ 62" using total by (meson le_trans)
    then obtain ys q1 F1 where 1: "try_dequeue_bulk limit q = Inr (ys, q1)" "lane_takes F ys F1" "cq_holds K q1 F1"
        "length ys \<le> unat limit" "length ys = unat limit \<or> (\<forall>k. F1 k = [])"
      using try_dequeue_bulk_run [OF assms(1)] by blast
    have "(\<Sum>k \<in> K. length (F1 k)) + length ys = ?n"
      by (rule lane_takes_total [OF 1(2) fin]) (rule cq_holds_outside(1) [OF assms(1)])
    moreover have "length ys \<noteq> unat limit \<longrightarrow> (\<Sum>k \<in> K. length (F1 k)) = 0" using 1(5) by auto
    ultimately have "(\<Sum>k \<in> K. length (F1 k)) \<le> ?n - unat limit" by (cases "length ys = unat limit") auto
    then have "bulk_fits (2 ^ 62) (\<Sum>k \<in> K. length (F1 k)) ops" by (rule bulk_fits_less [OF fit(2)])
    then show ?thesis using 1 Dequeue_Many took_many
      by (intro exI [of _ "Took_Many ys"] exI [of _ q1] exI [of _ F1]) simp
  qed
qed

lemma cq_bulk_run_lanes:
  "\<lbrakk>cq_holds K q F; bulk_threads ops \<subseteq> K; bulk_fits (2 ^ 62) (\<Sum>k \<in> K. length (F k)) (map as_bulk_op ops)\<rbrakk> \<Longrightarrow>
   \<exists>os q' F'. cq_bulk_run ops q = Inr (os, q') \<and> length os = length ops \<and> bulk_steps F (zip ops os) F' \<and> cq_holds K q' F'"
proof (induction ops arbitrary: q F)
  case Nil
  then show ?case by (auto intro: no_bulk)
next
  case (Cons p ops)
  have threads: "bulk_op_threads p \<subseteq> K" "bulk_threads ops \<subseteq> K" using Cons.prems(2) by (simp_all add: bulk_threads_def)
  obtain r q1 F1 where 1: "bulk_step F p r F1" "cq_holds K q1 F1"
      "cq_bulk_run (p # ops) q = bind_res (cq_bulk_run ops q1) (\<lambda>(os, q). Inr (r # os, q))"
      "bulk_fits (2 ^ 62) (\<Sum>k \<in> K. length (F1 k)) (map as_bulk_op ops)"
    using cq_bulk_op_lanes [OF Cons.prems(1) threads(1)] Cons.prems(3) unfolding list.map by blast
  obtain os q' F' where "cq_bulk_run ops q1 = Inr (os, q')" "length os = length ops" "bulk_steps F1 (zip ops os) F'" "cq_holds K q' F'"
    using Cons.IH [OF 1(2) threads(2) 1(4)] by blast
  then show ?case using 1(1,3) more_bulk
    by (intro exI [of _ "r # os"] exI [of _ q'] exI [of _ F']) auto
qed

section \<open>Properties\<close>

text \<open>C6: While memory lasts, whatever the threads put into a new queue and take from it, one by one or many in a
  call, one operation at a time: only the operations that may not allocate refuse elements, all of a call or none;
  what one thread puts comes out in its order, no element is lost or comes out twice, and a call that takes many
  takes as many as its limit allows unless it leaves the queue empty.
\<close>

theorem bulk_operations_keep_lanes:
  assumes "False \<notin> set ms" "bulk_fits (2 ^ 62) 0 (map as_bulk_op ops)" "card (bulk_threads ops) < 2 ^ 57"
    "invalid_thread \<notin> bulk_threads ops"
  shows "\<exists>os q F. cq_bulk_run ops (cq_new capacity ms junk) = Inr (os, q) \<and> length os = length ops
    \<and> bulk_steps (\<lambda>_. []) (zip ops os) F \<and> cq_holds (bulk_threads ops) q F"
proof -
  have "cq_holds (bulk_threads ops) (cq_new capacity ms junk) (\<lambda>_. [])"
    using cq_new_holds assms(1,3,4) bulk_threads_finite by blast
  then show ?thesis using cq_bulk_run_lanes [OF _ subset_refl] assms(2) by simp
qed

theorem bulk_operations_keep_lanes_witness:
  "\<exists>os q F. cq_bulk_run [Enqueue_Many 7 [1, 2, 3], Try_Enqueue 9 4, Basic Dequeue, Dequeue_Many 5] (cq_new default_capacity [True, True] None) = Inr (os, q)
    \<and> bulk_steps (\<lambda>_. []) (zip [Enqueue_Many 7 [1, 2, 3], Try_Enqueue 9 4, Basic Dequeue, Dequeue_Many 5] os) F"
  using bulk_operations_keep_lanes [of "[True, True]" "[Enqueue_Many 7 [1, 2, 3], Try_Enqueue 9 4, Basic Dequeue, Dequeue_Many 5]"
      default_capacity None]
  by (simp add: invalid_thread_def bulk_threads_def) blast

end
