(* ===== verification/Spec2Isabelle.thy ===== *)
theory Spec2Isabelle
  imports Chord_Hops Tinycoin_Net Config Hashpower Miner_Chooser Statistics Graph_HWM Selfish Tinycoin_Miner
    Simulation Queue_Bits Queue_Scheduler Queue_Pool Queue_Destroy Queue_Race Concurrent_Bulk
begin

text \<open>
  A simulator of distributed systems. Nodes exchange messages through a hardware manager, which keeps the
  nodes, decides whether a message gets through, and lets a few worker threads handle what has arrived. On
  top of it stand two protocols, Chord routing and a toy cryptocurrency with honest and selfish miners, and
  the programs that measure them. The threads share one lock-free queue of node ids.

  The parts, the files under \<open>src/\<close> and the theories:

  \<^item> \<open>include/rng.hpp\<close>: theory \<open>Rng\<close>. The generator's two words are the record \<open>xoroshiro\<close>; \<open>rng_next\<close>,
    \<open>rng_range\<close>, \<open>get_distinct\<close> and \<open>choose_weighted\<close> return the value drawn and the new state.
  \<^item> \<open>include/cuckoo.hpp\<close>: \<open>Cuckoo\<close>. The class at its one instance; \<open>table_inv\<close> is its invariant and the
    locale \<open>key_set\<close> the contract the graph's manager uses it by.
  \<^item> \<open>include/message.hpp\<close>, \<open>include/node.hpp\<close>: \<open>Node_Queue\<close>. A node is a queue of messages without delay and a
    heap of delayed ones; \<open>enqueue\<close> and \<open>take_message\<close> are its operations.
  \<^item> \<open>std::map\<close> as the manager uses it, \<open>include/common.hpp\<close>: \<open>Ordered_Map\<close>, \<open>Vec\<close>.
  \<^item> \<open>include/hardware_manager.hpp\<close>: \<open>Hardware_Manager\<close> has the manager's record and the operations that run
    in one thread (\<open>send_message\<close>, \<open>gen_message\<close>, \<open>add_node\<close>, \<open>fail\<close>, the look-ups, the handling of one id);
    \<open>Node_Code\<close> cuts the code of a node into steps, three of them for each \<open>send_message\<close>, and shows that
    the steps of a thread alone are the code run in one go;
    \<open>Scheduler\<close> has \<open>run\<close>, \<open>pause\<close>, \<open>resume\<close>, \<open>stop\<close>, and the bodies of \<open>add_node\<close>, \<open>fail\<close> and \<open>gen_message\<close>,
    as interleaved steps of workers and main thread, down to the steps of the nodes' code.
    Virtual methods and handlers of nodes are arguments of all three.
  \<^item> \<open>include/graph_hwm.hpp\<close>, \<open>include/graph_gen.hpp\<close>: \<open>Graph_HWM\<close>, a manager whose links are the edges of a
    graph, and \<open>Graph_Gen\<close>, the random graphs; \<open>Doubles\<close> has the rounding of \<open>double\<close> that they depend on.
  \<^item> \<open>protocols/chord.hpp\<close>, \<open>examples/chord_hop_distribution.cpp\<close>: \<open>Chord\<close> and \<open>Chord_Hops\<close>, where the
    same methods are given in steps too.
  \<^item> \<open>protocols/tinycoin.hpp\<close>, \<open>examples/tinycoin/selfish.hpp\<close>: \<open>Tinycoin_Node\<close> (data, blockchain and
    balance of one node), \<open>Tinycoin_Chain\<close> (what the blockchain is), \<open>Tinycoin_Miner\<close>, \<open>Selfish\<close> (the
    coordinator under its lock) and \<open>Tinycoin_Net\<close> (the methods as they act on the whole network).
  \<^item> \<open>include/config.hpp\<close> and the rest of \<open>examples/tinycoin\<close>: \<open>Config\<close>, \<open>Hashpower\<close>, \<open>Miner_Chooser\<close>,
    \<open>Statistics\<close>, and \<open>Simulation\<close>, which composes them as \<open>main\<close> does; \<open>examples/graph_gen.cpp\<close> is there too.
  \<^item> \<open>include/concurrentqueue.hpp\<close>, the queue between the threads: \<open>Queue_Bits\<close> (arithmetic), \<open>Queue_Block\<close>
    (one block), \<open>Free_List\<close> (the lock-free list of blocks, one access per step), \<open>Queue_Index\<close> (the pool and
    the block index), \<open>Queue_Pool\<close> (the free list between calls is that of the pool), \<open>Queue_Producer\<close> (the
    sub-queue of one thread), \<open>Queue_Bulk\<close> (its operations on many elements), \<open>Queue_Race\<close> (many threads in it at once), \<open>Queue_Hash\<close> (threads to producers), \<open>Concurrent_Queue\<close> (the whole queue),
    \<open>Concurrent_Bulk\<close> (its operations on many elements and those that may not allocate),
    \<open>Queue_Destroy\<close> (its end) and \<open>Queue_Scheduler\<close> (the queue implements the list of the scheduler).
  \<^item> \<open>Sim_Prelude\<close> has the types, errors and sequencing that all share; \<open>Queue_Interface\<close> the contracts
    \<open>fifo_queue\<close>, \<open>bulk_queue\<close> and \<open>bag_queue\<close>, interpreted on a producer and on the whole queue.

  How the parts interact. A handler of a node calls \<open>send_message\<close>, which enqueues the message at the
  receiver and then puts the receiver's id into the queue; a worker takes an id from the queue and handles up to
  129 messages of that node. \<open>net_inv\<close> says that a node with a message has a token: its id in the queue, or
  a thread that works on the node or is between the two lines of \<open>send_message\<close>. It is kept by every operation of
  the manager, by the handlers of both protocols run in one go, and by every step of the scheduler while no node is
  taken out, so no message is forgotten; what happens when one is taken out is a theorem too (\<open>fail_leaves_dangling\<close>). Chord
  nodes are an instance of the scheduler's contract (\<open>node_program\<close>). The scheduler takes ids from any position of its list:
  the lock-free queue does so too, since only the elements of one thread keep their order.

  What the groups of lemmas show. For data structures: an invariant, that every operation keeps it, and what
  the operation does to the abstract value (a set of keys, an ordered map, a list, a bag, lanes of threads).
  For the free list: an invariant of all interleavings, counting for each block where it is and who refers to
  it. For the threads in a sub-queue: each draws a ticket; the tickets that were granted are never more than the elements put, so
  that every thread that takes an index finds its element there, and the last of the 32 threads that take from a block gives it back. For protocols: what one handler does to the node and the network, and what follows: a Chord message
  gets to the node that is responsible for its key, blocks in any order end as the same chain. For
  programs: what the set-up builds and what the statistics report. Several theorems state what the code does where it fails.

  Fuel and bounds. Loops that recur over data are structural or have a measure. Fuel is used where the code's
  own bound is elsewhere, and enough of it is part of the theorem: climbing a blockchain takes at most as
  many steps as it has blocks; waiting blocks are released at most once, so one round for each possible id is enough;
  a cuckoo table is enlarged at most 33 times before its index leaves \<open>int\<close>; a search in a hash table visits at most each
  position once; the capacity of the table of threads doubles at most 64 times, and a thread alone in the queue passes
  its loop of registration once; the elements of a producer are as many as its counters say. The adjustment of
  mining powers may not end in the code: its theorem is about runs that return, and its
  fuel is the number of rounds. Counters of the queue are 64-bit words that may wrap around; its theorems hold
  for up to \<open>2 ^ 62\<close> elements and \<open>2 ^ 57\<close> threads at a time, and for any number of elements over time.

  Representation. Machine integers are words of their width. Amounts, powers and probabilities of type double are exact
  real numbers; the square root that decodes the number of an edge, and the products that give the numbers of
  miners, are rounded as those of doubles are. (The square root decodes the edges of up to \<open>2 ^ 25\<close> nodes, the bound of the theorems
  on the generator, and not those of more.) A thrown exception, an access out of range or undefined behaviour is a value \<open>Inl\<close>; assertions
  are no branches. Allocation fails as a list of flags says. Pointers are positions in lists. The seed of the thread's
  generator is a state that is passed along. Times are integers.

  In \<open>Queue_Race\<close> the search in the block index and the giving back of a block are one step each, and a block that comes
  back from the free list is a new one; they are modelled in \<open>Queue_Index\<close> and \<open>Free_List\<close> for themselves.

  Not modelled. The methods of the cryptocurrency's nodes in steps (they run in one go). Printing and sleeping, the thread that prints the state of the simulation, and the main thread's
  waiting for the end. Memory orders weaker than sequential consistency. Interleavings inside the lock-free
  queue other than those of its free list and of enqueue and dequeue in one sub-queue: the block index, the table of threads and the
  list of producers are read as used by one thread at a time, and so are the parts put together. Tokens,
  explicit producers, moving and swapping of queues: the program uses none of them. The notification of
  threads that end, which the program is built without. \<open>include/mem_wrap.hpp\<close>, which only replaces the allocator, and the
  shell script that writes configuration files.
\<close>

end
